(* ===== verification/Prelude.thy ===== *)
theory Prelude
  imports Main "HOL-Library.Word" "HOL-Library.Monad_Syntax" "HOL-Library.Signed_Division"
    "HOL-Library.AList"
begin

text \<open>
  What every component of the development shares: the widths of Go's machine integers, run-time
  panics as \<^theory_text>\<open>None\<close>, slices and big-endian reads with Go's bounds checks, Go maps
  as association lists with distinct keys, decimal and hexadecimal formatting, and the text form
  of an address (the standard library's \<^verbatim>\<open>net.IP.String\<close>).
\<close>

section \<open>Collections of facts\<close>

named_theorems no_panic \<open>operations whose bounds checks all succeed\<close>
named_theorems gomap \<open>lookups in, and keys of, updated Go maps\<close>
named_theorems i64_simps \<open>64-bit arithmetic that does not wrap\<close>

section \<open>Machine integers\<close>

type_synonym u8 = "8 word"
type_synonym u16 = "16 word"
type_synonym u32 = "32 word"
type_synonym u64 = "64 word"
type_synonym bytes = "u8 list"

text \<open>
  Go's \<^verbatim>\<open>int64\<close> is an \<^typ>\<open>int\<close> with the wrap-around written out where an operation can
  overflow: \<^verbatim>\<open>i64\<close> reads the low 64 bits as two's complement. Division truncates, as
  \<open>sdiv\<close> of the library does.
\<close>

definition i64 :: "int \<Rightarrow> int" where
  "i64 x = signed_take_bit 63 x"

lemma i64_id [i64_simps]: "- (2 ^ 63) \<le> x \<Longrightarrow> x < 2 ^ 63 \<Longrightarrow> i64 x = x"
  unfolding i64_def by (simp add: signed_take_bit_int_eq_self)

lemma i64_int: "int n < 2 ^ 63 \<Longrightarrow> i64 (int n) = int n"
  by (rule i64_id) simp_all

lemma i64_range: "- (2 ^ 63) \<le> i64 x \<and> i64 x < 2 ^ 63"
proof -
  have "- (2 ^ 63) \<le> signed_take_bit 63 x" and "signed_take_bit 63 x < 2 ^ 63"
    by (rule signed_take_bit_int_greater_eq_minus_exp, rule signed_take_bit_int_less_exp)
  then show ?thesis by (simp add: i64_def)
qed

lemma sint_u64_of_nat:
  assumes "n < 2 ^ 63"
  shows "sint (word_of_nat n :: u64) = int n"
proof -
  have "int n < 2 ^ 63" using assms by (metis of_nat_less_iff of_nat_numeral of_nat_power)
  then show ?thesis by (simp add: signed_of_nat signed_take_bit_int_eq_self)
qed

lemma unat_u8_less [simp]: "unat (b :: u8) < 256"
  using unsigned_less [of b] by simp

lemma unat_u16_less [simp]: "unat (b :: u16) < 65536"
  using unsigned_less [of b] by simp

lemma unat_u32_less [simp]: "unat (b :: u32) < 4294967296"
  using unsigned_less [of b] by simp

lemma unat_u64_less [simp]: "unat (b :: u64) < 18446744073709551616"
  using unsigned_less [of b] by simp

lemma unat_u16_pos_iff: "0 < unat (w :: u16) \<longleftrightarrow> w \<noteq> 0"
  by (simp add: word_neq_0_conv unat_gt_0)

section \<open>Panics, indexing and slicing\<close>

text \<open>
  A value of type \<open>'a option\<close> is the outcome of code that can panic: \<^term>\<open>None\<close> is a
  run-time panic (an index or gslice out of range), \<^term>\<open>Some x\<close> a normal return.
\<close>

definition idx :: "'a list \<Rightarrow> nat \<Rightarrow> 'a option" where
  "idx xs i = (if i < length xs then Some (xs ! i) else None)"

definition gslice :: "'a list \<Rightarrow> nat \<Rightarrow> nat \<Rightarrow> 'a list option" where
  "gslice xs a b = (if a \<le> b \<and> b \<le> length xs then Some (take (b - a) (drop a xs)) else None)"

lemma idx_Some [no_panic]: "i < length xs \<Longrightarrow> idx xs i = Some (xs ! i)"
  by (simp add: idx_def)

lemma gslice_Some [no_panic]:
  "a \<le> b \<Longrightarrow> b \<le> length xs \<Longrightarrow> gslice xs a b = Some (take (b - a) (drop a xs))"
  by (simp add: gslice_def)

lemma gslice_length: "gslice xs a b = Some ys \<Longrightarrow> length ys = b - a"
  by (auto simp: gslice_def split: if_splits)

lemma gslice_from_0: "n \<le> length xs \<Longrightarrow> gslice xs 0 n = Some (take n xs)"
  by (simp add: gslice_def)

section \<open>Big-endian fields\<close>

text \<open>
  \<^verbatim>\<open>binary.BigEndian.Uint16\<close> and its siblings read the first bytes of a gslice and panic on a
  shorter one.
\<close>

definition join16 :: "u8 \<Rightarrow> u8 \<Rightarrow> u16" where
  "join16 a b = word_of_nat (unat a * 256 + unat b)"

definition join32 :: "u16 \<Rightarrow> u16 \<Rightarrow> u32" where
  "join32 a b = word_of_nat (unat a * 65536 + unat b)"

definition join64 :: "u32 \<Rightarrow> u32 \<Rightarrow> u64" where
  "join64 a b = word_of_nat (unat a * 4294967296 + unat b)"

fun be16 :: "bytes \<Rightarrow> u16 option" where
  "be16 (a # b # _) = Some (join16 a b)"
| "be16 _ = None"

fun be32 :: "bytes \<Rightarrow> u32 option" where
  "be32 (a # b # c # d # _) = Some (join32 (join16 a b) (join16 c d))"
| "be32 _ = None"

fun be64 :: "bytes \<Rightarrow> u64 option" where
  "be64 (a # b # c # d # e # f # g # h # _) =
     Some (join64 (join32 (join16 a b) (join16 c d)) (join32 (join16 e f) (join16 g h)))"
| "be64 _ = None"

lemma unat_join16: "unat (join16 a b) = unat a * 256 + unat b"
proof -
  have "unat a * 256 + unat b < 65536"
    using unat_u8_less [of a] unat_u8_less [of b] by linarith
  then show ?thesis
    unfolding join16_def by (subst unat_of_nat) (simp only: len_num1 len_bit0 take_bit_nat_eq_self_iff, simp)
qed

lemma unat_join32: "unat (join32 a b) = unat a * 65536 + unat b"
proof -
  have "unat a * 65536 + unat b < 4294967296"
    using unat_u16_less [of a] unat_u16_less [of b] by linarith
  then show ?thesis
    unfolding join32_def by (subst unat_of_nat) (simp only: len_num1 len_bit0 take_bit_nat_eq_self_iff, simp)
qed

lemma be16_Some [no_panic]: "2 \<le> length xs \<Longrightarrow> \<exists>v. be16 xs = Some v"
  by (cases xs rule: be16.cases) auto

lemma be32_Some [no_panic]: "4 \<le> length xs \<Longrightarrow> \<exists>v. be32 xs = Some v"
  by (cases xs rule: be32.cases) auto

lemma be64_Some [no_panic]: "8 \<le> length xs \<Longrightarrow> \<exists>v. be64 xs = Some v"
  by (cases xs rule: be64.cases) auto

text \<open>The value of a read that is known to succeed, and reads at an offset.\<close>

definition be16_at :: "bytes \<Rightarrow> nat \<Rightarrow> u16 option" where
  "be16_at xs i = do { s \<leftarrow> gslice xs i (i + 2); be16 s }"

definition be32_at :: "bytes \<Rightarrow> nat \<Rightarrow> u32 option" where
  "be32_at xs i = do { s \<leftarrow> gslice xs i (i + 4); be32 s }"

lemma be16_at_Some [no_panic]: "i + 2 \<le> length xs \<Longrightarrow> \<exists>v. be16_at xs i = Some v"
  by (simp add: be16_at_def gslice_Some be16_Some)

lemma be32_at_Some [no_panic]: "i + 4 \<le> length xs \<Longrightarrow> \<exists>v. be32_at xs i = Some v"
  by (simp add: be32_at_def gslice_Some be32_Some)

text \<open>A read inside a slice is a read in the whole.\<close>

lemma gslice_take_drop:
  assumes "b \<le> n" and "pos + n \<le> length xs" and "a \<le> b"
  shows "gslice (take n (drop pos xs)) a b = gslice xs (pos + a) (pos + b)"
proof -
  have "take (b - a) (drop a (take n (drop pos xs))) = take (b - a) (drop (pos + a) xs)"
    using assms by (simp add: drop_take min_def add.commute)
  then show ?thesis using assms by (simp add: gslice_def)
qed

lemma be16_at_take_drop:
  "i + 2 \<le> n \<Longrightarrow> pos + n \<le> length xs \<Longrightarrow> be16_at (take n (drop pos xs)) i = be16_at xs (pos + i)"
  using gslice_take_drop [of "i + 2" n pos xs i] by (simp add: be16_at_def add.assoc)

text \<open>The encoders a peer uses, for the round trips.\<close>

definition put16 :: "u16 \<Rightarrow> bytes" where
  "put16 w = [word_of_nat (unat w div 256), word_of_nat (unat w mod 256)]"

lemma length_put16 [simp]: "length (put16 w) = 2"
  by (simp add: put16_def)

lemma be16_put16 [simp]: "be16 (put16 w @ xs) = Some w"
proof -
  have "unat w div 256 < 256" using unat_u16_less [of w] by linarith
  then have "join16 (word_of_nat (unat w div 256)) (word_of_nat (unat w mod 256))
      = word_of_nat (unat w div 256 * 256 + unat w mod 256)"
    by (simp add: join16_def unat_of_nat take_bit_nat_eq_self_iff)
  then show ?thesis by (simp add: put16_def)
qed

lemma be16_at_put16:
  assumes "drop pos data = put16 w @ xs"
  shows "be16_at data pos = Some w" and "drop (pos + 2) data = xs" and "pos + 2 \<le> length data"
proof -
  have "length (drop pos data) = 2 + length xs" using assms by simp
  then show len: "pos + 2 \<le> length data" by simp
  have "be16 (put16 w @ []) = Some w" by (rule be16_put16)
  then show "be16_at data pos = Some w"
    using assms len by (simp add: be16_at_def gslice_def)
  have "drop (pos + 2) data = drop 2 (drop pos data)" by (simp only: drop_drop add.commute)
  also have "\<dots> = xs" by (simp only: assms) simp
  finally show "drop (pos + 2) data = xs" .
qed

lemma be16_at_put16_put16:
  assumes "drop pos data = put16 v @ put16 w @ xs"
  shows "be16_at data pos = Some v" and "be16_at data (pos + 2) = Some w"
    and "drop (pos + 4) data = xs" and "pos + 4 \<le> length data"
proof -
  note a = be16_at_put16 [OF assms]
  note b = be16_at_put16 [OF a(2)]
  have "pos + 2 + 2 = pos + 4" by simp
  then show "drop (pos + 4) data = xs" and "pos + 4 \<le> length data" using b by metis+
  show "be16_at data pos = Some v" and "be16_at data (pos + 2) = Some w" by (rule a(1), rule b(1))
qed

lemma be16_at_put16_0 [simp]: "be16_at (put16 v @ xs) 0 = Some v"
  by (rule be16_at_put16(1)) simp

lemma be16_at_put16_2 [simp]: "be16_at (put16 v @ put16 w @ xs) 2 = Some w"
  using be16_at_put16_put16(2) [of 0 "put16 v @ put16 w @ xs" v w xs]
  by (simp only: drop_0 add_0)

definition put32 :: "u32 \<Rightarrow> bytes" where
  "put32 w = put16 (word_of_nat (unat w div 65536)) @ put16 (word_of_nat (unat w mod 65536))"

lemma length_put32 [simp]: "length (put32 w) = 4"
  by (simp add: put32_def)

lemma put16_nonempty [simp]: "put16 w \<noteq> []" and put32_nonempty [simp]: "put32 z \<noteq> []"
  by (simp_all add: put16_def put32_def)

lemma be32_put16_put16: "be32 (put16 a @ put16 b @ xs) = Some (join32 a b)"
  using be16_put16 [of a "[]"] be16_put16 [of b "[]"] by (simp add: put16_def)

lemma be16_put32 [simp]: "be16 (put32 w @ xs) = Some (word_of_nat (unat w div 65536))"
  by (simp add: put32_def)

lemma be32_put32 [simp]: "be32 (put32 w @ xs) = Some w"
proof -
  have "unat w div 65536 < 65536" using unat_u32_less [of w] by linarith
  then have "join32 (word_of_nat (unat w div 65536)) (word_of_nat (unat w mod 65536))
      = word_of_nat (unat w div 65536 * 65536 + unat w mod 65536)"
    by (simp add: join32_def unat_of_nat take_bit_nat_eq_self_iff)
  then show ?thesis by (simp add: put32_def be32_put16_put16)
qed

section \<open>Go maps\<close>

text \<open>
  A Go map is an association list whose keys are distinct (\<^verbatim>\<open>mkeys_ok\<close>); the order of the
  list stands for the order, unspecified in Go, in which \<^verbatim>\<open>range\<close> visits the map.
\<close>

type_synonym ('k, 'v) gomap = "('k \<times> 'v) list"

definition mget :: "('k, 'v) gomap \<Rightarrow> 'k \<Rightarrow> 'v option" where
  "mget m k = map_of m k"

definition mput :: "'k \<Rightarrow> 'v \<Rightarrow> ('k, 'v) gomap \<Rightarrow> ('k, 'v) gomap" where
  "mput k v m = AList.update k v m"

definition mdel :: "'k \<Rightarrow> ('k, 'v) gomap \<Rightarrow> ('k, 'v) gomap" where
  "mdel k m = AList.delete k m"

definition mkeys :: "('k, 'v) gomap \<Rightarrow> 'k set" where
  "mkeys m = fst ` set m"

definition mkeys_ok :: "('k, 'v) gomap \<Rightarrow> bool" where
  "mkeys_ok m = distinct (map fst m)"

lemma mget_empty [gomap, simp]: "mget [] k = None"
  by (simp add: mget_def)

lemma mget_Cons: "mget ((k', v) # m) k = (if k = k' then Some v else mget m k)"
  by (simp add: mget_def)

lemma mget_mput [gomap, simp]: "mget (mput k v m) k' = (if k' = k then Some v else mget m k')"
  by (simp add: mget_def mput_def update_conv')

lemma mget_mdel [gomap, simp]: "mget (mdel k m) k' = (if k' = k then None else mget m k')"
  by (simp add: mget_def mdel_def delete_conv')

lemma mget_None_iff: "mget m k = None \<longleftrightarrow> k \<notin> mkeys m"
  by (simp add: mget_def mkeys_def map_of_eq_None_iff)

lemma mget_Some_key: "mget m k = Some v \<Longrightarrow> k \<in> mkeys m"
  using mget_None_iff [of m k] by auto

lemma mkeys_iff: "k \<in> mkeys m \<longleftrightarrow> (\<exists>v. mget m k = Some v)"
  using mget_None_iff [of m k] by auto

lemma mkeys_empty [gomap, simp]: "mkeys [] = {}"
  by (simp add: mkeys_def)

lemma mkeys_mput [gomap, simp]: "mkeys (mput k v m) = insert k (mkeys m)"
  by (simp add: mkeys_def mput_def dom_update)

lemma mkeys_mdel [gomap, simp]: "mkeys (mdel k m) = mkeys m - {k}"
  by (auto simp: mkeys_iff split: if_splits)

lemma mkeys_ok_empty [gomap, simp]: "mkeys_ok []"
  by (simp add: mkeys_ok_def)

lemma mkeys_ok_mput [gomap, simp]: "mkeys_ok m \<Longrightarrow> mkeys_ok (mput k v m)"
  by (simp add: mkeys_ok_def mput_def distinct_update)

lemma mkeys_ok_mdel [gomap, simp]: "mkeys_ok m \<Longrightarrow> mkeys_ok (mdel k m)"
  by (simp add: mkeys_ok_def mdel_def distinct_delete)

lemma length_card_mkeys: "mkeys_ok m \<Longrightarrow> length m = card (mkeys m)"
  unfolding mkeys_ok_def mkeys_def by (metis distinct_card length_map list.set_map)

lemma length_mput_le: "length (mput k v m) \<le> Suc (length m)"
  unfolding mput_def by (induction m) (auto split: prod.splits)

lemma length_mput [gomap]:
  assumes "mkeys_ok m"
  shows "length (mput k v m) = (if k \<in> mkeys m then length m else Suc (length m))"
proof -
  have "finite (mkeys m)" by (simp add: mkeys_def)
  with assms show ?thesis
    by (simp add: length_card_mkeys [OF mkeys_ok_mput [OF assms]] length_card_mkeys [OF assms]
        card_insert_if)
qed

lemma length_mdel [gomap]:
  assumes "mkeys_ok m"
  shows "length (mdel k m) = (if k \<in> mkeys m then length m - 1 else length m)"
proof -
  have "finite (mkeys m)" by (simp add: mkeys_def)
  with assms show ?thesis
    by (simp add: length_card_mkeys [OF mkeys_ok_mdel [OF assms]] length_card_mkeys [OF assms])
qed

lemma length_mdel_le: "length (mdel k m) \<le> length m"
  by (simp add: mdel_def length_delete_le)

end
