(* ===== verification/GoText.thy ===== *)
theory GoText
  imports Prelude "HOL-Library.Sublist" "HOL-Library.Char_ord" "HOL-Library.List_Lexorder"
begin

text \<open>
  What the program uses of Go's text packages, on strings as lists of bytes: \<^verbatim>\<open>%d\<close> and
  \<^verbatim>\<open>%x\<close> formatting, \<^verbatim>\<open>net.IP.String\<close>, and the functions of \<^verbatim>\<open>strings\<close> (case mapping
  and space trimming on ASCII text). The lemmas of the theory are what makes keys built with
  \<^verbatim>\<open>Sprintf\<close> unambiguous: decimal numerals are injective and hold digits only.
\<close>

section \<open>Decimal numerals\<close>

definition digit_char :: "nat \<Rightarrow> char" where
  "digit_char d = char_of (48 + d)"

fun dec :: "nat \<Rightarrow> string" where
  "dec n = (if n < 10 then [digit_char n] else dec (n div 10) @ [digit_char (n mod 10)])"

declare dec.simps [simp del]

definition dec_int :: "int \<Rightarrow> string" where
  "dec_int i = (if i < 0 then CHR ''-'' # dec (nat (- i)) else dec (nat i))"

definition is_digit :: "char \<Rightarrow> bool" where
  "is_digit c \<longleftrightarrow> 48 \<le> (of_char c :: nat) \<and> (of_char c :: nat) \<le> 57"

definition digit_val :: "char \<Rightarrow> nat" where
  "digit_val c = of_char c - 48"

definition undec :: "string \<Rightarrow> nat" where
  "undec s = foldl (\<lambda>n c. 10 * n + digit_val c) 0 s"

lemma digit_val_char [simp]: "d < 10 \<Longrightarrow> digit_val (digit_char d) = d"
  by (simp add: digit_val_def digit_char_def)

lemma is_digit_char [simp]: "d < 10 \<Longrightarrow> is_digit (digit_char d)"
  by (simp add: is_digit_def digit_char_def)

lemma dec_nonempty [simp]: "dec n \<noteq> []"
  by (subst dec.simps) simp

lemma undec_dec [simp]: "undec (dec n) = n"
proof (induction n rule: dec.induct)
  case (1 n)
  show ?case
  proof (cases "n < 10")
    case True
    then show ?thesis by (subst dec.simps) (simp add: undec_def)
  next
    case False
    with 1 have "undec (dec (n div 10)) = n div 10" by simp
    with False show ?thesis by (subst dec.simps) (simp add: undec_def)
  qed
qed

lemma dec_inject [simp]: "dec m = dec n \<longleftrightarrow> m = n"
  by (metis undec_dec)

lemma dec_digits: "c \<in> set (dec n) \<Longrightarrow> is_digit c"
proof (induction n rule: dec.induct)
  case (1 n)
  then show ?case
    by (cases "n < 10") (auto simp: dec.simps [of n])
qed

text \<open>Two texts of digits, each followed by the same separator, split in one way only.\<close>

lemma append_sep_inject:
  assumes "c \<notin> set xs" and "c \<notin> set ys"
  shows "xs @ c # us = ys @ c # vs \<longleftrightarrow> xs = ys \<and> us = vs"
  using assms
proof (induction xs arbitrary: ys)
  case Nil
  then show ?case by (cases ys) auto
next
  case (Cons x xs)
  then show ?case by (cases ys) auto
qed

lemma not_digit_slash [simp]: "\<not> is_digit (CHR ''/'')"
  by (simp add: is_digit_def)

lemma slash_notin_dec [simp]: "CHR ''/'' \<notin> set (dec n)"
  using dec_digits not_digit_slash by blast

section \<open>Hexadecimal groups\<close>

definition hex_char :: "nat \<Rightarrow> char" where
  "hex_char d = (if d < 10 then char_of (48 + d) else char_of (87 + d))"

fun hex :: "nat \<Rightarrow> string" where
  "hex n = (if n < 16 then [hex_char n] else hex (n div 16) @ [hex_char (n mod 16)])"

declare hex.simps [simp del]

section \<open>The text form of an address\<close>

fun join_with :: "string \<Rightarrow> string list \<Rightarrow> string" where
  "join_with sep [] = []"
| "join_with sep [x] = x"
| "join_with sep (x # y # ys) = x @ sep @ join_with sep (y # ys)"

definition ip4_string :: "bytes \<Rightarrow> string" where
  "ip4_string b = join_with ''.'' (map (\<lambda>x. dec (unat x)) b)"

fun groups16 :: "bytes \<Rightarrow> nat list" where
  "groups16 (a # b # r) = (unat a * 256 + unat b) # groups16 r"
| "groups16 _ = []"

definition zero_run :: "nat list \<Rightarrow> nat \<Rightarrow> nat" where
  "zero_run g i = length (takeWhile (\<lambda>x. x = 0) (drop i g))"

text \<open>The first longest run of at least two zero groups, as start and length.\<close>

definition best_run :: "nat list \<Rightarrow> nat \<times> nat" where
  "best_run g = fold (\<lambda>i (s, l). let r = zero_run g i in if 2 \<le> r \<and> l < r then (i, r) else (s, l))
     [0..<length g] (0, 0)"

definition ip6_string :: "bytes \<Rightarrow> string" where
  "ip6_string b =
     (let g = groups16 b; (s, l) = best_run g;
          h = (\<lambda>gs. join_with '':'' (map hex gs))
      in if l = 0 then h g else h (take s g) @ ''::'' @ h (drop (s + l) g))"

definition is_mapped4 :: "bytes \<Rightarrow> bool" where
  "is_mapped4 b \<longleftrightarrow> take 12 b = replicate 10 0 @ [255, 255]"

definition hex_byte :: "u8 \<Rightarrow> string" where
  "hex_byte b = [hex_char (unat b div 16), hex_char (unat b mod 16)]"

definition ip_string :: "bytes \<Rightarrow> string" where
  "ip_string b =
     (if b = [] then ''<nil>''
      else if length b = 4 then ip4_string b
      else if length b = 16 then
        (if is_mapped4 b then ip4_string (drop 12 b) else ip6_string b)
      else ''?'' @ concat (map hex_byte b))"

lemma hex_nonempty [simp]: "hex n \<noteq> []"
  by (subst hex.simps) simp

lemma join_with_eq_Nil: "join_with sep xs = [] \<Longrightarrow> \<forall>x \<in> set xs. x = []"
  by (induction sep xs rule: join_with.induct) auto

lemma ip4_string_nonempty: "b \<noteq> [] \<Longrightarrow> ip4_string b \<noteq> []"
  unfolding ip4_string_def using join_with_eq_Nil [of "''.''" "map (\<lambda>x. dec (unat x)) b"]
  by (cases b) auto

lemma groups16_Nil_iff: "groups16 b = [] \<longleftrightarrow> length b < 2"
  by (cases b rule: groups16.cases) auto

lemma ip6_string_nonempty: "2 \<le> length b \<Longrightarrow> ip6_string b \<noteq> []"
  unfolding ip6_string_def
  using join_with_eq_Nil [of "'':''" "map hex (groups16 b)"] groups16_Nil_iff [of b]
  by (cases "groups16 b") (auto simp: Let_def split: prod.splits)

text \<open>The text of an address is never the empty string.\<close>

lemma ip_string_nonempty [simp]: "ip_string b \<noteq> []"
  using ip4_string_nonempty [of b] ip4_string_nonempty [of "drop 12 b"] ip6_string_nonempty [of b]
  by (auto simp: ip_string_def)

text \<open>Different IPv4 addresses have different texts.\<close>

lemma not_digit_dot [simp]: "\<not> is_digit (CHR ''.'')"
  by (simp add: is_digit_def)

lemma dot_notin_dec [simp]: "CHR ''.'' \<notin> set (dec n)"
  using dec_digits not_digit_dot by blast

lemma ip4_string_inject:
  assumes "length a = 4" and "length b = 4"
  shows "ip4_string a = ip4_string b \<longleftrightarrow> a = b"
proof -
  obtain a0 a1 a2 a3 where a: "a = [a0, a1, a2, a3]"
    using assms(1) by (auto simp: length_Suc_conv numeral_eq_Suc)
  obtain b0 b1 b2 b3 where b: "b = [b0, b1, b2, b3]"
    using assms(2) by (auto simp: length_Suc_conv numeral_eq_Suc)
  show ?thesis
    by (auto simp: a b ip4_string_def append_sep_inject word_unat_eq_iff)
qed

section \<open>The strings package\<close>

definition to_lower_char :: "char \<Rightarrow> char" where
  "to_lower_char c =
     (let n = (of_char c :: nat) in if 65 \<le> n \<and> n \<le> 90 then char_of (n + 32) else c)"

definition to_upper_char :: "char \<Rightarrow> char" where
  "to_upper_char c =
     (let n = (of_char c :: nat) in if 97 \<le> n \<and> n \<le> 122 then char_of (n - 32) else c)"

definition to_lower :: "string \<Rightarrow> string" where
  "to_lower s = map to_lower_char s"

definition to_upper :: "string \<Rightarrow> string" where
  "to_upper s = map to_upper_char s"

definition is_space :: "char \<Rightarrow> bool" where
  "is_space c \<longleftrightarrow> (let n = (of_char c :: nat) in n = 32 \<or> (9 \<le> n \<and> n \<le> 13))"

definition trim_space :: "string \<Rightarrow> string" where
  "trim_space s = rev (dropWhile is_space (rev (dropWhile is_space s)))"

definition has_prefix :: "string \<Rightarrow> string \<Rightarrow> bool" where
  "has_prefix s p \<longleftrightarrow> take (length p) s = p"

definition trim_prefix :: "string \<Rightarrow> string \<Rightarrow> string" where
  "trim_prefix s p = (if has_prefix s p then drop (length p) s else s)"

definition has_suffix :: "string \<Rightarrow> string \<Rightarrow> bool" where
  "has_suffix s p \<longleftrightarrow> has_prefix (rev s) (rev p)"

definition trim_suffix :: "string \<Rightarrow> string \<Rightarrow> string" where
  "trim_suffix s p = (if has_suffix s p then take (length s - length p) s else s)"

fun contains :: "string \<Rightarrow> string \<Rightarrow> bool" where
  "contains [] p \<longleftrightarrow> p = []"
| "contains (c # s) p \<longleftrightarrow> has_prefix (c # s) p \<or> contains s p"

lemma to_lower_idem [simp]: "to_lower (to_lower s) = to_lower s"
  by (simp add: to_lower_def to_lower_char_def Let_def comp_def)

text \<open>\<^verbatim>\<open>strings.Split\<close> for a one-byte separator.\<close>

fun split_on :: "char \<Rightarrow> string \<Rightarrow> string list" where
  "split_on c [] = [[]]"
| "split_on c (x # xs) =
     (if x = c then [] # split_on c xs
      else (case split_on c xs of [] \<Rightarrow> [[x]] | y # ys \<Rightarrow> (x # y) # ys))"

lemma split_on_nonempty [simp]: "split_on c s \<noteq> []"
  by (induction s) (auto split: list.splits)

lemma split_on_no_sep: "c \<notin> set s \<Longrightarrow> split_on c s = [s]"
  by (induction s) auto

lemma split_on_append: "c \<notin> set s \<Longrightarrow> split_on c (s @ c # t) = s # split_on c t"
  by (induction s) auto

lemma split_on_parts: "x \<in> set (split_on c s) \<Longrightarrow> c \<notin> set x"
proof (induction s arbitrary: x)
  case Nil
  then show ?case by simp
next
  case (Cons a s)
  show ?case
  proof (cases "split_on c s")
    case Nil
    then show ?thesis by simp
  next
    case (Cons y ys)
    with Cons.IH have y: "c \<notin> set y" and ys: "\<And>z. z \<in> set ys \<Longrightarrow> c \<notin> set z" by simp_all
    show ?thesis
      using Cons.prems Cons y ys by (auto split: if_splits)
  qed
qed

text \<open>Parts that each end in a separator.\<close>

abbreviation ended :: "char \<Rightarrow> string list \<Rightarrow> string" where
  "ended c ls \<equiv> concat (map (\<lambda>l. l @ [c]) ls)"

lemma split_ended:
  assumes "\<forall>l \<in> set ls. c \<notin> set l" and "c \<notin> set t"
  shows "split_on c (ended c ls @ t) = ls @ [t]"
  using assms by (induction ls) (simp_all add: split_on_append split_on_no_sep)

text \<open>\<^verbatim>\<open>strings.Index\<close> and \<^verbatim>\<open>strings.TrimRight\<close> for one character.\<close>

fun str_index :: "string \<Rightarrow> string \<Rightarrow> nat option" where
  "str_index [] p = (if p = [] then Some 0 else None)"
| "str_index (c # s) p = (if has_prefix (c # s) p then Some 0 else map_option Suc (str_index s p))"

definition trim_right :: "char \<Rightarrow> string \<Rightarrow> string" where
  "trim_right c s = rev (dropWhile (\<lambda>x. x = c) (rev s))"

text \<open>\<^verbatim>\<open>strconv.ParseInt(s, 10, 64)\<close>, which is also \<^verbatim>\<open>strconv.Atoi\<close> on a 64-bit machine.\<close>

definition parse_digits :: "string \<Rightarrow> nat option" where
  "parse_digits s = (if s \<noteq> [] \<and> list_all is_digit s then Some (undec s) else None)"

definition parse_int :: "string \<Rightarrow> int option" where
  "parse_int s =
     (let (neg, body) = (case s of
          [] \<Rightarrow> (False, [])
        | c # r \<Rightarrow> if c = CHR ''-'' then (True, r) else if c = CHR ''+'' then (False, r) else (False, s))
      in case parse_digits body of
           None \<Rightarrow> None
         | Some n \<Rightarrow> (let v = (if neg then - int n else int n) in
             if - (2 ^ 63) \<le> v \<and> v < 2 ^ 63 then Some v else None))"

text \<open>\<^verbatim>\<open>strconv.Atoi\<close> and \<^verbatim>\<open>ParseInt\<close> with the error ignored: out of range gives the nearest integer.\<close>

definition atoi :: "string \<Rightarrow> int" where
  "atoi s =
     (let (neg, body) = (case s of
          [] \<Rightarrow> (False, [])
        | c # r \<Rightarrow> if c = CHR ''-'' then (True, r) else if c = CHR ''+'' then (False, r) else (False, s))
      in case parse_digits body of
           None \<Rightarrow> 0
         | Some n \<Rightarrow> if neg then max (- (2 ^ 63)) (- int n) else min (2 ^ 63 - 1) (int n))"

lemma atoi_digits:
  assumes "s \<noteq> []" and "list_all is_digit s" and "int (undec s) < 2 ^ 63"
  shows "atoi s = int (undec s)"
proof -
  obtain c r where d: "s = c # r" using assms(1) by (cases s) auto
  have c: "is_digit c" using assms(2) d by simp
  then have "c \<noteq> CHR ''-''" "c \<noteq> CHR ''+''" by (auto simp: is_digit_def)
  then have "atoi s = (case parse_digits s of None \<Rightarrow> 0 | Some n \<Rightarrow> min (2 ^ 63 - 1) (int n))"
    by (simp add: atoi_def d split: option.split)
  then show ?thesis using assms by (simp add: parse_digits_def)
qed

lemma atoi_dec: "int n < 2 ^ 63 \<Longrightarrow> atoi (dec n) = int n"
  using atoi_digits [of "dec n"] dec_digits [of _ n] by (simp add: list_all_iff)

text \<open>\<^verbatim>\<open>strings.LastIndex\<close> for one character.\<close>

definition last_index :: "char \<Rightarrow> string \<Rightarrow> nat option" where
  "last_index c s = (if c \<in> set s then Some (length s - 1 - length (takeWhile (\<lambda>x. x \<noteq> c) (rev s))) else None)"

lemma takeWhile_before: "c \<notin> set s \<Longrightarrow> takeWhile (\<lambda>x. x \<noteq> c) (s @ c # t) = s"
  by (induction s) auto

lemma last_index_append:
  assumes "c \<notin> set t"
  shows "last_index c (s @ c # t) = Some (length s)"
  using assms by (simp add: last_index_def takeWhile_before)

lemma dropWhile_same: "(\<And>x. x \<in> set (take 1 xs) \<Longrightarrow> \<not> P x) \<Longrightarrow> dropWhile P xs = xs"
  by (cases xs) auto

lemma trim_space_hd: "trim_space s \<noteq> [] \<Longrightarrow> \<not> is_space (hd (trim_space s))"
proof -
  assume ne: "trim_space s \<noteq> []"
  define t where "t = dropWhile is_space s"
  have r: "trim_space s = rev (dropWhile is_space (rev t))" by (simp add: trim_space_def t_def)
  obtain u where u: "rev t = u @ dropWhile is_space (rev t)"
    using takeWhile_dropWhile_id [of is_space "rev t"] by metis
  then have "t = trim_space s @ rev u" unfolding r by (metis rev_append rev_rev_ident)
  then have "hd t = hd (trim_space s)" and "t \<noteq> []" using ne by auto
  moreover have "\<not> is_space (hd t)" using \<open>t \<noteq> []\<close> unfolding t_def by (rule hd_dropWhile)
  ultimately show ?thesis by simp
qed

lemma trim_space_last: "trim_space s \<noteq> [] \<Longrightarrow> \<not> is_space (last (trim_space s))"
  unfolding trim_space_def by (simp add: last_rev hd_dropWhile)

lemma trim_space_fixed:
  assumes "s = [] \<or> (\<not> is_space (hd s) \<and> \<not> is_space (last s))"
  shows "trim_space s = s"
proof (cases "s = []")
  case False
  then have "dropWhile is_space s = s" using assms by (cases s) auto
  moreover have "dropWhile is_space (rev s) = rev s"
    using False assms by (cases s rule: rev_cases) auto
  ultimately show ?thesis by (simp add: trim_space_def)
qed (simp add: trim_space_def)

lemma trim_space_idem [simp]: "trim_space (trim_space s) = trim_space s"
  using trim_space_fixed trim_space_hd trim_space_last by blast

end
