(* ===== verification/Flow.thy ===== *)
theory Flow
  imports GoText
begin

text \<open>
  The flow record the collectors produce (\<^verbatim>\<open>core.Flow\<close>, the fields a collector or
  \<^verbatim>\<open>FillCountries\<close> touches) and the country and anycast resolution every batch passes
  before it is stored. \<^verbatim>\<open>Duration\<close> is kept in milliseconds, the integer the code divides by
  \<^verbatim>\<open>1000.0\<close>.
\<close>

record flow =
  TS :: int
  Key :: string
  SrcIP :: string
  SrcPort :: int
  DstIP :: string
  DstPort :: int
  Proto :: string
  BytesIn :: int
  BytesOut :: int
  Packets :: int
  DurationMs :: int
  Source :: string
  Iface :: string
  Country :: string
  Anycast :: bool

definition flow0 :: flow where
  "flow0 = \<lparr>TS = 0, Key = [], SrcIP = [], SrcPort = 0, DstIP = [], DstPort = 0, Proto = [],
     BytesIn = 0, BytesOut = 0, Packets = 0, DurationMs = 0, Source = [], Iface = [],
     Country = [], Anycast = False\<rparr>"

section \<open>FillCountries\<close>

record ans =
  cc :: string
  anycast :: bool

definition ans0 :: ans where
  "ans0 = \<lparr>cc = [], anycast = False\<rparr>"

text \<open>
  The services a batch is resolved with; each may be missing (\<^verbatim>\<open>nil\<close>).
\<close>

record lookups =
  look :: "(string \<Rightarrow> string) option"
  anyc :: "(string \<Rightarrow> bool) option"
  isLocal :: "(string \<Rightarrow> bool) option"

definition resolve :: "lookups \<Rightarrow> string \<Rightarrow> ans" where
  "resolve l ip =
     \<lparr>cc = (case look l of None \<Rightarrow> [] | Some f \<Rightarrow> f ip),
      anycast = (case anyc l of None \<Rightarrow> False | Some f \<Rightarrow> f ip)\<rparr>"

definition local_ip :: "lookups \<Rightarrow> string \<Rightarrow> bool" where
  "local_ip l ip = (case isLocal l of None \<Rightarrow> False | Some f \<Rightarrow> f ip)"

text \<open>The closure \<^verbatim>\<open>far\<close>, with the memo it updates.\<close>

definition far :: "lookups \<Rightarrow> string \<Rightarrow> (string, ans) gomap \<Rightarrow> (ans \<times> bool) \<times> (string, ans) gomap" where
  "far l ip memo =
     (if ip = [] \<or> local_ip l ip then ((ans0, False), memo)
      else case mget memo ip of
          Some v \<Rightarrow> ((v, True), memo)
        | None \<Rightarrow> (let v = resolve l ip in ((v, True), mput ip v memo)))"

definition blank :: "ans \<Rightarrow> bool" where
  "blank v \<longleftrightarrow> cc v = [] \<and> \<not> anycast v"

definition set_country :: "ans \<Rightarrow> flow \<Rightarrow> flow" where
  "set_country v f =
     (let f1 = (if Country f = [] then f\<lparr>Country := cc v\<rparr> else f)
      in if anycast v then f1\<lparr>Anycast := True\<rparr> else f1)"

definition fill_one :: "lookups \<Rightarrow> flow \<Rightarrow> (string, ans) gomap \<Rightarrow> flow \<times> (string, ans) gomap" where
  "fill_one l f memo =
     (if Country f \<noteq> [] \<and> Anycast f then (f, memo)
      else
        let ((v, ok), memo1) = far l (DstIP f) memo in
        if \<not> ok \<or> blank v then
          let ((v2, ok2), memo2) = far l (SrcIP f) memo1;
              v' = (if ok2 \<and> \<not> blank v2 then v2 else v)
          in (set_country v' f, memo2)
        else (set_country v f, memo1))"

fun fill_loop :: "lookups \<Rightarrow> flow list \<Rightarrow> (string, ans) gomap \<Rightarrow> flow list" where
  "fill_loop l [] memo = []"
| "fill_loop l (f # fs) memo = (let (f', memo') = fill_one l f memo in f' # fill_loop l fs memo')"

definition FillCountries :: "lookups \<Rightarrow> flow list \<Rightarrow> flow list" where
  "FillCountries l flows =
     (if look l = None \<and> anyc l = None then flows else fill_loop l flows [])"

section \<open>The memo does not matter\<close>

text \<open>The resolution of one flow without a memo: the specification.\<close>

definition far_ref :: "lookups \<Rightarrow> string \<Rightarrow> ans" where
  "far_ref l ip = (if ip = [] \<or> local_ip l ip then ans0 else resolve l ip)"

definition fill_ref :: "lookups \<Rightarrow> flow \<Rightarrow> flow" where
  "fill_ref l f =
     (if Country f \<noteq> [] \<and> Anycast f then f
      else if \<not> blank (far_ref l (DstIP f)) then set_country (far_ref l (DstIP f)) f
      else if \<not> blank (far_ref l (SrcIP f)) then set_country (far_ref l (SrcIP f)) f
      else f)"

definition memo_ok :: "lookups \<Rightarrow> (string, ans) gomap \<Rightarrow> bool" where
  "memo_ok l memo \<longleftrightarrow> (\<forall>ip v. mget memo ip = Some v \<longrightarrow> v = resolve l ip)"

lemma memo_ok_empty [simp]: "memo_ok l []"
  by (simp add: memo_ok_def)

lemma blank_ans0 [simp]: "blank ans0"
  by (simp add: blank_def ans0_def)

lemma set_country_blank: "blank v \<Longrightarrow> set_country v f = f"
  by (simp add: set_country_def blank_def)

lemma far_spec:
  assumes "memo_ok l memo"
  obtains ok memo' where "far l ip memo = ((far_ref l ip, ok), memo')" and "memo_ok l memo'"
    and "ok \<longleftrightarrow> ip \<noteq> [] \<and> \<not> local_ip l ip"
  using assms by (fastforce simp: far_def far_ref_def memo_ok_def Let_def split: option.splits if_splits)

lemma fill_one_spec:
  assumes "memo_ok l memo"
  obtains memo' where "fill_one l f memo = (fill_ref l f, memo')" and "memo_ok l memo'"
proof -
  obtain ok m1 where d: "far l (DstIP f) memo = ((far_ref l (DstIP f), ok), m1)" "memo_ok l m1"
    "ok \<longleftrightarrow> DstIP f \<noteq> [] \<and> \<not> local_ip l (DstIP f)"
    using assms by (rule far_spec)
  obtain ok2 m2 where s: "far l (SrcIP f) m1 = ((far_ref l (SrcIP f), ok2), m2)" "memo_ok l m2"
    "ok2 \<longleftrightarrow> SrcIP f \<noteq> [] \<and> \<not> local_ip l (SrcIP f)"
    using d(2) by (rule far_spec)
  have nok: "\<not> ok \<Longrightarrow> blank (far_ref l (DstIP f))" "\<not> ok2 \<Longrightarrow> blank (far_ref l (SrcIP f))"
    using d(3) s(3) by (auto simp: far_ref_def)
  have "\<exists>m'. fill_one l f memo = (fill_ref l f, m') \<and> memo_ok l m'"
    using assms d(1,2) s(1,2) nok
    by (auto simp: fill_one_def fill_ref_def Let_def set_country_blank)
  then show thesis using that by blast
qed

lemma fill_loop_eq: "memo_ok l memo \<Longrightarrow> fill_loop l fs memo = map (fill_ref l) fs"
proof (induction fs arbitrary: memo)
  case Nil
  then show ?case by simp
next
  case (Cons f fs)
  obtain m' where "fill_one l f memo = (fill_ref l f, m')" "memo_ok l m'"
    using Cons.prems by (rule fill_one_spec)
  with Cons.IH show ?case by simp
qed

lemma fill_ref_nil: "look l = None \<Longrightarrow> anyc l = None \<Longrightarrow> fill_ref l f = f"
  by (simp add: fill_ref_def far_ref_def resolve_def blank_def ans0_def)

lemma length_FillCountries [simp]: "length (FillCountries l fs) = length fs"
  by (simp add: FillCountries_def fill_loop_eq)

lemma FillCountries_map: "FillCountries l flows = map (fill_ref l) flows"
proof (cases "look l = None \<and> anyc l = None")
  case True
  then show ?thesis by (simp add: FillCountries_def fill_ref_nil map_idI)
next
  case False
  then show ?thesis by (auto simp add: FillCountries_def fill_loop_eq)
qed

text \<open>
  Filling the countries of a batch through the memo gives every flow exactly what resolving
  it alone gives: the far end's answer when it has one, else the near end's, never overwriting a
  country the flow already carries; with no service the batch is unchanged.
\<close>

theorem FillCountries_pointwise:
  "FillCountries l flows = map (fill_ref l) flows
   \<and> (\<forall>f. Country f \<noteq> [] \<longrightarrow> Country (fill_ref l f) = Country f)"
  by (simp add: FillCountries_map fill_ref_def set_country_def Let_def)

theorem FillCountries_pointwise_witness:
  "Country (fill_ref \<lparr>look = Some (\<lambda>_. ''DE''), anyc = None, isLocal = None\<rparr>
      (flow0\<lparr>Country := ''FR'', DstIP := ''1.1.1.1''\<rparr>)) = ''FR''"
  using FillCountries_pointwise
    [of "\<lparr>look = Some (\<lambda>_. ''DE''), anyc = None, isLocal = None\<rparr>" "[]"] by simp

end
