(* ===== verification/TemplateCache.thy ===== *)
theory TemplateCache
  imports GoText
begin

text \<open>
  \<^verbatim>\<open>internal/modules/netflow/template_cache.go\<close>: the bounded cache of export templates, a map
  from a key text to a template beside a \<^verbatim>\<open>container/list\<close> in order of use and a map from the
  key to its list element. The theory ends with the contract the decoders rely on, a locale that
  both pairs of operations (NetFlow v9 and IPFIX) are shown to satisfy.
\<close>

section \<open>The linked list of keys\<close>

text \<open>
  \<^verbatim>\<open>list.List\<close>: nodes with an identity (the \<^verbatim>\<open>*list.Element\<close> the code keeps in its map) and
  the next fresh identity.
\<close>

record golist =
  nodes :: "(nat \<times> string) list"
  fresh :: nat

definition list_new :: golist where
  "list_new = \<lparr>nodes = [], fresh = 0\<rparr>"

definition list_remove :: "nat \<Rightarrow> golist \<Rightarrow> golist" where
  "list_remove e l = l\<lparr>nodes := filter (\<lambda>n. fst n \<noteq> e) (nodes l)\<rparr>"

definition list_push_back :: "string \<Rightarrow> golist \<Rightarrow> nat \<times> golist" where
  "list_push_back k l = (fresh l, \<lparr>nodes = nodes l @ [(fresh l, k)], fresh = Suc (fresh l)\<rparr>)"

definition list_move_to_back :: "nat \<Rightarrow> golist \<Rightarrow> golist" where
  "list_move_to_back e l =
     l\<lparr>nodes := filter (\<lambda>n. fst n \<noteq> e) (nodes l) @ filter (\<lambda>n. fst n = e) (nodes l)\<rparr>"

definition list_front :: "golist \<Rightarrow> (nat \<times> string) option" where
  "list_front l = (case nodes l of [] \<Rightarrow> None | n # _ \<Rightarrow> Some n)"

section \<open>Templates and the cache\<close>

record field9 =
  fieldType :: u16
  length9 :: u16

record fieldIP =
  ie_id :: u16
  lengthIP :: u16
  varlen :: bool

record cachedTemplate =
  ct_sourceID :: u32
  ct_domainID :: u32
  ct_templateID :: u16
  ct_fields :: "field9 list"
  ct_fieldsIP :: "fieldIP list"
  isIPFIX :: bool

record templateCache =
  maxSize :: nat
  cache :: "(string, cachedTemplate) gomap"
  lru :: golist
  element :: "(string, nat) gomap"

definition newTemplateCache :: "nat \<Rightarrow> templateCache" where
  "newTemplateCache n = \<lparr>maxSize = n, cache = [], lru = list_new, element = []\<rparr>"

definition cache_key :: "u32 \<Rightarrow> u32 \<Rightarrow> u16 \<Rightarrow> string" where
  "cache_key sourceID domainID templateID =
     dec (unat sourceID) @ ''/'' @ dec (unat domainID) @ ''/'' @ dec (unat templateID)"

text \<open>The three steps \<^verbatim>\<open>Store9\<close> and \<^verbatim>\<open>StoreIP\<close> share.\<close>

definition drop_elem :: "string \<Rightarrow> templateCache \<Rightarrow> templateCache" where
  "drop_elem k c =
     (case mget (element c) k of
        None \<Rightarrow> c
      | Some e \<Rightarrow> c\<lparr>lru := list_remove e (lru c), element := mdel k (element c)\<rparr>)"

definition evict :: "templateCache \<Rightarrow> templateCache" where
  "evict c =
     (if maxSize c \<le> length (cache c) then
        (case list_front (lru c) of
           None \<Rightarrow> c
         | Some (e, oldK) \<Rightarrow>
             c\<lparr>lru := list_remove e (lru c), element := mdel oldK (element c),
               cache := mdel oldK (cache c)\<rparr>)
      else c)"

definition insert_tmpl :: "string \<Rightarrow> cachedTemplate \<Rightarrow> templateCache \<Rightarrow> templateCache" where
  "insert_tmpl k ct c =
     (let (e, l) = list_push_back k (lru c)
      in c\<lparr>cache := mput k ct (cache c), lru := l, element := mput k e (element c)\<rparr>)"

definition Store9 :: "u32 \<Rightarrow> u32 \<Rightarrow> u16 \<Rightarrow> field9 list \<Rightarrow> templateCache \<Rightarrow> templateCache" where
  "Store9 sourceID domainID templateID flds c =
     (let k = cache_key sourceID domainID templateID in
      insert_tmpl k \<lparr>ct_sourceID = sourceID, ct_domainID = domainID, ct_templateID = templateID,
          ct_fields = flds, ct_fieldsIP = [], isIPFIX = False\<rparr>
        (evict (drop_elem k c)))"

definition StoreIP :: "u32 \<Rightarrow> u16 \<Rightarrow> fieldIP list \<Rightarrow> templateCache \<Rightarrow> templateCache" where
  "StoreIP domainID templateID flds c =
     (let k = ''0/'' @ dec (unat domainID) @ ''/'' @ dec (unat templateID) in
      insert_tmpl k \<lparr>ct_sourceID = 0, ct_domainID = domainID, ct_templateID = templateID,
          ct_fields = [], ct_fieldsIP = flds, isIPFIX = True\<rparr>
        (evict (drop_elem k c)))"

definition touch :: "string \<Rightarrow> templateCache \<Rightarrow> templateCache" where
  "touch k c =
     (case mget (element c) k of
        None \<Rightarrow> c
      | Some e \<Rightarrow> c\<lparr>lru := list_move_to_back e (lru c)\<rparr>)"

definition Get9 :: "u32 \<Rightarrow> u32 \<Rightarrow> u16 \<Rightarrow> templateCache \<Rightarrow> field9 list option \<times> templateCache" where
  "Get9 sourceID domainID templateID c =
     (let k = cache_key sourceID domainID templateID in
      case mget (cache c) k of
        None \<Rightarrow> (None, c)
      | Some ct \<Rightarrow> if isIPFIX ct then (None, c) else (Some (ct_fields ct), touch k c))"

definition GetIP :: "u32 \<Rightarrow> u16 \<Rightarrow> templateCache \<Rightarrow> fieldIP list option \<times> templateCache" where
  "GetIP domainID templateID c =
     (let k = ''0/'' @ dec (unat domainID) @ ''/'' @ dec (unat templateID) in
      case mget (cache c) k of
        None \<Rightarrow> (None, c)
      | Some ct \<Rightarrow> if \<not> isIPFIX ct then (None, c) else (Some (ct_fieldsIP ct), touch k c))"

definition Count :: "templateCache \<Rightarrow> nat" where
  "Count c = length (cache c)"

definition Clear :: "templateCache \<Rightarrow> templateCache" where
  "Clear c = c\<lparr>cache := [], lru := list_new, element := []\<rparr>"


section \<open>The invariant\<close>

text \<open>The list and the element map describe each other.\<close>

definition links :: "golist \<Rightarrow> (string, nat) gomap \<Rightarrow> bool" where
  "links l el \<longleftrightarrow> mkeys_ok el \<and> distinct (map fst (nodes l)) \<and>
     (\<forall>e k. (e, k) \<in> set (nodes l) \<longleftrightarrow> mget el k = Some e) \<and>
     (\<forall>n \<in> set (nodes l). fst n < fresh l)"

definition cache_ok :: "templateCache \<Rightarrow> bool" where
  "cache_ok c \<longleftrightarrow> links (lru c) (element c) \<and> mkeys_ok (cache c) \<and>
     mkeys (element c) = mkeys (cache c) \<and> length (cache c) \<le> maxSize c"

text \<open>Between \<^const>\<open>drop_elem\<close> and \<^const>\<open>insert_tmpl\<close> the key itself is off the list.\<close>

definition cache_mid :: "string \<Rightarrow> templateCache \<Rightarrow> bool" where
  "cache_mid k c \<longleftrightarrow> links (lru c) (element c) \<and> mkeys_ok (cache c) \<and>
     mkeys (element c) = mkeys (cache c) - {k} \<and> length (cache c) \<le> maxSize c"

lemma node_unique: "distinct (map fst xs) \<Longrightarrow> (e, a) \<in> set xs \<Longrightarrow> (e, b) \<in> set xs \<Longrightarrow> a = b"
  by (metis eq_key_imp_eq_value)

lemma linksD:
  assumes "links l el"
  shows "mkeys_ok el" and "distinct (map fst (nodes l))"
    and "(e, k) \<in> set (nodes l) \<longleftrightarrow> mget el k = Some e"
  using assms by (simp_all add: links_def)

lemma linksI:
  assumes "mkeys_ok el" and "distinct (map fst (nodes l))"
    and "\<And>e k. (e, k) \<in> set (nodes l) \<longleftrightarrow> mget el k = Some e"
    and "\<And>n. n \<in> set (nodes l) \<Longrightarrow> fst n < fresh l"
  shows "links l el"
  using assms unfolding links_def by blast

lemma linksF: "links l el \<Longrightarrow> n \<in> set (nodes l) \<Longrightarrow> fst n < fresh l"
  by (simp add: links_def)

lemma nodes_remove [simp]: "nodes (list_remove e l) = filter (\<lambda>n. fst n \<noteq> e) (nodes l)"
  and fresh_remove [simp]: "fresh (list_remove e l) = fresh l"
  by (simp_all add: list_remove_def)

lemma links_remove:
  assumes l: "links l el" and k: "mget el k = Some e"
  shows "links (list_remove e l) (mdel k el)"
proof (rule linksI)
  fix e' k'
  have "(e, k) \<in> set (nodes l)" using l k by (simp add: linksD)
  then have u: "(e, k') \<notin> set (nodes l) \<or> k' = k"
    using node_unique [OF linksD(2) [OF l]] by blast
  show "(e', k') \<in> set (nodes (list_remove e l)) \<longleftrightarrow> mget (mdel k el) k' = Some e'"
    using u k by (cases "e' = e"; cases "k' = k") (simp_all add: linksD(3) [OF l])
qed (use linksD(1,2) [OF l] linksF [OF l] in \<open>auto intro: distinct_map_filter\<close>)

lemma links_push:
  assumes "links l el" and "mget el k = None" and "list_push_back k l = (e, l')"
  shows "links l' (mput k e el)"
  using assms by (force simp: links_def list_push_back_def)

lemma links_move:
  assumes "links l el" and "mget el k = Some e"
  shows "links (list_move_to_back e l) el"
proof -
  have "distinct (map fst (filter (\<lambda>n. fst n \<noteq> e) (nodes l) @ filter (\<lambda>n. fst n = e) (nodes l)))"
    using assms(1) by (auto simp: links_def distinct_map_filter)
  then show ?thesis
    using assms by (auto simp: links_def list_move_to_back_def)
qed

lemma front_link:
  assumes "links l el" and "list_front l = Some (e, k)"
  shows "mget el k = Some e"
proof -
  have "(e, k) \<in> set (nodes l)"
    using assms(2) by (cases "nodes l") (auto simp: list_front_def)
  with linksD(3) [OF assms(1)] show ?thesis by blast
qed

lemma front_None_iff:
  assumes "links l el"
  shows "list_front l = None \<longleftrightarrow> mkeys el = {}"
proof (cases "nodes l")
  case Nil
  then have "mget el k = None" for k
    using linksD(3) [OF assms, of _ k] by (cases "mget el k") auto
  then show ?thesis using Nil by (auto simp: list_front_def mkeys_iff)
next
  case (Cons n ns)
  obtain e k where n: "n = (e, k)" by (cases n)
  then have "mget el k = Some e"
    using linksD(3) [OF assms, of e k] Cons by simp
  then show ?thesis using Cons n by (auto simp: list_front_def dest: mget_Some_key)
qed


section \<open>The steps of a store keep the invariant\<close>

lemma filter_id_eq_key:
  assumes l: "links l el" and k: "mget el k = Some e"
  shows "filter (\<lambda>n. fst n \<noteq> e) (nodes l) = filter (\<lambda>n. snd n \<noteq> k) (nodes l)"
proof (rule filter_cong [OF refl])
  fix n assume n: "n \<in> set (nodes l)"
  obtain e' k' where [simp]: "n = (e', k')" by (cases n)
  from n have k': "mget el k' = Some e'" using linksD(3) [OF l] by simp
  have "(e, k) \<in> set (nodes l)" using l k by (simp add: linksD)
  then have "e' = e \<Longrightarrow> k' = k" using n node_unique [OF linksD(2) [OF l]] by auto
  with k k' show "(fst n \<noteq> e) = (snd n \<noteq> k)" by auto
qed

lemma no_node: "links l el \<Longrightarrow> mget el k = None \<Longrightarrow> filter (\<lambda>n. snd n \<noteq> k) (nodes l) = nodes l"
  by (rule filter_True) (auto simp: linksD(3))

lemma drop_elem_mid:
  assumes "cache_ok c"
  shows "cache_mid k (drop_elem k c)"
    and "nodes (lru (drop_elem k c)) = filter (\<lambda>n. snd n \<noteq> k) (nodes (lru c))"
    and "cache (drop_elem k c) = cache c" and "maxSize (drop_elem k c) = maxSize c"
proof -
  have l: "links (lru c) (element c)" using assms by (simp add: cache_ok_def)
  show "nodes (lru (drop_elem k c)) = filter (\<lambda>n. snd n \<noteq> k) (nodes (lru c))"
    using no_node [OF l, of k] filter_id_eq_key [OF l, of k]
    by (simp add: drop_elem_def split: option.split)
  show "cache_mid k (drop_elem k c)"
    using assms links_remove [OF l, of k] mget_None_iff [of "element c" k]
    by (auto simp: drop_elem_def cache_mid_def cache_ok_def split: option.split)
qed (simp_all add: drop_elem_def split: option.split)

lemma evict_mid:
  assumes mid: "cache_mid k c"
  shows "cache_mid k (evict c)"
    and "nodes (lru (evict c)) =
      (if maxSize c \<le> length (cache c) then tl (nodes (lru c)) else nodes (lru c))"
    and "cache (evict c) =
      (if maxSize c \<le> length (cache c) \<and> nodes (lru c) \<noteq> []
       then mdel (snd (hd (nodes (lru c)))) (cache c) else cache c)"
    and "maxSize (evict c) = maxSize c"
proof -
  have l: "links (lru c) (element c)" using mid by (simp add: cache_mid_def)
  have tl: "filter (\<lambda>n. fst n \<noteq> e) (nodes (lru c)) = tl (nodes (lru c))"
    if "nodes (lru c) = (e, k') # ns" for e k' ns
  proof -
    have "e \<notin> fst ` set ns" using linksD(2) [OF l] that by simp
    then have "filter (\<lambda>n. fst n \<noteq> e) ns = ns" by (intro filter_True) auto
    with that show ?thesis by simp
  qed
  show "nodes (lru (evict c)) =
      (if maxSize c \<le> length (cache c) then tl (nodes (lru c)) else nodes (lru c))"
    using tl by (auto simp: evict_def list_front_def split: list.splits)
  show "cache (evict c) =
      (if maxSize c \<le> length (cache c) \<and> nodes (lru c) \<noteq> []
       then mdel (snd (hd (nodes (lru c)))) (cache c) else cache c)"
    by (auto simp: evict_def list_front_def split: list.splits)
  show "maxSize (evict c) = maxSize c"
    by (auto simp: evict_def split: option.split prod.split)
  show "cache_mid k (evict c)"
  proof (cases "list_front (lru c)")
    case None
    with mid show ?thesis by (simp add: evict_def)
  next
    case (Some n)
    obtain e k0 where n: "n = (e, k0)" by (cases n)
    with Some front_link [OF l, of e k0] have e: "mget (element c) k0 = Some e" by simp
    have le: "length (mdel k0 (cache c)) \<le> maxSize c"
      using mid length_mdel_le [of k0 "cache c"] by (simp add: cache_mid_def)
    show ?thesis
      using mid Some n links_remove [OF l e] le by (auto simp: evict_def cache_mid_def)
  qed
qed

lemma evict_room:
  assumes mid: "cache_mid k c" and pos: "0 < maxSize c"
  shows "k \<in> mkeys (cache (evict c)) \<or> length (cache (evict c)) < maxSize c"
proof (cases "maxSize c \<le> length (cache c) \<and> k \<notin> mkeys (cache c)")
  case True
  have l: "links (lru c) (element c)" using mid by (simp add: cache_mid_def)
  have "mkeys (element c) = mkeys (cache c)" using mid True by (auto simp: cache_mid_def)
  moreover have ne: "cache c \<noteq> []" using True pos by auto
  then have "mkeys (cache c) \<noteq> {}" by (simp add: mkeys_def)
  ultimately have "list_front (lru c) \<noteq> None" using front_None_iff [OF l] by simp
  then obtain e k0 where f: "list_front (lru c) = Some (e, k0)" by auto
  have "k0 \<in> mkeys (element c)" using front_link [OF l f] by (rule mget_Some_key)
  then have "k0 \<in> mkeys (cache c)" using mid by (simp add: cache_mid_def)
  then have "length (mdel k0 (cache c)) < length (cache c)"
    using mid ne by (simp add: length_mdel cache_mid_def)
  then show ?thesis using mid True f by (simp add: evict_def cache_mid_def)
next
  case False
  show ?thesis
  proof (cases "maxSize c \<le> length (cache c)")
    case True
    with False have k: "k \<in> mkeys (cache c)" by simp
    show ?thesis
    proof (cases "list_front (lru c)")
      case None
      with k show ?thesis by (simp add: evict_def)
    next
      case (Some n)
      have l: "links (lru c) (element c)" using mid by (simp add: cache_mid_def)
      from Some have "mget (element c) (snd n) = Some (fst n)" by (intro front_link [OF l]) simp
      then have "snd n \<in> mkeys (element c)" by (rule mget_Some_key)
      then have "snd n \<noteq> k" using mid by (auto simp: cache_mid_def)
      with k Some show ?thesis by (cases n) (simp add: evict_def)
    qed
  next
    case False
    then show ?thesis by (simp add: evict_def)
  qed
qed

lemma insert_tmpl_ok:
  assumes mid: "cache_mid k c" and room: "k \<in> mkeys (cache c) \<or> length (cache c) < maxSize c"
  shows "cache_ok (insert_tmpl k ct c)"
proof -
  have l: "links (lru c) (element c)" and ok: "mkeys_ok (cache c)"
    and keys: "mkeys (element c) = mkeys (cache c) - {k}" and le: "length (cache c) \<le> maxSize c"
    using mid by (simp_all add: cache_mid_def)
  obtain e l' where p: "list_push_back k (lru c) = (e, l')" by (cases "list_push_back k (lru c)")
  have "mget (element c) k = None" using keys by (simp add: mget_None_iff)
  then have "links l' (mput k e (element c))" using links_push [OF l _ p] by simp
  moreover have "length (mput k ct (cache c)) \<le> maxSize c"
    using le room by (cases "k \<in> mkeys (cache c)") (simp_all add: length_mput [OF ok])
  ultimately show ?thesis
    using ok keys p unfolding cache_ok_def insert_tmpl_def by simp
qed

definition put_tmpl :: "string \<Rightarrow> cachedTemplate \<Rightarrow> templateCache \<Rightarrow> templateCache" where
  "put_tmpl k ct c = insert_tmpl k ct (evict (drop_elem k c))"

lemma maxSize_insert_tmpl [simp]: "maxSize (insert_tmpl k ct c) = maxSize c"
  by (simp add: insert_tmpl_def split: prod.split)

lemma put_tmpl_ok:
  assumes "cache_ok c" and "0 < maxSize c"
  shows "cache_ok (put_tmpl k ct c)" and "maxSize (put_tmpl k ct c) = maxSize c"
proof -
  note d = drop_elem_mid [OF assms(1), of k]
  note e = evict_mid [OF d(1)]
  have "k \<in> mkeys (cache (evict (drop_elem k c)))
      \<or> length (cache (evict (drop_elem k c))) < maxSize (evict (drop_elem k c))"
    using evict_room [OF d(1)] assms(2) d(4) e(4) by simp
  then show "cache_ok (put_tmpl k ct c)"
    unfolding put_tmpl_def using e(1) by (intro insert_tmpl_ok)
  show "maxSize (put_tmpl k ct c) = maxSize c"
    by (simp add: put_tmpl_def e(4) d(4))
qed

lemma put_tmpl_get [simp]: "mget (cache (put_tmpl k ct c)) k = Some ct"
  by (simp add: put_tmpl_def insert_tmpl_def split: prod.split)

lemma touch_ok:
  assumes "cache_ok c"
  shows "cache_ok (touch k c)" and "cache (touch k c) = cache c" and "maxSize (touch k c) = maxSize c"
  using assms links_move by (auto simp: touch_def cache_ok_def split: option.split)

section \<open>Refinement of a recency list\<close>

text \<open>
  What the three structures stand for: the templates with their keys, least recently used first.
\<close>

definition recency :: "templateCache \<Rightarrow> (string \<times> cachedTemplate) list" where
  "recency c = map (\<lambda>n. (snd n, the (mget (cache c) (snd n)))) (nodes (lru c))"

definition lru_put :: "nat \<Rightarrow> string \<Rightarrow> 'v \<Rightarrow> (string \<times> 'v) list \<Rightarrow> (string \<times> 'v) list" where
  "lru_put n k v xs =
     (let ys = filter (\<lambda>p. fst p \<noteq> k) xs
      in (if n \<le> length xs then tl ys else ys) @ [(k, v)])"

definition lru_touch :: "string \<Rightarrow> (string \<times> 'v) list \<Rightarrow> (string \<times> 'v) list" where
  "lru_touch k xs = filter (\<lambda>p. fst p \<noteq> k) xs @ filter (\<lambda>p. fst p = k) xs"

lemma length_recency:
  assumes "cache_ok c"
  shows "length (recency c) = length (cache c)"
proof -
  have l: "links (lru c) (element c)" using assms by (simp add: cache_ok_def)
  have keys: "snd ` set (nodes (lru c)) = mkeys (element c)"
  proof (rule set_eqI)
    fix k
    have "k \<in> snd ` set (nodes (lru c)) \<longleftrightarrow> (\<exists>e. (e, k) \<in> set (nodes (lru c)))" by force
    then show "k \<in> snd ` set (nodes (lru c)) \<longleftrightarrow> k \<in> mkeys (element c)"
      by (simp add: linksD(3) [OF l] mkeys_iff)
  qed
  have "inj_on snd (set (nodes (lru c)))"
    by (rule inj_onI) (auto simp: linksD(3) [OF l])
  then have "card (snd ` set (nodes (lru c))) = card (set (nodes (lru c)))"
    by (rule card_image)
  moreover have "distinct (nodes (lru c))"
    using linksD(2) [OF l] by (simp add: distinct_map)
  ultimately have "length (nodes (lru c)) = card (mkeys (element c))"
    by (simp add: distinct_card keys)
  then show ?thesis
    using assms by (simp add: recency_def cache_ok_def length_card_mkeys)
qed

lemma length_filter_key:
  assumes "distinct (map fst xs)" and "k \<in> fst ` set xs"
  shows "length (filter (\<lambda>p. fst p \<noteq> k) xs) = length xs - 1"
proof -
  have "filter (\<lambda>p. fst p \<noteq> k) xs = mdel k xs"
    by (induction xs) (auto simp: mdel_def)
  then show ?thesis
    using assms length_mdel [of xs k] by (simp add: mkeys_ok_def mkeys_def)
qed

lemma nodes_push: "list_push_back k l = (e, l') \<Longrightarrow> nodes l' = nodes l @ [(e, k)]"
  by (auto simp: list_push_back_def)

text \<open>A key that was evicted is no longer on the list, so the others keep their templates.\<close>

lemma distinct_keys:
  assumes "links l el"
  shows "distinct (map snd (nodes l))"
proof -
  have "inj_on snd (set (nodes l))"
    by (rule inj_onI) (auto simp: linksD(3) [OF assms])
  moreover have "distinct (nodes l)" using linksD(2) [OF assms] by (simp add: distinct_map)
  ultimately show ?thesis by (simp add: distinct_map)
qed

lemma put_refines_lru:
  assumes ok: "cache_ok c"
  shows "recency (put_tmpl k ct c) = lru_put (maxSize c) k ct (recency c)"
proof -
  let ?d = "drop_elem k c"
  let ?g = "\<lambda>m n. (snd n, the (mget m (snd n)))"
  note d = drop_elem_mid [OF ok, of k]
  note ev = evict_mid [OF d(1)]
  obtain e l' where p: "list_push_back k (lru (evict ?d)) = (e, l')"
    by (cases "list_push_back k (lru (evict ?d))")
  have dist: "distinct (map snd (nodes (lru ?d)))"
    using d(1) by (auto simp: cache_mid_def intro: distinct_keys)
  have kn: "k \<notin> snd ` set (nodes (lru ?d))" by (auto simp: d(2))
  have same: "map (?g (mput k ct (cache (evict ?d)))) (nodes (lru (evict ?d)))
      = map (?g (cache c)) (nodes (lru (evict ?d)))"
  proof (rule map_cong [OF refl])
    fix n assume "n \<in> set (nodes (lru (evict ?d)))"
    then have n: "n \<in> set (if maxSize ?d \<le> length (cache ?d) then tl (nodes (lru ?d)) else nodes (lru ?d))"
      by (simp add: ev(2))
    then have "n \<in> set (nodes (lru ?d))" by (cases "nodes (lru ?d)") (auto split: if_splits)
    then have "snd n \<noteq> k" using kn by auto
    moreover have "mget (cache (evict ?d)) (snd n) = mget (cache c) (snd n)"
    proof (cases "nodes (lru ?d)")
      case Nil
      then show ?thesis using ev(3) d(3) by simp
    next
      case (Cons h t)
      have "maxSize ?d \<le> length (cache ?d) \<Longrightarrow> snd n \<noteq> snd h"
        using n Cons dist by (auto simp: image_iff)
      then show ?thesis using ev(3) d(3) Cons by simp
    qed
    ultimately show "?g (mput k ct (cache (evict ?d))) n = ?g (cache c) n" by simp
  qed
  have "recency (put_tmpl k ct c) = map (?g (cache c)) (nodes (lru (evict ?d))) @ [(k, ct)]"
    using p nodes_push [OF p] same
    by (simp add: recency_def put_tmpl_def insert_tmpl_def)
  then show ?thesis
    using ev(2) d(2,3,4) length_recency [OF ok]
    by (simp add: lru_put_def recency_def map_tl filter_map comp_def)
qed

lemma touch_refines_lru:
  assumes ok: "cache_ok c" and k: "k \<in> mkeys (cache c)"
  shows "recency (touch k c) = lru_touch k (recency c)"
proof -
  have l: "links (lru c) (element c)" using ok by (simp add: cache_ok_def)
  have "k \<in> mkeys (element c)" using ok k by (simp add: cache_ok_def)
  then obtain e where e: "mget (element c) k = Some e" by (auto simp: mkeys_iff)
  have ne: "filter (\<lambda>n. fst n \<noteq> e) (nodes (lru c)) = filter (\<lambda>n. snd n \<noteq> k) (nodes (lru c))"
    by (rule filter_id_eq_key [OF l e])
  have eq: "filter (\<lambda>n. fst n = e) (nodes (lru c)) = filter (\<lambda>n. snd n = k) (nodes (lru c))"
  proof (rule filter_cong [OF refl])
    fix n assume "n \<in> set (nodes (lru c))"
    then have "fst n \<noteq> e \<longleftrightarrow> snd n \<noteq> k" using ne by (metis (mono_tags, lifting) mem_Collect_eq set_filter)
    then show "(fst n = e) = (snd n = k)" by simp
  qed
  show ?thesis
    using e ne eq
    by (simp add: touch_def recency_def lru_touch_def list_move_to_back_def filter_map comp_def)
qed

text \<open>Lookups in the map are lookups in the recency list.\<close>

lemma cache_of_recency:
  assumes ok: "cache_ok c"
  shows "mget (cache c) k = map_of (recency c) k"
proof (cases "mget (cache c) k")
  case None
  have "k \<notin> mkeys (element c)" using None ok by (simp add: cache_ok_def mget_None_iff)
  then have "k \<notin> fst ` set (recency c)"
    using ok by (auto simp: recency_def cache_ok_def linksD(3) mkeys_iff)
  then have "map_of (recency c) k = None" by (simp add: map_of_eq_None_iff)
  with None show ?thesis by simp
next
  case (Some ct)
  have l: "links (lru c) (element c)" using ok by (simp add: cache_ok_def)
  have "k \<in> mkeys (element c)" using Some ok by (auto simp: cache_ok_def dest: mget_Some_key)
  then obtain e where "(e, k) \<in> set (nodes (lru c))" by (auto simp: mkeys_iff linksD(3) [OF l])
  then have "(k, ct) \<in> set (recency c)" using Some by (force simp: recency_def image_iff)
  moreover have "distinct (map fst (recency c))"
    using distinct_keys [OF l] by (simp add: recency_def comp_def)
  ultimately show ?thesis using Some by simp
qed

lemma newTemplateCache_ok: "cache_ok (newTemplateCache n)"
  by (simp add: cache_ok_def newTemplateCache_def links_def list_new_def)

lemma Clear_ok: "cache_ok (Clear c)"
  by (simp add: cache_ok_def Clear_def links_def list_new_def)

lemma Store9_put:
  "Store9 s d t flds c = put_tmpl (cache_key s d t)
     \<lparr>ct_sourceID = s, ct_domainID = d, ct_templateID = t, ct_fields = flds, ct_fieldsIP = [],
      isIPFIX = False\<rparr> c"
  by (simp add: Store9_def put_tmpl_def Let_def)

definition ipfix_key :: "u32 \<Rightarrow> u16 \<Rightarrow> string" where
  "ipfix_key d t = ''0/'' @ dec (unat d) @ ''/'' @ dec (unat t)"

lemma StoreIP_put:
  "StoreIP d t flds c = put_tmpl (ipfix_key d t)
     \<lparr>ct_sourceID = 0, ct_domainID = d, ct_templateID = t, ct_fields = [], ct_fieldsIP = flds,
      isIPFIX = True\<rparr> c"
  by (simp add: StoreIP_def put_tmpl_def ipfix_key_def Let_def)

text \<open>The text keys are unambiguous: equal keys come from equal numbers.\<close>

lemma cache_key_inject:
  "cache_key s d t = cache_key s' d' t' \<longleftrightarrow> s = s' \<and> d = d' \<and> t = t'"
  by (auto simp: cache_key_def append_sep_inject word_unat_eq_iff)

lemma ipfix_key_inject: "ipfix_key d t = ipfix_key d' t' \<longleftrightarrow> d = d' \<and> t = t'"
  by (auto simp: ipfix_key_def append_sep_inject word_unat_eq_iff)

lemma Get9_recency:
  assumes "cache_ok c"
  shows "fst (Get9 s d t c) =
    (case map_of (recency c) (cache_key s d t) of
       None \<Rightarrow> None | Some ct \<Rightarrow> if isIPFIX ct then None else Some (ct_fields ct))"
  by (simp add: Get9_def Let_def cache_of_recency [OF assms] split: option.split)

lemma Get9_cache: "cache (snd (Get9 s d t c)) = cache c"
  by (auto simp: Get9_def Let_def touch_def split: option.split)

lemma GetIP_cache: "cache (snd (GetIP d t c)) = cache c"
  by (auto simp: GetIP_def Let_def touch_def split: option.split)

lemma Get9_ok: "cache_ok c \<Longrightarrow> cache_ok (snd (Get9 s d t c)) \<and> maxSize (snd (Get9 s d t c)) = maxSize c"
  by (auto simp: Get9_def Let_def touch_ok split: option.split)

lemma GetIP_ok: "cache_ok c \<Longrightarrow> cache_ok (snd (GetIP d t c)) \<and> maxSize (snd (GetIP d t c)) = maxSize c"
  by (auto simp: GetIP_def Let_def touch_ok split: option.split)

lemma Get9_same_cache: "cache c = cache c' \<Longrightarrow> fst (Get9 s d t c) = fst (Get9 s d t c')"
  by (simp add: Get9_def Let_def split: option.split)

lemma GetIP_same_cache: "cache c = cache c' \<Longrightarrow> fst (GetIP d t c) = fst (GetIP d t c')"
  by (simp add: GetIP_def Let_def split: option.split)

lemma Get9_Store9: "fst (Get9 s d t (Store9 s d t flds c)) = Some flds"
  by (simp add: Get9_def Store9_put Let_def)

lemma GetIP_StoreIP: "fst (GetIP d t (StoreIP d t flds c)) = Some flds"
  by (simp add: GetIP_def StoreIP_put ipfix_key_def Let_def)

section \<open>The interface the decoders use\<close>

text \<open>
  What a decoder may rely on: a bounded store in which a key just stored is found with its value
  and looking keys up changes no later answer.
\<close>

locale template_store =
  fixes store :: "'k \<Rightarrow> 'v \<Rightarrow> 's \<Rightarrow> 's"
    and get :: "'k \<Rightarrow> 's \<Rightarrow> 'v option \<times> 's"
    and inv :: "'s \<Rightarrow> bool"
    and count :: "'s \<Rightarrow> nat"
    and limit :: nat
  assumes inv_store: "inv s \<Longrightarrow> inv (store k v s)"
    and inv_get: "inv s \<Longrightarrow> inv (snd (get k s))"
    and get_store: "fst (get k (store k v s)) = Some v"
    and get_get: "fst (get k' (snd (get k s))) = fst (get k' s)"
    and count_limit: "inv s \<Longrightarrow> count s \<le> limit"
begin

definition store_all :: "('k \<times> 'v) list \<Rightarrow> 's \<Rightarrow> 's" where
  "store_all kvs s = fold (\<lambda>(k, v). store k v) kvs s"

definition get_all :: "'k list \<Rightarrow> 's \<Rightarrow> 's" where
  "get_all ks s = fold (\<lambda>k s. snd (get k s)) ks s"

lemma store_all_inv: "inv s \<Longrightarrow> inv (store_all kvs s)"
  by (induction kvs arbitrary: s) (auto simp: store_all_def inv_store)

lemma get_all_inv: "inv s \<Longrightarrow> inv (get_all ks s)"
  by (induction ks arbitrary: s) (auto simp: get_all_def inv_get)

lemma get_all_get: "fst (get k (get_all ks s)) = fst (get k s)"
  by (induction ks arbitrary: s) (auto simp: get_all_def get_get)

text \<open>The template a data set is decoded with is the one announced last for its key.\<close>

lemma last_announced: "fst (get k (get_all ks (store_all (kvs @ [(k, v)]) s))) = Some v"
  by (simp add: get_all_get) (simp add: store_all_def get_store)

lemma bounded: "inv s \<Longrightarrow> count (get_all ks (store_all kvs s)) \<le> limit"
  by (intro count_limit get_all_inv store_all_inv)

end

definition exporter_cache :: "templateCache \<Rightarrow> bool" where
  "exporter_cache c \<longleftrightarrow> cache_ok c \<and> maxSize c = 64"

interpretation nf9: template_store "\<lambda>(s, d, t). Store9 s d t" "\<lambda>(s, d, t). Get9 s d t"
    exporter_cache Count 64
proof
  fix c and k :: "u32 \<times> u32 \<times> u16" and v :: "field9 list"
  obtain s d t where k: "k = (s, d, t)" by (cases k) auto
  show "exporter_cache c \<Longrightarrow> exporter_cache ((case k of (s, d, t) \<Rightarrow> Store9 s d t) v c)"
    by (simp add: k exporter_cache_def Store9_put put_tmpl_ok)
  show "exporter_cache c \<Longrightarrow> exporter_cache (snd ((case k of (s, d, t) \<Rightarrow> Get9 s d t) c))"
    using Get9_ok [of c s d t] by (simp add: k exporter_cache_def)
  show "fst ((case k of (s, d, t) \<Rightarrow> Get9 s d t) ((case k of (s, d, t) \<Rightarrow> Store9 s d t) v c)) = Some v"
    by (simp add: k Get9_Store9)
  fix k' :: "u32 \<times> u32 \<times> u16"
  show "fst ((case k' of (s, d, t) \<Rightarrow> Get9 s d t) (snd ((case k of (s, d, t) \<Rightarrow> Get9 s d t) c)))
      = fst ((case k' of (s, d, t) \<Rightarrow> Get9 s d t) c)"
    using Get9_same_cache [OF Get9_cache] by (simp add: k split: prod.split)
  show "exporter_cache c \<Longrightarrow> Count c \<le> 64"
    by (simp add: exporter_cache_def cache_ok_def Count_def)
qed

interpretation ipf: template_store "\<lambda>(d, t). StoreIP d t" "\<lambda>(d, t). GetIP d t"
    exporter_cache Count 64
proof
  fix c and k :: "u32 \<times> u16" and v :: "fieldIP list"
  obtain d t where k: "k = (d, t)" by (cases k) auto
  show "exporter_cache c \<Longrightarrow> exporter_cache ((case k of (d, t) \<Rightarrow> StoreIP d t) v c)"
    by (simp add: k exporter_cache_def StoreIP_put put_tmpl_ok)
  show "exporter_cache c \<Longrightarrow> exporter_cache (snd ((case k of (d, t) \<Rightarrow> GetIP d t) c))"
    using GetIP_ok [of c d t] by (simp add: k exporter_cache_def)
  show "fst ((case k of (d, t) \<Rightarrow> GetIP d t) ((case k of (d, t) \<Rightarrow> StoreIP d t) v c)) = Some v"
    by (simp add: k GetIP_StoreIP)
  fix k' :: "u32 \<times> u16"
  show "fst ((case k' of (d, t) \<Rightarrow> GetIP d t) (snd ((case k of (d, t) \<Rightarrow> GetIP d t) c)))
      = fst ((case k' of (d, t) \<Rightarrow> GetIP d t) c)"
    using GetIP_same_cache [OF GetIP_cache] by (simp add: k split: prod.split)
  show "exporter_cache c \<Longrightarrow> Count c \<le> 64"
    by (simp add: exporter_cache_def cache_ok_def Count_def)
qed

section \<open>Properties\<close>

text \<open>
  The cache as a list of keys with their templates, least recently used first: storing puts the key
  last, and drops the first only to make room for a key that is new; looking a template up puts it last.
\<close>

definition lru_store :: "nat \<Rightarrow> string \<Rightarrow> 'v \<Rightarrow> (string \<times> 'v) list \<Rightarrow> (string \<times> 'v) list" where
  "lru_store n k v xs =
     (if k \<in> fst ` set xs then filter (\<lambda>p. fst p \<noteq> k) xs
      else if n \<le> length xs then tl xs else xs) @ [(k, v)]"

datatype op9 = Announce u32 u32 u16 "field9 list" | Lookup u32 u32 u16

fun op_key :: "op9 \<Rightarrow> string" where
  "op_key (Announce s d t flds) = cache_key s d t"
| "op_key (Lookup s d t) = cache_key s d t"

fun cache_step :: "op9 \<Rightarrow> templateCache \<Rightarrow> field9 list option \<times> templateCache" where
  "cache_step (Announce s d t flds) c = (None, Store9 s d t flds c)"
| "cache_step (Lookup s d t) c = Get9 s d t c"

fun lru_step :: "nat \<Rightarrow> op9 \<Rightarrow> (string \<times> cachedTemplate) list \<Rightarrow> field9 list option \<times> (string \<times> cachedTemplate) list" where
  "lru_step n (Announce s d t flds) xs =
     (None, lru_store n (cache_key s d t) \<lparr>ct_sourceID = s, ct_domainID = d, ct_templateID = t, ct_fields = flds,
        ct_fieldsIP = [], isIPFIX = False\<rparr> xs)"
| "lru_step n (Lookup s d t) xs =
     (case map_of xs (cache_key s d t) of
        None \<Rightarrow> (None, xs)
      | Some ct \<Rightarrow> if isIPFIX ct then (None, xs) else (Some (ct_fields ct), lru_touch (cache_key s d t) xs))"

fun cache_run :: "op9 list \<Rightarrow> templateCache \<Rightarrow> field9 list option list \<times> templateCache" where
  "cache_run [] c = ([], c)"
| "cache_run (p # ps) c = (let (r, c') = cache_step p c; (rs, c'') = cache_run ps c' in (r # rs, c''))"

fun lru_run :: "nat \<Rightarrow> op9 list \<Rightarrow> (string \<times> cachedTemplate) list \<Rightarrow> field9 list option list \<times> (string \<times> cachedTemplate) list" where
  "lru_run n [] xs = ([], xs)"
| "lru_run n (p # ps) xs = (let (r, ys) = lru_step n p xs; (rs, zs) = lru_run n ps ys in (r # rs, zs))"

text \<open>No template is announced again while it is in a full list.\<close>

fun no_full_refresh :: "nat \<Rightarrow> op9 list \<Rightarrow> (string \<times> cachedTemplate) list \<Rightarrow> bool" where
  "no_full_refresh n [] xs \<longleftrightarrow> True"
| "no_full_refresh n (p # ps) xs \<longleftrightarrow>
     (case p of Announce s d t flds \<Rightarrow> op_key p \<notin> fst ` set xs \<or> length xs < n | Lookup s d t \<Rightarrow> True) \<and>
     no_full_refresh n ps (snd (lru_step n p xs))"

lemma lru_put_store: "k \<notin> fst ` set xs \<or> length xs < n \<Longrightarrow> lru_put n k v xs = lru_store n k v xs"
proof -
  assume a: "k \<notin> fst ` set xs \<or> length xs < n"
  have "k \<notin> fst ` set xs \<Longrightarrow> filter (\<lambda>p. fst p \<noteq> k) xs = xs" by (intro filter_True) auto
  with a show ?thesis by (auto simp: lru_put_def lru_store_def Let_def)
qed

lemma cache_step_refines:
  assumes "cache_ok c" and "0 < maxSize c" and "no_full_refresh (maxSize c) (p # ps) (recency c)"
    and "cache_step p c = (r, c')"
  shows "lru_step (maxSize c) p (recency c) = (r, recency c') \<and> cache_ok c' \<and> maxSize c' = maxSize c"
proof (cases p)
  case (Announce s d t flds)
  with assms(4) have c': "r = None" "c' = Store9 s d t flds c" by simp_all
  have "recency c' = lru_put (maxSize c) (cache_key s d t) \<lparr>ct_sourceID = s, ct_domainID = d, ct_templateID = t, ct_fields = flds,
        ct_fieldsIP = [], isIPFIX = False\<rparr> (recency c)"
    unfolding c' Store9_put by (rule put_refines_lru [OF assms(1)])
  also have "\<dots> = lru_store (maxSize c) (cache_key s d t) \<lparr>ct_sourceID = s, ct_domainID = d, ct_templateID = t, ct_fields = flds,
        ct_fieldsIP = [], isIPFIX = False\<rparr> (recency c)"
    using assms(3) Announce by (intro lru_put_store) simp
  finally show ?thesis using put_tmpl_ok [OF assms(1,2)] by (simp add: Announce c' Store9_put)
next
  case (Lookup s d t)
  let ?k = "cache_key s d t"
  have g: "Get9 s d t c = (r, c')" using assms(4) Lookup by simp
  note m = cache_of_recency [OF assms(1), of ?k]
  have "cache_ok c'" "maxSize c' = maxSize c" using Get9_ok [OF assms(1), of s d t] g by simp_all
  moreover have "lru_step (maxSize c) p (recency c) = (r, recency c')"
  proof (cases "mget (cache c) ?k")
    case None
    with g m show ?thesis by (simp add: Lookup Get9_def)
  next
    case (Some ct)
    then have "?k \<in> mkeys (cache c)" by (rule mget_Some_key)
    from touch_refines_lru [OF assms(1) this] Some g m show ?thesis
      by (cases "isIPFIX ct") (auto simp: Lookup Get9_def Let_def)
  qed
  ultimately show ?thesis by simp
qed

text \<open>
  C15: through any announcements and look-ups of NetFlow v9 templates, the map, the list and the element
  map together behave as one list of bounded length in order of use: every look-up answers what the list
  holds and moves it to the end, and an announcement puts its template last, dropping the least recently
  used one exactly when the list is full and the key is new. This holds as long as no template is announced
  again while the list is full.
\<close>

theorem cache_refines_lru:
  assumes "cache_ok c" and "0 < maxSize c" and "no_full_refresh (maxSize c) ops (recency c)"
  shows "lru_run (maxSize c) ops (recency c) = (fst (cache_run ops c), recency (snd (cache_run ops c)))
    \<and> cache_ok (snd (cache_run ops c)) \<and> Count (snd (cache_run ops c)) \<le> maxSize c"
proof -
  have "lru_run (maxSize c) ops (recency c) = (fst (cache_run ops c), recency (snd (cache_run ops c)))
    \<and> cache_ok (snd (cache_run ops c)) \<and> maxSize (snd (cache_run ops c)) = maxSize c"
    using assms
  proof (induction ops arbitrary: c)
    case (Cons p ps)
    obtain r c' where s: "cache_step p c = (r, c')" by force
    note st = cache_step_refines [OF Cons.prems s]
    then have ok: "cache_ok c'" "0 < maxSize c'" "no_full_refresh (maxSize c') ps (recency c')"
      using Cons.prems(2,3) by simp_all
    from Cons.IH [OF ok] st s show ?case by (cases "cache_run ps c'") (simp add: Let_def)
  qed simp
  then show ?thesis by (auto simp: Count_def cache_ok_def)
qed

text \<open>With room for two, the template looked up stays and the other makes room for the third.\<close>

theorem cache_refines_lru_witness:
  "fst (cache_run [Announce 1 0 256 [], Announce 1 0 257 [], Lookup 1 0 256, Announce 1 0 258 [], Lookup 1 0 256, Lookup 1 0 257]
     (newTemplateCache 2)) = [None, None, Some [], None, Some [], None]"
proof -
  let ?ops = "[Announce 1 0 256 [], Announce 1 0 257 [], Lookup 1 0 256, Announce 1 0 258 [], Lookup 1 0 256, Lookup 1 0 257]"
  have r: "maxSize (newTemplateCache 2) = 2" "recency (newTemplateCache 2) = []"
    by (simp_all add: newTemplateCache_def recency_def list_new_def)
  have k: "cache_key 1 0 256 = ''1/0/256''" "cache_key 1 0 257 = ''1/0/257''" "cache_key 1 0 258 = ''1/0/258''" by code_simp+
  have f: "no_full_refresh 2 ?ops []" "fst (lru_run 2 ?ops []) = [None, None, Some [], None, Some [], None]"
    by (simp_all add: k lru_store_def lru_touch_def)
  from cache_refines_lru [OF newTemplateCache_ok, of 2 ?ops] f r show ?thesis by simp
qed

text \<open>
  An exporter's template cache never holds more than 64 templates, and a data set is decoded
  with the template announced last for its source and id, however many templates were announced
  before it and however many look-ups came between.
\<close>

theorem last_template_wins:
  "fst (Get9 s 0 t (nf9.get_all ks (nf9.store_all (kvs @ [((s, 0, t), flds)]) (newTemplateCache 64))))
     = Some flds
   \<and> Count (nf9.get_all ks (nf9.store_all kvs (newTemplateCache 64))) \<le> 64"
proof -
  have "exporter_cache (newTemplateCache 64)"
    using newTemplateCache_ok [of 64] by (simp add: exporter_cache_def newTemplateCache_def)
  then show ?thesis
    using nf9.last_announced [of "(s, 0, t)" ks kvs flds] nf9.bounded by simp
qed

text \<open>
  Announcing again a template that is already cached, in a full cache, still evicts the
  least recently used other template: the cache shrinks by one and that template is lost,
  although nothing new had to fit.
\<close>

theorem refresh_evicts_other:
  assumes ok: "cache_ok c" and full: "Count c = maxSize c" and pos: "0 < maxSize c"
    and known: "cache_key s d t \<in> mkeys (cache c)"
    and oldest: "recency c = (k0, ct0) # rest" and other: "k0 \<noteq> cache_key s d t"
  shows "mget (cache (Store9 s d t flds c)) k0 = None \<and> Count (Store9 s d t flds c) = maxSize c - 1"
proof -
  let ?k = "cache_key s d t"
  let ?c = "Store9 s d t flds c"
  have ok': "cache_ok ?c" and rec: "recency ?c = lru_put (maxSize c) ?k
      \<lparr>ct_sourceID = s, ct_domainID = d, ct_templateID = t, ct_fields = flds, ct_fieldsIP = [],
       isIPFIX = False\<rparr> (recency c)"
    using assms by (simp_all add: Store9_put put_tmpl_ok put_refines_lru)
  have len: "length (recency c) = maxSize c" using length_recency [OF ok] full by (simp add: Count_def)
  have l: "links (lru c) (element c)" using ok by (simp add: cache_ok_def)
  have dist: "distinct (map fst (recency c))"
    using distinct_keys [OF l] by (simp add: recency_def comp_def)
  have "recency ?c = filter (\<lambda>p. fst p \<noteq> ?k) rest @
      [(?k, \<lparr>ct_sourceID = s, ct_domainID = d, ct_templateID = t, ct_fields = flds,
        ct_fieldsIP = [], isIPFIX = False\<rparr>)]"
    using rec oldest other len by (simp add: lru_put_def)
  moreover have "k0 \<notin> fst ` set rest" using dist oldest by simp
  ultimately have "map_of (recency ?c) k0 = None"
    using other by (auto simp: map_of_eq_None_iff)
  then have gone: "mget (cache ?c) k0 = None" by (simp add: cache_of_recency [OF ok'])
  have "?k \<in> fst ` set (recency c)"
    using known cache_of_recency [OF ok, of ?k] by (force simp: mkeys_iff dest: map_of_SomeD)
  then have "length (filter (\<lambda>p. fst p \<noteq> ?k) (recency c)) = maxSize c - 1"
    using length_filter_key [OF dist] len by simp
  then have "length (recency ?c) = maxSize c - 1"
    using rec oldest other len pos by (simp add: lru_put_def)
  then show ?thesis using gone length_recency [OF ok'] by (simp add: Count_def)
qed

definition full2 :: templateCache where
  "full2 = Store9 1 0 257 [] (Store9 1 0 256 [] (newTemplateCache 2))"

theorem refresh_evicts_other_witness:
  "fst (Get9 1 0 256 full2) = Some [] \<and> mget (cache (Store9 1 0 257 [] full2)) (cache_key 1 0 256) = None
   \<and> Count (Store9 1 0 257 [] full2) = 1"
proof -
  have ok1: "cache_ok (Store9 1 0 256 [] (newTemplateCache 2))"
    "maxSize (Store9 1 0 256 [] (newTemplateCache 2)) = 2"
    using newTemplateCache_ok [of 2] put_tmpl_ok [of "newTemplateCache 2"]
    by (simp_all add: Store9_put) (simp_all add: newTemplateCache_def)
  then have ok: "cache_ok full2" and m: "maxSize full2 = 2"
    using put_tmpl_ok [OF ok1(1)] by (simp_all add: full2_def Store9_put)
  have c: "Count full2 = maxSize full2" by code_simp
  have k: "cache_key 1 0 257 \<in> mkeys (cache full2)" by code_simp
  have g: "fst (Get9 1 0 256 full2) = Some []" by code_simp
  have "map fst (recency full2) = [cache_key 1 0 256, cache_key 1 0 257]" by code_simp
  then obtain ct rest where r: "recency full2 = (cache_key 1 0 256, ct) # rest"
    by (cases "recency full2") auto
  have "cache_key 1 0 256 \<noteq> cache_key 1 0 257" by (simp add: cache_key_inject)
  from refresh_evicts_other [OF ok c _ k r this, of "[]"] m g show ?thesis by simp
qed

end
