(* ===== verification/Exporters.thy ===== *)
theory Exporters
  imports Flow TemplateCache
begin

text \<open>
  The state the collectors share (\<^verbatim>\<open>internal/modules/netflow/netflow.go\<close>): one exporter record
  per remote address with its counters and template caches, created on first contact up to a limit
  and reaped after half an hour of silence. Times are nanoseconds since the epoch.
\<close>

record exporterState =
  ex_addr :: string
  ex_protocol :: string
  recordsTotal :: u64
  flowsTotal :: u64
  dropsTotal :: u64
  lastSeen :: int
  tmplCache9 :: templateCache
  tmplCacheI :: templateCache

type_synonym exporters = "(string, exporterState) gomap"

text \<open>The settings the collectors read.\<close>

record settings =
  max_exporters :: int
  sampling_override :: int

text \<open>What surrounds one datagram: settings, services, the clock and the sender.\<close>

record env =
  cfg :: settings
  services :: lookups
  now_ns :: int
  proto :: string
  remote :: string

definition new_exporter :: "env \<Rightarrow> exporterState" where
  "new_exporter v = \<lparr>ex_addr = remote v, ex_protocol = proto v, recordsTotal = 0, flowsTotal = 0,
     dropsTotal = 0, lastSeen = now_ns v, tmplCache9 = newTemplateCache 64,
     tmplCacheI = newTemplateCache 64\<rparr>"

definition getExporter :: "env \<Rightarrow> exporters \<Rightarrow> exporterState option \<times> exporters" where
  "getExporter v es =
     (case mget es (remote v) of
        Some ex \<Rightarrow> (let ex' = ex\<lparr>lastSeen := now_ns v\<rparr> in (Some ex', mput (remote v) ex' es))
      | None \<Rightarrow>
          if int (length es) \<ge> max_exporters (cfg v) then (None, es)
          else (let ex = new_exporter v in (Some ex, mput (remote v) ex es)))"

definition reap_cutoff :: "int \<Rightarrow> int" where
  "reap_cutoff now = now - 30 * 60 * 1000000000"

definition reapExporters :: "int \<Rightarrow> exporters \<Rightarrow> exporters" where
  "reapExporters now es = filter (\<lambda>(addr, ex). \<not> lastSeen ex < reap_cutoff now) es"

text \<open>
  The end of every handler: the flows of the datagram are counted, resolved and stored as one
  batch; an empty batch is not stored.
\<close>

definition add_u64 :: "u64 \<Rightarrow> nat \<Rightarrow> u64" where
  "add_u64 w n = w + of_nat n"

definition store_batch :: "env \<Rightarrow> flow list \<Rightarrow> exporterState \<Rightarrow> exporterState \<times> flow list" where
  "store_batch v flows ex =
     (if flows = [] then (ex, [])
      else (ex\<lparr>flowsTotal := add_u64 (flowsTotal ex) (length flows)\<rparr>,
            FillCountries (services v) flows))"

definition protoName :: "u8 \<Rightarrow> string" where
  "protoName num =
     (if num = 6 then ''tcp''
      else if num = 17 then ''udp''
      else if num = 1 then ''icmp''
      else if num = 41 then ''ipv6''
      else ''proto'' @ dec (unat num))"

text \<open>
  \<^verbatim>\<open>fmt.Sprintf("<proto>:%s:%d-%s:%d/%s@%d", ...)\<close>, the flow key of every collector.
\<close>

definition flow_key :: "string \<Rightarrow> string \<Rightarrow> int \<Rightarrow> string \<Rightarrow> int \<Rightarrow> string \<Rightarrow> int \<Rightarrow> string" where
  "flow_key kind src sport dst dport pr ts =
     kind @ '':'' @ src @ '':'' @ dec_int sport @ ''-'' @ dst @ '':'' @ dec_int dport @ ''/''
       @ pr @ ''@'' @ dec_int ts"

text \<open>
  A handler's outcome: \<^const>\<open>None\<close> is a panic, otherwise the exporters and the batch stored.
\<close>

type_synonym outcome = "(exporters \<times> flow list) option"

definition put_exporter :: "env \<Rightarrow> exporterState \<Rightarrow> exporters \<Rightarrow> exporters" where
  "put_exporter v ex es = mput (remote v) ex es"

section \<open>The invariant of the exporters\<close>

definition exporter_ok :: "exporterState \<Rightarrow> bool" where
  "exporter_ok ex \<longleftrightarrow> exporter_cache (tmplCache9 ex) \<and> exporter_cache (tmplCacheI ex)"

definition exporters_ok :: "exporters \<Rightarrow> bool" where
  "exporters_ok es \<longleftrightarrow> mkeys_ok es \<and> (\<forall>ex \<in> snd ` set es. exporter_ok ex)"

lemma exporters_ok_mget: "exporters_ok es \<Longrightarrow> mget es a = Some ex \<Longrightarrow> exporter_ok ex"
  unfolding exporters_ok_def mget_def by (force dest: map_of_SomeD)

lemma exporters_ok_mput: "exporters_ok es \<Longrightarrow> exporter_ok ex \<Longrightarrow> exporters_ok (mput a ex es)"
proof -
  assume es: "exporters_ok es" and ex: "exporter_ok ex"
  have "snd ` set (mput a ex es) \<subseteq> insert ex (snd ` set es)"
    by (induction es) (auto simp: mput_def)
  with ex have "\<forall>x \<in> snd ` set (mput a ex es). exporter_ok x"
    using es unfolding exporters_ok_def by (metis insertE subsetD)
  with es show ?thesis by (simp add: exporters_ok_def)
qed

lemma exporter_ok_seen [simp]: "exporter_ok (ex\<lparr>lastSeen := t\<rparr>) = exporter_ok ex"
  and exporter_ok_records [simp]: "exporter_ok (ex\<lparr>recordsTotal := n\<rparr>) = exporter_ok ex"
  and exporter_ok_flows [simp]: "exporter_ok (ex\<lparr>flowsTotal := n\<rparr>) = exporter_ok ex"
  and exporter_ok_drops [simp]: "exporter_ok (ex\<lparr>dropsTotal := n\<rparr>) = exporter_ok ex"
  by (simp_all add: exporter_ok_def)

lemma new_exporter_ok: "exporter_ok (new_exporter v)"
  using newTemplateCache_ok [of 64]
  by (simp add: exporter_ok_def new_exporter_def exporter_cache_def)
    (simp add: newTemplateCache_def)

lemma getExporter_ok:
  assumes es: "exporters_ok es" and get: "getExporter v es = (r, es')"
  shows "exporters_ok es'" and "r = Some ex \<Longrightarrow> exporter_ok ex"
    and "r = None \<Longrightarrow> es' = es" and "r = Some ex \<Longrightarrow> mget es' (remote v) = Some ex"
proof -
  have known: "exporter_ok (x\<lparr>lastSeen := now_ns v\<rparr>)" if "mget es (remote v) = Some x" for x
    using exporters_ok_mget [OF es that] by simp
  show "exporters_ok es'"
    using get known es new_exporter_ok [of v]
    by (auto simp: getExporter_def Let_def split: option.splits if_splits intro!: exporters_ok_mput)
  show "r = Some ex \<Longrightarrow> exporter_ok ex"
    using get known new_exporter_ok [of v]
    by (auto simp: getExporter_def Let_def split: option.splits if_splits)
qed (use get in \<open>auto simp: getExporter_def Let_def split: option.splits if_splits\<close>)

lemma store_batch_ok: "exporter_ok ex \<Longrightarrow> exporter_ok (fst (store_batch v fs ex))"
  by (simp add: store_batch_def)

lemma store_batch_flows: "snd (store_batch v fs ex) = map (fill_ref (services v)) fs"
  by (simp add: store_batch_def FillCountries_map)

end
