(* ===== verification/NetFlow5.thy ===== *)
theory NetFlow5
  imports Exporters
begin

text \<open>
  \<^verbatim>\<open>internal/modules/netflow/netflow5.go\<close>: the NetFlow v5 datagram. The header struct of the
  code is 25 bytes long where the datagram's is 24, so \<^verbatim>\<open>binary.Read\<close> takes one byte of the
  first record; the theory states what follows from it.
\<close>

section \<open>Wire structs\<close>

record netFlow5Header =
  h5_Version :: u16
  h5_Count :: u16
  h5_SysUptime :: u32
  h5_UnixSecs :: u32
  h5_UnixNsecs :: u32
  h5_FlowSequence :: u32
  h5_EngineType :: u8
  h5_EngineID :: u8
  h5_SamplingMode :: u8
  h5_SamplingRate :: u16

record netFlow5Record =
  r5_SrcAddr :: bytes
  r5_DstAddr :: bytes
  r5_NextHop :: bytes
  r5_InputIface :: u16
  r5_OutputIface :: u16
  r5_Packets :: u32
  r5_Bytes :: u32
  r5_FirstTime :: u32
  r5_LastTime :: u32
  r5_SrcPort :: u16
  r5_DstPort :: u16
  r5_TCPFlags :: u8
  r5_Protocol :: u8
  r5_ToS :: u8
  r5_SrcAS :: u16
  r5_DstAS :: u16
  r5_SrcMask :: u8
  r5_DstMask :: u8

text \<open>
  \<^verbatim>\<open>binary.Read\<close> into a struct fails, without a panic, when fewer bytes remain than the struct
  has; \<^const>\<open>None\<close> is that error. Behind the length check the fields are read in order.
\<close>

definition get16 :: "bytes \<Rightarrow> nat \<Rightarrow> u16" where
  "get16 p i = join16 (p ! i) (p ! (i + 1))"

definition get32 :: "bytes \<Rightarrow> nat \<Rightarrow> u32" where
  "get32 p i = join32 (get16 p i) (get16 p (i + 2))"

definition read_header5 :: "bytes \<Rightarrow> netFlow5Header option" where
  "read_header5 p =
     (if length p < 25 then None
      else Some \<lparr>h5_Version = get16 p 0, h5_Count = get16 p 2, h5_SysUptime = get32 p 4,
        h5_UnixSecs = get32 p 8, h5_UnixNsecs = get32 p 12, h5_FlowSequence = get32 p 16,
        h5_EngineType = p ! 20, h5_EngineID = p ! 21, h5_SamplingMode = p ! 22,
        h5_SamplingRate = get16 p 23\<rparr>)"

definition recordSize :: nat where
  "recordSize = 48"

definition read_record5 :: "bytes \<Rightarrow> netFlow5Record option" where
  "read_record5 p =
     (if length p < recordSize then None
      else Some \<lparr>r5_SrcAddr = take 4 p, r5_DstAddr = take 4 (drop 4 p),
        r5_NextHop = take 4 (drop 8 p), r5_InputIface = get16 p 12, r5_OutputIface = get16 p 14,
        r5_Packets = get32 p 16, r5_Bytes = get32 p 20, r5_FirstTime = get32 p 24,
        r5_LastTime = get32 p 28, r5_SrcPort = get16 p 32, r5_DstPort = get16 p 34,
        r5_TCPFlags = p ! 37, r5_Protocol = p ! 38, r5_ToS = p ! 39, r5_SrcAS = get16 p 40,
        r5_DstAS = get16 p 42, r5_SrcMask = p ! 44, r5_DstMask = p ! 45\<rparr>)"

section \<open>One record\<close>

text \<open>\<^verbatim>\<open>uint64(core.Int(settings, "sampling_override", 0))\<close> when positive, else the header's rate.\<close>

definition override_of :: "env \<Rightarrow> u64" where
  "override_of v = word_of_int (sampling_override (cfg v))"

definition sampling5 :: "env \<Rightarrow> netFlow5Header \<Rightarrow> u64" where
  "sampling5 v hdr =
     (if override_of v > 0 then override_of v
      else if h5_SamplingRate hdr > 0 then ucast (h5_SamplingRate hdr) else 1)"

definition scaled :: "u32 \<Rightarrow> u64 \<Rightarrow> int" where
  "scaled n s = i64 (int (unat n) * sint s)"

definition flow_start5 :: "env \<Rightarrow> netFlow5Header \<Rightarrow> netFlow5Record \<Rightarrow> int" where
  "flow_start5 v hdr rec =
     (let t = int (unat (h5_UnixSecs hdr))
            - (int (unat (h5_SysUptime hdr)) - int (unat (r5_FirstTime rec))) sdiv 1000
      in if t < 0 then now_ns v div 1000000000 else t)"

definition flow_of5 :: "env \<Rightarrow> netFlow5Header \<Rightarrow> netFlow5Record \<Rightarrow> flow" where
  "flow_of5 v hdr rec =
     (let sampling = sampling5 v hdr;
          srcIP = ip_string (r5_SrcAddr rec);
          dstIP = ip_string (r5_DstAddr rec);
          flowStart = flow_start5 v hdr rec;
          protoStr = protoName (r5_Protocol rec);
          sport = int (unat (r5_SrcPort rec));
          dport = int (unat (r5_DstPort rec))
      in flow0\<lparr>TS := flowStart,
           Key := flow_key ''netflow5'' srcIP sport dstIP dport protoStr flowStart,
           SrcIP := srcIP, SrcPort := sport, DstIP := dstIP, DstPort := dport, Proto := protoStr,
           BytesOut := scaled (r5_Bytes rec) sampling, BytesIn := 0,
           Packets := scaled (r5_Packets rec) sampling,
           DurationMs := int (unat (r5_LastTime rec - r5_FirstTime rec)),
           Source := ''netflow5:'' @ remote v,
           Iface := ''ifIndex '' @ dec (unat (r5_InputIface rec))\<rparr>)"

section \<open>The record loop and the handler\<close>

function records5 ::
    "env \<Rightarrow> netFlow5Header \<Rightarrow> bytes \<Rightarrow> nat \<Rightarrow> exporterState \<Rightarrow> flow list \<Rightarrow> (exporterState \<times> flow list) option"
where
  "records5 v hdr packet i ex flows =
     (if i < unat (h5_Count hdr) then
        let offset = 24 + i * recordSize in
        if offset + recordSize > length packet then Some (ex, flows)
        else do {
          recB \<leftarrow> gslice packet offset (offset + recordSize);
          (case read_record5 recB of
             None \<Rightarrow> Some (ex, flows)
           | Some rec \<Rightarrow>
               let f = flow_of5 v hdr rec;
                   flows' = (if SrcIP f \<noteq> [] \<and> DstIP f \<noteq> [] then flows @ [f] else flows)
               in records5 v hdr packet (Suc i)
                    (ex\<lparr>recordsTotal := add_u64 (recordsTotal ex) 1\<rparr>) flows')
        }
      else Some (ex, flows))"
  by pat_completeness auto
termination
  by (relation "measure (\<lambda>(v, hdr, packet, i, ex, flows). unat (h5_Count hdr) - i)") auto

declare records5.simps [simp del]

definition handleNetFlow5 :: "env \<Rightarrow> bytes \<Rightarrow> exporters \<Rightarrow> outcome" where
  "handleNetFlow5 v packet es =
     (if length packet < 24 then Some (es, [])
      else case read_header5 packet of
        None \<Rightarrow> Some (es, [])
      | Some hdr \<Rightarrow>
          if h5_Version hdr \<noteq> 5 then Some (es, [])
          else (case getExporter v es of
            (None, es1) \<Rightarrow> Some (es1, [])
          | (Some ex, es1) \<Rightarrow>
              if (word_of_nat (length packet) :: u16) < 24 + h5_Count hdr * word_of_nat recordSize
              then Some (es1, [])
              else do {
                (ex1, flows) \<leftarrow> records5 v hdr packet 0 ex [];
                let (ex2, batch) = store_batch v flows ex1;
                Some (put_exporter v ex2 es1, batch)
              }))"

section \<open>Lemmas\<close>

text \<open>The record at position \<open>i\<close> of a datagram, and how many whole records it holds.\<close>

definition record_at5 :: "bytes \<Rightarrow> nat \<Rightarrow> netFlow5Record" where
  "record_at5 packet i = the (read_record5 (take recordSize (drop (24 + i * recordSize) packet)))"

definition whole_records5 :: "netFlow5Header \<Rightarrow> bytes \<Rightarrow> nat" where
  "whole_records5 hdr packet = min (unat (h5_Count hdr)) ((length packet - 24) div recordSize)"

lemma flow_of5_addressed [simp]: "SrcIP (flow_of5 v hdr rec) \<noteq> []" "DstIP (flow_of5 v hdr rec) \<noteq> []"
  by (simp_all add: flow_of5_def Let_def flow0_def)

lemma whole_record_fits:
  "24 \<le> length packet \<Longrightarrow> (24 + i * recordSize) + recordSize \<le> length packet
     \<longleftrightarrow> i < (length packet - 24) div recordSize"
  by (auto simp: recordSize_def)

lemma read_record5_slice:
  "(24 + i * recordSize) + recordSize \<le> length packet \<Longrightarrow>
   read_record5 (take recordSize (drop (24 + i * recordSize) packet)) = Some (record_at5 packet i)"
  by (simp add: record_at5_def read_record5_def)

lemma records5_result:
  assumes "24 \<le> length packet" and "i \<le> whole_records5 hdr packet"
  shows "records5 v hdr packet i ex flows =
    Some (ex\<lparr>recordsTotal := add_u64 (recordsTotal ex) (whole_records5 hdr packet - i)\<rparr>,
      flows @ map (\<lambda>j. flow_of5 v hdr (record_at5 packet j)) [i..<whole_records5 hdr packet])"
  using assms
proof (induction "whole_records5 hdr packet - i" arbitrary: i ex flows)
  case 0
  then have "i = whole_records5 hdr packet" by simp
  then have "\<not> (i < unat (h5_Count hdr) \<and> 24 + i * recordSize + recordSize \<le> length packet)"
    using whole_record_fits [OF 0(2)] by (auto simp: whole_records5_def)
  then show ?case
    using 0 by (subst records5.simps) (auto simp: add_u64_def Let_def)
next
  case (Suc n)
  have lt: "i < whole_records5 hdr packet" using Suc.hyps(2) by simp
  then have c: "i < unat (h5_Count hdr)" and f: "24 + i * recordSize + recordSize \<le> length packet"
    using whole_record_fits [OF Suc.prems(1)] by (simp_all add: whole_records5_def)
  have n: "n = whole_records5 hdr packet - Suc i" using Suc.hyps(2) by simp
  have s: "gslice packet (24 + i * recordSize) (24 + i * recordSize + recordSize)
      = Some (take recordSize (drop (24 + i * recordSize) packet))"
    using f by (simp add: gslice_Some)
  have "records5 v hdr packet i ex flows = records5 v hdr packet (Suc i)
      (ex\<lparr>recordsTotal := add_u64 (recordsTotal ex) 1\<rparr>)
      (flows @ [flow_of5 v hdr (record_at5 packet i)])"
    using c f s read_record5_slice [OF f] by (subst records5.simps) (simp add: Let_def)
  also have "\<dots> = Some (ex\<lparr>recordsTotal := add_u64 (add_u64 (recordsTotal ex) 1) n\<rparr>,
      flows @ [flow_of5 v hdr (record_at5 packet i)]
        @ map (\<lambda>j. flow_of5 v hdr (record_at5 packet j)) [Suc i..<whole_records5 hdr packet])"
    using Suc.hyps(1) [OF n] Suc.prems lt n by simp
  also have "add_u64 (add_u64 (recordsTotal ex) 1) n = add_u64 (recordsTotal ex) (Suc n)"
    by (simp add: add_u64_def)
  finally show ?case using lt Suc.hyps(2) by (simp add: upt_conv_Cons)
qed

definition accepts5 :: "bytes \<Rightarrow> netFlow5Header \<Rightarrow> bool" where
  "accepts5 packet hdr \<longleftrightarrow> read_header5 packet = Some hdr \<and> h5_Version hdr = 5 \<and>
     24 + h5_Count hdr * word_of_nat recordSize \<le> (word_of_nat (length packet) :: u16)"

lemma handleNetFlow5_accepted:
  assumes acc: "accepts5 packet hdr" and get: "getExporter v es = (Some ex, es1)"
  shows "handleNetFlow5 v packet es =
    (let fs = map (\<lambda>j. flow_of5 v hdr (record_at5 packet j)) [0..<whole_records5 hdr packet];
         (ex2, batch) = store_batch v fs
           (ex\<lparr>recordsTotal := add_u64 (recordsTotal ex) (whole_records5 hdr packet)\<rparr>)
     in Some (put_exporter v ex2 es1, batch))"
proof -
  have "25 \<le> length packet"
    using acc by (auto simp: accepts5_def read_header5_def split: if_splits)
  moreover have "\<not> (word_of_nat (length packet) :: u16) < 24 + h5_Count hdr * word_of_nat recordSize"
    using acc by (simp add: accepts5_def not_less)
  ultimately show ?thesis
    using acc get records5_result [of packet 0 hdr v ex "[]"]
    by (simp add: handleNetFlow5_def accepts5_def Let_def case_prod_unfold)
qed

lemma handleNetFlow5_rejected:
  assumes "\<nexists>hdr. accepts5 packet hdr"
  shows "handleNetFlow5 v packet es = Some (es, []) \<or>
    handleNetFlow5 v packet es = Some (snd (getExporter v es), [])"
  using assms
  by (auto simp: handleNetFlow5_def accepts5_def Let_def not_less split: option.splits prod.splits)

lemma handleNetFlow5_refused:
  assumes "getExporter v es = (None, es1)"
  shows "handleNetFlow5 v packet es = Some (es, [])"
  using assms
  by (auto simp: handleNetFlow5_def getExporter_def Let_def split: option.splits prod.splits if_splits)

lemma handleNetFlow5_ok:
  assumes es: "exporters_ok es"
  obtains es' batch where "handleNetFlow5 v packet es = Some (es', batch)" "exporters_ok es'"
proof (cases "\<exists>hdr. accepts5 packet hdr")
  case False
  have "exporters_ok (snd (getExporter v es))"
    by (rule getExporter_ok(1) [OF es]) (rule prod.collapse [symmetric])
  with handleNetFlow5_rejected [OF False, of v es] es that show thesis by blast
next
  case True
  then obtain hdr where acc: "accepts5 packet hdr" ..
  obtain r es1 where get: "getExporter v es = (r, es1)" by (cases "getExporter v es")
  show thesis
  proof (cases r)
    case None
    with handleNetFlow5_refused get es that show thesis by blast
  next
    case (Some ex)
    let ?fs = "map (\<lambda>j. flow_of5 v hdr (record_at5 packet j)) [0..<whole_records5 hdr packet]"
    let ?ex = "ex\<lparr>recordsTotal := add_u64 (recordsTotal ex) (whole_records5 hdr packet)\<rparr>"
    have "exporter_ok ex" "exporters_ok es1" using getExporter_ok [OF es get] Some by auto
    then have "exporters_ok (put_exporter v (fst (store_batch v ?fs ?ex)) es1)"
      unfolding put_exporter_def by (intro exporters_ok_mput store_batch_ok) simp_all
    then show thesis
      using handleNetFlow5_accepted [OF acc, of v es ex es1] get Some that
      by (simp add: Let_def case_prod_unfold)
  qed
qed

section \<open>Properties\<close>

text \<open>
  no NetFlow v5 datagram, however short or malformed, makes the decoder index outside it: the
  handler always returns, and it keeps the exporters well-formed (distinct addresses, template
  caches consistent and within their bound).
\<close>

lemma netflow5_total:
  "\<exists>es' batch. handleNetFlow5 v packet es = Some (es', batch) \<and> (exporters_ok es \<longrightarrow> exporters_ok es')"
proof (cases "exporters_ok es")
  case True
  then show ?thesis using handleNetFlow5_ok [of es v packet] by blast
next
  case False
  obtain r es1 where get: "getExporter v es = (r, es1)" by (cases "getExporter v es")
  have "handleNetFlow5 v packet es \<noteq> None"
  proof (cases "\<exists>hdr. accepts5 packet hdr")
    case True
    then obtain hdr where "accepts5 packet hdr" ..
    then show ?thesis
      using handleNetFlow5_accepted [of packet hdr v es _ es1] handleNetFlow5_refused [of v es es1]
        get by (cases r) (auto simp: Let_def case_prod_unfold)
  next
    case False
    then show ?thesis using handleNetFlow5_rejected [OF False, of v es] by auto
  qed
  with False show ?thesis by auto
qed

text \<open>
  C28: an accepted NetFlow v5 datagram yields one stored flow for each record that lies wholly
  inside it, at most as many as the header counts, in order, each resolved for its country; the
  record and flow counters of the exporter advance by exactly that number. The 16-bit length test
  of the code, which wraps, cannot make it read past the datagram.
\<close>

theorem netflow5_flows:
  assumes acc: "accepts5 packet hdr" and get: "getExporter v es = (Some ex, es1)"
  defines "n \<equiv> min (unat (h5_Count hdr)) ((length packet - 24) div 48)"
  shows "\<exists>es' ex'. handleNetFlow5 v packet es = Some (es',
       map (\<lambda>j. fill_ref (services v) (flow_of5 v hdr (record_at5 packet j))) [0..<n])
     \<and> mget es' (remote v) = Some ex'
     \<and> recordsTotal ex' = recordsTotal ex + of_nat n
     \<and> flowsTotal ex' = flowsTotal ex + of_nat n"
proof -
  have n: "whole_records5 hdr packet = n" by (simp add: n_def whole_records5_def recordSize_def)
  show ?thesis
    by (simp add: handleNetFlow5_accepted [OF acc get] n Let_def case_prod_unfold
        store_batch_flows put_exporter_def comp_def)
      (simp add: store_batch_def add_u64_def)
qed

text \<open>A one-record datagram from 10.0.0.1 to 10.0.0.2, as an unsampled exporter sends it.\<close>

definition sample_packet5 :: bytes where
  "sample_packet5 =
     [0, 5, 0, 1, 0, 0, 39, 16, 101, 0, 0, 0, 0, 0, 0, 0, 0, 0, 0, 0, 0, 0, 0, 0,
      10, 0, 0, 1, 10, 0, 0, 2, 0, 0, 0, 0, 0, 1, 0, 2, 0, 0, 0, 3, 0, 0, 1, 44,
      0, 0, 31, 64, 0, 0, 35, 40, 0, 80, 4, 0, 0, 16, 6, 0, 0, 0, 0, 0, 0, 0, 0, 0]"

definition sample_env :: "string \<Rightarrow> env" where
  "sample_env pr = \<lparr>cfg = \<lparr>max_exporters = 100, sampling_override = 0\<rparr>,
     services = \<lparr>look = None, anyc = None, isLocal = None\<rparr>,
     now_ns = 1700000000000000000, proto = pr, remote = ''192.168.1.1''\<rparr>"

lemma getExporter_first:
  "getExporter (sample_env pr) [] =
    (Some (new_exporter (sample_env pr)), mput ''192.168.1.1'' (new_exporter (sample_env pr)) [])"
  by (simp add: getExporter_def sample_env_def Let_def)

definition sample_header5 :: netFlow5Header where
  "sample_header5 = \<lparr>h5_Version = 5, h5_Count = 1, h5_SysUptime = 10000, h5_UnixSecs = 1694498816,
     h5_UnixNsecs = 0, h5_FlowSequence = 0, h5_EngineType = 0, h5_EngineID = 0,
     h5_SamplingMode = 0, h5_SamplingRate = 10\<rparr>"

lemmas read5_eval = read_header5_def read_record5_def record_at5_def recordSize_def get16_def
  get32_def join16_def join32_def

lemma sample_header5_read: "read_header5 sample_packet5 = Some sample_header5"
  by (simp add: sample_packet5_def sample_header5_def read5_eval)

lemma sample_packet5_accepted: "accepts5 sample_packet5 sample_header5"
  unfolding accepts5_def sample_header5_read
  by (simp add: sample_header5_def sample_packet5_def recordSize_def)

lemma sample_record5:
  "r5_SrcAddr (record_at5 sample_packet5 0) = [10, 0, 0, 1]"
  "r5_DstPort (record_at5 sample_packet5 0) = 1024"
  "r5_Bytes (record_at5 sample_packet5 0) = 300"
  by (simp_all add: sample_packet5_def read5_eval)

lemma sample_src5: "ip_string [10, 0, 0, 1] = ''10.0.0.1''"
  by code_simp

theorem netflow5_flows_witness:
  "\<exists>es' f. handleNetFlow5 (sample_env ''netflow5'') sample_packet5 [] = Some (es', [f])
     \<and> SrcIP f = ''10.0.0.1'' \<and> DstPort f = 1024"
proof -
  let ?f = "flow_of5 (sample_env ''netflow5'') sample_header5 (record_at5 sample_packet5 0)"
  have n: "min (unat (h5_Count sample_header5)) ((length sample_packet5 - 24) div 48) = 1"
    by (simp add: sample_header5_def sample_packet5_def)
  have "SrcIP (fill_ref l ?f) = SrcIP ?f \<and> DstPort (fill_ref l ?f) = DstPort ?f" for l
    by (simp add: fill_ref_def set_country_def Let_def)
  moreover have "SrcIP ?f = ''10.0.0.1''" and "DstPort ?f = 1024"
    by (simp_all add: flow_of5_def Let_def sample_record5 sample_src5 flow0_def)
  ultimately show ?thesis
    using netflow5_flows [OF sample_packet5_accepted getExporter_first [of "''netflow5''"]]
    unfolding n by force
qed

text \<open>
  The header struct is one byte longer than the datagram's header, so what the decoder takes
  for the sampling rate is the low byte of the exporter's sampling interval followed by the first
  octet of the first record's source address. For an exporter that does not sample and without
  an override, the byte count of the first flow is multiplied by that octet.
\<close>

theorem netflow5_rate_reads_source_address:
  assumes hdr: "read_header5 packet = Some hdr" and len: "72 \<le> length packet"
    and unsampled: "packet ! 23 = 0" and no_override: "override_of v = 0"
    and octet: "packet ! 24 \<noteq> 0"
  shows "hd (r5_SrcAddr (record_at5 packet 0)) = packet ! 24
    \<and> BytesOut (flow_of5 v hdr (record_at5 packet 0))
        = int (unat (r5_Bytes (record_at5 packet 0))) * int (unat (packet ! 24))"
proof
  have rec: "record_at5 packet 0 = the (read_record5 (take 48 (drop 24 packet)))"
    by (simp add: record_at5_def recordSize_def)
  have d: "drop 24 packet = packet ! 24 # drop 25 packet"
    using len Cons_nth_drop_Suc [of 24 packet] by simp
  show "hd (r5_SrcAddr (record_at5 packet 0)) = packet ! 24"
    using len by (simp add: rec read_record5_def recordSize_def d)
  have rate: "h5_SamplingRate hdr = join16 0 (packet ! 24)"
    using hdr unsampled by (auto simp: read_header5_def get16_def split: if_splits)
  have u: "unat (h5_SamplingRate hdr) = unat (packet ! 24)"
    by (simp add: rate unat_join16)
  then have pos: "0 < h5_SamplingRate hdr" using octet by (simp add: word_less_nat_alt unat_gt_0)
  have "sint (ucast (h5_SamplingRate hdr) :: u64) = int (unat (packet ! 24))"
  proof -
    have "(ucast (h5_SamplingRate hdr) :: u64) = word_of_nat (unat (packet ! 24))"
      using u by (metis of_nat_unat)
    moreover have "unat (packet ! 24) < 2 ^ 63"
      using unat_u8_less [of "packet ! 24"] by (rule less_trans) simp
    ultimately show ?thesis by (simp only: sint_u64_of_nat)
  qed
  moreover have "i64 (int (unat (r5_Bytes (record_at5 packet 0)) * unat (packet ! 24)))
      = int (unat (r5_Bytes (record_at5 packet 0)) * unat (packet ! 24))"
  proof (rule i64_int)
    have "unat (r5_Bytes (record_at5 packet 0)) * unat (packet ! 24) \<le> 4294967296 * 256"
      by (intro mult_le_mono less_imp_le unat_u32_less unat_u8_less)
    then have "int (unat (r5_Bytes (record_at5 packet 0)) * unat (packet ! 24)) \<le> 1099511627776"
      by linarith
    also have "(1099511627776 :: int) < 2 ^ 63" by simp
    finally show "int (unat (r5_Bytes (record_at5 packet 0)) * unat (packet ! 24)) < 2 ^ 63" .
  qed
  ultimately show "BytesOut (flow_of5 v hdr (record_at5 packet 0))
      = int (unat (r5_Bytes (record_at5 packet 0))) * int (unat (packet ! 24))"
    using no_override pos by (simp add: flow_of5_def Let_def sampling5_def scaled_def)
qed

theorem netflow5_rate_reads_source_address_witness:
  "BytesOut (flow_of5 (sample_env ''netflow5'') sample_header5
     (record_at5 sample_packet5 0)) = 300 * 10"
proof -
  have l: "72 \<le> length sample_packet5" and b: "sample_packet5 ! 23 = 0" "sample_packet5 ! 24 = 10"
    and o: "override_of (sample_env ''netflow5'') = 0"
    by (simp_all add: sample_packet5_def override_of_def sample_env_def)
  show ?thesis
    using netflow5_rate_reads_source_address [OF sample_header5_read l b(1) o] b(2) sample_record5
    by simp
qed

end
