(* ===== verification/NetFlow9.thy ===== *)
theory NetFlow9
  imports NetFlow5
begin

text \<open>
  \<^verbatim>\<open>internal/modules/netflow/netflow9.go\<close>: the template-based NetFlow v9 datagram. A datagram
  is a header and a run of flow sets: template sets fill the exporter's cache, data sets are
  decoded with the template their id names, others are skipped.
\<close>

section \<open>Header and constants\<close>

record netFlow9Header =
  h9_Version :: u16
  h9_Count :: u16
  h9_SysUptime :: u32
  h9_UnixSecs :: u32
  h9_SequenceNum :: u32
  h9_SourceID :: u32

definition read_header9 :: "bytes \<Rightarrow> netFlow9Header option" where
  "read_header9 p =
     (if length p < 20 then None
      else Some \<lparr>h9_Version = get16 p 0, h9_Count = get16 p 2, h9_SysUptime = get32 p 4,
        h9_UnixSecs = get32 p 8, h9_SequenceNum = get32 p 12, h9_SourceID = get32 p 16\<rparr>)"

text \<open>The field types the decoder reads, as \<^verbatim>\<open>NF9_*\<close>.\<close>

datatype nf9_type = IN_BYTES | IN_PKTS | PROTOCOL | L4_SRC_PORT | L4_DST_PORT | LAST_SWITCHED
  | FIRST_SWITCHED | IPV4_SRC_ADDR | IPV4_DST_ADDR | IPV6_SRC_ADDR | IPV6_DST_ADDR | INPUT_IFACE
  | OTHER_TYPE

definition nf9_type_of :: "u16 \<Rightarrow> nf9_type" where
  "nf9_type_of t =
     (if t = 8 then IPV4_SRC_ADDR else if t = 12 then IPV4_DST_ADDR
      else if t = 27 then IPV6_SRC_ADDR else if t = 28 then IPV6_DST_ADDR
      else if t = 7 then L4_SRC_PORT else if t = 11 then L4_DST_PORT
      else if t = 4 then PROTOCOL else if t = 1 then IN_BYTES else if t = 2 then IN_PKTS
      else if t = 22 then FIRST_SWITCHED else if t = 21 then LAST_SWITCHED
      else if t = 10 then INPUT_IFACE else OTHER_TYPE)"

section \<open>Template sets\<close>

text \<open>
  The inner loop of \<^verbatim>\<open>parseNetFlow9TemplateSet\<close>; the inner \<^const>\<open>None\<close> is its early
  return on a truncated template.
\<close>

fun read_fields9 :: "bytes \<Rightarrow> nat \<Rightarrow> nat \<Rightarrow> field9 list \<Rightarrow> (field9 list \<times> nat) option option" where
  "read_fields9 data pos 0 flds = Some (Some (flds, pos))"
| "read_fields9 data pos (Suc n) flds =
     (if pos + 4 > length data then Some None
      else do {
        ty \<leftarrow> be16_at data pos;
        len \<leftarrow> be16_at data (pos + 2);
        read_fields9 data (pos + 4) n (flds @ [\<lparr>fieldType = ty, length9 = len\<rparr>])
      })"

lemma read_fields9_pos:
  "read_fields9 data pos n flds = Some (Some (flds', pos')) \<Longrightarrow> pos' = pos + 4 * n"
proof (induction n arbitrary: pos flds)
  case (Suc n)
  then obtain fs where "read_fields9 data (pos + 4) n fs = Some (Some (flds', pos'))"
    by (auto simp: bind_eq_Some_conv split: if_splits)
  from Suc.IH [OF this] show ?case by simp
qed simp

definition store_template9 :: "u32 \<Rightarrow> u16 \<Rightarrow> field9 list \<Rightarrow> exporterState \<Rightarrow> exporterState" where
  "store_template9 sourceID tid flds ex =
     ex\<lparr>tmplCache9 := Store9 sourceID 0 tid flds (tmplCache9 ex)\<rparr>"

function templates9 :: "bytes \<Rightarrow> nat \<Rightarrow> u32 \<Rightarrow> exporterState \<Rightarrow> exporterState option" where
  "templates9 data pos sourceID ex =
     (if pos + 4 \<le> length data then do {
        tid \<leftarrow> be16_at data pos;
        fieldCount \<leftarrow> be16_at data (pos + 2);
        r \<leftarrow> read_fields9 data (pos + 4) (unat fieldCount) [];
        (case r of
           None \<Rightarrow> Some ex
         | Some (flds, pos') \<Rightarrow> templates9 data pos' sourceID (store_template9 sourceID tid flds ex))
      } else Some ex)"
  by pat_completeness auto
termination
  by (relation "measure (\<lambda>(data, pos, sourceID, ex). length data - pos)")
    (auto dest: read_fields9_pos)

declare templates9.simps [simp del]

definition parseNetFlow9TemplateSet :: "bytes \<Rightarrow> u32 \<Rightarrow> exporterState \<Rightarrow> exporterState option" where
  "parseNetFlow9TemplateSet data sourceID ex =
     (if length data < 4 then Some ex else templates9 data 4 sourceID ex)"

section \<open>One data record\<close>

text \<open>The variables of \<^verbatim>\<open>decodeNetFlow9Record\<close> that its loop assigns.\<close>

record dec9 =
  d_srcIP :: string
  d_dstIP :: string
  d_srcPort :: int
  d_dstPort :: int
  d_proto :: string
  d_bytes :: int
  d_packets :: int
  d_firstTime :: u32
  d_lastTime :: u32
  d_iface :: string

definition dec9_0 :: dec9 where
  "dec9_0 = \<lparr>d_srcIP = [], d_dstIP = [], d_srcPort = 0, d_dstPort = 0, d_proto = [], d_bytes = 0,
     d_packets = 0, d_firstTime = 0, d_lastTime = 0, d_iface = []\<rparr>"

definition if_index :: "nat \<Rightarrow> string" where
  "if_index n = ''ifIndex '' @ dec n"

definition field_step9 :: "nf9_type \<Rightarrow> bytes \<Rightarrow> dec9 \<Rightarrow> dec9 option" where
  "field_step9 ty fld d =
     (case ty of
        IPV4_SRC_ADDR \<Rightarrow>
          if 4 \<le> length fld then do { a \<leftarrow> gslice fld 0 4; Some (d\<lparr>d_srcIP := ip_string a\<rparr>) }
          else Some d
      | IPV4_DST_ADDR \<Rightarrow>
          if 4 \<le> length fld then do { a \<leftarrow> gslice fld 0 4; Some (d\<lparr>d_dstIP := ip_string a\<rparr>) }
          else Some d
      | IPV6_SRC_ADDR \<Rightarrow>
          if 16 \<le> length fld then do { a \<leftarrow> gslice fld 0 16; Some (d\<lparr>d_srcIP := ip_string a\<rparr>) }
          else Some d
      | IPV6_DST_ADDR \<Rightarrow>
          if 16 \<le> length fld then do { a \<leftarrow> gslice fld 0 16; Some (d\<lparr>d_dstIP := ip_string a\<rparr>) }
          else Some d
      | L4_SRC_PORT \<Rightarrow>
          if 2 \<le> length fld then do { p \<leftarrow> be16 fld; Some (d\<lparr>d_srcPort := int (unat p)\<rparr>) }
          else Some d
      | L4_DST_PORT \<Rightarrow>
          if 2 \<le> length fld then do { p \<leftarrow> be16 fld; Some (d\<lparr>d_dstPort := int (unat p)\<rparr>) }
          else Some d
      | PROTOCOL \<Rightarrow>
          if 1 \<le> length fld then do { b \<leftarrow> idx fld 0; Some (d\<lparr>d_proto := protoName b\<rparr>) }
          else Some d
      | IN_BYTES \<Rightarrow>
          if 4 \<le> length fld then do { n \<leftarrow> be32 fld; Some (d\<lparr>d_bytes := int (unat n)\<rparr>) }
          else Some d
      | IN_PKTS \<Rightarrow>
          if 4 \<le> length fld then do { n \<leftarrow> be32 fld; Some (d\<lparr>d_packets := int (unat n)\<rparr>) }
          else Some d
      | FIRST_SWITCHED \<Rightarrow>
          if 4 \<le> length fld then do { n \<leftarrow> be32 fld; Some (d\<lparr>d_firstTime := n\<rparr>) } else Some d
      | LAST_SWITCHED \<Rightarrow>
          if 4 \<le> length fld then do { n \<leftarrow> be32 fld; Some (d\<lparr>d_lastTime := n\<rparr>) } else Some d
      | INPUT_IFACE \<Rightarrow>
          if 2 \<le> length fld then do { n \<leftarrow> be16 fld; Some (d\<lparr>d_iface := if_index (unat n)\<rparr>) }
          else if 4 \<le> length fld then do { n \<leftarrow> be32 fld; Some (d\<lparr>d_iface := if_index (unat n)\<rparr>) }
          else Some d
      | OTHER_TYPE \<Rightarrow> Some d)"

fun fields_loop9 :: "bytes \<Rightarrow> nat \<Rightarrow> field9 list \<Rightarrow> dec9 \<Rightarrow> dec9 option" where
  "fields_loop9 rec pos [] d = Some d"
| "fields_loop9 rec pos (f # fs) d =
     (if pos + unat (length9 f) > length rec then Some d
      else do {
        fld \<leftarrow> gslice rec pos (pos + unat (length9 f));
        d' \<leftarrow> field_step9 (nf9_type_of (fieldType f)) fld d;
        fields_loop9 rec (pos + unat (length9 f)) fs d'
      })"

definition flow_of9 :: "env \<Rightarrow> int \<Rightarrow> int \<Rightarrow> dec9 \<Rightarrow> flow" where
  "flow_of9 v baseTime sysUptime d =
     (let ts = (if d_firstTime d > 0 then
                  let t = baseTime * 1000 - sysUptime + int (unat (d_firstTime d))
                  in if t < 0 then baseTime else t
                else baseTime);
          dur = (if d_lastTime d \<ge> d_firstTime d \<and> d_firstTime d > 0
                 then int (unat (d_lastTime d - d_firstTime d)) else 0)
      in flow0\<lparr>Source := ''netflow9:'' @ remote v, TS := ts, Iface := d_iface d,
           SrcIP := d_srcIP d, DstIP := d_dstIP d, SrcPort := d_srcPort d, DstPort := d_dstPort d,
           Proto := d_proto d, BytesOut := d_bytes d, Packets := d_packets d, DurationMs := dur,
           Key := flow_key ''netflow9'' (d_srcIP d) (d_srcPort d) (d_dstIP d) (d_dstPort d)
             (d_proto d) ts\<rparr>)"

definition decodeNetFlow9Record :: "env \<Rightarrow> bytes \<Rightarrow> field9 list \<Rightarrow> int \<Rightarrow> int \<Rightarrow> flow option" where
  "decodeNetFlow9Record v rec flds baseTime sysUptime = do {
     d \<leftarrow> fields_loop9 rec 0 flds dec9_0;
     Some (flow_of9 v baseTime sysUptime d)
   }"

section \<open>Data sets\<close>

definition addressed :: "flow \<Rightarrow> bool" where
  "addressed f \<longleftrightarrow> SrcIP f \<noteq> [] \<and> DstIP f \<noteq> []"

definition count_record :: "exporterState \<Rightarrow> exporterState" where
  "count_record ex = ex\<lparr>recordsTotal := add_u64 (recordsTotal ex) 1\<rparr>"

definition recordLen9 :: "field9 list \<Rightarrow> nat" where
  "recordLen9 flds = sum_list (map (\<lambda>f. unat (length9 f)) flds)"

function data_records9 ::
  "env \<Rightarrow> bytes \<Rightarrow> nat \<Rightarrow> nat \<Rightarrow> field9 list \<Rightarrow> int \<Rightarrow> int \<Rightarrow> nat \<Rightarrow> exporterState \<Rightarrow> flow list
     \<Rightarrow> (exporterState \<times> flow list) option"
where
  "data_records9 v data len recordLen flds baseTime sysUptime pos ex flows =
     (if pos + recordLen \<le> len \<and> 0 < recordLen then do {
        rec \<leftarrow> gslice data pos (pos + recordLen);
        f \<leftarrow> decodeNetFlow9Record v rec flds baseTime sysUptime;
        data_records9 v data len recordLen flds baseTime sysUptime (pos + recordLen)
          (if addressed f then count_record ex else ex)
          (if addressed f then flows @ [f] else flows)
      } else Some (ex, flows))"
  by pat_completeness auto
termination
  by (relation "measure (\<lambda>(v, data, len, recordLen, flds, b, s, pos, ex, flows). len - pos)") auto

declare data_records9.simps [simp del]

text \<open>
  The loop's caller has returned when \<^verbatim>\<open>recordLen == 0\<close>, which is why its guard may repeat it.
  The result is the flows and the number of sets dropped, as the code returns them.
\<close>

definition parseNetFlow9DataSet ::
  "env \<Rightarrow> bytes \<Rightarrow> u32 \<Rightarrow> int \<Rightarrow> int \<Rightarrow> exporterState \<Rightarrow> (exporterState \<times> flow list \<times> nat) option"
where
  "parseNetFlow9DataSet v data sourceID baseTime sysUptime ex =
     (if length data < 4 then Some (ex, [], 0)
      else do {
        flowSetID \<leftarrow> be16_at data 0;
        len \<leftarrow> be16_at data 2;
        let (tmpl, c) = Get9 sourceID 0 flowSetID (tmplCache9 ex);
        let ex1 = ex\<lparr>tmplCache9 := c\<rparr>;
        (case tmpl of
           None \<Rightarrow> Some (ex1, [], 1)
         | Some flds \<Rightarrow>
             if recordLen9 flds = 0 then Some (ex1, [], 1)
             else do {
               (ex2, flows) \<leftarrow> data_records9 v data (unat len) (recordLen9 flds) flds
                 baseTime sysUptime 4 ex1 [];
               Some (ex2, flows, 0)
             })
      })"

section \<open>The handler\<close>

definition count_drops :: "nat \<Rightarrow> exporterState \<Rightarrow> exporterState" where
  "count_drops n ex = (if 0 < n then ex\<lparr>dropsTotal := add_u64 (dropsTotal ex) n\<rparr> else ex)"

fun sets9 ::
  "env \<Rightarrow> netFlow9Header \<Rightarrow> bytes \<Rightarrow> nat \<Rightarrow> nat \<Rightarrow> exporterState \<Rightarrow> flow list
     \<Rightarrow> (exporterState \<times> flow list) option"
where
  "sets9 v hdr packet 0 pos ex flows = Some (ex, flows)"
| "sets9 v hdr packet (Suc n) pos ex flows =
     (if pos + 4 > length packet then Some (ex, flows)
      else do {
        flowSetID \<leftarrow> be16_at packet pos;
        len \<leftarrow> be16_at packet (pos + 2);
        (if len < 4 then Some (ex, flows)
         else if pos + unat len > length packet then Some (ex, flows)
         else do {
           set \<leftarrow> gslice packet pos (pos + unat len);
           (if flowSetID = 0 then do {
              ex' \<leftarrow> parseNetFlow9TemplateSet set (h9_SourceID hdr) ex;
              sets9 v hdr packet n (pos + unat len) ex' flows
            } else if flowSetID = 1 then sets9 v hdr packet n (pos + unat len) ex flows
            else do {
              (ex', fs, dropped) \<leftarrow> parseNetFlow9DataSet v set (h9_SourceID hdr)
                (int (unat (h9_UnixSecs hdr))) (int (unat (h9_SysUptime hdr))) ex;
              sets9 v hdr packet n (pos + unat len) (count_drops dropped ex') (flows @ fs)
            })
         })
      })"

definition handleNetFlow9 :: "env \<Rightarrow> bytes \<Rightarrow> exporters \<Rightarrow> outcome" where
  "handleNetFlow9 v packet es =
     (if length packet < 20 then Some (es, [])
      else case read_header9 packet of
        None \<Rightarrow> Some (es, [])
      | Some hdr \<Rightarrow>
          if h9_Version hdr \<noteq> 9 then Some (es, [])
          else (case getExporter v es of
            (None, es1) \<Rightarrow> Some (es1, [])
          | (Some ex, es1) \<Rightarrow> do {
              (ex1, flows) \<leftarrow> sets9 v hdr packet (unat (h9_Count hdr)) 20 ex [];
              let (ex2, batch) = store_batch v flows ex1;
              Some (put_exporter v ex2 es1, batch)
            }))"

section \<open>No panics\<close>

lemma read_fields9_total [no_panic]: "\<exists>r. read_fields9 data pos n flds = Some r"
proof (induction n arbitrary: pos flds)
  case (Suc n)
  show ?case
  proof (cases "pos + 4 > length data")
    case False
    then obtain a b where "be16_at data pos = Some a" "be16_at data (pos + 2) = Some b"
      using be16_at_Some [of pos data] be16_at_Some [of "pos + 2" data] by auto
    then show ?thesis using Suc False by simp
  qed simp
qed simp

lemma store_template9_ok: "exporter_ok ex \<Longrightarrow> exporter_ok (store_template9 s t flds ex)"
  using nf9.inv_store [of "tmplCache9 ex" "(s, 0, t)" flds]
  by (simp add: exporter_ok_def store_template9_def)

lemma templates9_total [no_panic]:
  "\<exists>ex'. templates9 data pos s ex = Some ex' \<and> (exporter_ok ex \<longrightarrow> exporter_ok ex')"
proof (induction data pos s ex rule: templates9.induct)
  case (1 data pos s ex)
  show ?case
  proof (cases "pos + 4 \<le> length data")
    case True
    obtain tid where t: "be16_at data pos = Some tid" using be16_at_Some [of pos data] True by auto
    obtain fc where c: "be16_at data (pos + 2) = Some fc"
      using be16_at_Some [of "pos + 2" data] True by auto
    obtain r where r: "read_fields9 data (pos + 4) (unat fc) [] = Some r"
      using read_fields9_total by blast
    show ?thesis
    proof (cases r)
      case None
      then show ?thesis using True t c r by (subst templates9.simps) simp
    next
      case (Some p)
      obtain flds pos' where p: "p = (flds, pos')" by (cases p)
      have "templates9 data pos s ex = templates9 data pos' s (store_template9 s tid flds ex)"
        using True t c r Some p by (subst templates9.simps) simp
      then show ?thesis
        using 1 [OF True t c r, of p] Some p store_template9_ok by auto
    qed
  qed (subst templates9.simps, simp)
qed

lemma parseNetFlow9TemplateSet_total [no_panic]:
  "\<exists>ex'. parseNetFlow9TemplateSet data s ex = Some ex' \<and> (exporter_ok ex \<longrightarrow> exporter_ok ex')"
  using templates9_total [of data 4 s ex] by (auto simp: parseNetFlow9TemplateSet_def)

lemma field_step9_total [no_panic]: "\<exists>d'. field_step9 ty fld d = Some d'"
  using be16_Some [of fld] be32_Some [of fld] idx_Some [of 0 fld]
  by (cases ty) (auto simp: field_step9_def gslice_Some Suc_le_eq)

lemma fields_loop9_total [no_panic]: "\<exists>d'. fields_loop9 rec pos fs d = Some d'"
proof (induction fs arbitrary: pos d)
  case (Cons f fs)
  obtain d' where d': "field_step9 (nf9_type_of (fieldType f))
      (take (unat (length9 f)) (drop pos rec)) d = Some d'"
    using field_step9_total by blast
  show ?case using Cons d' by (simp add: gslice_Some)
qed simp

lemma decodeNetFlow9Record_total [no_panic]: "\<exists>f. decodeNetFlow9Record v rec flds b s = Some f"
  using fields_loop9_total [of rec 0 flds dec9_0] by (auto simp: decodeNetFlow9Record_def)

lemma count_record_ok [simp]: "exporter_ok (count_record ex) = exporter_ok ex"
  by (simp add: count_record_def)

lemma count_drops_ok [simp]: "exporter_ok (count_drops n ex) = exporter_ok ex"
  by (simp add: count_drops_def)

text \<open>Inside a set whose length field is its length, the record loop stays in the set.\<close>

lemma data_records9_total [no_panic]:
  "len \<le> length data \<Longrightarrow>
   \<exists>ex' fs. data_records9 v data len rl flds b s pos ex flows = Some (ex', fs)
     \<and> (exporter_ok ex \<longrightarrow> exporter_ok ex')"
proof (induction v data len rl flds b s pos ex flows rule: data_records9.induct)
  case (1 v data len rl flds b s pos ex flows)
  show ?case
  proof (cases "pos + rl \<le> len \<and> 0 < rl")
    case True
    then have g: "gslice data pos (pos + rl) = Some (take rl (drop pos data))"
      using 1(2) by (simp add: gslice_Some)
    obtain f where f: "decodeNetFlow9Record v (take rl (drop pos data)) flds b s = Some f"
      using decodeNetFlow9Record_total by blast
    show ?thesis
      using 1(1) [OF True g f 1(2)] True g f by (subst data_records9.simps) auto
  next
    case False
    then show ?thesis by (subst data_records9.simps) auto
  qed
qed

lemma parseNetFlow9DataSet_total [no_panic]:
  assumes "\<And>len. be16_at data 2 = Some len \<Longrightarrow> unat len \<le> length data"
  shows "\<exists>ex' fs n. parseNetFlow9DataSet v data s b u ex = Some (ex', fs, n)
     \<and> (exporter_ok ex \<longrightarrow> exporter_ok ex')"
proof (cases "length data < 4")
  case False
  obtain sid where sid: "be16_at data 0 = Some sid" using be16_at_Some [of 0 data] False by auto
  obtain len where len: "be16_at data 2 = Some len" using be16_at_Some [of 2 data] False by auto
  obtain tmpl c where g: "Get9 s 0 sid (tmplCache9 ex) = (tmpl, c)"
    by (cases "Get9 s 0 sid (tmplCache9 ex)")
  have c: "exporter_ok ex \<Longrightarrow> exporter_ok (ex\<lparr>tmplCache9 := c\<rparr>)"
    using nf9.inv_get [of "tmplCache9 ex" "(s, 0, sid)"] g by (simp add: exporter_ok_def)
  show ?thesis
  proof (cases tmpl)
    case None
    then show ?thesis using False sid len g c by (simp add: parseNetFlow9DataSet_def Let_def)
  next
    case (Some flds)
    obtain ex2 fs where "data_records9 v data (unat len) (recordLen9 flds) flds b u 4
        (ex\<lparr>tmplCache9 := c\<rparr>) [] = Some (ex2, fs)"
      "exporter_ok (ex\<lparr>tmplCache9 := c\<rparr>) \<longrightarrow> exporter_ok ex2"
      using data_records9_total [OF assms [OF len]] by blast
    then show ?thesis
      using Some False sid len g c by (simp add: parseNetFlow9DataSet_def Let_def)
  qed
qed (simp add: parseNetFlow9DataSet_def)

lemma sets9_total [no_panic]:
  "\<exists>ex' fs. sets9 v hdr packet n pos ex flows = Some (ex', fs) \<and> (exporter_ok ex \<longrightarrow> exporter_ok ex')"
proof (induction n arbitrary: pos ex flows)
  case (Suc n)
  show ?case
  proof (cases "pos + 4 > length packet")
    case False
    then obtain fid len where w: "be16_at packet pos = Some fid" "be16_at packet (pos + 2) = Some len"
      using be16_at_Some [of pos packet] be16_at_Some [of "pos + 2" packet] by auto
    show ?thesis
    proof (cases "len < 4 \<or> pos + unat len > length packet")
      case True
      then show ?thesis using False w by auto
    next
      case in_range: False
      then have l4: "4 \<le> unat len" by (simp add: not_less word_le_nat_alt)
      let ?set = "take (unat len) (drop pos packet)"
      have g: "gslice packet pos (pos + unat len) = Some ?set"
        using in_range by (simp add: gslice_Some)
      have inner: "be16_at ?set 2 = Some l \<Longrightarrow> unat l \<le> length ?set" for l
        using in_range l4 w by (auto simp: be16_at_take_drop)
      obtain ex1 where t: "parseNetFlow9TemplateSet ?set (h9_SourceID hdr) ex = Some ex1"
        "exporter_ok ex \<longrightarrow> exporter_ok ex1"
        using parseNetFlow9TemplateSet_total by blast
      obtain ex2 fs k where d: "parseNetFlow9DataSet v ?set (h9_SourceID hdr)
          (int (unat (h9_UnixSecs hdr))) (int (unat (h9_SysUptime hdr))) ex = Some (ex2, fs, k)"
        "exporter_ok ex \<longrightarrow> exporter_ok ex2"
        using parseNetFlow9DataSet_total [OF inner] by blast
      show ?thesis
        using False w in_range g t d Suc.IH [of "pos + unat len" ex1 flows]
          Suc.IH [of "pos + unat len" ex flows]
          Suc.IH [of "pos + unat len" "count_drops k ex2" "flows @ fs"]
        by auto
    qed
  qed simp
qed simp

section \<open>Properties\<close>

text \<open>
  no NetFlow v9 datagram makes the decoder panic, whatever its flow sets, templates and
  lengths hold and whatever templates the exporter announced before; the exporters stay
  well-formed.
\<close>

lemma netflow9_total:
  "\<exists>es' batch. handleNetFlow9 v packet es = Some (es', batch) \<and> (exporters_ok es \<longrightarrow> exporters_ok es')"
proof (cases "read_header9 packet")
  case None
  then show ?thesis by (simp add: handleNetFlow9_def)
next
  case (Some hdr)
  obtain r es1 where get: "getExporter v es = (r, es1)" by (cases "getExporter v es")
  show ?thesis
  proof (cases r)
    case None
    then show ?thesis
      using Some get getExporter_ok(1) [of es v r es1] by (simp add: handleNetFlow9_def)
  next
    case (Some ex)
    obtain ex1 fs where s: "sets9 v hdr packet (unat (h9_Count hdr)) 20 ex [] = Some (ex1, fs)"
      "exporter_ok ex \<longrightarrow> exporter_ok ex1"
      using sets9_total by blast
    have "exporters_ok es \<longrightarrow> exporters_ok (put_exporter v (fst (store_batch v fs ex1)) es1)"
      using getExporter_ok(1,2) [OF _ get] Some s(2)
      by (auto simp: put_exporter_def intro!: exporters_ok_mput store_batch_ok)
    then show ?thesis
      using \<open>read_header9 packet = Some hdr\<close> get Some s getExporter_ok(1) [OF _ get]
      by (simp add: handleNetFlow9_def Let_def case_prod_unfold)
  qed
qed

text \<open>A template set as an exporter writes it, for the round trip.\<close>

definition enc_field9 :: "field9 \<Rightarrow> bytes" where
  "enc_field9 f = put16 (fieldType f) @ put16 (length9 f)"

definition enc_template9 :: "u16 \<times> field9 list \<Rightarrow> bytes" where
  "enc_template9 t = put16 (fst t) @ put16 (word_of_nat (length (snd t)))
     @ concat (map enc_field9 (snd t))"

lemma read_fields9_enc:
  assumes "drop pos data = concat (map enc_field9 fs) @ rest"
  shows "read_fields9 data pos (length fs) acc = Some (Some (acc @ fs, pos + 4 * length fs))
    \<and> drop (pos + 4 * length fs) data = rest"
  using assms
proof (induction fs arbitrary: pos acc)
  case (Cons f fs)
  from Cons.prems have "drop pos data
      = put16 (fieldType f) @ put16 (length9 f) @ concat (map enc_field9 fs) @ rest"
    by (simp add: enc_field9_def [of f])
  note a = be16_at_put16_put16 [OF this]
  from Cons.IH [OF a(3), of "acc @ [\<lparr>fieldType = fieldType f, length9 = length9 f\<rparr>]"]
  show ?case
    using a by (simp add: algebra_simps)
qed simp

lemma templates9_enc:
  assumes "drop pos data = concat (map enc_template9 ts) @ pad" and "length pad < 4"
    and "\<And>t. t \<in> set ts \<Longrightarrow> length (snd t) < 65536"
  shows "templates9 data pos s ex = Some (fold (\<lambda>(tid, flds). store_template9 s tid flds) ts ex)"
  using assms
proof (induction ts arbitrary: pos ex)
  case Nil
  then have "length (drop pos data) < 4" by simp
  then show ?case by (subst templates9.simps) auto
next
  case (Cons t ts)
  obtain tid flds where t: "t = (tid, flds)" by (cases t)
  from Cons.prems(1) t have "drop pos data = put16 tid @ put16 (word_of_nat (length flds))
      @ concat (map enc_field9 flds) @ concat (map enc_template9 ts) @ pad"
    by (simp add: enc_template9_def [of "(tid, flds)"])
  note a = be16_at_put16_put16 [OF this]
  have n: "unat (word_of_nat (length flds) :: u16) = length flds"
    using Cons.prems(3) [of t] t by (simp add: unat_of_nat take_bit_nat_eq_self_iff)
  note r = read_fields9_enc [OF a(3), of "[]"]
  have "templates9 data pos s ex
      = templates9 data (pos + 4 + 4 * length flds) s (store_template9 s tid flds ex)"
    using a n r by (subst templates9.simps) simp
  also have "\<dots> = Some (fold (\<lambda>(tid, flds). store_template9 s tid flds) ts (store_template9 s tid flds ex))"
    using Cons.IH r Cons.prems(2,3) by simp
  finally show ?case by (simp add: t)
qed

lemma fold_store_template9:
  "fold (\<lambda>(tid, flds). store_template9 s tid flds) ts ex
    = ex\<lparr>tmplCache9 := fold (\<lambda>(tid, flds). Store9 s 0 tid flds) ts (tmplCache9 ex)\<rparr>"
  by (induction ts arbitrary: ex) (auto simp: store_template9_def split: prod.split)

text \<open>
  C39: parsing a template set stores exactly the templates an exporter encoded in it, in order and
  field by field, under the datagram's source id; up to three bytes of padding are ignored.
\<close>

theorem netflow9_template_roundtrip:
  assumes "length header = 4" and "length pad < 4"
    and "\<And>t. t \<in> set ts \<Longrightarrow> length (snd t) < 65536"
  shows "parseNetFlow9TemplateSet (header @ concat (map enc_template9 ts) @ pad) s ex
    = Some (ex\<lparr>tmplCache9 := fold (\<lambda>(tid, flds). Store9 s 0 tid flds) ts (tmplCache9 ex)\<rparr>)"
  using templates9_enc [of 4 "header @ concat (map enc_template9 ts) @ pad" ts pad s ex] assms
  by (simp add: parseNetFlow9TemplateSet_def fold_store_template9)

theorem netflow9_template_roundtrip_witness:
  "parseNetFlow9TemplateSet ([0, 0, 0, 16] @ concat (map enc_template9
       [(256, [\<lparr>fieldType = 8, length9 = 4\<rparr>, \<lparr>fieldType = 12, length9 = 4\<rparr>])]) @ []) 7
       (new_exporter (sample_env ''netflow9''))
   = Some ((new_exporter (sample_env ''netflow9''))
       \<lparr>tmplCache9 := Store9 7 0 256 [\<lparr>fieldType = 8, length9 = 4\<rparr>, \<lparr>fieldType = 12, length9 = 4\<rparr>]
         (tmplCache9 (new_exporter (sample_env ''netflow9'')))\<rparr>)"
proof -
  have len: "length ([0, 0, 0, 16] :: bytes) = 4" and pad: "length ([] :: bytes) < 4" by simp_all
  show ?thesis
    by (subst netflow9_template_roundtrip [OF len pad]) auto
qed

text \<open>The record at position \<open>i\<close> of a data set, decoded.\<close>

definition record_at9 :: "env \<Rightarrow> bytes \<Rightarrow> field9 list \<Rightarrow> int \<Rightarrow> int \<Rightarrow> nat \<Rightarrow> nat \<Rightarrow> flow" where
  "record_at9 v data flds b u pos i =
     the (decodeNetFlow9Record v (take (recordLen9 flds) (drop (pos + i * recordLen9 flds) data)) flds b u)"

lemma data_records9_result:
  assumes "0 < recordLen9 flds" and "len \<le> length data"
  shows "data_records9 v data len (recordLen9 flds) flds b u pos ex flows =
    (let fs = filter addressed (map (record_at9 v data flds b u pos) [0..<(len - pos) div recordLen9 flds])
     in Some ((count_record ^^ length fs) ex, flows @ fs))"
proof (induction "(len - pos) div recordLen9 flds" arbitrary: pos ex flows)
  case 0
  then have "len - pos < recordLen9 flds" using assms(1) by (simp add: div_eq_0_iff)
  then have "\<not> pos + recordLen9 flds \<le> len" by linarith
  then show ?case using 0 by (subst data_records9.simps) simp
next
  case (Suc n)
  let ?rl = "recordLen9 flds"
  have le: "pos + ?rl \<le> len"
  proof (rule ccontr)
    assume "\<not> pos + ?rl \<le> len"
    with assms(1) have "len - pos < ?rl" by linarith
    then have "(len - pos) div ?rl = 0" by (rule div_less)
    with Suc.hyps(2) show False by simp
  qed
  have n: "n = (len - (pos + ?rl)) div ?rl"
  proof -
    have "(len - pos) div ?rl = Suc ((len - pos - ?rl) div ?rl)"
      using le assms(1) by (intro le_div_geq) simp_all
    with Suc.hyps(2) show ?thesis by (simp add: diff_diff_left)
  qed
  obtain f where f: "decodeNetFlow9Record v (take ?rl (drop pos data)) flds b u = Some f"
    using decodeNetFlow9Record_total by blast
  have step: "data_records9 v data len ?rl flds b u pos ex flows
      = data_records9 v data len ?rl flds b u (pos + ?rl)
          (if addressed f then count_record ex else ex) (if addressed f then flows @ [f] else flows)"
    using le assms f by (subst data_records9.simps) (simp add: gslice_Some)
  have f0: "record_at9 v data flds b u pos 0 = f" using f by (simp add: record_at9_def)
  have shift: "map (record_at9 v data flds b u pos) [0..<Suc n]
      = f # map (record_at9 v data flds b u (pos + ?rl)) [0..<n]"
    unfolding upt_conv_Cons [OF zero_less_Suc] map_Suc_upt [symmetric]
    by (simp add: f record_at9_def add.assoc comp_def)
  show ?case
    unfolding step Suc.hyps(1) [OF n, folded n] Suc.hyps(2) [symmetric] shift
    by (simp add: Let_def funpow_swap1 n [symmetric])
qed

lemma be16_at_length: "be16_at data pos = Some w \<Longrightarrow> pos + 2 \<le> length data"
  by (auto simp: be16_at_def gslice_def bind_eq_Some_conv split: if_splits)

text \<open>
  A data set is decoded with the template its id names. Without one, or with a template of
  zero length, the set counts as one drop and gives no flow; otherwise the set is cut into exactly
  \<open>(length - 4) div recordLen\<close> records, the trailing padding is left alone, the flows with both
  addresses are returned in order and each is counted once.
\<close>

theorem netflow9_data_set:
  assumes sid: "be16_at data 0 = Some setid" and len: "be16_at data 2 = Some len"
    and inside: "unat len \<le> length data"
    and tmpl: "Get9 s 0 setid (tmplCache9 ex) = (tmpl, c)"
  defines "ex1 \<equiv> ex\<lparr>tmplCache9 := c\<rparr>"
  shows "parseNetFlow9DataSet v data s b u ex = Some
    (case tmpl of
       None \<Rightarrow> (ex1, [], 1)
     | Some flds \<Rightarrow>
         if recordLen9 flds = 0 then (ex1, [], 1)
         else let fs = filter addressed
                (map (record_at9 v data flds b u 4) [0..<(unat len - 4) div recordLen9 flds])
              in ((count_record ^^ length fs) ex1, fs, 0))"
proof -
  have "4 \<le> length data" using be16_at_length [OF len] by simp
  then show ?thesis
    using sid len tmpl data_records9_result [OF _ inside]
    by (simp add: parseNetFlow9DataSet_def ex1_def Let_def split: option.split)
qed

text \<open>A data set of one 8-byte record, for a template of two IPv4 addresses.\<close>

definition sample_set9 :: bytes where
  "sample_set9 = [1, 0, 0, 12, 10, 0, 0, 1, 10, 0, 0, 2]"

definition sample_fields9 :: "field9 list" where
  "sample_fields9 = [\<lparr>fieldType = 8, length9 = 4\<rparr>, \<lparr>fieldType = 12, length9 = 4\<rparr>]"

definition sample_exporter9 :: exporterState where
  "sample_exporter9 = store_template9 7 256 sample_fields9 (new_exporter (sample_env ''netflow9''))"

theorem netflow9_data_set_witness:
  "\<exists>ex' fs. parseNetFlow9DataSet (sample_env ''netflow9'') sample_set9 7 1000 50 sample_exporter9
     = Some (ex', fs, 0) \<and> length fs \<le> 1"
proof -
  have id: "be16_at sample_set9 0 = Some 256" and len: "be16_at sample_set9 2 = Some 12"
    and inside: "unat (12 :: u16) \<le> length sample_set9"
    by (simp_all add: sample_set9_def be16_at_def gslice_def join16_def)
  obtain c where g: "Get9 7 0 256 (tmplCache9 sample_exporter9) = (Some sample_fields9, c)"
    using Get9_Store9 [of 7 0 256 sample_fields9]
    by (cases "Get9 7 0 256 (tmplCache9 sample_exporter9)")
      (simp add: sample_exporter9_def store_template9_def, metis fst_conv)
  have rl: "recordLen9 sample_fields9 = 8" by (simp add: recordLen9_def sample_fields9_def)
  show ?thesis
    by (subst netflow9_data_set [OF id len inside g]) (simp add: rl Let_def)
qed
















text \<open>
  The two decoders disagree on the unit of a flow's time stamp. A flow that starts at the
  instant of the export is stamped with the export time in seconds by NetFlow v5, and with 1000
  times that number by NetFlow v9, which stores milliseconds in the field the others fill with
  seconds.
\<close>

theorem netflow9_stamps_milliseconds:
  assumes "d_firstTime d = h5_SysUptime hdr" and "r5_FirstTime rec = h5_SysUptime hdr"
    and "0 < h5_SysUptime hdr"
  shows "TS (flow_of9 v (int (unat (h5_UnixSecs hdr))) (int (unat (h5_SysUptime hdr))) d)
      = 1000 * TS (flow_of5 v hdr rec)"
  using assms by (simp add: flow_of9_def flow_of5_def flow_start5_def Let_def flow0_def)

theorem netflow9_stamps_milliseconds_witness:
  "TS (flow_of9 (sample_env ''netflow9'') 1694498816 10000 (dec9_0\<lparr>d_firstTime := 10000\<rparr>))
     = 1000 * 1694498816"
proof -
  define rec where "rec = (record_at5 sample_packet5 0)\<lparr>r5_FirstTime := 10000\<rparr>"
  have "TS (flow_of5 (sample_env ''netflow9'') sample_header5 rec) = 1694498816"
    by (simp add: flow_of5_def flow_start5_def Let_def flow0_def rec_def sample_header5_def)
  then show ?thesis
    using netflow9_stamps_milliseconds [of "dec9_0\<lparr>d_firstTime := 10000\<rparr>" sample_header5 rec
        "sample_env ''netflow9''"]
    by (simp add: rec_def sample_header5_def)
qed

end
