(* ===== verification/Ipfix.thy ===== *)
theory Ipfix
  imports NetFlow9
begin

text \<open>
  \<^verbatim>\<open>internal/modules/netflow/ipfix.go\<close>: IPFIX messages. Sets are walked up to the length the
  header claims; templates may hold enterprise elements and fields of variable length, so the
  length of a record is known only once it is decoded.
\<close>

unbundle bit_operations_syntax

section \<open>Header and constants\<close>

record ipfixHeader =
  hI_Version :: u16
  hI_Length :: u16
  hI_ExportTime :: u32
  hI_SequenceNum :: u32
  hI_DomainID :: u32

definition read_headerI :: "bytes \<Rightarrow> ipfixHeader option" where
  "read_headerI p =
     (if length p < 16 then None
      else Some \<lparr>hI_Version = get16 p 0, hI_Length = get16 p 2, hI_ExportTime = get32 p 4,
        hI_SequenceNum = get32 p 8, hI_DomainID = get32 p 12\<rparr>)"

text \<open>The information elements the decoder reads, as \<^verbatim>\<open>IPFIX_*\<close>.\<close>

datatype ipfix_ie = IE_IPV4_SRC_ADDR | IE_IPV4_DST_ADDR | IE_IPV6_SRC_ADDR | IE_IPV6_DST_ADDR
  | IE_L4_SRC_PORT | IE_L4_DST_PORT | IE_PROTOCOL | IE_IN_BYTES | IE_OUT_BYTES
  | IE_IN_PKTS | IE_OUT_PKTS | IE_FLOW_START_MS | IE_FLOW_END_MS | IE_INPUT_SNMP | IE_OTHER

text \<open>
  The plain and the delta counters have the same case body, so they share a constructor.
\<close>

definition ipfix_ie_of :: "u16 \<Rightarrow> ipfix_ie" where
  "ipfix_ie_of i =
     (if i = 8 then IE_IPV4_SRC_ADDR else if i = 12 then IE_IPV4_DST_ADDR
      else if i = 27 then IE_IPV6_SRC_ADDR else if i = 28 then IE_IPV6_DST_ADDR
      else if i = 7 then IE_L4_SRC_PORT else if i = 11 then IE_L4_DST_PORT
      else if i = 4 then IE_PROTOCOL
      else if i = 1 \<or> i = 29 then IE_IN_BYTES else if i = 23 \<or> i = 30 then IE_OUT_BYTES
      else if i = 2 \<or> i = 31 then IE_IN_PKTS else if i = 24 \<or> i = 32 then IE_OUT_PKTS
      else if i = 152 then IE_FLOW_START_MS else if i = 153 then IE_FLOW_END_MS
      else if i = 10 then IE_INPUT_SNMP else IE_OTHER)"

section \<open>Template sets\<close>

definition field_of :: "u16 \<Rightarrow> u16 \<Rightarrow> fieldIP" where
  "field_of i len = \<lparr>ie_id = i AND 0x7fff, lengthIP = len, varlen = (len = 65535)\<rparr>"

fun read_fieldsI :: "bytes \<Rightarrow> nat \<Rightarrow> nat \<Rightarrow> fieldIP list \<Rightarrow> (fieldIP list \<times> nat) option option" where
  "read_fieldsI data pos 0 flds = Some (Some (flds, pos))"
| "read_fieldsI data pos (Suc n) flds =
     (if pos + 4 > length data then Some None
      else do {
        i \<leftarrow> be16_at data pos;
        len \<leftarrow> be16_at data (pos + 2);
        (if i AND 0x8000 \<noteq> 0 then
           (if pos + 4 + 4 > length data then Some None
            else read_fieldsI data (pos + 4 + 4) n (flds @ [field_of i len]))
         else read_fieldsI data (pos + 4) n (flds @ [field_of i len]))
      })"

lemma read_fieldsI_pos:
  "read_fieldsI data pos n flds = Some (Some (flds', pos')) \<Longrightarrow> pos \<le> pos'"
proof (induction n arbitrary: pos flds)
  case (Suc n)
  then show ?case
    by (auto simp: bind_eq_Some_conv split: if_splits dest!: Suc.IH)
qed simp

definition store_templateI :: "u32 \<Rightarrow> u16 \<Rightarrow> fieldIP list \<Rightarrow> exporterState \<Rightarrow> exporterState" where
  "store_templateI domainID tid flds ex =
     ex\<lparr>tmplCacheI := StoreIP domainID tid flds (tmplCacheI ex)\<rparr>"

function templatesI :: "bytes \<Rightarrow> nat \<Rightarrow> u32 \<Rightarrow> exporterState \<Rightarrow> exporterState option" where
  "templatesI data pos domainID ex =
     (if pos + 4 \<le> length data then do {
        tid \<leftarrow> be16_at data pos;
        fieldCount \<leftarrow> be16_at data (pos + 2);
        r \<leftarrow> read_fieldsI data (pos + 4) (unat fieldCount) [];
        (case r of
           None \<Rightarrow> Some ex
         | Some (flds, pos') \<Rightarrow> templatesI data pos' domainID (store_templateI domainID tid flds ex))
      } else Some ex)"
  by pat_completeness auto
termination
  by (relation "measure (\<lambda>(data, pos, domainID, ex). length data - pos)")
    (auto dest!: read_fieldsI_pos)

declare templatesI.simps [simp del]

definition parseIPFIXTemplateSet :: "bytes \<Rightarrow> u32 \<Rightarrow> exporterState \<Rightarrow> exporterState option" where
  "parseIPFIXTemplateSet data domainID ex =
     (if length data < 4 then Some ex else templatesI data 4 domainID ex)"

section \<open>One data record\<close>

record decI =
  i_srcIP :: string
  i_dstIP :: string
  i_srcPort :: int
  i_dstPort :: int
  i_proto :: string
  i_inBytes :: int
  i_outBytes :: int
  i_inPkts :: int
  i_outPkts :: int
  i_startMs :: int
  i_endMs :: int
  i_iface :: string

definition decI_0 :: decI where
  "decI_0 = \<lparr>i_srcIP = [], i_dstIP = [], i_srcPort = 0, i_dstPort = 0, i_proto = [],
     i_inBytes = 0, i_outBytes = 0, i_inPkts = 0, i_outPkts = 0, i_startMs = 0, i_endMs = 0,
     i_iface = []\<rparr>"

text \<open>A counter of eight or four bytes; a shorter field leaves the old value.\<close>

definition read_counter :: "bytes \<Rightarrow> int \<Rightarrow> int option" where
  "read_counter fld old =
     (if 8 \<le> length fld then do { n \<leftarrow> be64 fld; Some (sint n) }
      else if 4 \<le> length fld then do { n \<leftarrow> be32 fld; Some (int (unat n)) }
      else Some old)"

definition field_stepI :: "ipfix_ie \<Rightarrow> bytes \<Rightarrow> decI \<Rightarrow> decI option" where
  "field_stepI ie fld d =
     (case ie of
        IE_IPV4_SRC_ADDR \<Rightarrow>
          if 4 \<le> length fld then do { a \<leftarrow> gslice fld 0 4; Some (d\<lparr>i_srcIP := ip_string a\<rparr>) }
          else Some d
      | IE_IPV4_DST_ADDR \<Rightarrow>
          if 4 \<le> length fld then do { a \<leftarrow> gslice fld 0 4; Some (d\<lparr>i_dstIP := ip_string a\<rparr>) }
          else Some d
      | IE_IPV6_SRC_ADDR \<Rightarrow>
          if 16 \<le> length fld then do { a \<leftarrow> gslice fld 0 16; Some (d\<lparr>i_srcIP := ip_string a\<rparr>) }
          else Some d
      | IE_IPV6_DST_ADDR \<Rightarrow>
          if 16 \<le> length fld then do { a \<leftarrow> gslice fld 0 16; Some (d\<lparr>i_dstIP := ip_string a\<rparr>) }
          else Some d
      | IE_L4_SRC_PORT \<Rightarrow>
          if 2 \<le> length fld then do { p \<leftarrow> be16 fld; Some (d\<lparr>i_srcPort := int (unat p)\<rparr>) }
          else Some d
      | IE_L4_DST_PORT \<Rightarrow>
          if 2 \<le> length fld then do { p \<leftarrow> be16 fld; Some (d\<lparr>i_dstPort := int (unat p)\<rparr>) }
          else Some d
      | IE_PROTOCOL \<Rightarrow>
          if 1 \<le> length fld then do { b \<leftarrow> idx fld 0; Some (d\<lparr>i_proto := protoName b\<rparr>) }
          else Some d
      | IE_IN_BYTES \<Rightarrow> do { n \<leftarrow> read_counter fld (i_inBytes d); Some (d\<lparr>i_inBytes := n\<rparr>) }
      | IE_OUT_BYTES \<Rightarrow> do { n \<leftarrow> read_counter fld (i_outBytes d); Some (d\<lparr>i_outBytes := n\<rparr>) }
      | IE_IN_PKTS \<Rightarrow> do { n \<leftarrow> read_counter fld (i_inPkts d); Some (d\<lparr>i_inPkts := n\<rparr>) }
      | IE_OUT_PKTS \<Rightarrow> do { n \<leftarrow> read_counter fld (i_outPkts d); Some (d\<lparr>i_outPkts := n\<rparr>) }
      | IE_FLOW_START_MS \<Rightarrow>
          if 8 \<le> length fld then do { n \<leftarrow> be64 fld; Some (d\<lparr>i_startMs := sint n\<rparr>) } else Some d
      | IE_FLOW_END_MS \<Rightarrow>
          if 8 \<le> length fld then do { n \<leftarrow> be64 fld; Some (d\<lparr>i_endMs := sint n\<rparr>) } else Some d
      | IE_INPUT_SNMP \<Rightarrow>
          if 2 \<le> length fld then do { n \<leftarrow> be16 fld; Some (d\<lparr>i_iface := if_index (unat n)\<rparr>) }
          else if 4 \<le> length fld then do { n \<leftarrow> be32 fld; Some (d\<lparr>i_iface := if_index (unat n)\<rparr>) }
          else Some d
      | IE_OTHER \<Rightarrow> Some d)"

text \<open>
  The length of a variable-length field and the position behind the length: one byte, or the
  two bytes behind a 255 when the data still hold them.
\<close>

definition var_length :: "bytes \<Rightarrow> nat \<Rightarrow> (nat \<times> nat) option" where
  "var_length data pos = do {
     lenByte \<leftarrow> idx data pos;
     (if lenByte = 255 \<and> pos + 1 + 1 < length data then do {
        n \<leftarrow> be16_at data (pos + 1);
        Some (unat n, pos + 1 + 2)
      } else Some (unat lenByte, pos + 1))
   }"

fun fields_loopI :: "bytes \<Rightarrow> nat \<Rightarrow> fieldIP list \<Rightarrow> decI \<Rightarrow> (decI \<times> nat) option" where
  "fields_loopI data pos [] d = Some (d, pos)"
| "fields_loopI data pos (f # fs) d =
     (if varlen f then
        (if pos \<ge> length data then Some (d, pos)
         else do {
           (fieldLen, pos') \<leftarrow> var_length data pos;
           (if pos' + fieldLen > length data then Some (d, pos')
            else fields_loopI data (pos' + fieldLen) fs d)
         })
      else if pos + unat (lengthIP f) > length data then Some (d, pos)
      else do {
        fld \<leftarrow> gslice data pos (pos + unat (lengthIP f));
        d' \<leftarrow> field_stepI (ipfix_ie_of (ie_id f)) fld d;
        fields_loopI data (pos + unat (lengthIP f)) fs d'
      })"

definition flow_ofI :: "env \<Rightarrow> int \<Rightarrow> decI \<Rightarrow> flow" where
  "flow_ofI v exportTime d =
     (let p = i64 (i_inPkts d + i_outPkts d);
          pkts = (if p = 0 then i_inPkts d else p);
          ts = (if 0 < i_startMs d then i_startMs d sdiv 1000 else exportTime);
          dur = (if 0 < i_endMs d \<and> 0 < i_startMs d then i64 (i_endMs d - i_startMs d) else 0)
      in flow0\<lparr>Source := ''ipfix:'' @ remote v, TS := ts, Iface := i_iface d,
           SrcIP := i_srcIP d, DstIP := i_dstIP d, SrcPort := i_srcPort d, DstPort := i_dstPort d,
           Proto := i_proto d, BytesIn := i_inBytes d, BytesOut := i_outBytes d, Packets := pkts,
           DurationMs := dur,
           Key := flow_key ''ipfix'' (i_srcIP d) (i_srcPort d) (i_dstIP d) (i_dstPort d)
             (i_proto d) ts\<rparr>)"

definition decodeIPFIXRecord :: "env \<Rightarrow> bytes \<Rightarrow> fieldIP list \<Rightarrow> int \<Rightarrow> (flow \<times> nat) option" where
  "decodeIPFIXRecord v data flds exportTime = do {
     (d, pos) \<leftarrow> fields_loopI data 0 flds decI_0;
     Some (flow_ofI v exportTime d, pos)
   }"

section \<open>Data sets and the handler\<close>

function data_recordsI ::
  "env \<Rightarrow> bytes \<Rightarrow> fieldIP list \<Rightarrow> int \<Rightarrow> nat \<Rightarrow> exporterState \<Rightarrow> flow list
     \<Rightarrow> (exporterState \<times> flow list) option"
where
  "data_recordsI v data flds exportTime pos ex flows =
     (if pos < length data then do {
        rest \<leftarrow> gslice data pos (length data);
        (f, consumed) \<leftarrow> decodeIPFIXRecord v rest flds exportTime;
        (if consumed = 0 then Some (ex, flows)
         else data_recordsI v data flds exportTime (pos + consumed)
           (if addressed f then count_record ex else ex)
           (if addressed f then flows @ [f] else flows))
      } else Some (ex, flows))"
  by pat_completeness auto
termination
  by (relation "measure (\<lambda>(v, data, flds, t, pos, ex, flows). length data - pos)") auto

declare data_recordsI.simps [simp del]

definition parseIPFIXDataSet ::
  "env \<Rightarrow> bytes \<Rightarrow> u32 \<Rightarrow> int \<Rightarrow> exporterState \<Rightarrow> (exporterState \<times> flow list \<times> nat) option"
where
  "parseIPFIXDataSet v data domainID exportTime ex =
     (if length data < 4 then Some (ex, [], 0)
      else do {
        setID \<leftarrow> be16_at data 0;
        let (tmpl, c) = GetIP domainID setID (tmplCacheI ex);
        let ex1 = ex\<lparr>tmplCacheI := c\<rparr>;
        (case tmpl of
           None \<Rightarrow> Some (ex1, [], 1)
         | Some flds \<Rightarrow> do {
             (ex2, flows) \<leftarrow> data_recordsI v data flds exportTime 4 ex1 [];
             Some (ex2, flows, 0)
           })
      })"

function setsI ::
  "env \<Rightarrow> ipfixHeader \<Rightarrow> bytes \<Rightarrow> nat \<Rightarrow> exporterState \<Rightarrow> flow list
     \<Rightarrow> (exporterState \<times> flow list) option"
where
  "setsI v hdr packet pos ex flows =
     (if pos < unat (hI_Length hdr) then
        (if pos + 4 > unat (hI_Length hdr) then Some (ex, flows)
         else do {
           setID \<leftarrow> be16_at packet pos;
           len \<leftarrow> be16_at packet (pos + 2);
           (if len < 4 then Some (ex, flows)
            else if pos + unat len > unat (hI_Length hdr) then Some (ex, flows)
            else do {
              set \<leftarrow> gslice packet pos (pos + unat len);
              (if setID = 2 then do {
                 ex' \<leftarrow> parseIPFIXTemplateSet set (hI_DomainID hdr) ex;
                 setsI v hdr packet (pos + unat len) ex' flows
               } else if setID = 3 then setsI v hdr packet (pos + unat len) ex flows
               else do {
                 (ex', fs, dropped) \<leftarrow> parseIPFIXDataSet v set (hI_DomainID hdr)
                   (int (unat (hI_ExportTime hdr))) ex;
                 setsI v hdr packet (pos + unat len) (count_drops dropped ex') (flows @ fs)
               })
            })
         })
      else Some (ex, flows))"
  by pat_completeness auto
termination
  by (relation "measure (\<lambda>(v, hdr, packet, pos, ex, flows). unat (hI_Length hdr) - pos)")
    (auto simp: not_less word_le_nat_alt)

declare setsI.simps [simp del]

definition handleIPFIX :: "env \<Rightarrow> bytes \<Rightarrow> exporters \<Rightarrow> outcome" where
  "handleIPFIX v packet es =
     (if length packet < 16 then Some (es, [])
      else case read_headerI packet of
        None \<Rightarrow> Some (es, [])
      | Some hdr \<Rightarrow>
          if hI_Version hdr \<noteq> 10 then Some (es, [])
          else if unat (hI_Length hdr) > length packet then Some (es, [])
          else (case getExporter v es of
            (None, es1) \<Rightarrow> Some (es1, [])
          | (Some ex, es1) \<Rightarrow> do {
              (ex1, flows) \<leftarrow> setsI v hdr packet 16 ex [];
              let (ex2, batch) = store_batch v flows ex1;
              Some (put_exporter v ex2 es1, batch)
            }))"

section \<open>No panics\<close>

lemma read_fieldsI_total [no_panic]: "\<exists>r. read_fieldsI data pos n flds = Some r"
proof (induction n arbitrary: pos flds)
  case (Suc n)
  show ?case
  proof (cases "pos + 4 > length data")
    case False
    then obtain a b where "be16_at data pos = Some a" "be16_at data (pos + 2) = Some b"
      using be16_at_Some [of pos data] be16_at_Some [of "pos + 2" data] by auto
    then show ?thesis using Suc False by simp
  qed simp
qed simp

lemma store_templateI_ok: "exporter_ok ex \<Longrightarrow> exporter_ok (store_templateI d t flds ex)"
  using ipf.inv_store [of "tmplCacheI ex" "(d, t)" flds]
  by (simp add: exporter_ok_def store_templateI_def)

lemma templatesI_total [no_panic]:
  "\<exists>ex'. templatesI data pos s ex = Some ex' \<and> (exporter_ok ex \<longrightarrow> exporter_ok ex')"
proof (induction data pos s ex rule: templatesI.induct)
  case (1 data pos s ex)
  show ?case
  proof (cases "pos + 4 \<le> length data")
    case True
    obtain tid where t: "be16_at data pos = Some tid" using be16_at_Some [of pos data] True by auto
    obtain fc where c: "be16_at data (pos + 2) = Some fc"
      using be16_at_Some [of "pos + 2" data] True by auto
    obtain r where r: "read_fieldsI data (pos + 4) (unat fc) [] = Some r"
      using read_fieldsI_total by blast
    show ?thesis
    proof (cases r)
      case None
      then show ?thesis using True t c r by (subst templatesI.simps) simp
    next
      case (Some p)
      obtain flds pos' where p: "p = (flds, pos')" by (cases p)
      have "templatesI data pos s ex = templatesI data pos' s (store_templateI s tid flds ex)"
        using True t c r Some p by (subst templatesI.simps) simp
      then show ?thesis
        using 1 [OF True t c r, of p] Some p store_templateI_ok by auto
    qed
  qed (subst templatesI.simps, simp)
qed

lemma parseIPFIXTemplateSet_total [no_panic]:
  "\<exists>ex'. parseIPFIXTemplateSet data s ex = Some ex' \<and> (exporter_ok ex \<longrightarrow> exporter_ok ex')"
  using templatesI_total [of data 4 s ex] by (auto simp: parseIPFIXTemplateSet_def)

lemma read_counter_total [no_panic]: "\<exists>n. read_counter fld old = Some n"
  using be64_Some [of fld] be32_Some [of fld] by (auto simp: read_counter_def)

lemma field_stepI_total [no_panic]: "\<exists>d'. field_stepI ie fld d = Some d'"
proof -
  obtain n1 n2 n3 n4 where "read_counter fld (i_inBytes d) = Some n1"
    "read_counter fld (i_outBytes d) = Some n2" "read_counter fld (i_inPkts d) = Some n3"
    "read_counter fld (i_outPkts d) = Some n4"
    using read_counter_total by metis
  then show ?thesis
    using be16_Some [of fld] be32_Some [of fld] be64_Some [of fld] idx_Some [of 0 fld]
    by (cases ie) (auto simp: field_stepI_def gslice_Some Suc_le_eq)
qed

lemma var_length_total [no_panic]:
  assumes "pos < length data"
  shows "\<exists>n pos'. var_length data pos = Some (n, pos') \<and> pos < pos' \<and> pos' \<le> length data"
proof (cases "data ! pos = 255 \<and> pos + 2 < length data")
  case True
  then obtain n where "be16_at data (pos + 1) = Some n"
    using be16_at_Some [of "pos + 1" data] by auto
  then show ?thesis using assms True by (simp add: var_length_def idx_Some)
next
  case False
  then show ?thesis using assms by (auto simp: var_length_def idx_Some)
qed

text \<open>Decoding stays inside the data, whatever the lengths in the data say.\<close>

lemma fields_loopI_total [no_panic]:
  "pos \<le> length data \<Longrightarrow> \<exists>d' pos'. fields_loopI data pos fs d = Some (d', pos') \<and> pos' \<le> length data"
proof (induction fs arbitrary: pos d)
  case (Cons f fs)
  show ?case
  proof (cases "varlen f")
    case True
    show ?thesis
    proof (cases "pos < length data")
      case lt: True
      obtain n p where "var_length data pos = Some (n, p)" "p \<le> length data"
        using var_length_total [OF lt] by blast
      then show ?thesis using True lt Cons.IH [of "p + n" d] by (simp add: not_less)
    qed (use True Cons.prems in simp)
  next
    case False
    obtain d' where d': "field_stepI (ipfix_ie_of (ie_id f))
        (take (unat (lengthIP f)) (drop pos data)) d = Some d'"
      using field_stepI_total by blast
    show ?thesis
      using False Cons.prems Cons.IH [of "pos + unat (lengthIP f)" d'] d'
      by (auto simp: gslice_Some not_less)
  qed
qed simp

lemma decodeIPFIXRecord_total [no_panic]:
  "\<exists>f n. decodeIPFIXRecord v data flds t = Some (f, n) \<and> n \<le> length data"
  using fields_loopI_total [of 0 data flds decI_0] by (auto simp: decodeIPFIXRecord_def)

lemma data_recordsI_total [no_panic]:
  "\<exists>ex' fs. data_recordsI v data flds t pos ex flows = Some (ex', fs)
     \<and> (exporter_ok ex \<longrightarrow> exporter_ok ex')"
proof (induction v data flds t pos ex flows rule: data_recordsI.induct)
  case (1 v data flds t pos ex flows)
  show ?case
  proof (cases "pos < length data")
    case True
    then have g: "gslice data pos (length data) = Some (drop pos data)" by (simp add: gslice_Some)
    obtain f n where f: "decodeIPFIXRecord v (drop pos data) flds t = Some (f, n)"
      using decodeIPFIXRecord_total by blast
    show ?thesis
    proof (cases "n = 0")
      case n: False
      show ?thesis
        using 1 [OF True g f refl n] True g f n by (subst data_recordsI.simps) auto
    qed (use True g f in \<open>subst data_recordsI.simps, auto\<close>)
  qed (subst data_recordsI.simps, auto)
qed

lemma parseIPFIXDataSet_total [no_panic]:
  "\<exists>ex' fs n. parseIPFIXDataSet v data s t ex = Some (ex', fs, n)
     \<and> (exporter_ok ex \<longrightarrow> exporter_ok ex')"
proof (cases "length data < 4")
  case False
  obtain sid where sid: "be16_at data 0 = Some sid" using be16_at_Some [of 0 data] False by auto
  obtain tmpl c where g: "GetIP s sid (tmplCacheI ex) = (tmpl, c)"
    by (cases "GetIP s sid (tmplCacheI ex)")
  have c: "exporter_ok ex \<Longrightarrow> exporter_ok (ex\<lparr>tmplCacheI := c\<rparr>)"
    using ipf.inv_get [of "tmplCacheI ex" "(s, sid)"] g by (simp add: exporter_ok_def)
  obtain ex2 fs where "data_recordsI v data (the tmpl) t 4 (ex\<lparr>tmplCacheI := c\<rparr>) [] = Some (ex2, fs)"
    "exporter_ok (ex\<lparr>tmplCacheI := c\<rparr>) \<longrightarrow> exporter_ok ex2"
    using data_recordsI_total by blast
  then show ?thesis
    using False sid g c by (cases tmpl) (simp_all add: parseIPFIXDataSet_def Let_def)
qed (simp add: parseIPFIXDataSet_def)

lemma setsI_total [no_panic]:
  "unat (hI_Length hdr) \<le> length packet \<Longrightarrow>
   \<exists>ex' fs. setsI v hdr packet pos ex flows = Some (ex', fs) \<and> (exporter_ok ex \<longrightarrow> exporter_ok ex')"
proof (induction "unat (hI_Length hdr) - pos" arbitrary: pos ex flows rule: less_induct)
  case less
  show ?case
  proof (cases "pos + 4 \<le> unat (hI_Length hdr)")
    case True
    then obtain sid len where w: "be16_at packet pos = Some sid" "be16_at packet (pos + 2) = Some len"
      using be16_at_Some [of pos packet] be16_at_Some [of "pos + 2" packet] less.prems by auto
    show ?thesis
    proof (cases "len < 4 \<or> pos + unat len > unat (hI_Length hdr)")
      case t: True
      then show ?thesis using True w by (subst setsI.simps) auto
    next
      case in_range: False
      then have l4: "4 \<le> unat len" by (simp add: not_less word_le_nat_alt)
      let ?set = "take (unat len) (drop pos packet)"
      have g: "gslice packet pos (pos + unat len) = Some ?set"
        using in_range less.prems by (simp add: gslice_Some)
      obtain ex1 where t: "parseIPFIXTemplateSet ?set (hI_DomainID hdr) ex = Some ex1"
        "exporter_ok ex \<longrightarrow> exporter_ok ex1"
        using parseIPFIXTemplateSet_total by blast
      obtain ex2 fs k where d: "parseIPFIXDataSet v ?set (hI_DomainID hdr)
          (int (unat (hI_ExportTime hdr))) ex = Some (ex2, fs, k)"
        "exporter_ok ex \<longrightarrow> exporter_ok ex2"
        using parseIPFIXDataSet_total by blast
      have "unat (hI_Length hdr) - (pos + unat len) < unat (hI_Length hdr) - pos"
        using True l4 by linarith
      note ih = less.hyps [OF this less.prems]
      show ?thesis
        using True w in_range g t d ih [of ex1 flows] ih [of ex flows]
          ih [of "count_drops k ex2" "flows @ fs"]
        by (subst setsI.simps) auto
    qed
  qed (subst setsI.simps, auto)
qed

section \<open>Properties\<close>

text \<open>
  no IPFIX message makes the decoder panic or loop, whatever its sets, templates, enterprise
  elements and variable-length fields hold; the exporters stay well-formed.
\<close>

lemma ipfix_total:
  "\<exists>es' batch. handleIPFIX v packet es = Some (es', batch) \<and> (exporters_ok es \<longrightarrow> exporters_ok es')"
proof (cases "read_headerI packet")
  case None
  then show ?thesis by (simp add: handleIPFIX_def)
next
  case (Some hdr)
  obtain r es1 where get: "getExporter v es = (r, es1)" by (cases "getExporter v es")
  show ?thesis
  proof (cases "r = None \<or> unat (hI_Length hdr) > length packet")
    case True
    then show ?thesis
      using Some get getExporter_ok(1) [of es v r es1] by (auto simp: handleIPFIX_def)
  next
    case False
    then obtain ex where ex: "r = Some ex" by auto
    obtain ex1 fs where s: "setsI v hdr packet 16 ex [] = Some (ex1, fs)"
      "exporter_ok ex \<longrightarrow> exporter_ok ex1"
      using setsI_total False by (metis not_less)
    have "exporters_ok es \<longrightarrow> exporters_ok (put_exporter v (fst (store_batch v fs ex1)) es1)"
      using getExporter_ok(1,2) [OF _ get] ex s(2)
      by (auto simp: put_exporter_def intro!: exporters_ok_mput store_batch_ok)
    then show ?thesis
      using Some False get ex s by (simp add: handleIPFIX_def Let_def case_prod_unfold)
  qed
qed

text \<open>
  A template as an exporter writes it: each element with its length and, for an enterprise
  element, the high bit set and the enterprise number behind it.
\<close>

type_synonym wire_field = "u16 \<times> u16 \<times> u32 option"

definition enc_fieldI :: "wire_field \<Rightarrow> bytes" where
  "enc_fieldI w = (case w of (i, len, ent) \<Rightarrow>
     (case ent of
        None \<Rightarrow> put16 i @ put16 len
      | Some n \<Rightarrow> put16 (i OR 0x8000) @ put16 len @ put32 n))"

definition enc_templateI :: "u16 \<times> wire_field list \<Rightarrow> bytes" where
  "enc_templateI t = put16 (fst t) @ put16 (word_of_nat (length (snd t)))
     @ concat (map enc_fieldI (snd t))"

definition wire_ok :: "wire_field \<Rightarrow> bool" where
  "wire_ok w \<longleftrightarrow> fst w AND 0x8000 = 0"

text \<open>What the cache keeps of a wire field: its number and length, not its enterprise.\<close>

definition cached_field :: "wire_field \<Rightarrow> fieldIP" where
  "cached_field w = field_of (fst w) (fst (snd w))"

lemma field_of_enterprise: "field_of (i OR 0x8000) len = field_of i len"
proof -
  have "(i OR 0x8000) AND 0x7fff = i AND 0x7fff" by (simp add: bit.conj_disj_distrib2)
  then show ?thesis by (simp add: field_of_def)
qed

lemma enterprise_bit: "(i OR 0x8000) AND 0x8000 \<noteq> (0 :: u16)"
  by (simp add: bit.conj_disj_distrib2 or_eq_0_iff)

lemma read_fieldsI_enc:
  assumes "drop pos data = concat (map enc_fieldI ws) @ rest" and "\<forall>w \<in> set ws. wire_ok w"
  shows "\<exists>pos'. read_fieldsI data pos (length ws) acc = Some (Some (acc @ map cached_field ws, pos'))
    \<and> drop pos' data = rest"
  using assms
proof (induction ws arbitrary: pos acc)
  case (Cons w ws)
  obtain i len ent where w: "w = (i, len, ent)" by (cases w)
  show ?case
  proof (cases ent)
    case None
    from Cons.prems(1) have "drop pos data = put16 i @ put16 len @ concat (map enc_fieldI ws) @ rest"
      by (simp add: enc_fieldI_def [of "(i, len, None)"] w None)
    note a = be16_at_put16_put16 [OF this]
    have "i AND 0x8000 = 0" using Cons.prems(2) by (simp add: wire_ok_def w)
    moreover have "field_of i len = cached_field w" by (simp add: cached_field_def w)
    ultimately show ?thesis
      using Cons.IH [OF a(3), of "acc @ [cached_field w]"] Cons.prems(2) a by simp
  next
    case (Some n)
    from Cons.prems(1) have "drop pos data = put16 (i OR 0x8000) @ put16 len @ put32 n
        @ concat (map enc_fieldI ws) @ rest"
      by (simp add: enc_fieldI_def [of "(i, len, Some n)"] w Some)
    note a = be16_at_put16_put16 [OF this]
    from a(3) have "length (drop (pos + 4) data) \<ge> 4" by simp
    then have len: "pos + 4 + 4 \<le> length data" by simp
    have "drop (pos + 4 + 4) data = drop 4 (drop (pos + 4) data)" by (simp only: drop_drop add.commute)
    then have d: "drop (pos + 4 + 4) data = concat (map enc_fieldI ws) @ rest"
      unfolding a(3) by simp
    have "field_of (i OR 0x8000) len = cached_field w"
      by (simp add: cached_field_def w field_of_enterprise)
    then show ?thesis
      using Cons.IH [OF d, of "acc @ [cached_field w]"] Cons.prems(2) a len enterprise_bit [of i]
      by simp
  qed
qed simp

lemma templatesI_enc:
  assumes "drop pos data = concat (map enc_templateI ts) @ pad" and "length pad < 4"
    and "\<And>t. t \<in> set ts \<Longrightarrow> length (snd t) < 65536 \<and> (\<forall>w \<in> set (snd t). wire_ok w)"
  shows "templatesI data pos s ex
    = Some (fold (\<lambda>(tid, ws). store_templateI s tid (map cached_field ws)) ts ex)"
  using assms
proof (induction ts arbitrary: pos ex)
  case Nil
  then have "length (drop pos data) < 4" by simp
  then show ?case by (subst templatesI.simps) auto
next
  case (Cons t ts)
  obtain tid ws where t: "t = (tid, ws)" by (cases t)
  from Cons.prems(1) t have "drop pos data = put16 tid @ put16 (word_of_nat (length ws))
      @ concat (map enc_fieldI ws) @ concat (map enc_templateI ts) @ pad"
    by (simp add: enc_templateI_def [of "(tid, ws)"])
  note a = be16_at_put16_put16 [OF this]
  have n: "unat (word_of_nat (length ws) :: u16) = length ws"
    using Cons.prems(3) [of t] t by (simp add: unat_of_nat take_bit_nat_eq_self_iff)
  have wok: "\<forall>w \<in> set ws. wire_ok w" using Cons.prems(3) [of t] t by simp
  obtain pos' where r: "read_fieldsI data (pos + 4) (length ws) [] = Some (Some (map cached_field ws, pos'))"
    "drop pos' data = concat (map enc_templateI ts) @ pad"
    using read_fieldsI_enc [OF a(3) wok, of "[]"] by auto
  have "templatesI data pos s ex = templatesI data pos' s (store_templateI s tid (map cached_field ws) ex)"
    using a n r(1) by (subst templatesI.simps) simp
  also have "\<dots> = Some (fold (\<lambda>(tid, ws). store_templateI s tid (map cached_field ws)) ts
      (store_templateI s tid (map cached_field ws) ex))"
    by (rule Cons.IH [OF r(2) Cons.prems(2)]) (rule Cons.prems(3), rule list.set_intros(2))
  finally show ?case by (simp add: t)
qed

lemma fold_store_templateI:
  "fold (\<lambda>(tid, ws). store_templateI s tid (map cached_field ws)) ts ex
    = ex\<lparr>tmplCacheI := fold (\<lambda>(tid, ws). StoreIP s tid (map cached_field ws)) ts (tmplCacheI ex)\<rparr>"
  by (induction ts arbitrary: ex) (auto simp: store_templateI_def split: prod.split)

text \<open>
  Parsing an IPFIX template set stores every template an exporter encoded in it, enterprise
  elements and variable lengths included, in order; the enterprise numbers are skipped and up to
  three bytes of padding are ignored.
\<close>

theorem ipfix_template_roundtrip:
  assumes "length header = 4" and "length pad < 4"
    and "\<And>t. t \<in> set ts \<Longrightarrow> length (snd t) < 65536 \<and> (\<forall>w \<in> set (snd t). wire_ok w)"
  shows "parseIPFIXTemplateSet (header @ concat (map enc_templateI ts) @ pad) s ex
    = Some (ex\<lparr>tmplCacheI := fold (\<lambda>(tid, ws). StoreIP s tid (map cached_field ws)) ts (tmplCacheI ex)\<rparr>)"
  using templatesI_enc [of 4 "header @ concat (map enc_templateI ts) @ pad" ts pad s ex] assms
  by (simp add: parseIPFIXTemplateSet_def fold_store_templateI)

theorem ipfix_template_roundtrip_witness:
  "parseIPFIXTemplateSet ([0, 2, 0, 24] @ concat (map enc_templateI
       [(256, [(8, 4, None), (12, 65535, Some 9)])]) @ []) 7 (new_exporter (sample_env ''ipfix''))
   = Some ((new_exporter (sample_env ''ipfix''))
       \<lparr>tmplCacheI := StoreIP 7 256 [field_of 8 4, field_of 12 65535]
         (tmplCacheI (new_exporter (sample_env ''ipfix'')))\<rparr>)"
proof -
  have len: "length ([0, 2, 0, 24] :: bytes) = 4" and pad: "length ([] :: bytes) < 4" by simp_all
  show ?thesis
    by (subst ipfix_template_roundtrip [OF len pad]) (auto simp: wire_ok_def cached_field_def)
qed

text \<open>
  The cache forgets the enterprise of an element, and the record decoder reads it as the
  standard element of the same number: of a template announcing enterprise elements 8 and 12 it
  decodes the vendor's bytes as source and destination addresses of a flow.
\<close>

theorem ipfix_enterprise_taken_for_standard:
  assumes "length a = 4" and "length b = 4"
  shows "cached_field (i, l, Some ent) = cached_field (i, l, None)
    \<and> (\<exists>f. decodeIPFIXRecord v (a @ b) (map cached_field [(8, 4, Some ent), (12, 4, Some ent)]) t
          = Some (f, 8) \<and> SrcIP f = ip_string a \<and> DstIP f = ip_string b)"
  using assms
  by (simp add: cached_field_def field_of_def decodeIPFIXRecord_def ipfix_ie_of_def field_stepI_def
      gslice_def flow_ofI_def Let_def)

theorem ipfix_enterprise_taken_for_standard_witness:
  "\<exists>f. decodeIPFIXRecord (sample_env ''ipfix'') ([1, 2, 3, 4] @ [5, 6, 7, 8])
       (map cached_field [(8, 4, Some 9), (12, 4, Some 9)]) 0 = Some (f, 8)
     \<and> SrcIP f = ip_string [1, 2, 3, 4]"
  using ipfix_enterprise_taken_for_standard [of "[1, 2, 3, 4]" "[5, 6, 7, 8]" 8 4 9
      "sample_env ''ipfix''" 0]
  by auto

text \<open>
  A record cut short is stored all the same. When a data set ends behind the two addresses of
  a record whose template goes on, the decoder returns a flow with both addresses and default
  values for everything else, and the set yields it as one more flow.
\<close>

theorem ipfix_truncated_record_stored:
  assumes a: "length a = 4" and b: "length b = 4" and cut: "\<not> varlen f" "0 < lengthIP f"
    and hdr: "length hdr = 4"
  shows "\<exists>fl. data_recordsI v (hdr @ a @ b) (field_of 8 4 # field_of 12 4 # f # fs) t 4 ex []
      = Some (count_record ex, [fl])
    \<and> SrcIP fl = ip_string a \<and> DstIP fl = ip_string b \<and> BytesIn fl = 0 \<and> BytesOut fl = 0
    \<and> Packets fl = 0"
proof -
  have "0 < unat (lengthIP f)" using cut(2) by (simp add: unat_u16_pos_iff word_neq_0_conv)
  with cut have "\<exists>fl. decodeIPFIXRecord v (a @ b) (field_of 8 4 # field_of 12 4 # f # fs) t = Some (fl, 8)
      \<and> SrcIP fl = ip_string a \<and> DstIP fl = ip_string b \<and> BytesIn fl = 0 \<and> BytesOut fl = 0
      \<and> Packets fl = 0"
    using a b by (simp add: field_of_def decodeIPFIXRecord_def ipfix_ie_of_def field_stepI_def
        gslice_def flow_ofI_def Let_def decI_0_def flow0_def i64_def)
  then obtain fl where fl: "decodeIPFIXRecord v (a @ b) (field_of 8 4 # field_of 12 4 # f # fs) t
      = Some (fl, 8)" "SrcIP fl = ip_string a" "DstIP fl = ip_string b" "BytesIn fl = 0"
      "BytesOut fl = 0" "Packets fl = 0"
    by blast
  have "addressed fl" by (simp add: addressed_def fl)
  then show ?thesis
    using fl a b hdr
    by (subst data_recordsI.simps) (simp add: gslice_def, subst data_recordsI.simps, simp)
qed

theorem ipfix_truncated_record_stored_witness:
  "\<exists>fl. data_recordsI (sample_env ''ipfix'') ([1, 0, 0, 12] @ [10, 0, 0, 1] @ [10, 0, 0, 2])
      [field_of 8 4, field_of 12 4, field_of 1 8] 0 4 (new_exporter (sample_env ''ipfix'')) []
      = Some (count_record (new_exporter (sample_env ''ipfix'')), [fl]) \<and> BytesIn fl = 0"
  using ipfix_truncated_record_stored [of "[10, 0, 0, 1]" "[10, 0, 0, 2]" "field_of 1 8" "[1, 0, 0, 12]"
      "sample_env ''ipfix''" "[]" 0 "new_exporter (sample_env ''ipfix'')"]
  by (auto simp: field_of_def)

text \<open>
  Both template decoders test a two-byte length first, so a four-byte interface index is read
  as its high half: every index below 65536 sent in four bytes becomes interface 0.
\<close>

theorem interface_index_high_half:
  "field_step9 INPUT_IFACE (put32 w) d9 = Some (d9\<lparr>d_iface := if_index (unat w div 65536)\<rparr>)
   \<and> field_stepI IE_INPUT_SNMP (put32 w) dI = Some (dI\<lparr>i_iface := if_index (unat w div 65536)\<rparr>)"
proof -
  have "unat w div 65536 < 65536" using unat_u32_less [of w] by linarith
  then have "unat (word_of_nat (unat w div 65536) :: u16) = unat w div 65536"
    by (simp add: unat_of_nat take_bit_nat_eq_self_iff)
  then show ?thesis
    using be16_put32 [of w "[]"] by (simp add: field_step9_def field_stepI_def)
qed

end
