(* ===== verification/SFlow5.thy ===== *)
theory SFlow5
  imports Ipfix
begin

text \<open>
  \<^verbatim>\<open>internal/modules/netflow/sflow5.go\<close> and \<^verbatim>\<open>sflow5_expanded.go\<close>: sFlow v5 samples
  raw frame headers, which are parsed down to the transport ports. A \<^verbatim>\<open>bytes.Reader\<close> is the
  list of the bytes it has left.
\<close>

section \<open>Readers\<close>

text \<open>
  \<^verbatim>\<open>binary.Read\<close> of a \<^verbatim>\<open>uint32\<close> and whether it succeeded: on a short reader it consumes the
  rest and leaves the variable at zero.
\<close>

definition read_u32 :: "bytes \<Rightarrow> u32 \<times> bool \<times> bytes" where
  "read_u32 r = (if length r < 4 then (0, False, []) else (get32 r 0, True, drop 4 r))"

fun read_u32s :: "nat \<Rightarrow> bytes \<Rightarrow> u32 list \<times> bytes" where
  "read_u32s 0 r = ([], r)"
| "read_u32s (Suc n) r =
     (let (w, ok, r1) = read_u32 r; (ws, r2) = read_u32s n r1 in (w # ws, r2))"

text \<open>\<^verbatim>\<open>Reader.Read\<close> into a buffer of \<open>n\<close> bytes; \<^const>\<open>None\<close> is an error or a short read.\<close>

definition read_bytes :: "nat \<Rightarrow> bytes \<Rightarrow> (bytes \<times> bytes) option" where
  "read_bytes n r = (if r = [] \<or> length r < n then None else Some (take n r, drop n r))"

section \<open>One sampled packet\<close>

definition sflow_base :: "env \<Rightarrow> int \<Rightarrow> u32 \<Rightarrow> flow" where
  "sflow_base v baseTime sourceID = flow0\<lparr>Source := ''sflow5:'' @ remote v, TS := baseTime,
     Iface := if_index (unat sourceID)\<rparr>"

definition sflow_key :: "flow \<Rightarrow> string" where
  "sflow_key f = flow_key ''sflow5'' (SrcIP f) (SrcPort f) (DstIP f) (DstPort f) (Proto f) (TS f)"

text \<open>The transport ports behind an IP header of length \<open>off\<close>.\<close>

definition ports_at :: "bytes \<Rightarrow> nat \<Rightarrow> u8 \<Rightarrow> (u16 \<times> u16) option" where
  "ports_at ip off pr =
     (if length ip \<ge> off + 4 then do {
        th \<leftarrow> gslice ip off (length ip);
        (if pr = 6 \<or> pr = 17 then
           (if 4 \<le> length th then do {
              sp \<leftarrow> be16_at th 0; dp \<leftarrow> be16_at th 2; Some (sp, dp)
            } else Some (0, 0))
         else Some (0, 0))
      } else Some (0, 0))"

record ip_info =
  ip_proto :: u8
  ip_src :: string
  ip_dst :: string
  ip_sport :: u16
  ip_dport :: u16

text \<open>
  The IPv4 and IPv6 branches; the inner \<^const>\<open>None\<close> is an early return of the bare flow.
\<close>

definition sflow_ip4 :: "bytes \<Rightarrow> ip_info option option" where
  "sflow_ip4 header =
     (if length header < 14 + 20 then Some None
      else do {
        ip \<leftarrow> gslice header 14 (length header);
        b0 \<leftarrow> idx ip 0;
        (if drop_bit 4 b0 \<noteq> 4 then Some None
         else (let ihl = unat ((b0 AND 0x0f) * 4) in
           if ihl < 20 then Some None
           else do {
             pr \<leftarrow> idx ip 9;
             src \<leftarrow> gslice ip 12 16;
             dst \<leftarrow> gslice ip 16 20;
             (sp, dp) \<leftarrow> ports_at ip ihl pr;
             Some (Some \<lparr>ip_proto = pr, ip_src = ip_string src, ip_dst = ip_string dst,
               ip_sport = sp, ip_dport = dp\<rparr>)
           }))
      })"

definition sflow_ip6 :: "bytes \<Rightarrow> ip_info option option" where
  "sflow_ip6 header =
     (if length header < 14 + 40 then Some None
      else do {
        ip \<leftarrow> gslice header 14 (length header);
        b0 \<leftarrow> idx ip 0;
        (if drop_bit 4 b0 \<noteq> 6 then Some None
         else do {
           pr \<leftarrow> idx ip 6;
           src \<leftarrow> gslice ip 8 24;
           dst \<leftarrow> gslice ip 24 40;
           (sp, dp) \<leftarrow> ports_at ip 40 pr;
           Some (Some \<lparr>ip_proto = pr, ip_src = ip_string src, ip_dst = ip_string dst,
             ip_sport = sp, ip_dport = dp\<rparr>)
         })
      })"

definition sflow_flow :: "flow \<Rightarrow> u32 \<Rightarrow> ip_info \<Rightarrow> flow" where
  "sflow_flow f frameLength i =
     (let g = f\<lparr>SrcIP := ip_src i, DstIP := ip_dst i, SrcPort := int (unat (ip_sport i)),
        DstPort := int (unat (ip_dport i)), Proto := protoName (ip_proto i),
        BytesOut := int (unat frameLength), Packets := 1\<rparr>
      in g\<lparr>Key := sflow_key g\<rparr>)"

definition parseSFlowPacketData :: "env \<Rightarrow> bytes \<Rightarrow> int \<Rightarrow> u32 \<Rightarrow> flow option" where
  "parseSFlowPacketData v data baseTime sourceID =
     (let f = sflow_base v baseTime sourceID in
      if length data < 8 then Some f
      else do {
        headerProtocol \<leftarrow> be32_at data 0;
        frameLength \<leftarrow> be32_at data 4;
        (if headerProtocol \<noteq> 1 then Some f
         else if length data < 16 then Some f
         else do {
           headerLength \<leftarrow> be32_at data 12;
           (if 16 + unat headerLength > length data then Some f
            else do {
              header \<leftarrow> gslice data 16 (16 + unat headerLength);
              (if length header < 14 then Some f
               else do {
                 etherType \<leftarrow> be16_at header 12;
                 info \<leftarrow> (if etherType = 0x0800 then sflow_ip4 header
                          else if etherType = 0x86dd then sflow_ip6 header
                          else Some None);
                 Some (case info of None \<Rightarrow> f | Some i \<Rightarrow> sflow_flow f frameLength i)
               })
            })
         })
      })"

section \<open>The parser with VLAN tags and extension headers\<close>

function vlan_loop :: "bytes \<Rightarrow> u16 \<Rightarrow> nat \<Rightarrow> (u16 \<times> nat) option option" where
  "vlan_loop header etherType off =
     (if etherType = 0x8100 \<or> etherType = 0x88a8 then
        (if off + 4 > length header then Some None
         else do { t \<leftarrow> be16_at header (off + 2); vlan_loop header t (off + 4) })
      else Some (Some (etherType, off)))"
  by pat_completeness auto
termination by (relation "measure (\<lambda>(header, t, off). length header - off)") auto

declare vlan_loop.simps [simp del]

text \<open>
  The loop over IPv6 extension headers. Every header moves on by at least eight bytes, so it ends.
\<close>

definition ext_length :: "u8 \<Rightarrow> nat" where
  "ext_length b = (if unat b * 8 = 0 then 8 else unat b * 8)"

lemma ext_length_pos: "0 < ext_length b"
  by (simp add: ext_length_def)

function ext_loop :: "bytes \<Rightarrow> nat \<Rightarrow> u8 \<Rightarrow> nat \<Rightarrow> flow \<Rightarrow> flow option" where
  "ext_loop header ipo next ext f =
     (if next = 6 \<or> next = 17 then
        (let f1 = f\<lparr>Proto := protoName next\<rparr> in
         if ipo + ext + 4 \<le> length header then do {
           th \<leftarrow> gslice header (ipo + ext) (length header);
           sp \<leftarrow> be16_at th 0;
           dp \<leftarrow> be16_at th 2;
           Some (f1\<lparr>SrcPort := int (unat sp), DstPort := int (unat dp)\<rparr>)
         } else Some f1)
      else if next = 0 \<or> next = 43 \<or> next = 60 then
        (if ipo + ext + 2 > length header then Some f
         else do {
           n \<leftarrow> idx header (ipo + ext);
           l \<leftarrow> idx header (ipo + ext + 1);
           ext_loop header ipo n (ext + ext_length l) f
         })
      else Some (f\<lparr>Proto := protoName next\<rparr>))"
  by pat_completeness auto
termination
  by (relation "measure (\<lambda>(header, ipo, next, ext, f). length header - (ipo + ext))")
    (use ext_length_pos in \<open>auto intro!: diff_less_mono2\<close>)

declare ext_loop.simps [simp del]

definition vlan_ip4 :: "bytes \<Rightarrow> nat \<Rightarrow> flow \<Rightarrow> flow option option" where
  "vlan_ip4 header off f =
     (if off + 20 > length header then Some None
      else do {
        ip \<leftarrow> gslice header off (length header);
        b0 \<leftarrow> idx ip 0;
        (if drop_bit 4 b0 \<noteq> 4 then Some None
         else (let ihl = unat ((b0 AND 0x0f) * 4) in
           if ihl < 20 \<or> ihl > length ip then Some None
           else do {
             pr \<leftarrow> idx ip 9;
             src \<leftarrow> gslice ip 12 16;
             dst \<leftarrow> gslice ip 16 20;
             (sp, dp) \<leftarrow> ports_at ip ihl pr;
             Some (Some (f\<lparr>SrcIP := ip_string src, DstIP := ip_string dst, Proto := protoName pr,
               SrcPort := int (unat sp), DstPort := int (unat dp)\<rparr>))
           }))
      })"

definition vlan_ip6 :: "bytes \<Rightarrow> nat \<Rightarrow> flow \<Rightarrow> flow option option" where
  "vlan_ip6 header off f =
     (if off + 40 > length header then Some None
      else do {
        ip \<leftarrow> gslice header off (length header);
        b0 \<leftarrow> idx ip 0;
        (if drop_bit 4 b0 \<noteq> 6 then Some None
         else do {
           pr \<leftarrow> idx ip 6;
           src \<leftarrow> gslice ip 8 24;
           dst \<leftarrow> gslice ip 24 40;
           g \<leftarrow> ext_loop header off pr 40
             (f\<lparr>SrcIP := ip_string src, DstIP := ip_string dst\<rparr>);
           Some (Some g)
         })
      })"

definition vlan_flow :: "flow \<Rightarrow> u32 \<Rightarrow> u64 \<Rightarrow> flow" where
  "vlan_flow f frameLength sampling =
     (let g = f\<lparr>BytesOut := scaled frameLength sampling, Packets := sint sampling\<rparr>
      in g\<lparr>Key := sflow_key g\<rparr>)"

definition parseSFlowPacketDataWithVLAN ::
  "env \<Rightarrow> bytes \<Rightarrow> int \<Rightarrow> u32 \<Rightarrow> u64 \<Rightarrow> flow option"
where
  "parseSFlowPacketDataWithVLAN v data baseTime sourceID sampling =
     (let f = sflow_base v baseTime sourceID in
      if length data < 16 then Some f
      else do {
        frameLength \<leftarrow> be32_at data 4;
        headerLength \<leftarrow> be32_at data 12;
        (if 16 + unat headerLength > length data then Some f
         else do {
           header \<leftarrow> gslice data 16 (16 + unat headerLength);
           (if length header < 14 then Some f
            else do {
              t0 \<leftarrow> be16_at header 12;
              vl \<leftarrow> vlan_loop header t0 14;
              (case vl of
                 None \<Rightarrow> Some f
               | Some (etherType, off) \<Rightarrow> do {
                   r \<leftarrow> (if etherType = 0x0800 then vlan_ip4 header off f
                         else if etherType = 0x86dd then vlan_ip6 header off f
                         else Some (Some f));
                   Some (case r of None \<Rightarrow> f | Some g \<Rightarrow> vlan_flow g frameLength sampling)
                 })
            })
         })
      })"

section \<open>Samples\<close>

text \<open>
  The loop over the elements of a sample, for either packet parser \<open>parse\<close>.
\<close>

function sample_records ::
  "(bytes \<Rightarrow> flow option) \<Rightarrow> nat \<Rightarrow> bytes \<Rightarrow> exporterState \<Rightarrow> flow list
     \<Rightarrow> (exporterState \<times> flow list) option"
where
  "sample_records parse n r ex flows =
     (if n = 0 then Some (ex, flows)
      else if length r < 8 then Some (ex, flows)
      else (let (elemFormat, ok1, r1) = read_u32 r; (elemLength, ok2, r2) = read_u32 r1 in
        if elemLength > word_of_nat (length r2) then Some (ex, flows)
        else case read_bytes (unat elemLength) r2 of
          None \<Rightarrow> Some (ex, flows)
        | Some (elem, r3) \<Rightarrow>
            if elemFormat = 1 then do {
              f \<leftarrow> parse elem;
              sample_records parse (n - 1) r3 (if addressed f then count_record ex else ex)
                (if addressed f then flows @ [f] else flows)
            } else sample_records parse (n - 1) r3 ex flows))"
  by pat_completeness auto
termination by (relation "measure (\<lambda>(parse, n, r, ex, flows). n)") auto

declare sample_records.simps [simp del]

definition parseSFlowSample ::
  "env \<Rightarrow> bytes \<Rightarrow> int \<Rightarrow> exporterState \<Rightarrow> (exporterState \<times> flow list) option"
where
  "parseSFlowSample v data baseTime ex =
     (if length data < 20 then Some (ex, [])
      else (let (ws, r) = read_u32s 7 data; sourceID = ws ! 1;
                (numRecords, ok, r1) = read_u32 r in
        if \<not> ok then Some (ex, [])
        else sample_records (\<lambda>elem. parseSFlowPacketData v elem baseTime sourceID)
          (unat numRecords) r1 ex []))"

definition parseSFlowExpandedFlowSample ::
  "env \<Rightarrow> bytes \<Rightarrow> int \<Rightarrow> exporterState \<Rightarrow> (exporterState \<times> flow list) option"
where
  "parseSFlowExpandedFlowSample v data baseTime ex =
     (if length data < 28 then Some (ex, [])
      else (let (ws, r) = read_u32s 9 data; sourceID32 = ws ! 1; sampleRate = ws ! 2;
                s0 = (if 0 < sampleRate then ucast sampleRate else 1 :: u64);
                sampling = (if 0 < override_of v then override_of v else s0);
                (numRecords, ok, r1) = read_u32 r in
        sample_records
          (\<lambda>elem. parseSFlowPacketDataWithVLAN v elem baseTime sourceID32 sampling)
          (unat numRecords) r1 ex []))"

section \<open>The handler\<close>

record sFlowDatagram =
  s_Version :: u32
  s_AgentAddress :: bytes
  s_SubAgentID :: u32
  s_SequenceNum :: u32
  s_SysUptime :: u32
  s_NumSamples :: u32

definition read_headerS :: "bytes \<Rightarrow> sFlowDatagram option" where
  "read_headerS p =
     (if length p < 24 then None
      else Some \<lparr>s_Version = get32 p 0, s_AgentAddress = take 4 (drop 4 p), s_SubAgentID = get32 p 8,
        s_SequenceNum = get32 p 12, s_SysUptime = get32 p 16, s_NumSamples = get32 p 20\<rparr>)"

function samplesS ::
  "env \<Rightarrow> bytes \<Rightarrow> int \<Rightarrow> nat \<Rightarrow> nat \<Rightarrow> exporterState \<Rightarrow> flow list
     \<Rightarrow> (exporterState \<times> flow list) option"
where
  "samplesS v packet baseTime n pos ex flows =
     (if n = 0 then Some (ex, flows)
      else if pos + 8 > length packet then Some (ex, flows)
      else do {
        format \<leftarrow> be32_at packet pos;
        len \<leftarrow> be32_at packet (pos + 4);
        (if pos + 8 + unat len > length packet then Some (ex, flows)
         else do {
           sampleData \<leftarrow> gslice packet (pos + 8) (pos + 8 + unat len);
           (if format = 1 \<or> format = 3 then do {
              (ex', fs) \<leftarrow> parseSFlowSample v sampleData baseTime ex;
              samplesS v packet baseTime (n - 1) (pos + (8 + unat len)) ex' (flows @ fs)
            } else samplesS v packet baseTime (n - 1) (pos + (8 + unat len)) ex flows)
         })
      })"
  by pat_completeness auto
termination by (relation "measure (\<lambda>(v, packet, t, n, pos, ex, flows). n)") auto

declare samplesS.simps [simp del]

definition base_timeS :: "env \<Rightarrow> sFlowDatagram \<Rightarrow> int" where
  "base_timeS v dg = now_ns v div 1000000000 - int (unat (s_SysUptime dg) div 1000)"

definition handleSFlow5 :: "env \<Rightarrow> bytes \<Rightarrow> exporters \<Rightarrow> outcome" where
  "handleSFlow5 v packet es =
     (if length packet < 28 then Some (es, [])
      else case read_headerS packet of
        None \<Rightarrow> Some (es, [])
      | Some dg \<Rightarrow>
          if s_Version dg \<noteq> 5 then Some (es, [])
          else (case getExporter v es of
            (None, es1) \<Rightarrow> Some (es1, [])
          | (Some ex, es1) \<Rightarrow> do {
              (ex1, flows) \<leftarrow> samplesS v packet (base_timeS v dg) (unat (s_NumSamples dg)) 28 ex [];
              let (ex2, batch) = store_batch v flows ex1;
              Some (put_exporter v ex2 es1, batch)
            }))"

section \<open>No panics\<close>

lemma ports_at_total [no_panic]: "\<exists>sp dp. ports_at ip off pr = Some (sp, dp)"
proof (cases "off + 4 \<le> length ip")
  case True
  then have g: "gslice ip off (length ip) = Some (drop off ip)" by (simp add: gslice_Some)
  have "4 \<le> length (drop off ip)" using True by simp
  then obtain a b where "be16_at (drop off ip) 0 = Some a" "be16_at (drop off ip) 2 = Some b"
    using be16_at_Some [of 0 "drop off ip"] be16_at_Some [of 2 "drop off ip"] by auto
  then show ?thesis using True g by (simp add: ports_at_def)
qed (simp add: ports_at_def)

lemma sflow_ip4_total [no_panic]: "\<exists>r. sflow_ip4 header = Some r"
proof (cases "length header < 34")
  case False
  obtain sp dp where "ports_at (drop 14 header) (unat ((header ! 14 AND 0x0f) * 4)) (header ! 23)
      = Some (sp, dp)"
    using ports_at_total by blast
  with False show ?thesis
    by (simp add: sflow_ip4_def gslice_def idx_def Let_def not_less)
qed (simp add: sflow_ip4_def)

lemma sflow_ip6_total [no_panic]: "\<exists>r. sflow_ip6 header = Some r"
proof (cases "length header < 54")
  case False
  obtain sp dp where "ports_at (drop 14 header) 40 (header ! 20) = Some (sp, dp)"
    using ports_at_total by blast
  with False show ?thesis
    by (simp add: sflow_ip6_def gslice_def idx_def Let_def not_less)
qed (simp add: sflow_ip6_def)

lemma ethernet_type [no_panic]: "\<not> length header < 14 \<Longrightarrow> \<exists>t. be16_at header 12 = Some t"
  by (rule be16_at_Some) simp

lemma parseSFlowPacketData_total [no_panic]: "\<exists>f. parseSFlowPacketData v data t src = Some f"
proof (cases "length data < 16")
  case True
  then show ?thesis
    using be32_at_Some [of 0 data] be32_at_Some [of 4 data]
    by (auto simp: parseSFlowPacketData_def Let_def)
next
  case False
  then obtain a b n where w: "be32_at data 0 = Some a" "be32_at data 4 = Some b"
    "be32_at data 12 = Some n"
    using be32_at_Some [of 0 data] be32_at_Some [of 4 data] be32_at_Some [of 12 data] by auto
  let ?h = "take (unat n) (drop 16 data)"
  obtain r4 r6 where "sflow_ip4 ?h = Some r4" "sflow_ip6 ?h = Some r6"
    using sflow_ip4_total sflow_ip6_total by metis
  with w False show ?thesis
    using ethernet_type [of ?h]
    by (cases "length ?h < 14") (auto simp: parseSFlowPacketData_def Let_def gslice_Some not_less)
qed

lemma sample_records_total [no_panic]:
  assumes "\<And>elem. \<exists>f. parse elem = Some f"
  shows "\<exists>ex' fs. sample_records parse n r ex flows = Some (ex', fs)
    \<and> (exporter_ok ex \<longrightarrow> exporter_ok ex')"
proof (induction n arbitrary: r ex flows)
  case 0
  then show ?case by (subst sample_records.simps) simp
next
  case (Suc n)
  obtain e ok1 r1 where r1: "read_u32 r = (e, ok1, r1)" by (cases "read_u32 r")
  obtain l ok2 r2 where r2: "read_u32 r1 = (l, ok2, r2)" by (cases "read_u32 r1")
  show ?case
  proof (cases "length r < 8 \<or> l > word_of_nat (length r2) \<or> read_bytes (unat l) r2 = None")
    case True
    then show ?thesis using r1 r2 by (subst sample_records.simps) auto
  next
    case False
    then obtain elem r3 where r3: "read_bytes (unat l) r2 = Some (elem, r3)" by auto
    obtain f where f: "parse elem = Some f" using assms by blast
    show ?thesis
      using False r1 r2 r3 f Suc.IH [of r3 ex flows] Suc.IH [of r3 "count_record ex" "flows @ [f]"]
      by (subst sample_records.simps) (auto simp: Let_def)
  qed
qed

lemma parseSFlowSample_total [no_panic]:
  "\<exists>ex' fs. parseSFlowSample v data t ex = Some (ex', fs) \<and> (exporter_ok ex \<longrightarrow> exporter_ok ex')"
  using sample_records_total [OF parseSFlowPacketData_total]
  by (auto simp: parseSFlowSample_def Let_def case_prod_unfold)

lemma samplesS_total [no_panic]:
  "\<exists>ex' fs. samplesS v packet t n pos ex flows = Some (ex', fs) \<and> (exporter_ok ex \<longrightarrow> exporter_ok ex')"
proof (induction n arbitrary: pos ex flows)
  case 0
  then show ?case by (subst samplesS.simps) simp
next
  case (Suc n)
  show ?case
  proof (cases "pos + 8 > length packet")
    case False
    then obtain a l where w: "be32_at packet pos = Some a" "be32_at packet (pos + 4) = Some l"
      using be32_at_Some [of pos packet] be32_at_Some [of "pos + 4" packet] by auto
    obtain ex1 fs where p: "parseSFlowSample v (take (unat l) (drop (pos + 8) packet)) t ex = Some (ex1, fs)"
      "exporter_ok ex \<longrightarrow> exporter_ok ex1"
      using parseSFlowSample_total by blast
    show ?thesis
      using False w p Suc.IH [of "pos + (8 + unat l)" ex flows]
        Suc.IH [of "pos + (8 + unat l)" ex1 "flows @ fs"]
      by (subst samplesS.simps) (auto simp: gslice_Some)
  qed (subst samplesS.simps, simp)
qed

text \<open>The parser with VLAN tags: its loops stay inside the header.\<close>

lemma vlan_loop_total [no_panic]: "\<exists>r. vlan_loop header t off = Some r"
proof (induction header t off rule: vlan_loop.induct)
  case (1 header t off)
  show ?case
  proof (cases "(t = 0x8100 \<or> t = 0x88a8) \<and> off + 4 \<le> length header")
    case True
    then obtain t' where "be16_at header (off + 2) = Some t'"
      using be16_at_Some [of "off + 2" header] by auto
    then show ?thesis using 1 True by (subst vlan_loop.simps) auto
  qed (subst vlan_loop.simps, auto)
qed

lemma ext_loop_total [no_panic]: "\<exists>r. ext_loop header ipo n ext f = Some r"
proof (induction header ipo n ext f rule: ext_loop.induct)
  case (1 header ipo n ext f)
  show ?case
  proof (cases "n = 6 \<or> n = 17")
    case True
    show ?thesis
    proof (cases "ipo + ext + 4 \<le> length header")
      case le: True
      then have l: "4 \<le> length (drop (ipo + ext) header)" by simp
      then obtain a b where a: "be16_at (drop (ipo + ext) header) 0 = Some a"
        and b: "be16_at (drop (ipo + ext) header) 2 = Some b"
        using be16_at_Some [of 0 "drop (ipo + ext) header"]
          be16_at_Some [of 2 "drop (ipo + ext) header"] by auto
      then show ?thesis using True le a b by (subst ext_loop.simps) (auto simp: gslice_Some)
    qed (use True in \<open>subst ext_loop.simps, auto\<close>)
  next
    case False
    then show ?thesis
      using 1 by (subst ext_loop.simps) (auto simp: idx_def)
  qed
qed

lemma vlan_ip4_total [no_panic]: "\<exists>r. vlan_ip4 header off f = Some r"
proof (cases "off + 20 > length header")
  case False
  obtain sp dp where "ports_at (drop off header) (unat ((header ! off AND 0x0f) * 4)) (header ! (off + 9))
      = Some (sp, dp)"
    using ports_at_total by blast
  with False show ?thesis
    by (simp add: vlan_ip4_def gslice_def idx_def Let_def not_less)
qed (simp add: vlan_ip4_def)

lemma vlan_ip6_total [no_panic]: "\<exists>r. vlan_ip6 header off f = Some r"
proof (cases "off + 40 > length header")
  case False
  let ?g = "f\<lparr>SrcIP := ip_string (take 16 (drop (off + 8) header)),
    DstIP := ip_string (take 16 (drop (off + 24) header))\<rparr>"
  obtain g where "ext_loop header off (header ! (off + 6)) 40 ?g = Some g"
    using ext_loop_total by blast
  moreover have "40 \<le> length header - off" using False by linarith
  ultimately show ?thesis using False
    by (simp add: vlan_ip6_def gslice_def idx_def not_less add.commute)
qed (simp add: vlan_ip6_def)

lemma parseSFlowPacketDataWithVLAN_total [no_panic]:
  "\<exists>f. parseSFlowPacketDataWithVLAN v data t src smp = Some f"
proof (cases "length data < 16")
  case True
  then show ?thesis by (simp add: parseSFlowPacketDataWithVLAN_def Let_def)
next
  case False
  then obtain b n where w: "be32_at data 4 = Some b" "be32_at data 12 = Some n"
    using be32_at_Some [of 4 data] be32_at_Some [of 12 data] by auto
  let ?h = "take (unat n) (drop 16 data)"
  show ?thesis
  proof (cases "16 + unat n > length data \<or> length ?h < 14")
    case True
    then show ?thesis
      using w False by (auto simp: parseSFlowPacketDataWithVLAN_def Let_def gslice_Some not_less)
  next
    case h: False
    then obtain t0 where t0: "be16_at ?h 12 = Some t0" using ethernet_type by blast
    obtain vl where vl: "vlan_loop ?h t0 14 = Some vl" using vlan_loop_total by blast
    show ?thesis
    proof (cases vl)
      case None
      then show ?thesis using w False h t0 vl
        by (simp add: parseSFlowPacketDataWithVLAN_def Let_def gslice_Some)
    next
      case (Some p)
      obtain et off where p: "p = (et, off)" by (cases p)
      obtain r4 r6 where "vlan_ip4 ?h off (sflow_base v t src) = Some r4"
        "vlan_ip6 ?h off (sflow_base v t src) = Some r6"
        using vlan_ip4_total vlan_ip6_total by metis
      then show ?thesis using w False h t0 vl Some p
        by (simp add: parseSFlowPacketDataWithVLAN_def Let_def gslice_Some)
    qed
  qed
qed

section \<open>Properties\<close>

text \<open>
  no sFlow datagram makes the decoder panic, whatever its samples, frames and lengths hold;
  the exporters stay well-formed.
\<close>

lemma sflow5_total:
  "\<exists>es' batch. handleSFlow5 v packet es = Some (es', batch) \<and> (exporters_ok es \<longrightarrow> exporters_ok es')"
proof (cases "read_headerS packet")
  case None
  then show ?thesis by (simp add: handleSFlow5_def)
next
  case (Some dg)
  obtain r es1 where get: "getExporter v es = (r, es1)" by (cases "getExporter v es")
  show ?thesis
  proof (cases r)
    case None
    then show ?thesis
      using Some get getExporter_ok(1) [of es v r es1] by (simp add: handleSFlow5_def)
  next
    case ex: (Some ex)
    obtain ex1 fs where s: "samplesS v packet (base_timeS v dg) (unat (s_NumSamples dg)) 28 ex []
        = Some (ex1, fs)" "exporter_ok ex \<longrightarrow> exporter_ok ex1"
      using samplesS_total by blast
    have "exporters_ok es \<longrightarrow> exporters_ok (put_exporter v (fst (store_batch v fs ex1)) es1)"
      using getExporter_ok(1,2) [OF _ get] ex s(2)
      by (auto simp: put_exporter_def intro!: exporters_ok_mput store_batch_ok)
    then show ?thesis
      using Some get ex s getExporter_ok(1) [OF _ get]
      by (simp add: handleSFlow5_def Let_def case_prod_unfold)
  qed
qed

text \<open>
  The expanded sample parser returns on every input too: the loops over VLAN tags and IPv6
  extension headers end, and no read leaves the frame.
\<close>

theorem sflow_expanded_never_panics:
  "\<exists>ex' fs. parseSFlowExpandedFlowSample v data t ex = Some (ex', fs)
    \<and> (exporter_ok ex \<longrightarrow> exporter_ok ex')"
  using sample_records_total [OF parseSFlowPacketDataWithVLAN_total]
  by (auto simp: parseSFlowExpandedFlowSample_def Let_def case_prod_unfold)

theorem sflow_expanded_never_panics_witness:
  "\<exists>ex' fs. parseSFlowExpandedFlowSample (sample_env ''sflow5'') [0, 1, 2] 99
      (new_exporter (sample_env ''sflow5'')) = Some (ex', fs) \<and> exporter_ok ex'"
  using sflow_expanded_never_panics [of "sample_env ''sflow5''" "[0, 1, 2]" 99
      "new_exporter (sample_env ''sflow5'')"] by (auto simp: new_exporter_ok)

lemma parseSFlowPacketData_cong:
  "remote v = remote v' \<Longrightarrow> parseSFlowPacketData v = parseSFlowPacketData v'"
  by (intro ext) (simp add: parseSFlowPacketData_def sflow_base_def)

lemma read_u32_append: "length w = 4 \<Longrightarrow> read_u32 (w @ r) = (get32 w 0, True, r)"
  by (simp add: read_u32_def get32_def get16_def nth_append)

text \<open>A sample's result depends on its length, its source id and what follows the rate.\<close>

lemma parseSFlowSample_parts:
  assumes "length s = 4" and "length i = 4" and "length w = 4" and "8 \<le> length rest"
  shows "parseSFlowSample v (s @ i @ w @ rest) t ex =
    (let (ws, r) = read_u32s 4 rest; (n, ok, r1) = read_u32 r in
     if \<not> ok then Some (ex, [])
     else sample_records (\<lambda>e. parseSFlowPacketData v e t (get32 i 0)) (unat n) r1 ex [])"
proof -
  have "read_u32s 7 (s @ i @ w @ rest) =
      (let (ws, r) = read_u32s 4 rest in (get32 s 0 # get32 i 0 # get32 w 0 # ws, r))"
  proof -
    have n: "7 = Suc (Suc (Suc 4))" by simp
    show ?thesis using assms
      unfolding n read_u32s.simps(2) by (simp only: read_u32_append Let_def prod.case case_prod_unfold fst_conv snd_conv)
  qed
  then show ?thesis
    using assms by (simp add: parseSFlowSample_def Let_def case_prod_unfold)
qed

text \<open>
  The sampling rate a sample carries, and the override of the settings, do not influence the
  flows of the live sFlow parser: samples that differ in the rate only give equal results under
  any two values of the override.
\<close>

theorem sflow_sampling_ignored:
  assumes "length s = 4" and "length i = 4" and "length rate = 4" and "length rate' = 4"
    and "8 \<le> length rest" and "remote v = remote v'"
  shows "parseSFlowSample v (s @ i @ rate @ rest) t ex = parseSFlowSample v' (s @ i @ rate' @ rest) t ex"
  unfolding parseSFlowSample_parts [OF assms(1-3,5)] parseSFlowSample_parts [OF assms(1,2,4,5)]
    parseSFlowPacketData_cong [OF assms(6)] ..

theorem sflow_sampling_ignored_witness:
  "parseSFlowSample (sample_env ''sflow5'') ([0, 0, 0, 1] @ [0, 0, 0, 3] @ [0, 0, 0, 1] @ replicate 20 0) 0 (new_exporter (sample_env ''sflow5''))
    = parseSFlowSample ((sample_env ''sflow5'')
        \<lparr>cfg := \<lparr>max_exporters = 100, sampling_override = 512\<rparr>\<rparr>)
        ([0, 0, 0, 1] @ [0, 0, 0, 3] @ [0, 0, 4, 0] @ replicate 20 0) 0 (new_exporter (sample_env ''sflow5''))"
  by (rule sflow_sampling_ignored) simp_all

text \<open>
  The datagram header is read one word short. Of a datagram laid out as the samples' offset
  28 presumes (version, address type, IPv4 agent, sub-agent, sequence number, uptime, count), the
  sequence number is taken for the uptime and the uptime for the number of samples, so flows are
  dated back by the sequence number and the count does not bound the samples.
\<close>

theorem sflow5_header_shifted:
  assumes "length agent = 4"
    and "packet = put32 5 @ put32 1 @ agent @ put32 sub @ put32 seq @ put32 up @ put32 n @ samples"
  shows "\<exists>dg. read_headerS packet = Some dg \<and> s_SysUptime dg = seq \<and> s_NumSamples dg = up
    \<and> base_timeS v dg = now_ns v div 1000000000 - int (unat seq div 1000)"
proof -
  have g: "get32 (xs @ put32 w @ ys) (length xs) = w" for xs ys and w :: u32
  proof -
    obtain a b c d where p: "put32 w = [a, b, c, d]" by (simp add: put32_def put16_def)
    have "get32 (xs @ put32 w @ ys) (length xs) = join32 (join16 a b) (join16 c d)"
      by (simp add: get32_def get16_def p nth_append)
    then show ?thesis using be32_put32 [of w "[]"] p by simp
  qed
  have seq: "get32 packet 16 = seq"
    using g [of "put32 5 @ put32 1 @ agent @ put32 sub" seq] assms by simp
  have up: "get32 packet 20 = up"
    using g [of "put32 5 @ put32 1 @ agent @ put32 sub @ put32 seq" up] assms by simp
  have "24 \<le> length packet" using assms by simp
  then show ?thesis by (simp add: read_headerS_def base_timeS_def seq up)
qed

theorem sflow5_header_shifted_witness:
  "\<exists>dg. read_headerS (put32 5 @ put32 1 @ [10, 0, 0, 9] @ put32 0 @ put32 77000 @ put32 123456
       @ put32 1 @ []) = Some dg
     \<and> base_timeS (sample_env ''sflow5'') dg = 1700000000 - 77"
  using sflow5_header_shifted [of "[10, 0, 0, 9]" _ 0 77000 123456 1 "[]" "sample_env ''sflow5''", OF _ refl]
  by (auto simp: sample_env_def)

text \<open>An Ethernet frame with any number of VLAN tags, sampled whole.\<close>

definition vlan_tag :: "bool \<times> u16 \<Rightarrow> bytes" where
  "vlan_tag t = put16 (if fst t then 0x88a8 else 0x8100) @ put16 (snd t)"

definition tagged_frame :: "bytes \<Rightarrow> (bool \<times> u16) list \<Rightarrow> u16 \<Rightarrow> bytes \<Rightarrow> bytes" where
  "tagged_frame macs tags et payload = macs @ concat (map vlan_tag tags) @ put16 et @ payload"

lemma vlan_loop_tags:
  assumes "drop off header = concat (map vlan_tag tags) @ put16 et @ payload"
    and "et \<noteq> 0x8100" and "et \<noteq> 0x88a8"
  shows "be16_at header off = Some t \<Longrightarrow>
    vlan_loop header t (off + 2) = Some (Some (et, off + 4 * length tags + 2))"
  using assms(1)
proof (induction tags arbitrary: off t)
  case Nil
  then have "be16_at header off = Some et" using be16_at_put16(1) [of off header et payload] by simp
  with Nil assms(2,3) show ?case by (subst vlan_loop.simps) simp
next
  case (Cons tag tags)
  define w :: u16 where "w = (if fst tag then 0x88a8 else 0x8100)"
  have "drop off header = put16 w @ put16 (snd tag) @ concat (map vlan_tag tags) @ put16 et @ payload"
    using Cons.prems(2) by (simp add: vlan_tag_def [of tag] w_def)
  note a = be16_at_put16_put16 [OF this]
  have "2 \<le> length (drop (off + 4) header)" unfolding a(3) by simp
  then have l: "off + 2 + 4 \<le> length header" by simp
  then obtain t' where t': "be16_at header (off + 4) = Some t'"
    using be16_at_Some [of "off + 4" header] by auto
  have e: "off + 2 + 2 = off + 4" "off + 2 + 4 = off + 4 + 2"
    "off + 4 + 4 * length tags + 2 = off + 4 * length (tag # tags) + 2" by simp_all
  have t2: "be16_at header (off + 2 + 2) = Some t'" using t' by (simp only: e(1))
  have "t = w" using a(1) Cons.prems(1) by simp
  then have "vlan_loop header t (off + 2) = vlan_loop header t' (off + 2 + 4)"
    using l t2 by (subst vlan_loop.simps) (simp add: w_def)
  also have "\<dots> = Some (Some (et, off + 4 * length (tag # tags) + 2))"
    unfolding e(2) e(3) [symmetric] by (rule Cons.IH [OF t' a(3)])
  finally show ?case .
qed

text \<open>
  VLAN tags are transparent to the expanded parser. However many 802.1Q and 802.1ad tags a
  frame carries, the loop stops at the EtherType behind the last tag and at the start of the
  network header.
\<close>

theorem vlan_tags_skipped:
  assumes macs: "length macs = 12" and et: "et \<noteq> 0x8100" "et \<noteq> 0x88a8"
    and t: "be16_at (tagged_frame macs tags et payload) 12 = Some t"
  shows "vlan_loop (tagged_frame macs tags et payload) t 14 = Some (Some (et, 14 + 4 * length tags))
    \<and> drop (14 + 4 * length tags) (tagged_frame macs tags et payload) = payload"
proof
  have l: "length (concat (map vlan_tag tags)) = 4 * length tags"
    by (induction tags) (simp_all add: vlan_tag_def)
  have "drop 12 (tagged_frame macs tags et payload) = concat (map vlan_tag tags) @ put16 et @ payload"
    using macs by (simp add: tagged_frame_def)
  from vlan_loop_tags [OF this et t]
  show "vlan_loop (tagged_frame macs tags et payload) t 14 = Some (Some (et, 14 + 4 * length tags))"
    by (simp add: add.commute)
  show "drop (14 + 4 * length tags) (tagged_frame macs tags et payload) = payload"
    using macs l by (simp add: tagged_frame_def put16_def)
qed

theorem vlan_tags_skipped_witness:
  "\<exists>t. vlan_loop (tagged_frame (replicate 12 0) [(True, 5), (False, 7)] 0x0800 [69]) t 14
     = Some (Some (0x0800, 22))"
proof -
  have m: "length (replicate 12 (0 :: u8)) = 12" and e: "(0x0800 :: u16) \<noteq> 0x8100" "(0x0800 :: u16) \<noteq> 0x88a8"
    by simp_all
  have t: "be16_at (tagged_frame (replicate 12 0) [(True, 5), (False, 7)] 0x0800 [69]) 12 = Some 0x88a8"
    by (rule be16_at_put16(1) [where xs = "put16 5 @ vlan_tag (False, 7) @ put16 0x0800 @ [69]"])
      (simp add: tagged_frame_def vlan_tag_def)
  from vlan_tags_skipped [OF m e t] show ?thesis by auto
qed

text \<open>A sampled packet element and an IPv4 header, as an agent encodes them.\<close>

definition enc_packet :: "u32 \<Rightarrow> u32 \<Rightarrow> bytes \<Rightarrow> bytes \<Rightarrow> bytes" where
  "enc_packet frameLen stripped header pad =
     put32 1 @ put32 frameLen @ put32 stripped @ put32 (word_of_nat (length header)) @ header @ pad"

definition enc_ip4 :: "u8 \<Rightarrow> bytes \<Rightarrow> u8 \<Rightarrow> bytes \<Rightarrow> bytes \<Rightarrow> bytes \<Rightarrow> bytes \<Rightarrow> bytes" where
  "enc_ip4 vhl hd8 pr cks src dst rest = vhl # hd8 @ pr # cks @ src @ dst @ rest"

lemma be32_at_put32:
  assumes "drop pos data = put32 w @ xs"
  shows "be32_at data pos = Some w"
proof -
  have "length (drop pos data) = 4 + length xs" using assms by simp
  then have "pos + 4 \<le> length data" by simp
  then show ?thesis
    using assms be32_put32 [of w "[]"] by (simp add: be32_at_def gslice_def)
qed

lemma enc_packet_words:
  assumes "length header < 4294967296"
    and data_def: "data = enc_packet n str header pad"
  shows "be32_at data 0 = Some 1" and "be32_at data 4 = Some n"
    and "be32_at data 12 = Some (word_of_nat (length header))"
    and "unat (word_of_nat (length header) :: u32) = length header"
    and "length data = 16 + length header + length pad"
    and "gslice data 16 (16 + length header) = Some header"
proof -
  show "be32_at data 0 = Some 1" by (rule be32_at_put32) (simp add: data_def enc_packet_def)
  show "be32_at data 4 = Some n" by (rule be32_at_put32) (simp add: data_def enc_packet_def)
  show "be32_at data 12 = Some (word_of_nat (length header))"
    by (rule be32_at_put32) (simp add: data_def enc_packet_def)
  show "unat (word_of_nat (length header) :: u32) = length header"
    using assms(1) by (simp add: unat_of_nat take_bit_nat_eq_self_iff)
  show "length data = 16 + length header + length pad" by (simp add: data_def enc_packet_def)
  show "gslice data 16 (16 + length header) = Some header"
    by (simp add: data_def enc_packet_def gslice_def)
qed

text \<open>
  A sampled frame: Ethernet, an IPv4 header of any length with its options, and what follows, which for TCP and
  UDP begins with the ports; the frame may be cut off behind them. The sampler adds the length of the whole frame, of
  what it stripped, and padding.
\<close>

record sampled =
  sp_frame :: u32
  sp_stripped :: u32
  sp_macs :: bytes
  sp_vhl :: u8
  sp_hd8 :: bytes
  sp_proto :: u8
  sp_cks :: bytes
  sp_src :: bytes
  sp_dst :: bytes
  sp_opts :: bytes
  sp_word1 :: u16
  sp_word2 :: u16
  sp_rest :: bytes
  sp_pad :: bytes

definition sampled_ok :: "sampled \<Rightarrow> bool" where
  "sampled_ok p \<longleftrightarrow> length (sp_macs p) = 12 \<and> length (sp_hd8 p) = 8 \<and> length (sp_cks p) = 2
     \<and> length (sp_src p) = 4 \<and> length (sp_dst p) = 4 \<and> drop_bit 4 (sp_vhl p) = 4
     \<and> unat ((sp_vhl p AND 0x0f) * 4) = 20 + length (sp_opts p)"

definition enc_ip :: "sampled \<Rightarrow> bytes" where
  "enc_ip p = enc_ip4 (sp_vhl p) (sp_hd8 p) (sp_proto p) (sp_cks p) (sp_src p) (sp_dst p)
     (sp_opts p @ put16 (sp_word1 p) @ put16 (sp_word2 p) @ sp_rest p)"

definition enc_sampled :: "sampled \<Rightarrow> bytes" where
  "enc_sampled p = enc_packet (sp_frame p) (sp_stripped p) (sp_macs p @ put16 0x0800 @ enc_ip p) (sp_pad p)"

definition with_ports :: "sampled \<Rightarrow> bool" where
  "with_ports p \<longleftrightarrow> sp_proto p = 6 \<or> sp_proto p = 17"

text \<open>The flow that stands for it.\<close>

definition reads_as :: "env \<Rightarrow> int \<Rightarrow> u32 \<Rightarrow> sampled \<Rightarrow> flow \<Rightarrow> bool" where
  "reads_as v t sid p f \<longleftrightarrow> SrcIP f = ip4_string (sp_src p) \<and> DstIP f = ip4_string (sp_dst p)
     \<and> SrcPort f = (if with_ports p then int (unat (sp_word1 p)) else 0)
     \<and> DstPort f = (if with_ports p then int (unat (sp_word2 p)) else 0)
     \<and> Proto f = protoName (sp_proto p) \<and> BytesOut f = int (unat (sp_frame p)) \<and> Packets f = 1
     \<and> TS f = t \<and> Iface f = if_index (unat sid) \<and> Source f = ''sflow5:'' @ remote v"

lemma sflow_ip4_enc:
  assumes "sampled_ok p"
  shows "sflow_ip4 (sp_macs p @ put16 0x0800 @ enc_ip p)
    = Some (Some \<lparr>ip_proto = sp_proto p, ip_src = ip_string (sp_src p), ip_dst = ip_string (sp_dst p),
        ip_sport = (if with_ports p then sp_word1 p else 0), ip_dport = (if with_ports p then sp_word2 p else 0)\<rparr>)"
proof -
  let ?ip = "enc_ip p" and ?l = "20 + length (sp_opts p)"
  have k: "length (sp_macs p) = 12" "length (sp_hd8 p) = 8" "length (sp_cks p) = 2" "length (sp_src p) = 4"
    "length (sp_dst p) = 4" "drop_bit 4 (sp_vhl p) = 4" "unat ((sp_vhl p AND 0x0f) * 4) = ?l"
    using assms by (simp_all add: sampled_ok_def)
  have len: "length ?ip = ?l + 4 + length (sp_rest p)" using k by (simp add: enc_ip_def enc_ip4_def)
  have ip: "gslice (sp_macs p @ put16 0x0800 @ ?ip) 14 (length (sp_macs p @ put16 0x0800 @ ?ip)) = Some ?ip"
    using k(1) by (simp add: gslice_def)
  have b: "idx ?ip 0 = Some (sp_vhl p)" "idx ?ip 9 = Some (sp_proto p)"
    using k by (simp_all add: enc_ip_def enc_ip4_def idx_def nth_append)
  have a: "gslice ?ip 12 16 = Some (sp_src p)" "gslice ?ip 16 20 = Some (sp_dst p)"
    using k by (simp_all add: enc_ip_def enc_ip4_def gslice_def)
  have "?ip = (sp_vhl p # sp_hd8 p @ sp_proto p # sp_cks p @ sp_src p @ sp_dst p @ sp_opts p)
      @ put16 (sp_word1 p) @ put16 (sp_word2 p) @ sp_rest p" (is "_ = ?pre @ _")
    by (simp add: enc_ip_def enc_ip4_def)
  moreover have "length ?pre = ?l" using k(1-5) by simp
  ultimately have "drop ?l ?ip = put16 (sp_word1 p) @ put16 (sp_word2 p) @ sp_rest p"
    by (metis append_eq_conv_conj)
  then have p: "ports_at ?ip ?l (sp_proto p)
      = Some (if with_ports p then sp_word1 p else 0, if with_ports p then sp_word2 p else 0)"
    using len by (auto simp: ports_at_def gslice_def with_ports_def)
  show ?thesis
    unfolding sflow_ip4_def ip using b a p len k by simp
qed

lemma enc_sampled_length:
  "sampled_ok p \<Longrightarrow> length (enc_sampled p) = 54 + length (sp_opts p) + length (sp_rest p) + length (sp_pad p)"
  by (simp add: sampled_ok_def enc_sampled_def enc_packet_def enc_ip_def enc_ip4_def)

lemma packet_reads:
  assumes "sampled_ok p" and "length (enc_sampled p) < 65536"
  shows "\<exists>f. parseSFlowPacketData v (enc_sampled p) t sid = Some f \<and> reads_as v t sid p f"
proof -
  let ?h = "sp_macs p @ put16 0x0800 @ enc_ip p"
  have m: "length (sp_macs p) = 12" "length (sp_src p) = 4" "length (sp_dst p) = 4"
    using assms(1) by (simp_all add: sampled_ok_def)
  have l: "length ?h = 38 + length (sp_opts p) + length (sp_rest p)"
    using assms(1) by (simp add: sampled_ok_def enc_ip_def enc_ip4_def)
  then have "length ?h < 4294967296" using assms(2) enc_sampled_length [OF assms(1)] by simp
  note w = enc_packet_words [OF this enc_sampled_def]
  have et: "be16_at ?h 12 = Some 0x0800" using m(1) by (intro be16_at_put16(1)) simp
  have ne: "sp_src p \<noteq> []" "sp_dst p \<noteq> []" using m by auto
  show ?thesis
    using w et l sflow_ip4_enc [OF assms(1)] m ne
    by (simp add: parseSFlowPacketData_def Let_def sflow_flow_def sflow_base_def ip_string_def reads_as_def)
qed

text \<open>A flow sample: its header with the rate, and its packets.\<close>

definition enc_element :: "sampled \<Rightarrow> bytes" where
  "enc_element p = put32 1 @ put32 (word_of_nat (length (enc_sampled p))) @ enc_sampled p"

definition enc_elements :: "sampled list \<Rightarrow> bytes" where
  "enc_elements ps = concat (map enc_element ps)"

definition enc_sample :: "u32 \<Rightarrow> u32 \<Rightarrow> u32 \<Rightarrow> u32 list \<Rightarrow> sampled list \<Rightarrow> bytes" where
  "enc_sample seqno sid rate counters ps = put32 seqno @ put32 sid @ put32 rate @ concat (map put32 counters)
     @ put32 (word_of_nat (length ps)) @ enc_elements ps"

lemma read_u32_put32 [simp]: "read_u32 (put32 w @ xs) = (w, True, xs)"
proof -
  obtain a b c d where p: "put32 w = [a, b, c, d]"
    using length_put32 [of w] by (auto simp: length_Suc_conv numeral_eq_Suc simp del: length_put32)
  have "get32 (put32 w @ xs) 0 = w" using be32_put32 [of w xs] unfolding p by (simp add: get32_def get16_def)
  then show ?thesis by (simp add: read_u32_def)
qed

lemma sample_records_enc:
  assumes "list_all sampled_ok ps" and "length (enc_elements ps) < 65536"
  shows "\<exists>fs. sample_records (\<lambda>elem. parseSFlowPacketData v elem t sid) (length ps) (enc_elements ps) ex acc
      = Some ((count_record ^^ length ps) ex, acc @ fs) \<and> list_all2 (reads_as v t sid) ps fs"
  using assms
proof (induction ps arbitrary: ex acc)
  case Nil
  then show ?case by (subst sample_records.simps) simp
next
  case (Cons p ps)
  let ?e = "enc_sampled p" and ?r = "enc_elements ps" and ?parse = "\<lambda>elem. parseSFlowPacketData v elem t sid"
  have ok: "sampled_ok p" "list_all sampled_ok ps" using Cons.prems(1) by simp_all
  have l: "length ?e + length ?r < 65536" "length (enc_elements (p # ps)) = 8 + length ?e + length ?r"
    using Cons.prems(2) by (simp_all add: enc_elements_def enc_element_def)
  obtain f where f: "?parse ?e = Some f" "reads_as v t sid p f"
    using packet_reads [OF ok(1)] l(1) by fastforce
  have ne: "sp_src p \<noteq> []" "sp_dst p \<noteq> []" using ok(1) by (auto simp: sampled_ok_def)
  then have ad: "addressed f" using f(2) by (simp add: addressed_def reads_as_def ip4_string_nonempty)
  obtain fs where fs: "sample_records ?parse (length ps) ?r (count_record ex) (acc @ [f])
      = Some ((count_record ^^ length ps) (count_record ex), (acc @ [f]) @ fs)" "list_all2 (reads_as v t sid) ps fs"
    using Cons.IH [OF ok(2)] l(1) by fastforce
  have u: "unat (word_of_nat n :: u32) = n" if "n < 65536" for n
    using that by (simp add: unat_of_nat take_bit_nat_eq_self_iff)
  have "\<not> word_of_nat (length (?e @ ?r)) < (word_of_nat (length ?e) :: u32)"
    using u [of "length ?e"] u [of "length (?e @ ?r)"] l(1) by (simp add: word_less_nat_alt del: length_append) simp
  moreover have "?e \<noteq> []" using enc_sampled_length [OF ok(1)] by auto
  then have "read_bytes (unat (word_of_nat (length ?e) :: u32)) (?e @ ?r) = Some (?e, ?r)"
    using u [of "length ?e"] l(1) by (simp add: read_bytes_def)
  moreover have "enc_elements (p # ps) = put32 1 @ put32 (word_of_nat (length ?e)) @ ?e @ ?r"
    by (simp add: enc_elements_def enc_element_def)
  ultimately have "sample_records ?parse (length (p # ps)) (enc_elements (p # ps)) ex acc
      = sample_records ?parse (length ps) ?r (count_record ex) (acc @ [f])"
    using f(1) ad by (subst sample_records.simps) simp
  then show ?case using fs f(2) by (intro exI [of _ "f # fs"]) (simp add: funpow_swap1)
qed

text \<open>
  C35: A flow sample of rate one, no override being set, is read back: with any number of sampled frames that carry
  IPv4, with or without options, behind an untagged Ethernet header, it yields one flow for each, in order, with the addresses and
  protocol of its header, the ports for TCP and UDP, the length of the frame as bytes, one packet, the time given and the source's
  interface; and as many records are counted. At other rates the decoder multiplies nothing, a finding.
\<close>

theorem sflow_packet_roundtrip:
  assumes "list_all sampled_ok ps" and "length counters = 4" and "length (enc_sample seqno sid 1 counters ps) < 65536"
    and "override_of v = 0"
  shows "\<exists>fs. parseSFlowSample v (enc_sample seqno sid 1 counters ps) t ex = Some ((count_record ^^ length ps) ex, fs)
    \<and> list_all2 (reads_as v t sid) ps fs"
proof -
  obtain c1 c2 c3 c4 where c: "counters = [c1, c2, c3, c4]"
    using assms(2) by (auto simp: length_Suc_conv numeral_eq_Suc)
  have l: "length (enc_elements ps) < 65536" using assms(3) by (simp add: enc_sample_def)
  have "8 * length ps \<le> length (enc_elements ps)"
    by (induction ps) (simp_all add: enc_elements_def enc_element_def)
  then have "unat (word_of_nat (length ps) :: u32) = length ps"
    using l by (simp add: unat_of_nat take_bit_nat_eq_self_iff)
  moreover have "read_u32s 7 (enc_sample seqno sid 1 counters ps)
      = ([seqno, sid, 1, c1, c2, c3, c4], put32 (word_of_nat (length ps)) @ enc_elements ps)"
    by (simp add: enc_sample_def c numeral_eq_Suc)
  ultimately show ?thesis
    using sample_records_enc [OF assms(1) l, of v t sid ex "[]"]
    by (simp add: parseSFlowSample_def enc_sample_def c Let_def)
qed

definition sample_sampled :: sampled where
  "sample_sampled = \<lparr>sp_frame = 1500, sp_stripped = 4, sp_macs = replicate 12 0, sp_vhl = 0x46, sp_hd8 = replicate 8 0,
     sp_proto = 6, sp_cks = [0, 0], sp_src = [10, 0, 0, 1], sp_dst = [10, 0, 0, 2], sp_opts = [1, 1, 1, 0],
     sp_word1 = 443, sp_word2 = 5000, sp_rest = [], sp_pad = [0, 0]\<rparr>"

theorem sflow_packet_roundtrip_witness:
  "\<exists>ex' f. parseSFlowSample (sample_env ''sflow5'') (enc_sample 1 3 1 [0, 0, 2, 0] [sample_sampled]) 99
       (new_exporter (sample_env ''sflow5'')) = Some (ex', [f])
     \<and> SrcPort f = 443 \<and> BytesOut f = 1500 \<and> SrcIP f = ip4_string [10, 0, 0, 1]"
proof -
  have ok: "list_all sampled_ok [sample_sampled]" by (simp add: sampled_ok_def sample_sampled_def)
  then have "length (enc_sample 1 3 1 [0, 0, 2, 0] [sample_sampled]) < 65536"
    using enc_sampled_length [of sample_sampled]
    by (simp add: enc_sample_def enc_elements_def enc_element_def sample_sampled_def)
  moreover have "override_of (sample_env ''sflow5'') = 0" by (simp add: override_of_def sample_env_def)
  ultimately show ?thesis
    using sflow_packet_roundtrip [OF ok, of "[0, 0, 2, 0]" 1 3 "sample_env ''sflow5''" 99 "new_exporter (sample_env ''sflow5'')"]
    by (auto simp: list_all2_Cons1 reads_as_def with_ports_def sample_sampled_def)
qed

lemma vlan_ip4_untagged:
  assumes "unat ((header ! 14 AND 0x0f) * 4) \<le> length header - 14"
  shows "vlan_ip4 header 14 f = map_option (map_option (\<lambda>i.
     f\<lparr>SrcIP := ip_src i, DstIP := ip_dst i, Proto := protoName (ip_proto i),
       SrcPort := int (unat (ip_sport i)), DstPort := int (unat (ip_dport i))\<rparr>)) (sflow_ip4 header)"
proof (cases "length header < 34")
  case False
  obtain sp dp where "ports_at (drop 14 header) (unat ((header ! 14 AND 0x0f) * 4)) (header ! 23)
      = Some (sp, dp)"
    using ports_at_total by blast
  with False assms show ?thesis
    by (simp add: vlan_ip4_def sflow_ip4_def gslice_def idx_def Let_def not_less)
qed (simp add: vlan_ip4_def sflow_ip4_def)

lemma scaled_one: "scaled n 1 = int (unat n)"
proof -
  have "int (unat n) < 4294967296" using unat_u32_less [of n] by linarith
  also have "\<dots> < 2 ^ 63" by simp
  finally show ?thesis unfolding scaled_def by (simp add: i64_int del: of_nat_unat)
qed

text \<open>
  On an untagged IPv4 frame whose header length lies inside the frame, the expanded parser at
  sampling rate one and the live parser give the same flow, key included.
\<close>

theorem sflow_parsers_agree:
  assumes eth: "be32_at data 0 = Some 1" and n: "be32_at data 12 = Some n"
    and inside: "16 + unat n \<le> length data"
    and header: "header = take (unat n) (drop 16 data)"
    and et: "be16_at header 12 = Some 0x0800"
    and ihl: "unat ((header ! 14 AND 0x0f) * 4) \<le> length header - 14"
  shows "parseSFlowPacketDataWithVLAN v data t sid 1 = parseSFlowPacketData v data t sid"
proof -
  have l: "14 \<le> length header" using be16_at_length [OF et] by simp
  have len: "16 \<le> length data" using inside by simp
  then obtain fl where fl: "be32_at data 4 = Some fl" using be32_at_Some [of 4 data] by auto
  have g: "gslice data 16 (16 + unat n) = Some header"
    using inside by (simp add: gslice_Some header)
  have vl: "vlan_loop header 0x0800 14 = Some (Some (0x0800, 14))" by (subst vlan_loop.simps) simp
  obtain r where r: "sflow_ip4 header = Some r" using sflow_ip4_total by blast
  show ?thesis
    using len l inside
    by (simp add: parseSFlowPacketDataWithVLAN_def parseSFlowPacketData_def Let_def eth n fl g et vl
        vlan_ip4_untagged [OF ihl] r not_less split: option.split)
      (simp add: vlan_flow_def sflow_flow_def scaled_one Let_def sflow_key_def)
qed

text \<open>
  An IPv6 extension header longer than eight bytes is left too early: its length octet counts
  eight-byte units behind the first, as the code's own comment says, but the loop skips one unit
  less. Of a TCP segment behind a 16-byte hop-by-hop header it reports two words of the options
  as the ports.
\<close>

theorem extension_header_left_early:
  assumes "length pre = ipo" and "length o6 = 6" and "length o4 = 4"
    and header: "header = pre @ [6, 1] @ o6 @ put16 a @ put16 b @ o4 @ put16 sp @ put16 dp @ rest"
  shows "\<exists>f'. ext_loop header ipo 0 0 f = Some f' \<and> SrcPort f' = int (unat a)
    \<and> DstPort f' = int (unat b) \<and> Proto f' = protoName 6"
proof -
  have i: "idx header ipo = Some 6" "idx header (Suc ipo) = Some 1"
    using assms(1) by (simp_all add: idx_def header nth_append)
  have d: "drop (ipo + 8) header = put16 a @ put16 b @ o4 @ put16 sp @ put16 dp @ rest"
    using assms by simp
  then have w: "be16_at (drop (ipo + 8) header) 0 = Some a" "be16_at (drop (ipo + 8) header) 2 = Some b"
    by simp_all
  have len: "ipo + 12 \<le> length header" using assms by simp
  then have "gslice header (ipo + 8) (length header) = Some (drop (ipo + 8) header)"
    by (simp add: gslice_Some)
  then have "ext_loop header ipo 6 8 f
      = Some (f\<lparr>Proto := protoName 6, SrcPort := int (unat a), DstPort := int (unat b)\<rparr>)"
    using w len by (subst ext_loop.simps) (simp add: Let_def)
  moreover have "ext_loop header ipo 0 0 f = ext_loop header ipo 6 8 f"
    using i len by (subst ext_loop.simps) (simp add: ext_length_def)
  ultimately show ?thesis by simp
qed

theorem extension_header_left_early_witness:
  "\<exists>f'. ext_loop ([] @ [6, 1] @ [5, 2, 0, 0, 1, 0] @ put16 7 @ put16 9 @ [0, 0, 0, 0] @ put16 443
      @ put16 5000 @ []) 0 0 0 flow0 = Some f' \<and> SrcPort f' = 7 \<and> DstPort f' = 9"
proof -
  have "length ([] :: bytes) = 0" "length [5, 2, 0, 0, 1, 0 :: u8] = 6" "length [0, 0, 0, 0 :: u8] = 4"
    by simp_all
  from extension_header_left_early [OF this refl, of 7 9 443 5000 "[]" flow0] show ?thesis by auto
qed

definition sample_frame :: bytes where
  "sample_frame = replicate 12 0 @ put16 0x0800 @ enc_ip4 0x45 (replicate 8 0) 6 [0, 0] [10, 0, 0, 1]
     [10, 0, 0, 2] (put16 443 @ put16 5000 @ [])"

theorem sflow_parsers_agree_witness:
  "parseSFlowPacketDataWithVLAN (sample_env ''sflow5'') (enc_packet 1500 4 sample_frame []) 99 3 1
   = parseSFlowPacketData (sample_env ''sflow5'') (enc_packet 1500 4 sample_frame []) 99 3"
proof -
  let ?data = "enc_packet 1500 4 sample_frame []"
  have h: "length sample_frame = 38" by (simp add: sample_frame_def enc_ip4_def)
  then have "length sample_frame < 4294967296" by simp
  note w = enc_packet_words [OF this refl]
  have n: "unat (word_of_nat (length sample_frame) :: u32) = 38" using w(4) h by simp
  have "gslice ?data 16 (16 + 38) = Some sample_frame" using w(6) h by simp
  then have t: "sample_frame = take (unat (word_of_nat (length sample_frame) :: u32)) (drop 16 ?data)"
    unfolding n by (simp add: gslice_def split: if_splits)
  show ?thesis
  proof (rule sflow_parsers_agree [OF w(1) w(3) _ t])
    show "16 + unat (word_of_nat (length sample_frame) :: u32) \<le> length ?data"
      unfolding n w(5) h by simp
    show "be16_at sample_frame 12 = Some 0x0800"
      unfolding sample_frame_def by (rule be16_at_put16(1)) simp
    show "unat ((sample_frame ! 14 AND 0x0f) * 4) \<le> length sample_frame - 14"
      unfolding h by (simp add: sample_frame_def nth_append enc_ip4_def)
  qed
qed

end
