(* ===== verification/Net.thy ===== *)
theory Net
  imports GoText
begin

text \<open>
  What the program uses of Go's package \<^verbatim>\<open>net\<close>: \<^verbatim>\<open>ParseIP\<close>, \<^verbatim>\<open>ParseCIDR\<close> and
  \<^verbatim>\<open>IPNet.Contains\<close>, as the standard library defines them. An address is its 4 or 16 bytes.
  The last section shows that membership is equality of the leading bits.
\<close>

unbundle bit_operations_syntax

section \<open>Parsing addresses\<close>

definition parse_octet :: "string \<Rightarrow> u8 option" where
  "parse_octet s =
     (if s \<noteq> [] \<and> list_all is_digit s \<and> (length s = 1 \<or> hd s \<noteq> CHR ''0'') \<and> undec s \<le> 255
      then Some (word_of_nat (undec s)) else None)"

definition parse_ip4 :: "string \<Rightarrow> bytes option" where
  "parse_ip4 s =
     (case map parse_octet (split_on (CHR ''.'') s) of
        [Some a, Some b, Some c, Some d] \<Rightarrow> Some [a, b, c, d]
      | _ \<Rightarrow> None)"

definition hex_val :: "char \<Rightarrow> nat option" where
  "hex_val c = (let n = (of_char c :: nat) in
     if 48 \<le> n \<and> n \<le> 57 then Some (n - 48)
     else if 97 \<le> n \<and> n \<le> 102 then Some (n - 87)
     else if 65 \<le> n \<and> n \<le> 70 then Some (n - 55)
     else None)"

definition is_hex :: "char \<Rightarrow> bool" where
  "is_hex c \<longleftrightarrow> hex_val c \<noteq> None"

definition unhex :: "string \<Rightarrow> nat" where
  "unhex s = foldl (\<lambda>n c. 16 * n + the (hex_val c)) 0 s"

definition chunk16 :: "nat \<Rightarrow> bytes" where
  "chunk16 n = [word_of_nat (n div 256), word_of_nat n]"

text \<open>
  The loop of \<^verbatim>\<open>parseIPv6\<close>: the text left, the bytes read and the position of the ellipsis.
\<close>

function parse6_loop :: "string \<Rightarrow> bytes \<Rightarrow> nat option \<Rightarrow> (string \<times> bytes \<times> nat option) option" where
  "parse6_loop s acc ell =
     (if 16 \<le> length acc then Some (s, acc, ell)
      else
        let ds = takeWhile is_hex s; rest = dropWhile is_hex s; acc' = acc @ chunk16 (unhex ds) in
        if ds = [] \<or> 4 < length ds then None
        else (case rest of
          [] \<Rightarrow> Some ([], acc', ell)
        | c # r \<Rightarrow>
            if c = CHR ''.'' then
              (if (ell = None \<and> length acc \<noteq> 12) \<or> length acc + 4 > 16 then None
               else (case parse_ip4 s of None \<Rightarrow> None | Some b \<Rightarrow> Some ([], acc @ b, ell)))
            else if c \<noteq> CHR '':'' then None
            else (case r of
              [] \<Rightarrow> None
            | c2 # r2 \<Rightarrow>
                if c2 = CHR '':'' then
                  (if ell \<noteq> None then None
                   else if r2 = [] then Some ([], acc', Some (length acc'))
                   else parse6_loop r2 acc' (Some (length acc')))
                else parse6_loop r acc' ell)))"
  by pat_completeness auto
termination
proof (relation "measure (\<lambda>(s, acc, ell). length s)", goal_cases)
  case (2 s acc ell ds rest acc' c r c2 r2)
  then have "length (c # c2 # r2) = length (dropWhile is_hex s)" by simp
  then show ?case using length_dropWhile_le [of is_hex s] by simp
next
  case (3 s acc ell ds rest acc' c r c2 r2)
  then have "length (c # c2 # r2) = length (dropWhile is_hex s)" by simp
  then show ?case using 3 length_dropWhile_le [of is_hex s] by simp
qed simp

declare parse6_loop.simps [simp del]

definition parse6_finish :: "string \<times> bytes \<times> nat option \<Rightarrow> bytes option" where
  "parse6_finish r = (case r of (s, acc, ell) \<Rightarrow>
     if s \<noteq> [] then None
     else if length acc < 16 then
       (case ell of
          None \<Rightarrow> None
        | Some e \<Rightarrow> Some (take e acc @ replicate (16 - length acc) 0 @ drop e acc))
     else if ell \<noteq> None then None else Some acc)"

text \<open>An address with a zone is refused by both functions that parse one, so it is \<^const>\<open>None\<close>.\<close>

definition parse_ip6 :: "string \<Rightarrow> bytes option" where
  "parse_ip6 s =
     (if CHR ''%'' \<in> set s then None
      else if has_prefix s ''::'' then
        (if length s = 2 then Some (replicate 16 0)
         else Option.bind (parse6_loop (drop 2 s) [] (Some 0)) parse6_finish)
      else Option.bind (parse6_loop s [] None) parse6_finish)"

definition parse_addr :: "string \<Rightarrow> bytes option" where
  "parse_addr s =
     (case dropWhile (\<lambda>c. c \<notin> {CHR ''.'', CHR '':'', CHR ''%''}) s of
        [] \<Rightarrow> None
      | c # _ \<Rightarrow> if c = CHR ''.'' then parse_ip4 s else if c = CHR '':'' then parse_ip6 s else None)"

definition v4_prefix :: bytes where
  "v4_prefix = [0, 0, 0, 0, 0, 0, 0, 0, 0, 0, 255, 255]"

definition as16 :: "bytes \<Rightarrow> bytes" where
  "as16 b = (if length b = 4 then v4_prefix @ b else b)"

definition to4 :: "bytes \<Rightarrow> bytes option" where
  "to4 b =
     (if length b = 4 then Some b
      else if length b = 16 \<and> take 12 b = v4_prefix then Some (drop 12 b) else None)"

text \<open>\<^verbatim>\<open>IP.Equal\<close>: an IPv4 address equals its 16-byte form.\<close>

definition ip_equal :: "bytes \<Rightarrow> bytes \<Rightarrow> bool" where
  "ip_equal a b \<longleftrightarrow> (case (to4 a, to4 b) of (Some x, Some y) \<Rightarrow> x = y | (None, None) \<Rightarrow> a = b | _ \<Rightarrow> False)"

definition parse_ip :: "string \<Rightarrow> bytes option" where
  "parse_ip s = map_option as16 (parse_addr s)"

section \<open>Networks\<close>

record ipnet =
  net_ip :: bytes
  net_mask :: bytes

fun cidr_mask :: "nat \<Rightarrow> nat \<Rightarrow> bytes" where
  "cidr_mask ones 0 = []"
| "cidr_mask ones (Suc n) =
     (if 8 \<le> ones then 255 # cidr_mask (ones - 8) n
      else NOT (drop_bit ones 255) # cidr_mask 0 n)"

definition and_bytes :: "bytes \<Rightarrow> bytes \<Rightarrow> bytes" where
  "and_bytes a b = map2 (AND) a b"

definition index_of :: "char \<Rightarrow> string \<Rightarrow> nat option" where
  "index_of c s = (let n = length (takeWhile (\<lambda>x. x \<noteq> c) s) in if n < length s then Some n else None)"

text \<open>
  \<^verbatim>\<open>ParseCIDR\<close>: the address and the network. An IPv4 network keeps a 4-byte address and
  mask.
\<close>

definition parse_cidr :: "string \<Rightarrow> (bytes \<times> ipnet) option" where
  "parse_cidr s =
     (case index_of (CHR ''/'') s of
        None \<Rightarrow> None
      | Some i \<Rightarrow>
          (case parse_addr (take i s) of
             None \<Rightarrow> None
           | Some a \<Rightarrow>
               let m = drop (Suc i) s in
               if m = [] \<or> \<not> list_all is_digit m \<or> undec m > 8 * length a then None
               else let mask = cidr_mask (undec m) (length a)
                    in Some (as16 a, \<lparr>net_ip = and_bytes a mask, net_mask = mask\<rparr>)))"

definition net_contains :: "ipnet \<Rightarrow> bytes \<Rightarrow> bool" where
  "net_contains n ip =
     (let x = (case to4 ip of Some v \<Rightarrow> v | None \<Rightarrow> ip);
          (nn, m) = (case to4 (net_ip n) of
              Some v \<Rightarrow> (v, if length (net_mask n) = 16 then drop 12 (net_mask n) else net_mask n)
            | None \<Rightarrow> (net_ip n, net_mask n))
      in length x = length nn \<and> length m = length nn \<and> and_bytes nn m = and_bytes x m)"

section \<open>Membership is equality of leading bits\<close>

definition byte_bits :: "u8 \<Rightarrow> bool list" where
  "byte_bits b = map (bit b) [7, 6, 5, 4, 3, 2, 1, 0]"

definition addr_bits :: "bytes \<Rightarrow> bool list" where
  "addr_bits b = concat (map byte_bits b)"

lemma length_byte_bits [simp]: "length (byte_bits b) = 8"
  by (simp add: byte_bits_def)

lemma length_addr_bits [simp]: "length (addr_bits b) = 8 * length b"
  by (induction b) (simp_all add: addr_bits_def)

lemma addr_bits_Cons: "addr_bits (x # xs) = byte_bits x @ addr_bits xs"
  by (simp add: addr_bits_def)

lemma less_8_cases: "n < 8 \<longleftrightarrow> n \<in> {0, 1, 2, 3, 4, 5, 6, 7 :: nat}"
  by auto

lemma all_less_8: "(\<forall>n < 8. P n) \<longleftrightarrow> P 7 \<and> P 6 \<and> P 5 \<and> P 4 \<and> P 3 \<and> P 2 \<and> P 1 \<and> P (0 :: nat)"
  unfolding less_8_cases by blast

lemma byte_255: "(255 :: u8) = - 1"
  by simp

lemma byte_bits_inject [simp]: "byte_bits x = byte_bits y \<longleftrightarrow> x = y"
proof
  assume "byte_bits x = byte_bits y"
  then have "\<forall>n < 8. bit x n = bit y n"
    unfolding all_less_8 by (simp add: byte_bits_def)
  then show "x = y" by (intro bit_word_eqI) simp
qed simp

lemma and_eq_bits: "x AND m = y AND m \<longleftrightarrow> (\<forall>n < 8. bit m n \<longrightarrow> bit x n = bit y n)"
    for x y m :: u8
proof
  assume "x AND m = y AND m"
  then have "bit (x AND m) n = bit (y AND m) n" for n by simp
  then show "\<forall>n < 8. bit m n \<longrightarrow> bit x n = bit y n" by (auto simp: bit_and_iff)
qed (auto intro!: bit_word_eqI simp: bit_and_iff)

lemma byte_mask_bit: "n < 8 \<Longrightarrow> p \<le> 8 \<Longrightarrow> bit (NOT (drop_bit p 255) :: u8) n \<longleftrightarrow> 8 - p \<le> n"
proof -
  assume "n < 8" and "p \<le> 8"
  then show ?thesis
    unfolding byte_255 by (auto simp: bit_not_iff bit_drop_bit_eq bit_mask_iff)
qed

lemma byte_prefix:
  fixes x y :: u8
  assumes "p < 8"
  shows "x AND NOT (drop_bit p 255) = y AND NOT (drop_bit p 255)
    \<longleftrightarrow> take p (byte_bits x) = take p (byte_bits y)"
proof -
  have "x AND NOT (drop_bit p 255) = y AND NOT (drop_bit p 255)
      \<longleftrightarrow> (\<forall>n < 8. 8 - p \<le> n \<longrightarrow> bit x n = bit y n)"
    using assms by (simp add: and_eq_bits byte_mask_bit cong: conj_cong imp_cong)
  also have "\<dots> \<longleftrightarrow> take p (byte_bits x) = take p (byte_bits y)"
    using assms unfolding less_8_cases [of p] all_less_8 insert_iff empty_iff
    by (elim disjE) (simp_all add: byte_bits_def)
  finally show ?thesis .
qed

lemma and_bytes_Nil [simp]: "and_bytes [] [] = []"
  and and_bytes_Cons [simp]: "and_bytes (x # xs) (m # ms) = (x AND m) # and_bytes xs ms"
  by (simp_all add: and_bytes_def)

lemma and_cidr_mask:
  assumes "length a = n" and "length b = n" and "p \<le> 8 * n"
  shows "and_bytes a (cidr_mask p n) = and_bytes b (cidr_mask p n)
    \<longleftrightarrow> take p (addr_bits a) = take p (addr_bits b)"
  using assms
proof (induction n arbitrary: a b p)
  case 0
  then show ?case by simp
next
  case (Suc n)
  obtain x xs where a: "a = x # xs" "length xs = n" using Suc.prems(1) by (cases a) auto
  obtain y ys where b: "b = y # ys" "length ys = n" using Suc.prems(2) by (cases b) auto
  have full: "z AND 255 = z" for z :: u8
    unfolding byte_255 by simp
  show ?case
  proof (cases "8 \<le> p")
    case True
    then show ?thesis
      using Suc.IH [of xs ys "p - 8"] Suc.prems(3) a b by (simp add: addr_bits_Cons full)
  next
    case False
    then show ?thesis
      using Suc.IH [of xs ys 0] a b by (simp add: addr_bits_Cons byte_prefix)
  qed
qed

lemma cidr_mask_numeral [simp]: "cidr_mask p (numeral k) =
    (if 8 \<le> p then 255 # cidr_mask (p - 8) (pred_numeral k)
     else NOT (drop_bit p 255) # cidr_mask 0 (pred_numeral k))"
  by (simp add: numeral_eq_Suc)

lemma and_bytes_zeros [simp]: "and_bytes (replicate n 0) m = replicate (min n (length m)) 0"
  by (induction n arbitrary: m) (simp add: and_bytes_def, case_tac m, simp_all add: and_bytes_def)

lemmas parse_eval = parse_cidr_def index_of_def parse_addr_def parse_ip4_def parse_octet_def
  undec_def digit_val_def is_digit_def

lemma length_cidr_mask [simp]: "length (cidr_mask p n) = n"
  by (induction n arbitrary: p) auto

lemma length_and_bytes [simp]: "length (and_bytes a b) = min (length a) (length b)"
  by (simp add: and_bytes_def)

lemma and_bytes_idem: "length a = length m \<Longrightarrow> and_bytes (and_bytes a m) m = and_bytes a m"
  by (induction a m rule: list_induct2) (simp_all add: and.assoc)

text \<open>The network an IPv4 prefix gives, and what it contains.\<close>

definition ip4_net :: "bytes \<Rightarrow> nat \<Rightarrow> ipnet" where
  "ip4_net a p = \<lparr>net_ip = and_bytes a (cidr_mask p 4), net_mask = cidr_mask p 4\<rparr>"

lemma ip4_net_contains:
  assumes "length a = 4" and "length b = 4" and "p \<le> 32"
  shows "net_contains (ip4_net a p) b \<longleftrightarrow> take p (addr_bits b) = take p (addr_bits a)"
proof -
  have "net_contains (ip4_net a p) b \<longleftrightarrow> and_bytes a (cidr_mask p 4) = and_bytes b (cidr_mask p 4)"
    using assms(1,2) by (simp add: net_contains_def ip4_net_def to4_def Let_def and_bytes_idem)
  then show ?thesis using and_cidr_mask [of a 4 b p] assms by auto
qed

lemma ip4_net_refuses_ip6:
  assumes "length a = 4" and "length b = 16" and "to4 b = None"
  shows "\<not> net_contains (ip4_net a p) b"
  using assms by (simp add: net_contains_def ip4_net_def to4_def Let_def)

lemma net_contains_mapped:
  assumes "length b = 4"
  shows "net_contains n (as16 b) = net_contains n b"
  using assms by (simp add: net_contains_def as16_def to4_def v4_prefix_def)

end
