(* ===== verification/Collector.thy ===== *)
theory Collector
  imports SFlow5 Net "HOL-Library.Multiset"
begin

text \<open>
  \<^verbatim>\<open>internal/modules/netflow/netflow.go\<close>: which senders are heard, the dispatch of a datagram
  to the decoder of its listener, the status report, the configuration of the listeners, and the
  listener goroutine as a step relation.
\<close>

section \<open>Allowed senders\<close>

fun split_loop :: "string \<Rightarrow> string \<Rightarrow> string list \<Rightarrow> string list" where
  "split_loop [] buf out = (if buf \<noteq> [] then out @ [buf] else out)"
| "split_loop (c # cs) buf out =
     (if c = CHR 0x0A \<or> c = CHR 0x0D then
        (if buf \<noteq> [] then split_loop cs [] (out @ [buf]) else split_loop cs buf out)
      else split_loop cs (buf @ [c]) out)"

definition splitLines :: "string \<Rightarrow> string list" where
  "splitLines s = split_loop s [] []"

definition default_cidrs :: "string list" where
  "default_cidrs =
     [''10.0.0.0/8'', ''172.16.0.0/12'', ''192.168.0.0/16'', ''169.254.0.0/16'', ''fe80::/10'']"

definition parseAllowedCIDRs :: "string \<Rightarrow> ipnet list" where
  "parseAllowedCIDRs cidrs =
     (let s = (if cidrs = [] then concat (map (\<lambda>d. d @ [CHR 0x0A]) default_cidrs) else cidrs)
      in map snd (List.map_filter parse_cidr (splitLines s)))"

definition isIPAllowed :: "bytes \<Rightarrow> ipnet list \<Rightarrow> bool" where
  "isIPAllowed ip allowed = (if allowed = [] then True else list_ex (\<lambda>n. net_contains n ip) allowed)"

text \<open>The check of the listener; \<^const>\<open>None\<close> is a setting that is missing or not a string.\<close>

definition sender_allowed :: "string option \<Rightarrow> bytes \<Rightarrow> bool" where
  "sender_allowed setting ip =
     isIPAllowed ip (parseAllowedCIDRs (case setting of Some s \<Rightarrow> s | None \<Rightarrow> []))"

section \<open>Dispatch\<close>

definition dispatch :: "env \<Rightarrow> bytes \<Rightarrow> exporters \<Rightarrow> outcome" where
  "dispatch v packet es =
     (if proto v = ''netflow5'' then handleNetFlow5 v packet es
      else if proto v = ''netflow9'' then handleNetFlow9 v packet es
      else if proto v = ''ipfix'' then handleIPFIX v packet es
      else if proto v = ''sflow5'' then handleSFlow5 v packet es
      else Some (es, []))"

section \<open>Status\<close>

record status_row =
  st_address :: string
  st_protocol :: string
  st_records :: u64
  st_flows :: u64
  st_drops :: u64
  st_templates :: nat
  st_last_seen :: int

definition status_of :: "string \<times> exporterState \<Rightarrow> status_row" where
  "status_of p = (let ex = snd p in
     \<lparr>st_address = fst p, st_protocol = ex_protocol ex, st_records = recordsTotal ex,
      st_flows = flowsTotal ex, st_drops = dropsTotal ex,
      st_templates = Count (tmplCache9 ex) + Count (tmplCacheI ex),
      st_last_seen = lastSeen ex div 1000000000\<rparr>)"

definition apiStatus :: "exporters \<Rightarrow> status_row list" where
  "apiStatus es = map status_of es"

section \<open>Configuration of the listeners\<close>

text \<open>
  The sockets the process has bound are kept beside the map of collectors, because the two come
  apart: see the listener below. What the operating system answers to a bind is a parameter.
\<close>

datatype listen_result = Bound | ListenErr string | BufferErr string

record collector =
  c_local :: string
  c_port :: int

record nmodule =
  collectors :: "(string, collector) gomap"
  sockets :: "(string \<times> int) list"
  lastErr :: string
  stopDone :: bool

record nsettings =
  s_collect :: bool
  s_bind :: string

record platform =
  listen :: "(string \<times> int) list \<Rightarrow> string \<times> int \<Rightarrow> listen_result"
  local_addr :: "string \<Rightarrow> string"

text \<open>
  \<^verbatim>\<open>Stop\<close>: the stop signal is offered without blocking and, as the listener never waits for
  it, is not taken; only the map is emptied, and only the first time.
\<close>

definition Stop :: "nmodule \<Rightarrow> nmodule" where
  "Stop m = (if stopDone m then m else m\<lparr>collectors := [], stopDone := True\<rparr>)"

definition effective_bind :: "nsettings \<Rightarrow> string" where
  "effective_bind s = (if s_bind s = [] then ''0.0.0.0'' else s_bind s)"

definition known_protocol :: "string \<Rightarrow> bool" where
  "known_protocol name \<longleftrightarrow> name \<in> {''netflow5'', ''netflow9'', ''ipfix'', ''sflow5''}"

definition port_of :: "(string \<times> int) list \<Rightarrow> string \<Rightarrow> int" where
  "port_of ports name = (case map_of ports name of Some p \<Rightarrow> p | None \<Rightarrow> 0)"

text \<open>Here the signal is sent blocking, so the listener closes its socket.\<close>

definition stop_one :: "string \<Rightarrow> (string \<times> int) list \<Rightarrow> string \<times> collector \<Rightarrow> nmodule \<Rightarrow> nmodule" where
  "stop_one bnd ports p m =
     (if \<not> known_protocol (fst p) then m
      else if port_of ports (fst p) \<le> 0 \<or> bnd \<noteq> c_local (snd p) then
        m\<lparr>collectors := mdel (fst p) (collectors m),
          sockets := remove1 (c_local (snd p), c_port (snd p)) (sockets m)\<rparr>
      else m)"

definition stop_changed :: "string \<Rightarrow> (string \<times> int) list \<Rightarrow> nmodule \<Rightarrow> nmodule" where
  "stop_changed bnd ports m = fold (stop_one bnd ports) (collectors m) m"

text \<open>
  The loop over the ports, in the order in which the map is visited; \<^const>\<open>Some\<close> is the error
  returned.
\<close>

fun start_all ::
  "platform \<Rightarrow> string \<Rightarrow> (string \<times> int) list \<Rightarrow> nmodule \<Rightarrow> nmodule \<times> string option"
where
  "start_all os bnd [] m = (m\<lparr>lastErr := []\<rparr>, None)"
| "start_all os bnd ((pr, port) # ps) m =
     (if port \<le> 0 then start_all os bnd ps m
      else if mget (collectors m) pr \<noteq> None then start_all os bnd ps m
      else case listen os (sockets m) (local_addr os bnd, port) of
        ListenErr e \<Rightarrow> (m\<lparr>lastErr := e\<rparr>, Some e)
      | BufferErr e \<Rightarrow> (m, Some e)
      | Bound \<Rightarrow> start_all os bnd ps
          (m\<lparr>collectors := mput pr \<lparr>c_local = local_addr os bnd, c_port = port\<rparr> (collectors m),
             sockets := sockets m @ [(local_addr os bnd, port)]\<rparr>))"

definition reconfigure ::
  "platform \<Rightarrow> nsettings \<Rightarrow> (string \<times> int) list \<Rightarrow> nmodule \<Rightarrow> nmodule \<times> string option"
where
  "reconfigure os s ports m =
     (if \<not> s_collect s then (Stop m, None)
      else let bnd = effective_bind s in start_all os bnd ports (stop_changed bnd ports m))"

definition default_ports :: "(string \<times> int) list" where
  "default_ports = [(''netflow5'', 2055), (''netflow9'', 2055), (''ipfix'', 2055), (''sflow5'', 6343)]"

section \<open>The listener goroutine\<close>

text \<open>
  One listener with its receive buffer, the handler goroutines it has started but that have not
  run yet, and what was handled. A handler holds a slice of the buffer, so it reads the buffer's
  bytes at the time it runs. \<open>blocked\<close> tells that \<^verbatim>\<open>reconfigure\<close> is blocked on sending the
  stop signal.
\<close>

datatype phase = Top | Reading | Closed | Dead

record lstate =
  phase :: phase
  buf :: bytes
  pending :: "(string \<times> nat) list"
  handled :: "(string \<times> bytes) list"
  blocked :: bool
  registered :: bool

text \<open>
  A send without blocking succeeds when a receiver waits. The listener receives only in a
  \<^verbatim>\<open>select\<close> with a default, at the top of its loop, so in no phase does it wait.
\<close>

definition receiver_waits :: "phase \<Rightarrow> bool" where
  "receiver_waits p = False"

inductive lstep :: "lstate \<Rightarrow> lstate \<Rightarrow> bool" where
  poll_stop: "phase s = Top \<Longrightarrow> blocked s \<Longrightarrow> lstep s (s\<lparr>phase := Closed, blocked := False\<rparr>)"
| poll_default: "phase s = Top \<Longrightarrow> \<not> blocked s \<Longrightarrow> lstep s (s\<lparr>phase := Reading\<rparr>)"
| read_timeout: "phase s = Reading \<Longrightarrow> lstep s (s\<lparr>phase := Top\<rparr>)"
| read_fails: "phase s = Reading \<Longrightarrow> lstep s (s\<lparr>phase := Dead\<rparr>)"
| read_refused: "phase s = Reading \<Longrightarrow> length d \<le> length (buf s) \<Longrightarrow>
    lstep s (s\<lparr>phase := Top, buf := d @ drop (length d) (buf s)\<rparr>)"
| read_accepted: "phase s = Reading \<Longrightarrow> 0 < length d \<Longrightarrow> length d \<le> length (buf s) \<Longrightarrow>
    lstep s (s\<lparr>phase := Top, buf := d @ drop (length d) (buf s),
      pending := pending s @ [(r, length d)]\<rparr>)"
| handle: "pending s = xs @ (r, n) # ys \<Longrightarrow>
    lstep s (s\<lparr>pending := xs @ ys, handled := handled s @ [(r, take n (buf s))]\<rparr>)"
| module_stop: "lstep s (s\<lparr>registered := False,
      phase := if receiver_waits (phase s) then Closed else phase s\<rparr>)"

text \<open>
  A read error other than the timeout ends the loop at \<^const>\<open>Dead\<close>, where the socket is
  still open and nobody receives any more. What \<^verbatim>\<open>reconfigure\<close> adds: a send that blocks until the listener polls.
\<close>

inductive reconf_step :: "lstate \<Rightarrow> lstate \<Rightarrow> bool" where
  send_stop: "registered s \<Longrightarrow> reconf_step s (s\<lparr>blocked := True, registered := False\<rparr>)"

definition listener0 :: lstate where
  "listener0 = \<lparr>phase = Top, buf = replicate 65536 0, pending = [], handled = [], blocked = False,
     registered = True\<rparr>"

section \<open>Lemmas: what a datagram changes\<close>

definition only_remote :: "env \<Rightarrow> exporters \<Rightarrow> exporters \<Rightarrow> bool" where
  "only_remote v es es' \<longleftrightarrow> (\<forall>a. a \<noteq> remote v \<longrightarrow> mget es' a = mget es a)
     \<and> (mkeys_ok es \<and> int (length es) \<le> max_exporters (cfg v)
          \<longrightarrow> int (length es') \<le> max_exporters (cfg v))"

lemma only_remote_refl [simp]: "only_remote v es es"
  by (simp add: only_remote_def)

lemma only_remote_get: "getExporter v es = (r, es1) \<Longrightarrow> only_remote v es es1"
  by (auto simp: only_remote_def getExporter_def Let_def length_mput mkeys_iff
      split: option.splits if_splits)

lemma only_remote_put:
  assumes get: "getExporter v es = (Some ex, es1)"
  shows "only_remote v es (put_exporter v ex' es1)"
proof -
  have k: "remote v \<in> mkeys es1" and ok: "mkeys_ok es \<Longrightarrow> mkeys_ok es1"
    using get by (auto simp: getExporter_def Let_def split: option.splits if_splits)
  show ?thesis
    using only_remote_get [OF get] k ok
    by (auto simp: only_remote_def put_exporter_def length_mput)
qed

lemma handlers_only_remote:
  "handleNetFlow5 v packet es = Some (es', batch) \<Longrightarrow> only_remote v es es'"
  "handleNetFlow9 v packet es = Some (es', batch) \<Longrightarrow> only_remote v es es'"
  "handleIPFIX v packet es = Some (es', batch) \<Longrightarrow> only_remote v es es'"
  "handleSFlow5 v packet es = Some (es', batch) \<Longrightarrow> only_remote v es es'"
proof -
  obtain r es1 where get: "getExporter v es = (r, es1)" by (cases "getExporter v es")
  note get1 = only_remote_get [OF get]
  have put: "r = Some ex \<Longrightarrow> only_remote v es (put_exporter v ex' es1)" for ex ex'
    using only_remote_put get by simp
  note defs = handleNetFlow5_def handleNetFlow9_def handleIPFIX_def handleSFlow5_def
  show "handleNetFlow5 v packet es = Some (es', batch) \<Longrightarrow> only_remote v es es'"
    "handleNetFlow9 v packet es = Some (es', batch) \<Longrightarrow> only_remote v es es'"
    "handleIPFIX v packet es = Some (es', batch) \<Longrightarrow> only_remote v es es'"
    "handleSFlow5 v packet es = Some (es', batch) \<Longrightarrow> only_remote v es es'"
    using get get1 put
    by (auto simp: defs Let_def bind_eq_Some_conv case_prod_unfold split: if_splits option.splits)
qed

section \<open>Properties\<close>

text \<open>
  C1: whatever protocol a listener speaks and whatever bytes arrive, its handler returns without a
  panic. It keeps the exporters well-formed and within the configured number, and touches the
  record of no other exporter than the sender's.
\<close>

theorem dispatch_total:
  "\<exists>es' batch. dispatch v packet es = Some (es', batch)
    \<and> (exporters_ok es \<longrightarrow> exporters_ok es')
    \<and> (exporters_ok es \<and> int (length es) \<le> max_exporters (cfg v)
         \<longrightarrow> int (length es') \<le> max_exporters (cfg v))
    \<and> (\<forall>a. a \<noteq> remote v \<longrightarrow> mget es' a = mget es a)"
proof -
  define good where "good r \<longleftrightarrow> (\<exists>es' batch. r = Some (es', batch)
      \<and> (exporters_ok es \<longrightarrow> exporters_ok es') \<and> only_remote v es es')" for r :: outcome
  have goodI: "good r" if "\<exists>es' batch. r = Some (es', batch) \<and> (exporters_ok es \<longrightarrow> exporters_ok es')"
      and "\<And>es' batch. r = Some (es', batch) \<Longrightarrow> only_remote v es es'" for r
    using that unfolding good_def by blast
  have "good (handleNetFlow5 v packet es)" "good (handleNetFlow9 v packet es)"
    "good (handleIPFIX v packet es)" "good (handleSFlow5 v packet es)"
    by (rule goodI, rule netflow5_total, erule handlers_only_remote,
        rule goodI, rule netflow9_total, erule handlers_only_remote,
        rule goodI, rule ipfix_total, erule handlers_only_remote,
        rule goodI, rule sflow5_total, erule handlers_only_remote)
  moreover have "good (Some (es, []))" by (simp add: good_def)
  ultimately have "good (dispatch v packet es)" by (simp add: dispatch_def)
  then show ?thesis unfolding good_def only_remote_def exporters_ok_def by blast
qed

theorem dispatch_total_witness:
  "\<exists>es' batch. dispatch (sample_env ''netflow5'') sample_packet5 [] = Some (es', batch)
     \<and> exporters_ok es' \<and> int (length es') \<le> 100"
proof -
  have "exporters_ok []" by (simp add: exporters_ok_def)
  then show ?thesis
    using dispatch_total [of "sample_env ''netflow5''" sample_packet5 "[]"]
    by (auto simp: sample_env_def)
qed

text \<open>
  The reaper removes exactly the exporters not heard of for more than half an hour; the others
  keep their records, counters and templates.
\<close>

theorem reap_keeps_recent:
  assumes "mkeys_ok es"
  shows "mget (reapExporters now es) a = (case mget es a of
      None \<Rightarrow> None
    | Some ex \<Rightarrow> if now - lastSeen ex \<le> 1800 * 1000000000 then Some ex else None)
    \<and> mkeys_ok (reapExporters now es)"
proof
  have d: "distinct (map fst es)" using assms by (simp add: mkeys_ok_def)
  show "mkeys_ok (reapExporters now es)"
    using d by (simp add: mkeys_ok_def reapExporters_def distinct_map_filter)
  show "mget (reapExporters now es) a = (case mget es a of
      None \<Rightarrow> None
    | Some ex \<Rightarrow> if now - lastSeen ex \<le> 1800 * 1000000000 then Some ex else None)"
    using d
  proof (induction es)
    case Nil
    then show ?case by (simp add: reapExporters_def)
  next
    case (Cons p es)
    obtain b ex where p: "p = (b, ex)" by (cases p)
    have none: "mget (reapExporters now es) b = None"
    proof -
      have "b \<notin> fst ` set es" using Cons.prems p by simp
      then show ?thesis by (auto simp: mget_def reapExporters_def map_of_eq_None_iff)
    qed
    show ?case
      using Cons none p
      by (auto simp: mget_def reapExporters_def reap_cutoff_def)
  qed
qed

theorem reap_keeps_recent_witness:
  "mget (reapExporters 1800000000001 [(''10.0.0.1'', (new_exporter (sample_env ''ipfix''))\<lparr>lastSeen := 0\<rparr>),
     (''10.0.0.2'', (new_exporter (sample_env ''ipfix''))\<lparr>lastSeen := 1\<rparr>)]) ''10.0.0.1'' = None"
  using reap_keeps_recent [of "[(''10.0.0.1'', (new_exporter (sample_env ''ipfix''))\<lparr>lastSeen := 0\<rparr>),
     (''10.0.0.2'', (new_exporter (sample_env ''ipfix''))\<lparr>lastSeen := 1\<rparr>)]" 1800000000001 "''10.0.0.1''"]
  by (simp add: mkeys_ok_def mget_def)

text \<open>Splitting into lines keeps the text between line ends, and only that.\<close>

lemma split_loop_line:
  "\<forall>c \<in> set l. c \<noteq> CHR 0x0A \<and> c \<noteq> CHR 0x0D \<Longrightarrow>
   split_loop (l @ s) b out = split_loop s (b @ l) out"
  by (induction l arbitrary: b) auto

lemma splitLines_single:
  "\<forall>c \<in> set l. c \<noteq> CHR 0x0A \<and> c \<noteq> CHR 0x0D \<Longrightarrow> l \<noteq> [] \<Longrightarrow> splitLines l = [l]"
  using split_loop_line [of l "[]" "[]" "[]"] by (simp add: splitLines_def)

lemma default_lines:
  "splitLines (concat (map (\<lambda>d. d @ [CHR 0x0A]) default_cidrs)) = default_cidrs"
  by code_simp

definition link_local6 :: ipnet where
  "link_local6 = \<lparr>net_ip = [0xfe, 0x80] @ replicate 14 0, net_mask = cidr_mask 10 16\<rparr>"

lemma parse_link_local6:
  "parse_cidr ''fe80::/10'' = Some ([0xfe, 0x80] @ replicate 14 0, link_local6)"
proof -
  have "parse_addr ''fe80::'' = Some ([0xfe, 0x80] @ replicate 14 0)"
    by (simp add: parse_addr_def parse_ip6_def has_prefix_def is_hex_def, subst parse6_loop.simps)
      (simp add: is_hex_def hex_val_def unhex_def chunk16_def parse6_finish_def)
  then show ?thesis
    by (simp add: parse_cidr_def index_of_def undec_def digit_val_def is_digit_def as16_def
        link_local6_def) (simp add: numeral_eq_Suc)
qed

lemma default_networks:
  "parseAllowedCIDRs [] = [ip4_net [10, 0, 0, 0] 8, ip4_net [172, 16, 0, 0] 12,
     ip4_net [192, 168, 0, 0] 16, ip4_net [169, 254, 0, 0] 16, link_local6]"
proof -
  have "parse_cidr ''10.0.0.0/8'' = Some (as16 [10, 0, 0, 0], ip4_net [10, 0, 0, 0] 8)"
    "parse_cidr ''172.16.0.0/12'' = Some (as16 [172, 16, 0, 0], ip4_net [172, 16, 0, 0] 12)"
    "parse_cidr ''192.168.0.0/16'' = Some (as16 [192, 168, 0, 0], ip4_net [192, 168, 0, 0] 16)"
    "parse_cidr ''169.254.0.0/16'' = Some (as16 [169, 254, 0, 0], ip4_net [169, 254, 0, 0] 16)"
    by (simp_all add: parse_eval ip4_net_def)
  then show ?thesis
    by (simp add: parseAllowedCIDRs_def default_lines)
      (simp add: default_cidrs_def List.map_filter_def parse_link_local6)
qed

text \<open>
  Without a setting, an IPv4 sender is heard exactly when it lies in one of the private ranges
  10/8, 172.16/12 and 192.168/16 or in the link-local range 169.254/16.
\<close>

theorem default_senders:
  assumes "length ip = 4"
  shows "sender_allowed None ip \<longleftrightarrow>
      take 8 (addr_bits ip) = take 8 (addr_bits [10, 0, 0, 0])
    \<or> take 12 (addr_bits ip) = take 12 (addr_bits [172, 16, 0, 0])
    \<or> take 16 (addr_bits ip) = take 16 (addr_bits [192, 168, 0, 0])
    \<or> take 16 (addr_bits ip) = take 16 (addr_bits [169, 254, 0, 0])"
proof -
  have "\<not> net_contains link_local6 ip"
    using assms by (simp add: net_contains_def link_local6_def to4_def v4_prefix_def Let_def)
  moreover have "net_contains (ip4_net a p) ip \<longleftrightarrow> take p (addr_bits ip) = take p (addr_bits a)"
    if "length a = 4" "p \<le> 32" for a p
    using ip4_net_contains [OF that(1) assms that(2)] .
  ultimately show ?thesis
    by (simp add: sender_allowed_def default_networks isIPAllowed_def)
qed

theorem default_senders_witness:
  "sender_allowed None [172, 31, 255, 1] \<and> \<not> sender_allowed None [8, 8, 8, 8]"
proof -
  have "length [172, 31, 255, 1 :: u8] = 4" and "length [8, 8, 8, 8 :: u8] = 4" by simp_all
  from this [THEN default_senders] show ?thesis
    by (simp add: addr_bits_def byte_bits_def)
qed

text \<open>
  The filter fails open. A setting of which no line is a network, even one that only has a
  space before the address, admits every sender, although it names at most some.
\<close>

theorem unreadable_filter_admits_all:
  assumes "\<forall>l \<in> set (splitLines s). parse_cidr l = None" and "s \<noteq> []"
  shows "sender_allowed (Some s) ip"
  using assms
  by (simp add: sender_allowed_def parseAllowedCIDRs_def isIPAllowed_def List.map_filter_def)

theorem unreadable_filter_admits_all_witness:
  "sender_allowed (Some '' 10.0.0.0/8'') [8, 8, 8, 8]"
proof (rule unreadable_filter_admits_all)
  have "splitLines '' 10.0.0.0/8'' = ['' 10.0.0.0/8'']" by code_simp
  moreover have "parse_cidr '' 10.0.0.0/8'' = None" by (simp add: parse_eval)
  ultimately show "\<forall>l \<in> set (splitLines '' 10.0.0.0/8''). parse_cidr l = None" by simp
qed simp

section \<open>Properties of the configuration\<close>

lemma start_all_ok_distinct:
  assumes "start_all os bnd ps m = (m', None)" and "\<forall>p \<in> set ps. 0 < snd p"
    and "distinct (map fst ps)" and "\<forall>p \<in> set ps. fst p \<notin> mkeys (collectors m)"
    and busy: "\<And>socks a. a \<in> set socks \<Longrightarrow> listen os socks a \<noteq> Bound"
  shows "distinct (map snd ps) \<and> (\<forall>p \<in> set ps. (local_addr os bnd, snd p) \<notin> set (sockets m))"
  using assms(1-4)
proof (induction ps arbitrary: m)
  case (Cons p ps)
  obtain pr port where p: "p = (pr, port)" by (cases p)
  let ?m = "m\<lparr>collectors := mput pr \<lparr>c_local = local_addr os bnd, c_port = port\<rparr> (collectors m),
    sockets := sockets m @ [(local_addr os bnd, port)]\<rparr>"
  have none: "mget (collectors m) pr = None" using Cons.prems(4) p by (simp add: mget_None_iff)
  then have bound: "listen os (sockets m) (local_addr os bnd, port) = Bound"
    and rest: "start_all os bnd ps ?m = (m', None)"
    using Cons.prems(1,2) p by (auto split: listen_result.splits)
  have "distinct (map snd ps) \<and> (\<forall>q \<in> set ps. (local_addr os bnd, snd q) \<notin> set (sockets ?m))"
    using Cons.prems(2-4) p by (intro Cons.IH [OF rest]) auto
  moreover have "(local_addr os bnd, port) \<notin> set (sockets m)" using busy bound by blast
  ultimately show ?case using p by auto
qed simp

text \<open>
  With the default ports the listeners can never all start. NetFlow v5, v9 and IPFIX share
  port 2055, each opens a socket of its own, and where the system refuses to bind an address that
  is already bound, switching the collection on returns an error, whatever the order in which the
  ports are visited.
\<close>

theorem default_ports_clash:
  assumes on: "s_collect s" and fresh: "collectors m = []"
    and order: "mset ports = mset default_ports"
    and busy: "\<And>socks a. a \<in> set socks \<Longrightarrow> listen os socks a \<noteq> Bound"
  shows "snd (reconfigure os s ports m) \<noteq> None"
proof
  assume none: "snd (reconfigure os s ports m) = None"
  have "stop_changed (effective_bind s) ports m = m" by (simp add: stop_changed_def fresh)
  then obtain m' where r: "start_all os (effective_bind s) ports m = (m', None)"
    using none on by (cases "start_all os (effective_bind s) ports m")
      (simp add: reconfigure_def Let_def)
  have set: "set ports = set default_ports" using order by (metis set_mset_mset)
  have "mset (map fst ports) = mset (map fst default_ports)" using order by simp
  then have d: "distinct (map fst ports)"
    by (rule mset_eq_imp_distinct_iff [THEN iffD2]) (simp add: default_ports_def)
  have "distinct (map snd ports)"
    using start_all_ok_distinct [OF r _ d _ busy] fresh set by (simp add: default_ports_def)
  moreover have "mset (map snd ports) = mset (map snd default_ports)" using order by simp
  ultimately have "distinct (map snd default_ports)" using mset_eq_imp_distinct_iff by blast
  then show False by (simp add: default_ports_def)
qed

definition sample_platform :: platform where
  "sample_platform = \<lparr>listen = (\<lambda>socks a. if a \<in> set socks then ListenErr ''address already in use''
     else Bound), local_addr = (\<lambda>b. ''::'')\<rparr>"

definition sample_module :: nmodule where
  "sample_module = \<lparr>collectors = [], sockets = [], lastErr = [], stopDone = False\<rparr>"

theorem default_ports_clash_witness:
  "snd (reconfigure sample_platform \<lparr>s_collect = True, s_bind = []\<rparr> default_ports sample_module) \<noteq> None"
  by (rule default_ports_clash) (auto simp: sample_module_def sample_platform_def)

text \<open>
  Switching the collection off does not free its ports. A collection switched off and on
  again, with the same address and ports, fails to listen; and once it has been switched off,
  switching it off again leaves every collector as it is.
\<close>

theorem off_and_on_fails:
  assumes off: "\<not> s_collect s0" and on: "s_collect s1" and first: "\<not> stopDone m"
    and held: "(local_addr os (effective_bind s1), port) \<in> set (sockets m)"
    and ports: "(pr, port) \<in> set ports" "\<forall>p \<in> set ports. 0 < snd p" "distinct (map fst ports)"
    and busy: "\<And>socks a. a \<in> set socks \<Longrightarrow> listen os socks a \<noteq> Bound"
  shows "snd (reconfigure os s1 ports (fst (reconfigure os s0 ports0 m))) \<noteq> None
    \<and> fst (reconfigure os s0 ports (fst (reconfigure os s1 ports (fst (reconfigure os s0 ports0 m)))))
      = fst (reconfigure os s1 ports (fst (reconfigure os s0 ports0 m)))"
proof
  define m1 where "m1 = fst (reconfigure os s0 ports0 m)"
  have m1: "collectors m1 = []" "sockets m1 = sockets m" "stopDone m1"
    using off first by (simp_all add: m1_def reconfigure_def Stop_def)
  have same: "stop_changed (effective_bind s1) ports m1 = m1" by (simp add: stop_changed_def m1)
  have "snd (reconfigure os s1 ports m1) \<noteq> None"
  proof
    assume none: "snd (reconfigure os s1 ports m1) = None"
    then obtain m' where "start_all os (effective_bind s1) ports m1 = (m', None)"
      using on same by (cases "start_all os (effective_bind s1) ports m1")
        (simp add: reconfigure_def Let_def)
    from start_all_ok_distinct [OF this ports(2,3) _ busy] show False
      using m1 ports(1) held by fastforce
  qed
  then show "snd (reconfigure os s1 ports (fst (reconfigure os s0 ports0 m))) \<noteq> None"
    by (simp add: m1_def)
  have idle: "fst (reconfigure os s0 ports x) = x" if "stopDone x" for x
    using off that by (simp add: reconfigure_def Stop_def)
  have "stopDone (fst (start_all os b ps n)) = stopDone n" for b ps n
    by (induction os b ps n rule: start_all.induct) (auto split: listen_result.split)
  then have "stopDone (fst (reconfigure os s1 ports m1))"
    using on same m1 by (simp add: reconfigure_def Let_def)
  then show "fst (reconfigure os s0 ports (fst (reconfigure os s1 ports (fst (reconfigure os s0 ports0 m)))))
      = fst (reconfigure os s1 ports (fst (reconfigure os s0 ports0 m)))"
    unfolding m1_def [symmetric] by (rule idle)
qed

theorem off_and_on_fails_witness:
  "snd (reconfigure sample_platform \<lparr>s_collect = True, s_bind = []\<rparr> [(''ipfix'', 4739)]
     (fst (reconfigure sample_platform \<lparr>s_collect = False, s_bind = []\<rparr> [(''ipfix'', 4739)]
       (sample_module\<lparr>sockets := [(''::'', 4739)],
          collectors := [(''ipfix'', \<lparr>c_local = ''::'', c_port = 4739\<rparr>)]\<rparr>)))) \<noteq> None"
  using off_and_on_fails [of "\<lparr>s_collect = False, s_bind = []\<rparr>" "\<lparr>s_collect = True, s_bind = []\<rparr>"
      "sample_module\<lparr>sockets := [(''::'', 4739)],
          collectors := [(''ipfix'', \<lparr>c_local = ''::'', c_port = 4739\<rparr>)]\<rparr>" sample_platform 4739
      "''ipfix''" "[(''ipfix'', 4739)]" "[(''ipfix'', 4739)]"]
  by (auto simp: sample_module_def sample_platform_def)

section \<open>Properties of the listener\<close>

text \<open>In contrast, the blocking send of \<^verbatim>\<open>reconfigure\<close> is taken at the next poll.\<close>

inductive_simps reconf_step_iff: "reconf_step s s'"

lemma blocking_send_closes:
  assumes "reconf_step s s'" and "phase s \<noteq> Closed" and "phase s \<noteq> Dead"
  shows "\<exists>s''. lstep\<^sup>*\<^sup>* s' s'' \<and> phase s'' = Closed"
proof -
  have b: "blocked s'" "phase s' = phase s" using assms(1) by (auto simp: reconf_step_iff)
  have close: "lstep t (t\<lparr>phase := Closed, blocked := False\<rparr>)" if "phase t = Top" "blocked t" for t
    using that by (rule poll_stop)
  show ?thesis
  proof (cases "phase s")
    case Top
    then have "lstep\<^sup>*\<^sup>* s' (s'\<lparr>phase := Closed, blocked := False\<rparr>)"
      using close [of s'] b by (intro r_into_rtranclp) simp
    then show ?thesis by (intro exI conjI, assumption) simp
  next
    case Reading
    then have "lstep\<^sup>*\<^sup>* s' (s'\<lparr>phase := Top\<rparr>)"
      using b by (intro r_into_rtranclp read_timeout) simp
    also have "lstep (s'\<lparr>phase := Top\<rparr>) (s'\<lparr>phase := Closed, blocked := False\<rparr>)"
      using close [of "s'\<lparr>phase := Top\<rparr>"] b by simp
    finally have "lstep\<^sup>*\<^sup>* s' (s'\<lparr>phase := Closed, blocked := False\<rparr>)" .
    then show ?thesis by (intro exI conjI, assumption) simp
  qed (use assms(2,3) in simp_all)
qed

text \<open>After a failed read it is never taken: \<^verbatim>\<open>reconfigure\<close> blocks for good.\<close>

lemma lstep_dead: "lstep s s' \<Longrightarrow> phase s = Dead \<Longrightarrow> phase s' = Dead \<and> blocked s' = blocked s"
  by (induction rule: lstep.induct) (auto simp: receiver_waits_def)

lemma dead_blocks:
  assumes "reconf_step s s'" and "phase s = Dead" and "lstep\<^sup>*\<^sup>* s' s''"
  shows "phase s'' = Dead \<and> blocked s''"
  using assms(3)
proof (induction rule: rtranclp_induct)
  case base
  then show ?case using assms(1,2) by (auto simp: reconf_step_iff)
next
  case (step t t')
  then show ?case using lstep_dead by blast
qed

lemma lstep_open: "lstep s s' \<Longrightarrow> phase s \<noteq> Closed \<and> \<not> blocked s \<and> length (buf s) = 65536
    \<Longrightarrow> phase s' \<noteq> Closed \<and> \<not> blocked s' \<and> length (buf s') = 65536"
  by (induction rule: lstep.induct) (auto simp: receiver_waits_def)

lemma reachable_open: "lstep\<^sup>*\<^sup>* listener0 s \<Longrightarrow>
    phase s \<noteq> Closed \<and> \<not> blocked s \<and> length (buf s) = 65536"
proof (induction rule: rtranclp_induct)
  case base
  then show ?case by (simp add: listener0_def)
next
  case (step s s')
  then show ?case using lstep_open by blast
qed

lemma receive_one:
  assumes "phase s \<noteq> Closed" and "phase s \<noteq> Dead" and "\<not> blocked s" and "0 < length d" and "length d \<le> length (buf s)"
  shows "lstep\<^sup>*\<^sup>* s (s\<lparr>phase := Top, buf := d @ drop (length d) (buf s),
    pending := pending s @ [(r, length d)]\<rparr>)"
proof -
  let ?s = "s\<lparr>phase := Reading\<rparr>"
  have "lstep\<^sup>*\<^sup>* s ?s"
  proof (cases "phase s")
    case Top
    then show ?thesis using poll_default [of s] assms(3) by blast
  next
    case Reading
    then have "?s = s" by simp
    then show ?thesis by simp
  qed (use assms in simp_all)
  moreover have "lstep ?s (s\<lparr>phase := Top, buf := d @ drop (length d) (buf s),
      pending := pending s @ [(r, length d)]\<rparr>)"
    using read_accepted [of ?s d r] assms by simp
  ultimately show ?thesis by simp
qed

text \<open>
  \<^verbatim>\<open>Stop\<close> stops no listener. Whatever steps were taken, \<^verbatim>\<open>Stop\<close> included at any point
  and any number of times, the listener is not closed, and unless a read has failed it goes on to
  receive and handle the next datagram.
\<close>

theorem stop_stops_nothing:
  assumes "lstep\<^sup>*\<^sup>* listener0 s" and "0 < length d" and "length d \<le> 65536"
  shows "phase s \<noteq> Closed \<and>
    (phase s = Dead \<or> (\<exists>s'. lstep\<^sup>*\<^sup>* s s' \<and> handled s' = handled s @ [(r, d)]))"
proof (cases "phase s = Dead")
  case True
  then show ?thesis by simp
next
  case False
  have o: "phase s \<noteq> Closed" "\<not> blocked s" "length (buf s) = 65536"
    using reachable_open [OF assms(1)] by simp_all
  let ?s = "s\<lparr>phase := Top, buf := d @ drop (length d) (buf s),
    pending := pending s @ [(r, length d)]\<rparr>"
  have "lstep\<^sup>*\<^sup>* s ?s" using receive_one [of s d r] o False assms(2,3) by simp
  moreover have "lstep ?s (?s\<lparr>pending := pending s @ [], handled := handled ?s @ [(r, take (length d) (buf ?s))]\<rparr>)"
    by (rule handle) simp
  ultimately have "lstep\<^sup>*\<^sup>* s (?s\<lparr>pending := pending s @ [],
      handled := handled ?s @ [(r, take (length d) (buf ?s))]\<rparr>)" by simp
  moreover have "take (length d) (buf ?s) = d" by simp
  ultimately have "\<exists>s'. lstep\<^sup>*\<^sup>* s s' \<and> handled s' = handled s @ [(r, d)]"
    by (intro exI conjI) auto
  then show ?thesis using o by simp
qed

theorem stop_stops_nothing_witness:
  "\<exists>s'. lstep\<^sup>*\<^sup>* (listener0\<lparr>registered := False\<rparr>) s' \<and> handled s' = [(''10.0.0.1'', [5])]"
proof -
  have "lstep listener0 (listener0\<lparr>registered := False\<rparr>)"
    using module_stop [of listener0] by (simp add: receiver_waits_def)
  then have "lstep\<^sup>*\<^sup>* listener0 (listener0\<lparr>registered := False\<rparr>)" by blast
  from stop_stops_nothing [OF this, of "[5]" "''10.0.0.1''"] show ?thesis
    by (simp add: listener0_def)
qed

text \<open>
  Handlers race with the receive buffer. A datagram of one sender can be handled with the
  bytes of a later datagram of another: its records are then filed under the wrong exporter and
  its own content is never seen.
\<close>

theorem buffer_race:
  fixes d1 d2 :: bytes
  assumes "0 < length d1" and "length d1 = length d2" and "length d1 \<le> 65536"
  shows "\<exists>s. lstep\<^sup>*\<^sup>* listener0 s \<and> pending s = [] \<and> handled s = [(r1, d2), (r2, d2)]"
proof -
  define s1 where "s1 = listener0\<lparr>phase := Top, buf := d1 @ drop (length d1) (buf listener0),
    pending := pending listener0 @ [(r1, length d1)]\<rparr>"
  define s2 where "s2 = s1\<lparr>phase := Top, buf := d2 @ drop (length d2) (buf s1),
    pending := pending s1 @ [(r2, length d2)]\<rparr>"
  define s3 where "s3 = s2\<lparr>pending := [] @ [(r2, length d2)],
    handled := handled s2 @ [(r1, take (length d1) (buf s2))]\<rparr>"
  define s4 where "s4 = s3\<lparr>pending := [] @ [], handled := handled s3 @ [(r2, take (length d2) (buf s3))]\<rparr>"
  have l0: "phase listener0 = Top" "\<not> blocked listener0" "length (buf listener0) = 65536"
    "pending listener0 = []" "handled listener0 = []"
    by (simp_all add: listener0_def)
  have s1: "phase s1 = Top" "\<not> blocked s1" "length (buf s1) = 65536" "pending s1 = [(r1, length d1)]"
    "handled s1 = []"
    using l0 assms by (simp_all add: s1_def)
  have "lstep\<^sup>*\<^sup>* listener0 s1"
    unfolding s1_def using receive_one [of listener0 d1 r1] l0 assms by simp
  also have "lstep\<^sup>*\<^sup>* s1 s2"
    unfolding s2_def using receive_one [of s1 d2 r2] s1 assms by simp
  also have "lstep s2 s3"
    unfolding s3_def by (rule handle) (simp add: s2_def s1)
  also have "lstep s3 s4"
    unfolding s4_def by (rule handle) (simp add: s3_def)
  finally have "lstep\<^sup>*\<^sup>* listener0 s4" .
  moreover have "pending s4 = []" "handled s4 = [(r1, d2), (r2, d2)]"
    using assms(2) s1 by (simp_all add: s4_def s3_def s2_def)
  ultimately show ?thesis by blast
qed

theorem buffer_race_witness:
  "\<exists>s. lstep\<^sup>*\<^sup>* listener0 s \<and> handled s = [(''10.0.0.1'', [2]), (''10.0.0.2'', [2])]"
proof -
  have "0 < length [1 :: u8]" "length [1 :: u8] = length [2 :: u8]" "length [1 :: u8] \<le> 65536" by simp_all
  from buffer_race [OF this] show ?thesis by blast
qed

end
