(* ===== verification/Settings.thy ===== *)
theory Settings
  imports GoText Complex_Main
begin

text \<open>
  \<^verbatim>\<open>internal/core/config.go\<close>, the helpers for loosely typed settings: the values a setting can
  hold, the readers \<^verbatim>\<open>Str\<close>, \<^verbatim>\<open>Int\<close>, \<^verbatim>\<open>Bool\<close> and \<^verbatim>\<open>Strs\<close> with their fallbacks, and
  the comments of list settings.
\<close>

section \<open>Loosely typed values\<close>

text \<open>
  What an \<^verbatim>\<open>any\<close> holds in a settings map: what \<^verbatim>\<open>encoding/json\<close> produces (numbers are
  \<^verbatim>\<open>float64\<close>, here the rational each finite float is), and what the defaults in the source
  use beside it: integers and string slices.
\<close>

datatype json =
    JNull | JBool bool | JFloat rat | JInt int | JNumber string | JStr string
  | JArr "json list" | JStrs "string list" | JObj "(string \<times> json) list"

type_synonym obj = "(string, json) gomap"

text \<open>
  The conversion of a float to a 64-bit integer truncates; out of range its result depends on the
  machine, here that of amd64.
\<close>

definition float_int :: "rat \<Rightarrow> int" where
  "float_int q =
     (let t = (if 0 \<le> q then \<lfloor>q\<rfloor> else \<lceil>q\<rceil>)
      in if - (2 ^ 63) \<le> t \<and> t < 2 ^ 63 then t else - (2 ^ 63))"

definition Str :: "obj \<Rightarrow> string \<Rightarrow> string \<Rightarrow> string" where
  "Str m key def = (case mget m key of Some (JStr v) \<Rightarrow> if v \<noteq> [] then v else def | _ \<Rightarrow> def)"

definition IntOf :: "obj \<Rightarrow> string \<Rightarrow> int \<Rightarrow> int" where
  "IntOf m key def =
     (case mget m key of
        Some (JFloat v) \<Rightarrow> float_int v
      | Some (JInt v) \<Rightarrow> v
      | Some (JNumber v) \<Rightarrow> (case parse_int v of Some i \<Rightarrow> i | None \<Rightarrow> def)
      | _ \<Rightarrow> def)"

definition Bool :: "obj \<Rightarrow> string \<Rightarrow> bool \<Rightarrow> bool" where
  "Bool m key def = (case mget m key of Some (JBool v) \<Rightarrow> v | _ \<Rightarrow> def)"

section \<open>Comments in list settings\<close>

definition commented :: "string \<Rightarrow> bool" where
  "commented t \<longleftrightarrow> has_prefix t ''#'' \<or> has_prefix t ''//''"

text \<open>What follows the close of a block on its line, when it counts.\<close>

definition rest_of :: "string \<Rightarrow> nat \<Rightarrow> string list" where
  "rest_of t i = (let rest = trim_space (drop (i + 2) t)
     in if rest \<noteq> [] \<and> \<not> commented rest then [rest] else [])"

fun strip_loop :: "bool \<Rightarrow> string list \<Rightarrow> string list" where
  "strip_loop inBlock [] = []"
| "strip_loop inBlock (line # ls) =
     (let t = trim_space line in
      if inBlock then
        (case str_index t ''*/'' of
           Some i \<Rightarrow> rest_of t i @ strip_loop False ls
         | None \<Rightarrow> strip_loop True ls)
      else if t = [] then strip_loop False ls
      else if has_prefix t ''/*'' then
        (case str_index t ''*/'' of
           Some i \<Rightarrow> rest_of t i @ strip_loop False ls
         | None \<Rightarrow> strip_loop True ls)
      else if commented t then strip_loop False ls
      else line # strip_loop False ls)"

definition StripComments :: "string list \<Rightarrow> string list" where
  "StripComments lines = strip_loop False lines"

definition json_strings :: "json list \<Rightarrow> string list" where
  "json_strings v = List.map_filter (\<lambda>x. case x of JStr s \<Rightarrow> Some s | _ \<Rightarrow> None) v"

definition Strs :: "obj \<Rightarrow> string \<Rightarrow> string list" where
  "Strs m key = StripComments (case mget m key of
     Some (JArr v) \<Rightarrow> json_strings v
   | Some (JStrs v) \<Rightarrow> v
   | _ \<Rightarrow> [])"

section \<open>Lemmas and properties\<close>

definition live_line :: "string \<Rightarrow> bool" where
  "live_line l \<longleftrightarrow> trim_space l \<noteq> [] \<and> \<not> commented (trim_space l)"

lemma rest_of_live: "l \<in> set (rest_of t i) \<Longrightarrow> live_line l"
  by (auto simp: rest_of_def live_line_def Let_def split: if_splits)

lemma strip_loop_live: "l \<in> set (strip_loop b ls) \<Longrightarrow> live_line l"
proof (induction b ls rule: strip_loop.induct)
  case (2 b line ls)
  then show ?case
    by (auto simp: Let_def live_line_def rest_of_def split: if_splits option.splits)
qed simp

lemma strip_loop_plain:
  "\<forall>l \<in> set ls. \<not> has_prefix (trim_space l) ''/*'' \<Longrightarrow> strip_loop False ls = filter live_line ls"
  by (induction ls) (auto simp: Let_def live_line_def)

text \<open>
  The lists of the product lose their comments and nothing else: without block comments, what is
  read is the lines that are neither blank nor begin with a marker, as they are written and in
  their order, so a marker inside a line, as in an address of a feed, is kept; and whatever the
  list, no blank or commented entry is ever read.
\<close>

theorem comments_stripped:
  "((\<forall>l \<in> set ls. \<not> has_prefix (trim_space l) ''/*'') \<longrightarrow>
      StripComments ls = filter live_line ls)
   \<and> (\<forall>l \<in> set (StripComments ls). live_line l)"
  using strip_loop_plain strip_loop_live unfolding StripComments_def by blast

theorem comments_stripped_witness:
  "StripComments [''  # off'', ''https://x/y'', '''', ''// off''] = [''https://x/y'']"
proof -
  have "\<forall>l \<in> set [''  # off'', ''https://x/y'', '''', ''// off'']. \<not> has_prefix (trim_space l) ''/*''"
    by (simp add: trim_space_def is_space_def has_prefix_def)
  then have "StripComments [''  # off'', ''https://x/y'', '''', ''// off''] =
      filter live_line [''  # off'', ''https://x/y'', '''', ''// off'']"
    using comments_stripped by blast
  then show ?thesis
    by (simp add: live_line_def trim_space_def is_space_def commented_def has_prefix_def)
qed

lemma strip_loop_open: "\<forall>l \<in> set ls. str_index (trim_space l) ''*/'' = None \<Longrightarrow>
    strip_loop True (ls @ rest) = strip_loop True rest"
  by (induction ls) (auto simp: Let_def)

text \<open>
  A block comment removes its lines up to the line that closes it, and the list goes on after
  that line as if the block had not been there.
\<close>

theorem block_comment_dropped:
  fixes opn cls :: string
  assumes "has_prefix (trim_space opn) ''/*''" and "\<forall>l \<in> set (opn # inner). str_index (trim_space l) ''*/'' = None"
    and "str_index (trim_space cls) ''*/'' = Some i" and "i + 2 = length (trim_space cls)"
    and "\<forall>l \<in> set before. \<not> has_prefix (trim_space l) ''/*''"
  shows "StripComments (before @ opn # inner @ cls # after)
    = StripComments before @ StripComments after"
proof -
  have b: "strip_loop False (before @ xs) = strip_loop False before @ strip_loop False xs" for xs
    using assms(5) by (induction before) (auto simp: Let_def)
  have "trim_space opn \<noteq> []" using assms(1) by (auto simp: has_prefix_def)
  then have "strip_loop False (opn # inner @ cls # after) = strip_loop True (inner @ cls # after)"
    using assms(1,2) by (simp add: Let_def)
  also have "\<dots> = strip_loop True (cls # after)" using assms(2) by (intro strip_loop_open) simp
  also have "\<dots> = strip_loop False after"
    using assms(3,4) by (simp add: Let_def rest_of_def trim_space_def)
  finally show ?thesis by (simp add: StripComments_def b)
qed

theorem block_comment_dropped_witness:
  "StripComments [''a'', ''/* b'', ''c'', ''d */'', ''e''] = [''a'', ''e'']"
proof -
  have t: "trim_space ''/* b'' = ''/* b''" "trim_space ''c'' = ''c''" "trim_space ''d */'' = ''d */''"
    "trim_space ''a'' = ''a''" "trim_space ''e'' = ''e''"
    by (simp_all add: trim_space_def is_space_def)
  have "StripComments ([''a''] @ ''/* b'' # [''c''] @ ''d */'' # [''e''])
      = StripComments [''a''] @ StripComments [''e'']"
    by (rule block_comment_dropped [where i = 2]) (simp_all add: t has_prefix_def)
  then show ?thesis by (simp add: StripComments_def t has_prefix_def commented_def)
qed

text \<open>
  Two corners of the block comments. A block that is opened again on the line that closes
  one is not seen: its opening line and its content become entries. And the text \<open>/*/\<close>,
  which only opens a block, is taken to open and close one.
\<close>

theorem reopened_block_kept:
  "StripComments [''/* a'', ''*/ /* b'', ''c'', ''*/'', ''d''] = [''/* b'', ''c'', ''*/'', ''d'']
   \<and> StripComments [''/*/'', ''c'', ''*/''] = [''c'', ''*/'']"
  by (simp add: StripComments_def trim_space_def is_space_def has_prefix_def commented_def rest_of_def)

end
