(* ===== verification/Scheduler.thy ===== *)
theory Scheduler
  imports Settings
begin

text \<open>
  The scheduler of \<^verbatim>\<open>internal/core/module.go\<close>: the jobs of the modules, how a worker claims
  one, and the two ways a run ends, locked by the license or run. The workers share the jobs; they
  are a step relation over the calls that take a lock.
\<close>

section \<open>Jobs\<close>

record job =
  j_Name :: string
  j_Module :: string
  Every :: int
  j_Feature :: string
  locked :: bool
  nextRun :: int
  running :: bool
  Runs :: nat
  Failures :: nat
  LastRun :: int
  LastOK :: "bool option"
  LastError :: string
  LastDur :: int

text \<open>What the function of a job does when it is called: return, with or without an error, or panic.\<close>

datatype panic_value = PanicString string | PanicError string | PanicOther

datatype fn_result = Returned "string option" | Panicked panic_value

fun toString :: "panic_value \<Rightarrow> string" where
  "toString (PanicString x) = x"
| "toString (PanicError x) = x"
| "toString PanicOther = ''unknown''"

fun fn_error :: "fn_result \<Rightarrow> string option" where
  "fn_error (Returned e) = e"
| "fn_error (Panicked v) = Some (''panic: '' @ toString v)"

definition new_job :: "string \<Rightarrow> string \<Rightarrow> int \<Rightarrow> string \<Rightarrow> bool \<Rightarrow> int \<Rightarrow> job" where
  "new_job name modn every feature delayed now =
     \<lparr>j_Name = name, j_Module = modn, Every = every, j_Feature = feature, locked = False,
      nextRun = (if delayed then now + every else now), running = False, Runs = 0, Failures = 0,
      LastRun = 0, LastOK = None, LastError = [], LastDur = 0\<rparr>"

definition due :: "int \<Rightarrow> job \<Rightarrow> bool" where
  "due now j \<longleftrightarrow> \<not> running j \<and> \<not> nextRun j > now"

text \<open>The due job whose turn came first, the earlier in the list among equals.\<close>

fun pick_loop :: "int \<Rightarrow> job list \<Rightarrow> nat \<Rightarrow> (nat \<times> int) option \<Rightarrow> nat option" where
  "pick_loop now [] i best = map_option fst best"
| "pick_loop now (j # js) i best =
     pick_loop now js (Suc i)
       (if due now j \<and> (case best of None \<Rightarrow> True | Some (k, t) \<Rightarrow> nextRun j < t)
        then Some (i, nextRun j) else best)"

definition claim :: "int \<Rightarrow> job list \<Rightarrow> (nat \<times> job list) option" where
  "claim now js =
     (case pick_loop now js 0 None of
        None \<Rightarrow> None
      | Some i \<Rightarrow> Some (i, js[i := (js ! i)\<lparr>running := True\<rparr>]))"

definition refuse :: "string \<Rightarrow> int \<Rightarrow> job \<Rightarrow> job" where
  "refuse gerr now j =
     j\<lparr>locked := True, LastError := ''locked: '' @ gerr, running := False, nextRun := now + Every j\<rparr>"

definition unlock :: "job \<Rightarrow> job" where
  "unlock j = (if j_Feature j \<noteq> [] then j\<lparr>locked := False\<rparr> else j)"

definition finish :: "fn_result \<Rightarrow> int \<Rightarrow> int \<Rightarrow> int \<Rightarrow> job \<Rightarrow> job" where
  "finish r t0 t1 t2 j =
     (case fn_error r of
        None \<Rightarrow> j\<lparr>LastOK := Some True, LastError := [], Runs := Runs j + 1, LastRun := t1,
          LastDur := t2 - t0, nextRun := t2 + Every j, running := False\<rparr>
      | Some e \<Rightarrow> j\<lparr>LastOK := Some False, LastError := (if length e > 400 then take 400 e else e),
          Failures := Failures j + 1, Runs := Runs j + 1, LastRun := t1, LastDur := t2 - t0,
          nextRun := t2 + Every j, running := False\<rparr>)"

fun run_now :: "string \<Rightarrow> string \<Rightarrow> int \<Rightarrow> job list \<Rightarrow> job list \<times> bool" where
  "run_now modn name now [] = ([], False)"
| "run_now modn name now (j # js) =
     (if j_Name j = name \<and> (modn = [] \<or> j_Module j = modn)
      then (j\<lparr>nextRun := now\<rparr> # js, True)
      else (let (js', ok) = run_now modn name now js in (j # js', ok)))"

definition worker_count :: "int \<Rightarrow> int" where
  "worker_count workers = (if workers < 1 then 2 else workers)"

section \<open>The workers\<close>

text \<open>
  A worker polls the stop channel, claims a job, passes its gate, and runs it. \<open>Got\<close> and
  \<open>Busy\<close> carry the index of the job held.
\<close>

datatype worker = Poll | Ready | Got nat | Busy nat | Gone

record sched =
  jobs :: "job list"
  workers :: "worker list"
  stopped :: bool

inductive sstep :: "sched \<Rightarrow> sched \<Rightarrow> bool" where
  poll_stop: "w < length (workers s) \<Longrightarrow> workers s ! w = Poll \<Longrightarrow> stopped s \<Longrightarrow>
    sstep s (s\<lparr>workers := (workers s)[w := Gone]\<rparr>)"
| poll_go: "w < length (workers s) \<Longrightarrow> workers s ! w = Poll \<Longrightarrow> \<not> stopped s \<Longrightarrow>
    sstep s (s\<lparr>workers := (workers s)[w := Ready]\<rparr>)"
| claim_none: "w < length (workers s) \<Longrightarrow> workers s ! w = Ready \<Longrightarrow> claim now (jobs s) = None \<Longrightarrow>
    sstep s (s\<lparr>workers := (workers s)[w := Poll]\<rparr>)"
| claim_some: "w < length (workers s) \<Longrightarrow> workers s ! w = Ready \<Longrightarrow> claim now (jobs s) = Some (i, js) \<Longrightarrow>
    sstep s (s\<lparr>jobs := js, workers := (workers s)[w := Got i]\<rparr>)"
| gate_refuses: "w < length (workers s) \<Longrightarrow> workers s ! w = Got i \<Longrightarrow> j_Feature (jobs s ! i) \<noteq> [] \<Longrightarrow>
    sstep s (s\<lparr>jobs := (jobs s)[i := refuse gerr now (jobs s ! i)], workers := (workers s)[w := Poll]\<rparr>)"
| gate_opens: "w < length (workers s) \<Longrightarrow> workers s ! w = Got i \<Longrightarrow>
    sstep s (s\<lparr>jobs := (jobs s)[i := unlock (jobs s ! i)], workers := (workers s)[w := Busy i]\<rparr>)"
| ends: "w < length (workers s) \<Longrightarrow> workers s ! w = Busy i \<Longrightarrow>
    sstep s (s\<lparr>jobs := (jobs s)[i := finish r t0 t1 t2 (jobs s ! i)], workers := (workers s)[w := Poll]\<rparr>)"
| runs_now: "sstep s (s\<lparr>jobs := fst (run_now modn name now (jobs s))\<rparr>)"
| adds: "sstep s (s\<lparr>jobs := jobs s @ [new_job name modn every feature delayed now]\<rparr>)"
| stops: "sstep s (s\<lparr>stopped := True\<rparr>)"

definition started :: "nat \<Rightarrow> sched" where
  "started n = \<lparr>jobs = [], workers = replicate n Poll, stopped = False\<rparr>"

section \<open>Lemmas\<close>

lemma pick_loop_best:
  "pick_loop now js i best = Some k \<Longrightarrow>
     (\<exists>t. best = Some (k, t)
        \<and> (\<forall>j \<in> set js. due now j \<longrightarrow> t \<le> nextRun j))
     \<or> (i \<le> k \<and> k < i + length js \<and> due now (js ! (k - i))
        \<and> (\<forall>j \<in> set js. due now j \<longrightarrow> nextRun (js ! (k - i)) \<le> nextRun j)
        \<and> (\<forall>b t. best = Some (b, t) \<longrightarrow> nextRun (js ! (k - i)) < t))"
proof (induction js arbitrary: i best)
  case Nil
  then show ?case by auto
next
  case (Cons j js)
  define best' where "best' = (if due now j \<and> (case best of None \<Rightarrow> True | Some (k, t) \<Rightarrow> nextRun j < t)
        then Some (i, nextRun j) else best)"
  have "pick_loop now js (Suc i) best' = Some k" using Cons.prems by (simp add: best'_def)
  from Cons.IH [OF this] show ?case
  proof
    assume "\<exists>t. best' = Some (k, t) \<and> (\<forall>j \<in> set js. due now j \<longrightarrow> t \<le> nextRun j)"
    then show ?thesis by (auto simp: best'_def split: if_splits option.splits)
  next
    assume later: "Suc i \<le> k \<and> k < Suc i + length js \<and> due now (js ! (k - Suc i))
        \<and> (\<forall>j \<in> set js. due now j \<longrightarrow> nextRun (js ! (k - Suc i)) \<le> nextRun j)
        \<and> (\<forall>b t. best' = Some (b, t) \<longrightarrow> nextRun (js ! (k - Suc i)) < t)"
    have "Suc i \<le> k" using later by blast
    then have "k - i = Suc (k - Suc i)" by simp
    then have n: "(j # js) ! (k - i) = js ! (k - Suc i)" by simp
    show ?thesis
      using later unfolding n best'_def by (auto split: if_splits option.splits)
  qed
qed

lemma pick_loop_None:
  "pick_loop now js i best = None \<longleftrightarrow> best = None \<and> (\<forall>j \<in> set js. \<not> due now j)"
  by (induction js arbitrary: i best) (auto split: option.splits)

lemma claim_Some:
  assumes "claim now js = Some (i, js')"
  shows "i < length js" and "due now (js ! i)" and "js' = js[i := (js ! i)\<lparr>running := True\<rparr>]"
    and "\<forall>j \<in> set js. due now j \<longrightarrow> nextRun (js ! i) \<le> nextRun j"
  using assms pick_loop_best [of now js 0 None i] by (auto simp: claim_def split: option.splits)

lemma run_now_running: "map running (fst (run_now m n now js)) = map running js"
  by (induction js) (auto simp: case_prod_unfold Let_def)

lemma run_now_length: "length (fst (run_now m n now js)) = length js"
  using run_now_running [of m n now js] by (metis length_map)

lemma run_now_nth: "i < length js \<Longrightarrow> running (fst (run_now m n now js) ! i) = running (js ! i)"
  using run_now_running [of m n now js] run_now_length [of m n now js] by (metis nth_map)

section \<open>Every job runs at most once at a time\<close>

definition held :: "worker \<Rightarrow> nat option" where
  "held w = (case w of Got i \<Rightarrow> Some i | Busy i \<Rightarrow> Some i | _ \<Rightarrow> None)"

lemma held_simps [simp]: "held Poll = None" "held Ready = None" "held Gone = None"
  "held (Got i) = Some i" "held (Busy i) = Some i"
  by (simp_all add: held_def)

definition holds :: "worker list \<Rightarrow> nat list" where
  "holds ws = List.map_filter held ws"

definition running_at :: "job list \<Rightarrow> nat set" where
  "running_at js = {i. i < length js \<and> running (js ! i)}"

text \<open>The running jobs are the jobs held, each by one worker.\<close>

definition sched_ok :: "sched \<Rightarrow> bool" where
  "sched_ok s \<longleftrightarrow> distinct (holds (workers s)) \<and> set (holds (workers s)) = running_at (jobs s)"

lemma holds_parts: "holds (us @ x # vs) = holds us @ (case held x of None \<Rightarrow> [] | Some i \<Rightarrow> [i]) @ holds vs"
  by (simp add: holds_def map_filter_def split: option.split)

lemma holds_update:
  assumes "w < length ws"
  shows "held y = held (ws ! w) \<Longrightarrow> holds (ws[w := y]) = holds ws"
    and "held (ws ! w) = None \<Longrightarrow> held y = Some i \<Longrightarrow> i \<notin> set (holds ws) \<Longrightarrow> distinct (holds ws) \<Longrightarrow>
      distinct (holds (ws[w := y])) \<and> set (holds (ws[w := y])) = insert i (set (holds ws))"
    and "held (ws ! w) = Some i \<Longrightarrow> held y = None \<Longrightarrow> distinct (holds ws) \<Longrightarrow>
      distinct (holds (ws[w := y])) \<and> set (holds (ws[w := y])) = set (holds ws) - {i}"
proof -
  define us vs x where "us = take w ws" and "vs = drop (Suc w) ws" and "x = ws ! w"
  have ws: "ws = us @ x # vs" and l: "length us = w"
    using assms id_take_nth_drop [OF assms] by (simp_all add: us_def vs_def x_def)
  have up: "ws[w := y] = us @ y # vs" using l by (simp add: ws list_update_append)
  show "held y = held (ws ! w) \<Longrightarrow> holds (ws[w := y]) = holds ws"
    unfolding up x_def [symmetric] unfolding ws by (simp add: holds_parts)
  show "held (ws ! w) = None \<Longrightarrow> held y = Some i \<Longrightarrow> i \<notin> set (holds ws) \<Longrightarrow> distinct (holds ws) \<Longrightarrow>
      distinct (holds (ws[w := y])) \<and> set (holds (ws[w := y])) = insert i (set (holds ws))"
    unfolding up x_def [symmetric] unfolding ws by (auto simp: holds_parts)
  show "held (ws ! w) = Some i \<Longrightarrow> held y = None \<Longrightarrow> distinct (holds ws) \<Longrightarrow>
      distinct (holds (ws[w := y])) \<and> set (holds (ws[w := y])) = set (holds ws) - {i}"
    unfolding up x_def [symmetric] unfolding ws by (auto simp: holds_parts)
qed

lemma held_in_holds: "w < length ws \<Longrightarrow> held (ws ! w) = Some i \<Longrightarrow> i \<in> set (holds ws)"
  by (force simp: holds_def map_filter_def)

lemma running_at_update:
  "i < length js \<Longrightarrow> running_at (js[i := j]) =
     (if running j then insert i (running_at js) else running_at js - {i})"
  by (auto simp: running_at_def nth_list_update)

lemma running_at_now: "running_at (fst (run_now m n now js)) = running_at js"
  by (auto simp: running_at_def run_now_length run_now_nth)

lemma running_at_add: "running_at (js @ [new_job n m e f d now]) = running_at js"
  by (auto simp: running_at_def nth_append new_job_def less_Suc_eq)

lemma not_running [simp]: "\<not> running (finish r t0 t1 t2 j)" "\<not> running (refuse g now j)"
  by (simp_all add: finish_def refuse_def split: option.split)

lemma running_unlock [simp]: "running (unlock j) = running j"
  by (simp add: unlock_def)

lemma running_at_lt: "i \<in> running_at js \<Longrightarrow> i < length js \<and> running (js ! i)"
  by (simp add: running_at_def)

lemma sched_ok_step: "sstep s s' \<Longrightarrow> sched_ok s \<Longrightarrow> sched_ok s'"
proof (induction rule: sstep.induct)
  case (poll_stop w s)
  then show ?case by (simp add: sched_ok_def holds_update(1))
next
  case (poll_go w s)
  then show ?case by (simp add: sched_ok_def holds_update(1))
next
  case (claim_none w s now)
  then show ?case by (simp add: sched_ok_def holds_update(1))
next
  case (claim_some w s now i js)
  note c = claim_Some [OF claim_some(3)]
  have "i \<notin> running_at (jobs s)" using c(2) by (simp add: due_def running_at_def)
  then show ?case
    using claim_some(1,2,4) c(1) holds_update(2) [OF claim_some(1), of "Got i" i]
    by (simp add: sched_ok_def c(3) running_at_update)
next
  case (gate_refuses w s i gerr now)
  then show ?case
    using holds_update(3) [OF gate_refuses(1), of i Poll] held_in_holds [OF gate_refuses(1), of i]
      running_at_lt [of i "jobs s"]
    by (simp add: sched_ok_def running_at_update)
next
  case (gate_opens w s i)
  then show ?case
    using held_in_holds [OF gate_opens(1), of i] running_at_lt [of i "jobs s"]
    by (auto simp: sched_ok_def running_at_update holds_update(1))
next
  case (ends w s i r t0 t1 t2)
  then show ?case
    using holds_update(3) [OF ends(1), of i Poll] held_in_holds [OF ends(1), of i]
      running_at_lt [of i "jobs s"]
    by (simp add: sched_ok_def running_at_update)
next
  case (runs_now s modn name now)
  then show ?case by (simp add: sched_ok_def running_at_now)
next
  case (adds s name modn every feature delayed now)
  then show ?case by (simp add: sched_ok_def running_at_add)
next
  case (stops s)
  then show ?case by (simp add: sched_ok_def)
qed

lemma holds_started: "holds (replicate n Poll) = []"
  by (induction n) (simp_all add: holds_def map_filter_def)

lemma reachable_ok: "sstep\<^sup>*\<^sup>* (started n) s \<Longrightarrow> sched_ok s"
proof (induction rule: rtranclp_induct)
  case base
  then show ?case by (simp add: sched_ok_def started_def holds_started running_at_def)
next
  case (step s s')
  then show ?case using sched_ok_step by blast
qed

lemma one_holder:
  assumes "sched_ok s" and "v < length (workers s)" and "held (workers s ! v) = Some i"
    and "w < length (workers s)" and "held (workers s ! w) = Some i"
  shows "w = v"
proof (rule ccontr)
  assume ne: "w \<noteq> v"
  define ws where "ws = (workers s)[v := Poll]"
  have "i \<notin> set (holds ws)"
    using holds_update(3) [OF assms(2,3), of Poll] assms(1) by (simp add: ws_def sched_ok_def)
  moreover have "w < length ws" "held (ws ! w) = Some i" using assms(4,5) ne by (simp_all add: ws_def)
  ultimately show False using held_in_holds by blast
qed

lemma in_holds: "i \<in> set (holds ws) \<Longrightarrow> \<exists>v < length ws. held (ws ! v) = Some i"
  by (auto simp: holds_def map_filter_def in_set_conv_nth split: if_splits)

text \<open>
  C5: no job is ever held by two workers at the same time, and a job is marked running exactly while one
  worker holds it: however the workers interleave, jobs are added and runs requested, and whether the
  functions of the jobs fail, panic or are locked. So no job is left marked with nobody to run it.
\<close>

theorem one_run_at_a_time:
  assumes "sstep\<^sup>*\<^sup>* (started n) s"
  shows "(i < length (jobs s) \<and> running (jobs s ! i) \<longleftrightarrow> (\<exists>v < length (workers s). held (workers s ! v) = Some i))
    \<and> (\<forall>v < length (workers s). \<forall>w < length (workers s).
        held (workers s ! v) = Some i \<longrightarrow> held (workers s ! w) = Some i \<longrightarrow> w = v)"
proof -
  have ok: "sched_ok s" using reachable_ok assms .
  have "i \<in> running_at (jobs s) \<longleftrightarrow> (\<exists>v < length (workers s). held (workers s ! v) = Some i)"
    using held_in_holds in_holds ok unfolding sched_ok_def by blast
  moreover have "i \<in> running_at (jobs s) \<longleftrightarrow> i < length (jobs s) \<and> running (jobs s ! i)" by (simp add: running_at_def)
  ultimately show ?thesis using one_holder [OF ok] by blast
qed

theorem one_run_at_a_time_witness:
  "\<exists>s. sstep\<^sup>*\<^sup>* (started 2) s \<and> held (workers s ! 0) = Some 0 \<and> running (jobs s ! 0)"
proof -
  let ?j = "new_job ''n'' ''m'' 60 [] False 5"
  let ?s1 = "(started 2)\<lparr>jobs := [?j]\<rparr>"
  let ?s2 = "?s1\<lparr>workers := [Ready, Poll]\<rparr>"
  let ?s3 = "?s2\<lparr>jobs := [?j\<lparr>running := True\<rparr>], workers := [Got 0, Poll]\<rparr>"
  have w: "workers (started 2) = [Poll, Poll]" by (simp add: started_def numeral_2_eq_2)
  have "sstep (started 2) ?s1"
    using adds [of "started 2" "''n''" "''m''" 60 "[]" False 5] by (simp add: started_def)
  then have "sstep\<^sup>*\<^sup>* (started 2) ?s1" by (rule r_into_rtranclp)
  also have "sstep ?s1 ?s2" using poll_go [of 0 ?s1] by (simp add: w) (simp add: started_def)
  also have "sstep ?s2 ?s3"
    using claim_some [of 0 ?s2 5 0 "[?j\<lparr>running := True\<rparr>]"]
    by (simp add: claim_def due_def new_job_def)
  finally have r: "sstep\<^sup>*\<^sup>* (started 2) ?s3" .
  moreover have "0 < length (workers ?s3)" "held (workers ?s3 ! 0) = Some 0" by simp_all
  ultimately show ?thesis using one_run_at_a_time [OF r, of 0] by blast
qed

text \<open>
  A claim takes a due job whose turn came no later than that of any other due job, and none only
  if none is due; a run that is locked is not counted, any other is, and in every case the next
  run is due one interval later.
\<close>

theorem claim_and_run:
  "(case claim now js of
      None \<Rightarrow> \<forall>j \<in> set js. \<not> due now j
    | Some (i, js') \<Rightarrow> i < length js \<and> due now (js ! i)
        \<and> (\<forall>j \<in> set js. due now j \<longrightarrow> nextRun (js ! i) \<le> nextRun j)
        \<and> js' = js[i := (js ! i)\<lparr>running := True\<rparr>])
   \<and> Runs (refuse g now j) = Runs j \<and> Failures (refuse g now j) = Failures j
   \<and> nextRun (refuse g now j) = now + Every j
   \<and> Runs (finish r t0 t1 t2 j) = Runs j + 1
   \<and> Failures (finish r t0 t1 t2 j) = Failures j + (if fn_error r = None then 0 else 1)
   \<and> nextRun (finish r t0 t1 t2 j) = t2 + Every j
   \<and> length (LastError (finish r t0 t1 t2 j)) \<le> 400"
proof -
  have "case claim now js of
      None \<Rightarrow> \<forall>j \<in> set js. \<not> due now j
    | Some (i, js') \<Rightarrow> i < length js \<and> due now (js ! i)
        \<and> (\<forall>j \<in> set js. due now j \<longrightarrow> nextRun (js ! i) \<le> nextRun j)
        \<and> js' = js[i := (js ! i)\<lparr>running := True\<rparr>]"
  proof (cases "claim now js")
    case None
    then show ?thesis by (simp add: claim_def pick_loop_None split: option.splits)
  next
    case (Some p)
    then obtain i js' where "claim now js = Some (i, js')" by (cases p) simp
    then show ?thesis using claim_Some [of now js i js'] by simp
  qed
  then show ?thesis by (simp add: refuse_def finish_def split: option.splits)
qed

theorem claim_and_run_witness:
  "\<exists>i js'. claim 9 [new_job ''a'' ''m'' 60 [] False 5, new_job ''b'' ''m'' 60 [] False 4] = Some (i, js')
     \<and> nextRun ([new_job ''a'' ''m'' 60 [] False 5, new_job ''b'' ''m'' 60 [] False 4] ! i) \<le> 4"
proof -
  define a b where "a = new_job ''a'' ''m'' 60 [] False 5" and "b = new_job ''b'' ''m'' 60 [] False 4"
  have d: "due 9 b" "nextRun b = 4" by (simp_all add: due_def new_job_def b_def)
  note c = claim_and_run [where now = 9 and js = "[a, b]", THEN conjunct1]
  have "\<exists>i js'. claim 9 [a, b] = Some (i, js') \<and> nextRun ([a, b] ! i) \<le> 4"
  proof (cases "claim 9 [a, b]")
    case None
    then show ?thesis using c d by simp
  next
    case (Some p)
    then show ?thesis using c d by (cases p) simp
  qed
  then show ?thesis by (simp only: a_def b_def)
qed

text \<open>
  A request to run a job at once is lost while the job runs: the request answers that it was
  taken, but the end of the run moves the next one a whole interval away.
\<close>

theorem run_now_lost:
  assumes "j_Name j = name" and "running j"
  shows "snd (run_now (j_Module j) name now [j])
    \<and> nextRun (finish r t0 t1 t2 (hd (fst (run_now (j_Module j) name now [j])))) = t2 + Every j"
  using assms by (simp add: finish_def split: option.split)

theorem run_now_lost_witness:
  "nextRun (finish (Returned None) 0 9 10 (hd (fst (run_now ''m'' ''a'' 5
     [(new_job ''a'' ''m'' 3600 [] False 0)\<lparr>running := True\<rparr>])))) = 3610"
  using run_now_lost [of "(new_job ''a'' ''m'' 3600 [] False 0)\<lparr>running := True\<rparr>" "''a''" 5 "Returned None" 0 9 10]
  by (simp add: new_job_def)

end
