(* ===== verification/Base64.thy ===== *)
theory Base64
  imports Net
begin

text \<open>
  The four encodings of \<^verbatim>\<open>encoding/base64\<close> the license code uses: the standard and the URL
  alphabet, with and without padding. Decoding skips line ends and does not check the unused bits
  of the last group, as the library does; decoding an encoding gives the bytes back.
\<close>

definition alphabet :: "bool \<Rightarrow> string" where
  "alphabet url =
     ''ABCDEFGHIJKLMNOPQRSTUVWXYZabcdefghijklmnopqrstuvwxyz0123456789'' @ (if url then ''-_'' else ''+/'')"

definition enc_char :: "bool \<Rightarrow> nat \<Rightarrow> char" where
  "enc_char url n = alphabet url ! n"

definition dec_char :: "bool \<Rightarrow> char \<Rightarrow> nat option" where
  "dec_char url c = index_of c (alphabet url)"

fun enc64 :: "bool \<Rightarrow> bytes \<Rightarrow> string" where
  "enc64 u (a # b # c # r) =
     (let n = unat a * 65536 + unat b * 256 + unat c in
      [enc_char u (n div 262144), enc_char u (n div 4096 mod 64), enc_char u (n div 64 mod 64),
       enc_char u (n mod 64)] @ enc64 u r)"
| "enc64 u [a, b] =
     (let n = (unat a * 256 + unat b) * 4 in
      [enc_char u (n div 4096), enc_char u (n div 64 mod 64), enc_char u (n mod 64)])"
| "enc64 u [a] = (let n = unat a * 16 in [enc_char u (n div 64), enc_char u (n mod 64)])"
| "enc64 u [] = []"

fun dec64 :: "bool \<Rightarrow> string \<Rightarrow> bytes option" where
  "dec64 u (w # x # y # z # r) = do {
     w \<leftarrow> dec_char u w; x \<leftarrow> dec_char u x; y \<leftarrow> dec_char u y; z \<leftarrow> dec_char u z;
     let n = ((w * 64 + x) * 64 + y) * 64 + z;
     t \<leftarrow> dec64 u r;
     Some ([word_of_nat (n div 65536), word_of_nat (n div 256 mod 256), word_of_nat (n mod 256)] @ t)
   }"
| "dec64 u [w, x, y] = do {
     w \<leftarrow> dec_char u w; x \<leftarrow> dec_char u x; y \<leftarrow> dec_char u y;
     let n = ((w * 64 + x) * 64 + y) div 4;
     Some [word_of_nat (n div 256), word_of_nat (n mod 256)]
   }"
| "dec64 u [w, x] = do {
     w \<leftarrow> dec_char u w; x \<leftarrow> dec_char u x;
     Some [word_of_nat ((w * 64 + x) div 16)]
   }"
| "dec64 u [w] = None"
| "dec64 u [] = Some []"

definition unfold_lines :: "string \<Rightarrow> string" where
  "unfold_lines s = filter (\<lambda>c. c \<noteq> CHR 0x0A \<and> c \<noteq> CHR 0x0D) s"

definition decode_raw :: "bool \<Rightarrow> string \<Rightarrow> bytes option" where
  "decode_raw u s = dec64 u (unfold_lines s)"

definition decode_padded :: "bool \<Rightarrow> string \<Rightarrow> bytes option" where
  "decode_padded u s =
     (let t = unfold_lines s in
      if length t mod 4 \<noteq> 0 then None
      else if has_suffix t ''=='' then dec64 u (take (length t - 2) t)
      else if has_suffix t ''='' then dec64 u (take (length t - 1) t)
      else dec64 u t)"

section \<open>Decoding an encoding\<close>

lemma length_alphabet [simp]: "length (alphabet u) = 64"
  by (simp add: alphabet_def)

lemma distinct_alphabet: "distinct (alphabet u)"
proof -
  have "distinct (alphabet True)" and "distinct (alphabet False)"
    unfolding alphabet_def by simp_all
  then show ?thesis by (cases u) simp_all
qed

lemma three_bytes: "(unat (a :: u8) * 65536 + unat (b :: u8) * 256 + unat (c :: u8)) div 262144 < 64"
proof -
  have "unat a * 65536 + unat b * 256 + unat c < 64 * 262144"
    using unat_u8_less [of a] unat_u8_less [of b] unat_u8_less [of c] by linarith
  then show ?thesis by (rule less_mult_imp_div_less)
qed

lemma takeWhile_neq_nth:
  assumes "distinct xs" and "n < length xs"
  shows "takeWhile (\<lambda>x. x \<noteq> xs ! n) xs = take n xs"
proof (rule takeWhile_eq_take_P_nth)
  fix i assume "i < n" "i < length xs"
  then show "xs ! i \<noteq> xs ! n" using assms by (simp add: nth_eq_iff_index_eq)
qed simp

lemma dec_enc_char [simp]: "n < 64 \<Longrightarrow> dec_char u (enc_char u n) = Some n"
  using takeWhile_neq_nth [OF distinct_alphabet, of n u]
  by (simp add: dec_char_def enc_char_def index_of_def)

lemma enc_char_in [simp]: "n < 64 \<Longrightarrow> enc_char u n \<in> set (alphabet u)"
  by (simp add: enc_char_def)

text \<open>The arithmetic of a group: four digits of base 64 and three of base 256.\<close>

lemma digits64: "((n div 262144 * 64 + n div 4096 mod 64) * 64 + n div 64 mod 64) * 64 + n mod 64 = (n :: nat)"
proof -
  have "n div 4096 = n div 64 div 64" and "n div 262144 = n div 64 div 64 div 64"
    by (simp_all flip: div_mult2_eq)
  then show ?thesis by (simp only: div_mult_mod_eq)
qed

lemma digits256:
  assumes "b < 256" and "c < 256"
  shows "(a * 65536 + b * 256 + c) div 65536 = a" and "(a * 65536 + b * 256 + c) div 256 mod 256 = b"
    and "(a * 65536 + b * 256 + c) mod 256 = (c :: nat)"
proof -
  have "a * 65536 + b * 256 + c = (a * 256 + b) * 256 + c" by simp
  then have q: "(a * 65536 + b * 256 + c) div 256 = a * 256 + b"
    and "(a * 65536 + b * 256 + c) mod 256 = c"
    using assms(2) by (simp_all only: div_mult_self3 mod_mult_self3) simp_all
  then show "(a * 65536 + b * 256 + c) div 256 mod 256 = b" "(a * 65536 + b * 256 + c) mod 256 = c"
    using assms by simp_all
  have "(a * 65536 + b * 256 + c) div 65536 = (a * 65536 + b * 256 + c) div 256 div 256"
    by (simp flip: div_mult2_eq)
  then show "(a * 65536 + b * 256 + c) div 65536 = a" using q assms by simp
qed

lemma two_bytes: "(unat (a :: u8) * 256 + unat (b :: u8)) * 4 div 4096 < 64"
proof -
  have "unat a * 256 + unat b < 65536"
    using unat_u8_less [of a] unat_u8_less [of b] by linarith
  then have "(unat a * 256 + unat b) * 4 < 64 * 4096" by simp
  then show ?thesis by (rule less_mult_imp_div_less)
qed

lemma one_byte: "unat (a :: u8) * 16 div 64 < 64"
proof -
  have "unat a * 16 < 64 * 64" using unat_u8_less [of a] by simp
  then show ?thesis by (rule less_mult_imp_div_less)
qed

lemma dec64_group:
  assumes "n < 16777216"
  shows "dec64 u ([enc_char u (n div 262144), enc_char u (n div 4096 mod 64), enc_char u (n div 64 mod 64),
       enc_char u (n mod 64)] @ s)
    = map_option (\<lambda>t. [word_of_nat (n div 65536), word_of_nat (n div 256 mod 256),
        word_of_nat (n mod 256)] @ t) (dec64 u s)"
proof -
  have "n div 262144 < 64" using assms by (intro less_mult_imp_div_less) simp
  then have d: "dec_char u (enc_char u (n div 262144)) = Some (n div 262144)"
    "dec_char u (enc_char u (n div 4096 mod 64)) = Some (n div 4096 mod 64)"
    "dec_char u (enc_char u (n div 64 mod 64)) = Some (n div 64 mod 64)"
    "dec_char u (enc_char u (n mod 64)) = Some (n mod 64)"
    by simp_all
  show ?thesis
    unfolding append_Cons append_Nil dec64.simps d Option.bind.simps Let_def digits64
    by (cases "dec64 u s") simp_all
qed

theorem dec64_enc64: "dec64 u (enc64 u b) = Some b"
proof (induction u b rule: enc64.induct)
  case (1 u a b c r)
  define n where "n = unat a * 65536 + unat b * 256 + unat c"
  have lt: "n < 16777216"
    using unat_u8_less [of a] unat_u8_less [of b] unat_u8_less [of c] unfolding n_def by linarith
  have e: "enc64 u (a # b # c # r) = [enc_char u (n div 262144), enc_char u (n div 4096 mod 64),
      enc_char u (n div 64 mod 64), enc_char u (n mod 64)] @ enc64 u r"
    unfolding enc64.simps(1) Let_def n_def ..
  have d: "n div 65536 = unat a" "n div 256 mod 256 = unat b" "n mod 256 = unat c"
    unfolding n_def by (rule digits256; simp)+
  show ?case unfolding e dec64_group [OF lt] d 1 [OF refl] by simp
next
  case (2 u a b)
  define n where "n = (unat a * 256 + unat b) * 4"
  have lt: "n div 4096 < 64" unfolding n_def by (rule two_bytes)
  have "n div 4096 = n div 64 div 64" by (simp flip: div_mult2_eq)
  then have n: "(n div 4096 * 64 + n div 64 mod 64) * 64 + n mod 64 = n" by (simp only: div_mult_mod_eq)
  have d: "n div 4 = unat a * 256 + unat b" by (simp add: n_def)
  then have c: "dec_char u (enc_char u (n div 4096)) = Some (n div 4096)"
    "dec_char u (enc_char u (n div 64 mod 64)) = Some (n div 64 mod 64)"
    "dec_char u (enc_char u (n mod 64)) = Some (n mod 64)"
    using lt by simp_all
  show ?case
    unfolding enc64.simps dec64.simps Let_def n_def [symmetric] c Option.bind.simps n d by simp
next
  case (3 u a)
  define n where "n = unat a * 16"
  have lt: "n div 64 < 64" unfolding n_def by (rule one_byte)
  have d: "n div 16 = unat a" by (simp add: n_def)
  have c: "dec_char u (enc_char u (n div 64)) = Some (n div 64)"
    "dec_char u (enc_char u (n mod 64)) = Some (n mod 64)"
    using lt by simp_all
  show ?case
    unfolding enc64.simps dec64.simps Let_def n_def [symmetric] c Option.bind.simps div_mult_mod_eq d
    by simp
qed simp

lemma enc64_chars: "set (enc64 u b) \<subseteq> set (alphabet u)"
proof (induction u b rule: enc64.induct)
  case (1 u a b c r)
  then show ?case using three_bytes [of a b c] by (simp add: Let_def)
next
  case (2 u a b)
  show ?case using two_bytes [of a b] by (simp add: Let_def del: distrib_right_numeral)
next
  case (3 u a)
  show ?case using one_byte [of a] by (simp add: Let_def)
qed simp

lemma alphabet_plain: "c \<in> set (alphabet True) \<Longrightarrow> c \<noteq> CHR ''.'' \<and> \<not> is_space c \<and> c \<noteq> CHR 0x0A \<and> c \<noteq> CHR 0x0D"
proof -
  have "list_all (\<lambda>c. c \<noteq> CHR ''.'' \<and> \<not> is_space c \<and> c \<noteq> CHR 0x0A \<and> c \<noteq> CHR 0x0D) (alphabet True)"
    unfolding alphabet_def by (simp add: is_space_def)
  then show "c \<in> set (alphabet True) \<Longrightarrow> ?thesis" by (simp add: list_all_iff)
qed

lemma decode_raw_enc64: "decode_raw True (enc64 True b) = Some b"
proof -
  have "unfold_lines (enc64 True b) = enc64 True b"
    unfolding unfold_lines_def using enc64_chars [of True b] alphabet_plain
    by (intro filter_True ballI) blast
  then show ?thesis by (simp add: decode_raw_def dec64_enc64)
qed

end
