(* ===== verification/GoTime.thy ===== *)
theory GoTime
  imports GoText
begin

text \<open>
  What the program uses of Go's package \<^verbatim>\<open>time\<close>: instants as nanoseconds since the epoch,
  the civil calendar, and parsing of the two layouts that occur, \<^verbatim>\<open>2006-01-02\<close> and RFC 3339.
\<close>

section \<open>The calendar\<close>

definition second :: int where
  "second = 1000000000"

definition day :: int where
  "day = 86400 * second"

definition is_leap :: "int \<Rightarrow> bool" where
  "is_leap y \<longleftrightarrow> y mod 4 = 0 \<and> (y mod 100 \<noteq> 0 \<or> y mod 400 = 0)"

definition days_in :: "int \<Rightarrow> nat \<Rightarrow> nat" where
  "days_in y m =
     (if m = 2 then (if is_leap y then 29 else 28)
      else if m \<in> {4, 6, 9, 11} then 30 else 31)"

fun days_before :: "int \<Rightarrow> nat \<Rightarrow> nat" where
  "days_before y 0 = 0"
| "days_before y (Suc 0) = 0"
| "days_before y (Suc (Suc m)) = days_before y (Suc m) + days_in y (Suc m)"

text \<open>Days from 1970-01-01 to the first day of a year, and to a date.\<close>

definition year_days :: "int \<Rightarrow> int" where
  "year_days y = 365 * (y - 1) + (y - 1) div 4 - (y - 1) div 100 + (y - 1) div 400 - 719162"

definition date_days :: "int \<Rightarrow> nat \<Rightarrow> nat \<Rightarrow> int" where
  "date_days y m d = year_days y + int (days_before y m) + int d - 1"

lemma date_days_epoch: "date_days 1970 1 1 = 0"
  by (simp add: date_days_def year_days_def)

text \<open>The years of the calendar join up: a year has 366 days exactly when it is a leap year.\<close>

lemma year_days_step: "year_days (y + 1) = year_days y + (if is_leap y then 366 else 365)"
proof -
  have step: "y div k = (y - 1) div k + (if y mod k = 0 then 1 else 0)" if "0 < k" for k :: int
  proof -
    have y: "y = y mod k + k * (y div k)" by simp
    show ?thesis
    proof (cases "y mod k = 0")
      case True
      then have "y - 1 = (k - 1) + k * (y div k - 1)" using y by (simp add: algebra_simps)
      then have "(y - 1) div k = (k - 1) div k + (y div k - 1)"
        using that by (simp only: div_mult_self2)
      moreover have "(k - 1) div k = 0" using that by simp
      ultimately show ?thesis using True by simp
    next
      case False
      then have r: "0 \<le> y mod k - 1" "y mod k - 1 < k"
        using pos_mod_bound [OF that, of y] pos_mod_sign [OF that, of y] by linarith+
      have "y - 1 = (y mod k - 1) + k * (y div k)" using y by linarith
      then have "(y - 1) div k = (y mod k - 1) div k + y div k"
        using that by (simp only: div_mult_self2)
      then show ?thesis using False r by simp
    qed
  qed
  have mods: "y mod 100 = 0 \<Longrightarrow> y mod 4 = 0" "y mod 400 = 0 \<Longrightarrow> y mod 100 = 0"
  proof -
    have "(4 :: int) dvd 100" "(100 :: int) dvd 400" by simp_all
    then show "y mod 100 = 0 \<Longrightarrow> y mod 4 = 0" "y mod 400 = 0 \<Longrightarrow> y mod 100 = 0"
      by (meson dvd_trans dvd_imp_mod_0 mod_0_imp_dvd)+
  qed
  have leap: "(if y mod 4 = 0 then 1 else 0) - (if y mod 100 = 0 then 1 else 0)
      + (if y mod 400 = 0 then 1 else 0) = (if is_leap y then 1 else (0 :: int))"
    by (cases "y mod 4 = 0"; cases "y mod 100 = 0"; cases "y mod 400 = 0")
      (use mods in \<open>simp_all add: is_leap_def\<close>)
  define a b c where "a = (y - 1) div 4" and "b = (y - 1) div 100" and "c = (y - 1) div 400"
  have "y div 4 - y div 100 + y div 400 = a - b + c + (if is_leap y then 1 else 0)"
    unfolding leap [symmetric] step [of 4, simplified] step [of 100, simplified]
      step [of 400, simplified] a_def b_def c_def by linarith
  then show ?thesis unfolding year_days_def a_def b_def c_def by (cases "is_leap y") auto
qed

lemma days_before_year: "days_before y 12 + days_in y 12 = (if is_leap y then 366 else 365)"
  by (simp add: numeral_eq_Suc) (simp add: days_in_def)

section \<open>Parsing\<close>

text \<open>\<^verbatim>\<open>getnum\<close> and the year: the number and the text behind it.\<close>

fun get2 :: "string \<Rightarrow> (nat \<times> string) option" where
  "get2 (a # b # s) = (if is_digit a \<and> is_digit b then Some (10 * digit_val a + digit_val b, s) else None)"
| "get2 _ = None"

fun get12 :: "string \<Rightarrow> (nat \<times> string) option" where
  "get12 (a # b # s) =
     (if \<not> is_digit a then None
      else if \<not> is_digit b then Some (digit_val a, b # s)
      else Some (10 * digit_val a + digit_val b, s))"
| "get12 [a] = (if is_digit a then Some (digit_val a, []) else None)"
| "get12 [] = None"

fun get4 :: "string \<Rightarrow> (nat \<times> string) option" where
  "get4 (a # b # c # d # s) =
     (if is_digit a \<and> is_digit b \<and> is_digit c \<and> is_digit d
      then Some (undec [a, b, c, d], s) else None)"
| "get4 _ = None"

fun skip :: "char \<Rightarrow> string \<Rightarrow> string option" where
  "skip c (x # s) = (if x = c then Some s else None)"
| "skip c [] = None"

text \<open>A date at the front of a text: year, month, day, rest.\<close>

definition get_date :: "string \<Rightarrow> (int \<times> nat \<times> nat \<times> string) option" where
  "get_date s = do {
     (y, s) \<leftarrow> get4 s;
     s \<leftarrow> skip (CHR ''-'') s;
     (m, s) \<leftarrow> get2 s;
     (if 1 \<le> m \<and> m \<le> 12 then do {
        s \<leftarrow> skip (CHR ''-'') s;
        (d, s) \<leftarrow> get2 s;
        Some (int y, m, d, s)
      } else None)
   }"

definition date_ok :: "int \<Rightarrow> nat \<Rightarrow> nat \<Rightarrow> bool" where
  "date_ok y m d \<longleftrightarrow> 1 \<le> d \<and> d \<le> days_in y m"

text \<open>\<^verbatim>\<open>time.Parse("2006-01-02", s)\<close>: midnight UTC of the day.\<close>

definition parse_date :: "string \<Rightarrow> int option" where
  "parse_date s = do {
     (y, m, d, r) \<leftarrow> get_date s;
     (if r = [] \<and> date_ok y m d then Some (date_days y m d * day) else None)
   }"

text \<open>
  The optional fraction of a second: a comma or period with digits behind it; digits beyond the
  ninth are dropped.
\<close>

definition get_fraction :: "string \<Rightarrow> int \<times> string" where
  "get_fraction s =
     (case s of
        c # r \<Rightarrow>
          if (c = CHR ''.'' \<or> c = CHR '','') \<and> r \<noteq> [] \<and> is_digit (hd r) then
            (let ds = takeWhile is_digit r; k = take 9 ds
             in (int (undec k * 10 ^ (9 - length k)), dropWhile is_digit r))
          else (0, s)
      | [] \<Rightarrow> (0, s))"

text \<open>The zone: \<^verbatim>\<open>Z\<close> or a signed offset, in seconds.\<close>

definition get_zone :: "string \<Rightarrow> (int \<times> string) option" where
  "get_zone s =
     (case s of
        [] \<Rightarrow> None
      | c # r \<Rightarrow>
          if c = CHR ''Z'' then Some (0, r)
          else if c = CHR ''+'' \<or> c = CHR ''-'' then do {
            (h, r) \<leftarrow> get2 r;
            r \<leftarrow> skip (CHR '':'') r;
            (m, r) \<leftarrow> get2 r;
            (if h \<le> 24 \<and> m \<le> 60
             then Some ((if c = CHR ''-'' then - 1 else 1) * int (3600 * h + 60 * m), r)
             else None)
          } else None)"

text \<open>\<^verbatim>\<open>time.Parse(time.RFC3339, s)\<close>.\<close>

definition parse_rfc3339 :: "string \<Rightarrow> int option" where
  "parse_rfc3339 s = do {
     (y, m, d, s) \<leftarrow> get_date s;
     s \<leftarrow> skip (CHR ''T'') s;
     (hh, s) \<leftarrow> get12 s;
     s \<leftarrow> skip (CHR '':'') s;
     (mi, s) \<leftarrow> get2 s;
     s \<leftarrow> skip (CHR '':'') s;
     (ss, s) \<leftarrow> get2 s;
     (if hh < 24 \<and> mi < 60 \<and> ss < 60 then do {
        let (frac, s) = get_fraction s;
        (off, s) \<leftarrow> get_zone s;
        (if s = [] \<and> date_ok y m d
         then Some (date_days y m d * day + (int (3600 * hh + 60 * mi + ss) - off) * second + frac)
         else None)
      } else None)
   }"

lemma parse_date_days: "parse_date s = Some t \<Longrightarrow> t mod day = 0"
  by (auto simp: parse_date_def bind_eq_Some_conv split: if_splits)

end
