(* ===== verification/Disk.thy ===== *)
theory Disk
  imports Settings
begin

text \<open>
  The file operations behind \<^verbatim>\<open>writeDurably\<close> of \<^verbatim>\<open>internal/core/config.go\<close>, with what a
  machine that stops may lose: the content of a file that was not synced is anything, and of the
  directory any state since the last sync of the directory may come back. On top of it, the
  write itself, and the interface under which its callers use it.
\<close>

section \<open>Files and crashes\<close>

text \<open>
  Names lead to inodes. \<open>hist\<close> holds the states of the directory since it was last synced,
  the present one at the end.
\<close>

record disk =
  dir :: "(string, nat) gomap"
  hist :: "(string, nat) gomap list"
  content :: "nat \<Rightarrow> bytes"
  synced :: "nat \<Rightarrow> bool"
  fresh :: nat

datatype disk_op = CreateF string | WriteF string bytes | SyncF string | RenameF string string | SyncDir

fun exec :: "disk_op \<Rightarrow> disk \<Rightarrow> disk" where
  "exec (CreateF p) d =
     (case mget (dir d) p of
        Some i \<Rightarrow> d\<lparr>content := (content d)(i := []), synced := (synced d)(i := False)\<rparr>
      | None \<Rightarrow> (let h = mput p (fresh d) (dir d) in
          d\<lparr>dir := h, hist := hist d @ [h], content := (content d)(fresh d := []),
            synced := (synced d)(fresh d := False), fresh := Suc (fresh d)\<rparr>))"
| "exec (WriteF p b) d =
     (case mget (dir d) p of
        Some i \<Rightarrow> d\<lparr>content := (content d)(i := content d i @ b), synced := (synced d)(i := False)\<rparr>
      | None \<Rightarrow> d)"
| "exec (SyncF p) d =
     (case mget (dir d) p of Some i \<Rightarrow> d\<lparr>synced := (synced d)(i := True)\<rparr> | None \<Rightarrow> d)"
| "exec (RenameF p q) d =
     (case mget (dir d) p of
        Some i \<Rightarrow> (let h = mput q i (mdel p (dir d)) in d\<lparr>dir := h, hist := hist d @ [h]\<rparr>)
      | None \<Rightarrow> d)"
| "exec SyncDir d = d\<lparr>hist := [dir d]\<rparr>"

declare exec.simps [simp del]

definition file_at :: "disk \<Rightarrow> string \<Rightarrow> bytes option" where
  "file_at d p = map_option (content d) (mget (dir d) p)"

inductive crash :: "disk \<Rightarrow> disk \<Rightarrow> bool" where
  "h \<in> set (hist d) \<Longrightarrow> (\<And>i. synced d i \<Longrightarrow> c i = content d i) \<Longrightarrow>
   crash d \<lparr>dir = h, hist = [h], content = c, synced = (\<lambda>_. True), fresh = fresh d\<rparr>"

text \<open>The states a run goes through; the machine may stop in any of them.\<close>

fun states :: "disk_op list \<Rightarrow> disk \<Rightarrow> disk list" where
  "states [] d = [d]"
| "states (op # ops) d = d # states ops (exec op d)"

definition run_ops :: "disk_op list \<Rightarrow> disk \<Rightarrow> disk" where
  "run_ops ops d = fold exec ops d"

lemma run_ops_states: "run_ops ops d \<in> set (states ops d)"
  by (induction ops arbitrary: d) (auto simp: run_ops_def)

section \<open>Writing durably\<close>

text \<open>
  Where the write can fail: each call before the directory is opened ends it with an error, a
  failing write after some bytes; a failure to sync the directory is ignored.
\<close>

datatype fault = NoFault | FailOpen | FailWrite nat | FailSync | FailClose | FailRename | FailDir

definition tmp_of :: "string \<Rightarrow> string" where
  "tmp_of p = p @ ''.tmp''"

fun write_ops :: "string \<Rightarrow> bytes \<Rightarrow> fault \<Rightarrow> disk_op list" where
  "write_ops p b FailOpen = []"
| "write_ops p b (FailWrite n) = [CreateF (tmp_of p), WriteF (tmp_of p) (take n b)]"
| "write_ops p b FailSync = [CreateF (tmp_of p), WriteF (tmp_of p) b]"
| "write_ops p b FailClose = [CreateF (tmp_of p), WriteF (tmp_of p) b, SyncF (tmp_of p)]"
| "write_ops p b FailRename = [CreateF (tmp_of p), WriteF (tmp_of p) b, SyncF (tmp_of p)]"
| "write_ops p b FailDir =
     [CreateF (tmp_of p), WriteF (tmp_of p) b, SyncF (tmp_of p), RenameF (tmp_of p) p]"
| "write_ops p b NoFault =
     [CreateF (tmp_of p), WriteF (tmp_of p) b, SyncF (tmp_of p), RenameF (tmp_of p) p, SyncDir]"

definition write_fails :: "fault \<Rightarrow> bool" where
  "write_fails f \<longleftrightarrow> f \<noteq> NoFault \<and> f \<noteq> FailDir"

definition writeDurably :: "string \<Rightarrow> bytes \<Rightarrow> fault \<Rightarrow> disk \<Rightarrow> disk \<times> bool" where
  "writeDurably p b f d = (run_ops (write_ops p b f) d, write_fails f)"

definition write_states :: "string \<Rightarrow> bytes \<Rightarrow> fault \<Rightarrow> disk \<Rightarrow> disk list" where
  "write_states p b f d = states (write_ops p b f) d"

section \<open>What may be found after a crash\<close>

definition plain :: "string \<Rightarrow> bool" where
  "plain p \<longleftrightarrow> \<not> suffix ''.tmp'' p"

text \<open>
  A consistent disk: the inode of a temporary file is reached by no other name in any state of
  the directory that may come back.
\<close>

definition unshared :: "disk \<Rightarrow> string \<Rightarrow> bool" where
  "unshared d t \<longleftrightarrow> (\<forall>i. mget (dir d) t = Some i \<longrightarrow> (\<forall>h \<in> set (hist d). \<forall>q. mget h q = Some i \<longrightarrow> q = t))"

definition disk_ok :: "disk \<Rightarrow> bool" where
  "disk_ok d \<longleftrightarrow> dir d \<in> set (hist d)
     \<and> (\<forall>h \<in> set (hist d). \<forall>p i. mget h p = Some i \<longrightarrow> i < fresh d)
     \<and> (\<forall>t. \<not> plain t \<longrightarrow> unshared d t)"

text \<open>Whatever happens, the file \<open>p\<close> reads as one of \<open>V\<close>.\<close>

definition safe :: "disk \<Rightarrow> string \<Rightarrow> bytes option set \<Rightarrow> bool" where
  "safe d p V \<longleftrightarrow> (\<forall>h \<in> set (hist d). case mget h p of
     None \<Rightarrow> None \<in> V | Some i \<Rightarrow> synced d i \<and> Some (content d i) \<in> V)"

lemma safeD:
  "safe d p V \<Longrightarrow> h \<in> set (hist d) \<Longrightarrow> mget h p = None \<Longrightarrow> None \<in> V"
  "safe d p V \<Longrightarrow> h \<in> set (hist d) \<Longrightarrow> mget h p = Some i \<Longrightarrow> synced d i \<and> Some (content d i) \<in> V"
  by (auto simp: safe_def split: option.splits)

lemma safe_crash:
  assumes "safe d p V" and "crash d d'"
  shows "file_at d' p \<in> V"
  using assms(2)
proof cases
  case (1 h c)
  then show ?thesis
    using safeD [OF assms(1) 1(2)] by (cases "mget h p") (auto simp: file_at_def)
qed

lemma safe_file: "disk_ok d \<Longrightarrow> safe d p V \<Longrightarrow> file_at d p \<in> V"
  using safeD [of d p V "dir d"]
  by (cases "mget (dir d) p") (auto simp: file_at_def disk_ok_def)

lemma crash_ok: "disk_ok d \<Longrightarrow> crash d d' \<Longrightarrow> (\<And>p q i. mget (dir d') p = Some i \<Longrightarrow> mget (dir d') q = Some i \<Longrightarrow> p = q)
    \<Longrightarrow> disk_ok d'"
  by (erule crash.cases) (auto simp: disk_ok_def unshared_def)

lemma plain_tmp [simp]: "\<not> plain (tmp_of p)"
  by (simp add: plain_def tmp_of_def suffix_def)

definition tmp_op :: "disk_op \<Rightarrow> bool" where
  "tmp_op op = (case op of
     CreateF t \<Rightarrow> \<not> plain t | WriteF t b \<Rightarrow> \<not> plain t | SyncF t \<Rightarrow> \<not> plain t
   | RenameF t q \<Rightarrow> \<not> plain t \<and> plain q | SyncDir \<Rightarrow> True)"

lemma disk_okD:
  assumes "disk_ok d"
  shows "dir d \<in> set (hist d)"
    and "h \<in> set (hist d) \<Longrightarrow> mget h p = Some i \<Longrightarrow> i < fresh d"
    and "\<not> plain t \<Longrightarrow> mget (dir d) t = Some i \<Longrightarrow> h \<in> set (hist d) \<Longrightarrow> mget h q = Some i \<Longrightarrow> q = t"
  using assms unfolding disk_ok_def unshared_def by blast+

lemma disk_okI:
  assumes "dir d \<in> set (hist d)"
    and "\<And>h p i. h \<in> set (hist d) \<Longrightarrow> mget h p = Some i \<Longrightarrow> i < fresh d"
    and "\<And>t i h q. \<not> plain t \<Longrightarrow> mget (dir d) t = Some i \<Longrightarrow> h \<in> set (hist d) \<Longrightarrow> mget h q = Some i \<Longrightarrow> q = t"
  shows "disk_ok d"
  using assms unfolding disk_ok_def unshared_def by blast

lemma disk_ok_same:
  "disk_ok d \<Longrightarrow> dir d' = dir d \<Longrightarrow> hist d' = hist d \<Longrightarrow> fresh d' = fresh d \<Longrightarrow> disk_ok d'"
  by (simp add: disk_ok_def unshared_def)

lemma disk_ok_create:
  assumes ok: "disk_ok d" and t: "mget (dir d) t = None"
  shows "disk_ok (exec (CreateF t) d)"
proof (rule disk_okI)
  let ?h = "mput t (fresh d) (dir d)"
  have e: "dir (exec (CreateF t) d) = ?h" "hist (exec (CreateF t) d) = hist d @ [?h]"
    "fresh (exec (CreateF t) d) = Suc (fresh d)"
    using t by (simp_all add: exec.simps Let_def)
  note D = disk_okD [OF ok]
  show "dir (exec (CreateF t) d) \<in> set (hist (exec (CreateF t) d))" by (simp add: e)
  show "i < fresh (exec (CreateF t) d)"
    if "h \<in> set (hist (exec (CreateF t) d))" "mget h p = Some i" for h p i
    using that D(2) [of h p i] D(2) [OF D(1), of p i] by (auto simp: e split: if_splits)
  show "q = u"
    if "\<not> plain u" "mget (dir (exec (CreateF t) d)) u = Some i" "h \<in> set (hist (exec (CreateF t) d))"
      "mget h q = Some i" for u i h q
  proof (cases "h = ?h")
    case True
    then show ?thesis
      using that D(2) [OF D(1), of q i] D(2) [OF D(1), of u i] D(3) [OF that(1) _ D(1), of i q]
      by (auto simp: e split: if_splits)
  next
    case False
    then have h: "h \<in> set (hist d)" using that(3) by (simp add: e)
    then have "i < fresh d" using that(4) D(2) by blast
    then show ?thesis using that(2,4) D(3) [OF that(1) _ h] by (auto simp: e split: if_splits)
  qed
qed

lemma disk_ok_rename:
  assumes ok: "disk_ok d" and t: "\<not> plain t" "plain p" and i: "mget (dir d) t = Some i"
  shows "disk_ok (exec (RenameF t p) d)"
proof (rule disk_okI)
  let ?h = "mput p i (mdel t (dir d))"
  have e: "dir (exec (RenameF t p) d) = ?h" "hist (exec (RenameF t p) d) = hist d @ [?h]"
    "fresh (exec (RenameF t p) d) = fresh d"
    using i by (simp_all add: exec.simps Let_def)
  note D = disk_okD [OF ok]
  show "dir (exec (RenameF t p) d) \<in> set (hist (exec (RenameF t p) d))" by (simp add: e)
  show "j < fresh (exec (RenameF t p) d)"
    if "h \<in> set (hist (exec (RenameF t p) d))" "mget h q = Some j" for h q j
    using that D(2) [of h q j] D(2) [OF D(1), of q j] D(2) [OF D(1) i] by (auto simp: e split: if_splits)
  show "q = u"
    if "\<not> plain u" "mget (dir (exec (RenameF t p) d)) u = Some j" "h \<in> set (hist (exec (RenameF t p) d))"
      "mget h q = Some j" for u j h q
  proof -
    have u: "u \<noteq> p" "u \<noteq> t" "mget (dir d) u = Some j" using that(1,2) t by (auto simp: e split: if_splits)
    have "j \<noteq> i" using D(3) [OF that(1) u(3) D(1), of t] i u by blast
    then show ?thesis
      using that(3,4) D(3) [OF that(1) u(3), of h q] D(3) [OF that(1) u(3) D(1), of q]
      by (auto simp: e split: if_splits)
  qed
qed

lemma disk_ok_exec:
  assumes "disk_ok d" and "tmp_op op"
  shows "disk_ok (exec op d)"
proof (cases op)
  case (CreateF t)
  then show ?thesis
    using assms(1) disk_ok_create [OF assms(1), of t]
    by (cases "mget (dir d) t") (auto simp: exec.simps intro: disk_ok_same)
next
  case (WriteF t b)
  then show ?thesis
    using assms(1) by (cases "mget (dir d) t") (auto simp: exec.simps intro: disk_ok_same)
next
  case (SyncF t)
  then show ?thesis
    using assms(1) by (cases "mget (dir d) t") (auto simp: exec.simps intro: disk_ok_same)
next
  case (RenameF t q)
  then show ?thesis
    using assms disk_ok_rename [OF assms(1), of t q]
    by (cases "mget (dir d) t") (auto simp: tmp_op_def exec.simps)
next
  case SyncDir
  then show ?thesis using disk_okD [OF assms(1)] by (auto simp: exec.simps intro!: disk_okI)
qed

lemma safeI:
  assumes "\<And>h. h \<in> set (hist d) \<Longrightarrow> mget h p = None \<Longrightarrow> None \<in> V"
    and "\<And>h i. h \<in> set (hist d) \<Longrightarrow> mget h p = Some i \<Longrightarrow> synced d i \<and> Some (content d i) \<in> V"
  shows "safe d p V"
  using assms by (auto simp: safe_def split: option.splits)

text \<open>A step that leaves the directories and the inodes behind \<open>p\<close> alone keeps it safe.\<close>

lemma safe_same:
  assumes "safe d p V" and "hist d' = hist d"
    and "\<And>h i. h \<in> set (hist d) \<Longrightarrow> mget h p = Some i \<Longrightarrow>
      (synced d i \<longrightarrow> synced d' i) \<and> content d' i = content d i"
  shows "safe d' p V"
  using assms safeD [OF assms(1)] by (intro safeI) auto

lemma safe_append:
  assumes "safe d p V" and "dir d \<in> set (hist d)" and "hist d' = hist d @ [h]"
    and "mget h p = mget (dir d) p"
    and "\<And>g i. g \<in> set (hist d) \<Longrightarrow> mget g p = Some i \<Longrightarrow> synced d' i = synced d i \<and> content d' i = content d i"
  shows "safe d' p V"
  using assms safeD [OF assms(1)] by (intro safeI) auto

lemma safe_exec:
  assumes ok: "disk_ok d" and op: "tmp_op op" and p: "plain p" and s: "safe d p V"
    and "\<And>t. op \<noteq> RenameF t p"
  shows "safe (exec op d) p V"
proof -
  note D = disk_okD [OF ok]
  have un: "j \<noteq> i" if "\<not> plain t" "mget (dir d) t = Some i" "h \<in> set (hist d)" "mget h p = Some j" for t i j h
    using D(3) [OF that(1,2,3), of p] that p by blast
  show ?thesis
  proof (cases op)
    case (CreateF t)
    then have t: "\<not> plain t" "t \<noteq> p" using op p by (auto simp: tmp_op_def)
    show ?thesis
    proof (cases "mget (dir d) t")
      case None
      show ?thesis
        using CreateF None t D(2)
        by (intro safe_append [OF s D(1), where h = "mput t (fresh d) (dir d)"])
          (auto simp: exec.simps Let_def)
    next
      case (Some i)
      show ?thesis
        using CreateF Some un [OF t(1) Some] by (intro safe_same [OF s]) (auto simp: exec.simps)
    qed
  next
    case (WriteF t b)
    then have t: "\<not> plain t" using op by (simp add: tmp_op_def)
    show ?thesis
      using WriteF un [OF t] s
      by (cases "mget (dir d) t") (auto simp: exec.simps intro!: safe_same [OF s])
  next
    case (SyncF t)
    then show ?thesis
      using s by (cases "mget (dir d) t") (auto simp: exec.simps intro!: safe_same [OF s])
  next
    case (RenameF t q)
    then have q: "q \<noteq> p" "t \<noteq> p" using op p assms(5) by (auto simp: tmp_op_def)
    show ?thesis
      using RenameF q s
      by (cases "mget (dir d) t") (auto simp: exec.simps Let_def intro!: safe_append [OF s D(1)])
  next
    case SyncDir
    then show ?thesis using safeD [OF s D(1)] by (auto simp: exec.simps intro!: safeI)
  qed
qed

lemma safe_mono: "safe d p V \<Longrightarrow> V \<subseteq> W \<Longrightarrow> safe d p W"
  by (fastforce simp: safe_def split: option.splits)

lemma safe_rename:
  assumes "safe d p V" and "mget (dir d) t = Some i" and "synced d i" and "content d i = b"
  shows "safe (exec (RenameF t p) d) p (insert (Some b) V)"
  using assms(2-4) safeD [OF assms(1)]
  by (auto simp: exec.simps Let_def intro!: safeI split: if_splits)

lemma states_invariant:
  assumes "P d" and "\<And>d op. op \<in> set ops \<Longrightarrow> P d \<Longrightarrow> P (exec op d)"
  shows "d' \<in> set (states ops d) \<Longrightarrow> P d'"
  using assms
proof (induction ops arbitrary: d)
  case (Cons op ops)
  show ?case
  proof (cases "d' = d")
    case False
    then have "d' \<in> set (states ops (exec op d))" using Cons.prems(1) by simp
    then show ?thesis
      using Cons.prems(2,3) by (intro Cons.IH [of "exec op d"]) auto
  qed (use Cons.prems in simp)
qed simp

lemma write_ops_tmp: "plain p \<Longrightarrow> op \<in> set (write_ops p b f) \<Longrightarrow> tmp_op op"
  by (cases f) (auto simp: tmp_op_def)

lemma write_ops_other: "op \<in> set (write_ops p b f) \<Longrightarrow> q \<noteq> p \<Longrightarrow> op \<noteq> RenameF t q"
  by (cases f) auto

lemma states_hd [simp]: "d \<in> set (states ops d)"
  by (cases ops) simp_all

lemma states_append:
  "set (states (xs @ ys) d) = set (states xs d) \<union> set (states ys (run_ops xs d))"
  by (induction xs arbitrary: d) (auto simp: run_ops_def)

text \<open>The file written, before it is renamed into place.\<close>

lemma tmp_written:
  "\<exists>i. mget (dir (run_ops [CreateF t, WriteF t b, SyncF t] d)) t = Some i
     \<and> synced (run_ops [CreateF t, WriteF t b, SyncF t] d) i
     \<and> content (run_ops [CreateF t, WriteF t b, SyncF t] d) i = b"
  unfolding run_ops_def by (cases "mget (dir d) t") (simp_all add: exec.simps Let_def)

lemma write_replaces:
  assumes "disk_ok d" and "plain p" and "safe d p V" and "d' \<in> set (write_states p b f d)"
  shows "safe d' p (insert (Some b) V)"
proof -
  let ?t = "tmp_of p"
  let ?three = "[CreateF ?t, WriteF ?t b, SyncF ?t]"
  define good where "good e \<longleftrightarrow> disk_ok e \<and> safe e p V" for e
  have step: "good (exec op e)" if "tmp_op op" "\<And>t. op \<noteq> RenameF t p" "good e" for op e
    using that disk_ok_exec safe_exec assms(2) unfolding good_def by blast
  have small: "good e" if "e \<in> set (states ops d)" "set ops \<subseteq> {op. tmp_op op \<and> (\<forall>t. op \<noteq> RenameF t p)}"
    for ops e
    using states_invariant [of good d ops e] that step assms(1,3) unfolding good_def by blast
  have up: "good e \<Longrightarrow> safe e p (insert (Some b) V)" for e
    unfolding good_def using safe_mono by blast
  let ?d1 = "run_ops ?three d" and ?d2 = "exec (RenameF ?t p) (run_ops ?three d)"
  have g1: "good ?d1" by (rule small [OF run_ops_states]) (simp add: tmp_op_def)
  obtain i where "mget (dir ?d1) ?t = Some i" "synced ?d1 i" "content ?d1 i = b"
    using tmp_written by blast
  then have s2: "safe ?d2 p (insert (Some b) V)" using safe_rename g1 unfolding good_def by blast
  have "tmp_op (RenameF ?t p)" using assms(2) by (simp add: tmp_op_def)
  then have "disk_ok ?d2" using g1 disk_ok_exec unfolding good_def by blast
  then have s3: "safe (exec SyncDir ?d2) p (insert (Some b) V)"
    using safe_exec [of ?d2 SyncDir p] s2 assms(2) by (simp add: tmp_op_def)
  have st: "set (states ?three d) \<subseteq> {e. good e}"
    using small [of _ ?three] by (auto simp: tmp_op_def)
  note sp = states_append [of ?three _ d, simplified append.simps]
  show ?thesis
  proof (cases f)
    case NoFault
    then have "d' \<in> set (states ?three d) \<or> d' = ?d1 \<or> d' = ?d2 \<or> d' = exec SyncDir ?d2"
      using assms(4) sp [of "[RenameF ?t p, SyncDir]"] by (auto simp: write_states_def)
    then show ?thesis using st g1 up s2 s3 by auto
  next
    case FailDir
    then have "d' \<in> set (states ?three d) \<or> d' = ?d1 \<or> d' = ?d2"
      using assms(4) sp [of "[RenameF ?t p]"] by (auto simp: write_states_def)
    then show ?thesis using st g1 up s2 by auto
  qed (use assms(4) small [of d' "write_ops p b f"] up in \<open>auto simp: write_states_def tmp_op_def\<close>)
qed

section \<open>The interface its callers use\<close>

text \<open>
  What a file that is replaced promises, whatever fails and wherever the machine stops: until
  the write returns, the file reads as before or as written, and no other file is touched.
\<close>

locale atomic_replace =
  fixes good :: "'d \<Rightarrow> bool"
    and name_ok :: "string \<Rightarrow> bool"
    and reads :: "'d \<Rightarrow> string \<Rightarrow> bytes option set \<Rightarrow> bool"
    and during :: "string \<Rightarrow> bytes \<Rightarrow> 'f \<Rightarrow> 'd \<Rightarrow> 'd list"
    and replace :: "string \<Rightarrow> bytes \<Rightarrow> 'f \<Rightarrow> 'd \<Rightarrow> 'd"
  assumes write_during: "replace p b f d \<in> set (during p b f d)"
    and good_during: "good d \<Longrightarrow> name_ok p \<Longrightarrow> d' \<in> set (during p b f d) \<Longrightarrow> good d'"
    and replaced: "good d \<Longrightarrow> name_ok p \<Longrightarrow> reads d p V \<Longrightarrow> d' \<in> set (during p b f d) \<Longrightarrow>
      reads d' p (insert (Some b) V)"
    and others: "good d \<Longrightarrow> name_ok p \<Longrightarrow> name_ok q \<Longrightarrow> q \<noteq> p \<Longrightarrow> reads d q V \<Longrightarrow>
      d' \<in> set (during p b f d) \<Longrightarrow> reads d' q V"
    and weaken: "reads d p V \<Longrightarrow> V \<subseteq> W \<Longrightarrow> reads d p W"
begin

text \<open>A copy of the old content beside the file first, then the new content.\<close>

lemma copy_then_write:
  assumes "good d" and "name_ok p" and "name_ok q" and "p \<noteq> q" and "reads d p V" and "reads d q W"
    and "d' \<in> set (during q old f d) \<union> set (during p new g (replace q old f d))"
  shows "good d' \<and> reads d' p (insert (Some new) V) \<and> reads d' q (insert (Some old) W)"
proof -
  let ?e = "replace q old f d"
  have e: "good ?e" "reads ?e p V" "reads ?e q (insert (Some old) W)"
    using good_during [OF assms(1,3) write_during] others [OF assms(1,3,2) assms(4) assms(5) write_during]
      replaced [OF assms(1,3,6) write_during] by simp_all
  show ?thesis
  proof (cases "d' \<in> set (during q old f d)")
    case True
    then have "reads d' p V" using others [OF assms(1,3,2,4,5)] by blast
    then have "reads d' p (insert (Some new) V)" by (rule weaken) blast
    then show ?thesis
      using True good_during [OF assms(1,3)] replaced [OF assms(1,3,6)] by blast
  next
    case False
    then have "d' \<in> set (during p new g ?e)" using assms(7) by simp
    then show ?thesis
      using good_during [OF e(1) assms(2)] replaced [OF e(1) assms(2) e(2)]
        others [OF e(1) assms(2,3) assms(4) [symmetric] e(3)] by blast
  qed
qed

end

lemma write_keeps:
  assumes "disk_ok d" and "plain p" and "d' \<in> set (write_states p b f d)"
  shows "disk_ok d'" and "plain q \<Longrightarrow> q \<noteq> p \<Longrightarrow> safe d q V \<Longrightarrow> safe d' q V"
proof -
  have "disk_ok (exec op e)" if "op \<in> set (write_ops p b f)" "disk_ok e" for op e
    using disk_ok_exec write_ops_tmp assms(2) that by blast
  then show "disk_ok d'"
    using states_invariant [of disk_ok d "write_ops p b f" d'] assms(1,3)
    unfolding write_states_def by blast
  show "safe d' q V" if q: "plain q" "q \<noteq> p" "safe d q V"
  proof -
    have "disk_ok (exec op e) \<and> safe (exec op e) q V"
      if "op \<in> set (write_ops p b f)" "disk_ok e \<and> safe e q V" for op e
      using disk_ok_exec safe_exec write_ops_tmp [OF assms(2)] write_ops_other q(1,2) that by metis
    then show ?thesis
      using states_invariant [of "\<lambda>e. disk_ok e \<and> safe e q V" d "write_ops p b f" d'] assms(1,3) q(3)
      unfolding write_states_def by blast
  qed
qed

interpretation durable: atomic_replace disk_ok plain safe write_states
  "\<lambda>p b f d. fst (writeDurably p b f d)"
proof
  show "fst (writeDurably p b f d) \<in> set (write_states p b f d)" for p b f d
    by (simp add: writeDurably_def write_states_def run_ops_states)
  show "disk_ok d'" if "disk_ok d" "plain p" "d' \<in> set (write_states p b f d)" for d d' p b f
    by (rule write_keeps(1) [OF that])
  show "safe d' p (insert (Some b) V)"
    if "disk_ok d" "plain p" "safe d p V" "d' \<in> set (write_states p b f d)" for d d' p b f V
    by (rule write_replaces [OF that])
  show "safe d' q V"
    if "disk_ok d" "plain p" "plain q" "q \<noteq> p" "safe d q V" "d' \<in> set (write_states p b f d)"
    for d d' p q b f V
    by (rule write_keeps(2) [OF that(1,2,6,3,4,5)])
  show "safe d p W" if "safe d p V" "V \<subseteq> W" for d p V W
    by (rule safe_mono [OF that])
qed

text \<open>A write that reports no error has put the content in place.\<close>

lemma write_done:
  assumes "writeDurably p b f d = (d', False)"
  shows "file_at d' p = Some b"
proof -
  let ?t = "tmp_of p"
  define e where "e = run_ops [CreateF ?t, WriteF ?t b, SyncF ?t] d"
  obtain i where i: "mget (dir e) ?t = Some i" "content e i = b"
    using tmp_written unfolding e_def by blast
  have "file_at (exec (RenameF ?t p) e) p = Some b"
    using i by (simp add: exec.simps Let_def file_at_def)
  moreover have "file_at (exec SyncDir e') q = file_at e' q" for e' q
    by (simp add: exec.simps file_at_def)
  moreover have "fst (writeDurably p b FailDir d) = exec (RenameF ?t p) e"
    "fst (writeDurably p b NoFault d) = exec SyncDir (exec (RenameF ?t p) e)"
    by (simp_all add: writeDurably_def run_ops_def e_def)
  ultimately have "file_at (fst (writeDurably p b g d)) p = Some b" if "g = FailDir \<or> g = NoFault" for g
    using that by auto
  then have "file_at (fst (writeDurably p b f d)) p = Some b"
    using assms by (auto simp: writeDurably_def write_fails_def)
  then show ?thesis using assms by simp
qed

text \<open>When the directory was synced too, it is in place for good.\<close>

lemma write_lasts: "safe (run_ops (write_ops p b NoFault) d) p {Some b}"
proof -
  let ?t = "tmp_of p"
  define e where "e = run_ops [CreateF ?t, WriteF ?t b, SyncF ?t] d"
  obtain i where i: "mget (dir e) ?t = Some i" "synced e i" "content e i = b"
    using tmp_written unfolding e_def by blast
  have "run_ops (write_ops p b NoFault) d = exec SyncDir (exec (RenameF ?t p) e)" by (simp add: run_ops_def e_def)
  then show ?thesis using i by (simp add: exec.simps Let_def safe_def)
qed

text \<open>
  C3: A write replaces the whole file or nothing of it. Whatever call fails and wherever the
  machine stops, the file then holds its old content or exactly the new one, and no other file
  but the temporary one is changed; a write that reports no error and is not interrupted has put
  the new content in place.
\<close>

theorem write_atomic:
  assumes "disk_ok d" and "plain p" and "safe d p {old}" and "d' \<in> set (write_states p b f d)"
    and "crash d' d''"
  shows "file_at d'' p \<in> {old, Some b}
    \<and> (plain q \<and> q \<noteq> p \<and> safe d q {v} \<longrightarrow> file_at d'' q = v)
    \<and> (\<not> snd (writeDurably p b f d) \<longrightarrow> file_at (fst (writeDurably p b f d)) p = Some b)"
proof (intro conjI impI)
  show "file_at d'' p \<in> {old, Some b}"
    using safe_crash [OF write_replaces [OF assms(1-4)] assms(5)] by blast
  show "file_at d'' q = v" if "plain q \<and> q \<noteq> p \<and> safe d q {v}"
    using safe_crash [OF write_keeps(2) [OF assms(1,2,4)] assms(5)] that by blast
  show "file_at (fst (writeDurably p b f d)) p = Some b" if "\<not> snd (writeDurably p b f d)"
    using write_done [of p b f d] that by (cases "writeDurably p b f d") simp
qed

definition empty_disk :: disk where
  "empty_disk = \<lparr>dir = [], hist = [[]], content = (\<lambda>_. []), synced = (\<lambda>_. True), fresh = 0\<rparr>"

lemma empty_disk_ok: "disk_ok empty_disk" "safe empty_disk p {None}"
  by (simp_all add: disk_ok_def unshared_def safe_def empty_disk_def)

theorem write_atomic_witness:
  "file_at (fst (writeDurably ''c'' [1] NoFault empty_disk)) ''c'' = Some [1]"
proof -
  have "plain ''c''" by (simp add: plain_def suffix_def)
  moreover have "crash empty_disk \<lparr>dir = [], hist = [[]], content = (\<lambda>_. []), synced = (\<lambda>_. True), fresh = 0\<rparr>"
    using crash.intros [of "[]" empty_disk "\<lambda>_. []"] by (simp add: empty_disk_def)
  ultimately show ?thesis
    using write_atomic [of empty_disk "''c''" None empty_disk "[1]" NoFault] empty_disk_ok
    by (auto simp: write_states_def writeDurably_def write_fails_def)
qed

end
