(* ===== verification/Config.thy ===== *)
theory Config
  imports Disk
begin

text \<open>
  \<^verbatim>\<open>internal/core/config.go\<close>: the operator's document with the defaults of the modules, its
  loading with recovery from the previous copy, and its saving. JSON is a parameter, as a decoder
  of documents, an encoder and the typed reading of the top level.
\<close>

section \<open>State\<close>

record retention =
  FlowsDays :: int
  DNSDays :: int
  AlertsDays :: int
  EventsDays :: int
  RollupDays :: int
  TLSDays :: int

record named_token =
  nt_Name :: string
  nt_Token :: string
  nt_Scope :: string

record core_settings =
  SiteName :: string
  Bind :: string
  Port :: int
  APIToken :: string
  APITokens :: "named_token list"
  APITokenLocalOnly :: bool
  APIAllow :: "string list"
  HTTPSPort :: int
  HTTPLocalOnly :: bool
  LogLevel :: string
  DataDir :: string
  Workers :: int
  MemoryLimitMB :: int
  Retention :: retention
  Paths :: obj

definition defaultCore :: core_settings where
  "defaultCore = \<lparr>SiteName = [], Bind = ''127.0.0.1'', Port = 8080, APIToken = [], APITokens = [],
     APITokenLocalOnly = False, APIAllow = [], HTTPSPort = 8443, HTTPLocalOnly = False,
     LogLevel = ''info'', DataDir = [], Workers = 4, MemoryLimitMB = 0,
     Retention = \<lparr>FlowsDays = 7, DNSDays = 7, AlertsDays = 30, EventsDays = 30, RollupDays = 400,
       TLSDays = 90\<rparr>, Paths = []\<rparr>"

text \<open>\<open>user\<close> is \<^const>\<open>None\<close> when the map is nil: then reading it is reading an empty map.\<close>

record config =
  LoadNote :: string
  Path :: string
  user :: "obj option"
  defaults :: "(string, obj) gomap"
  core_set :: core_settings

record codec =
  decode :: "bytes \<Rightarrow> string + json"
  encode :: "obj option \<Rightarrow> string + bytes"
  typed :: "obj \<Rightarrow> core_settings \<Rightarrow> string + core_settings"

record ioenv =
  mkdir_err :: "string option"
  read_err :: "string \<Rightarrow> string option"
  faults :: "string \<Rightarrow> fault"

datatype cfg_error = ErrRead string | ErrParse string string | ErrMkdir string | ErrEncode string
  | ErrWrite fault

datatype read_result = NotExist | ReadErr string | Data bytes

definition ReadFile :: "ioenv \<Rightarrow> disk \<Rightarrow> string \<Rightarrow> read_result" where
  "ReadFile io d p =
     (case read_err io p of
        Some e \<Rightarrow> ReadErr e
      | None \<Rightarrow> (case file_at d p of None \<Rightarrow> NotExist | Some b \<Rightarrow> Data b))"

definition prevPath :: "config \<Rightarrow> string" where
  "prevPath c = Path c @ ''.prev''"

section \<open>Loading\<close>

text \<open>
  Decoding into a map: JSON's null makes the map nil, any other value that is not an object is an
  error.
\<close>

definition unmarshal_map :: "codec \<Rightarrow> bytes \<Rightarrow> string + obj option" where
  "unmarshal_map code b =
     (case decode code b of
        Inl e \<Rightarrow> Inl e
      | Inr (JObj m) \<Rightarrow> Inr (Some m)
      | Inr JNull \<Rightarrow> Inr None
      | Inr _ \<Rightarrow> Inl ''cannot unmarshal into a map'')"

definition load_user :: "codec \<Rightarrow> bytes \<Rightarrow> string option \<times> obj option" where
  "load_user code data =
     (if data = [] then (None, Some [])
      else (case unmarshal_map code data of Inl e \<Rightarrow> (Some e, Some []) | Inr u \<Rightarrow> (None, u)))"

definition previous :: "codec \<Rightarrow> read_result \<Rightarrow> bool \<Rightarrow> (bytes \<times> obj) option" where
  "previous code r lost =
     (case r of
        Data prev \<Rightarrow>
          if prev \<noteq> [] \<and> lost then
            (case unmarshal_map code prev of
               Inr (Some m) \<Rightarrow> if m \<noteq> [] then Some (prev, m) else None
             | _ \<Rightarrow> None)
          else None
      | _ \<Rightarrow> None)"

definition load_note :: "config \<Rightarrow> string option \<Rightarrow> string" where
  "load_note c err = Path c @ '' was '' @ (case err of None \<Rightarrow> ''empty'' | Some e \<Rightarrow> e)
     @ ''; restored from '' @ prevPath c"

definition top_level :: "obj option \<Rightarrow> obj" where
  "top_level u = (case u of None \<Rightarrow> [] | Some m \<Rightarrow> filter (\<lambda>p. fst p \<noteq> ''modules'') m)"

definition Reload :: "codec \<Rightarrow> ioenv \<Rightarrow> config \<Rightarrow> disk \<Rightarrow> config \<times> disk \<times> cfg_error option" where
  "Reload code io c0 d =
     (let c = c0\<lparr>LoadNote := []\<rparr> in
      case ReadFile io d (Path c) of
        ReadErr e \<Rightarrow> (c, d, Some (ErrRead e))
      | r \<Rightarrow>
        (let data = (case r of Data b \<Rightarrow> b | _ \<Rightarrow> []);
             (err, u) = load_user code data;
             (err', u', c', d') =
               (case previous code (ReadFile io d (prevPath c)) (err \<noteq> None \<or> data = []) of
                  None \<Rightarrow> (err, u, c, d)
                | Some (prev, m) \<Rightarrow>
                    (None, Some m, c\<lparr>LoadNote := load_note c err\<rparr>,
                     fst (writeDurably (Path c) prev (faults io (Path c)) d)))
         in case err' of
              Some e \<Rightarrow> (c', d', Some (ErrParse (Path c) e))
            | None \<Rightarrow>
                (case typed code (top_level u') defaultCore of
                   Inl e \<Rightarrow> (c'\<lparr>user := u'\<rparr>, d', Some (ErrParse (Path c) e))
                 | Inr cs \<Rightarrow> (c'\<lparr>user := u', core_set := cs\<rparr>, d', None))))"

definition LoadConfig :: "codec \<Rightarrow> ioenv \<Rightarrow> string \<Rightarrow> disk \<Rightarrow> (cfg_error + config) \<times> disk" where
  "LoadConfig code io path d =
     (case Reload code io \<lparr>LoadNote = [], Path = path, user = Some [], defaults = [], core_set = defaultCore\<rparr> d of
        (c, d', None) \<Rightarrow> (Inr c, d')
      | (c, d', Some e) \<Rightarrow> (Inl e, d'))"

section \<open>Modules\<close>

definition mputs :: "obj \<Rightarrow> obj \<Rightarrow> obj" where
  "mputs vs m = fold (\<lambda>(k, v) m. mput k v m) vs m"

definition DeclareModule :: "string \<Rightarrow> obj \<Rightarrow> config \<Rightarrow> config" where
  "DeclareModule name ds c =
     c\<lparr>defaults := mput name (mputs ds [(''enabled'', JBool True)]) (defaults c)\<rparr>"

definition sub_map :: "obj \<Rightarrow> string \<Rightarrow> obj" where
  "sub_map m k = (case mget m k of Some (JObj x) \<Rightarrow> x | _ \<Rightarrow> [])"

definition overrides :: "config \<Rightarrow> string \<Rightarrow> obj" where
  "overrides c name = sub_map (sub_map (case user c of Some u \<Rightarrow> u | None \<Rightarrow> []) ''modules'') name"

definition Module :: "config \<Rightarrow> string \<Rightarrow> obj" where
  "Module c name =
     (let ds = (case mget (defaults c) name of Some x \<Rightarrow> x | None \<Rightarrow> []);
          out = mputs (overrides c name) (mputs ds [])
      in if mget out ''enabled'' = None then mput ''enabled'' (JBool True) out else out)"

section \<open>Saving\<close>

text \<open>
  The file operations of a save in their order, with its answer: the directory and the encoding
  come first, then what is there is copied to the file beside it, whatever comes of that, and the
  new document is written.
\<close>

definition save_ops :: "codec \<Rightarrow> ioenv \<Rightarrow> config \<Rightarrow> disk \<Rightarrow> disk_op list \<times> cfg_error option" where
  "save_ops code io c d =
     (case mkdir_err io of
        Some e \<Rightarrow> ([], Some (ErrMkdir e))
      | None \<Rightarrow>
        (case encode code (user c) of
           Inl e \<Rightarrow> ([], Some (ErrEncode e))
         | Inr b \<Rightarrow>
             (let keep = (case ReadFile io d (Path c) of
                  Data old \<Rightarrow> if old \<noteq> [] then write_ops (prevPath c) old (faults io (prevPath c)) else []
                | _ \<Rightarrow> [])
              in (keep @ write_ops (Path c) (b @ [10]) (faults io (Path c)),
                  if write_fails (faults io (Path c)) then Some (ErrWrite (faults io (Path c))) else None))))"

definition saveLocked :: "codec \<Rightarrow> ioenv \<Rightarrow> config \<Rightarrow> disk \<Rightarrow> disk \<times> cfg_error option" where
  "saveLocked code io c d = (let (ops, e) = save_ops code io c d in (run_ops ops d, e))"

text \<open>
  \<^verbatim>\<open>SetModule\<close> and \<^verbatim>\<open>SetCore\<close> change the map first and save it then; with a nil map the
  assignment panics (\<^const>\<open>None\<close>). \<^verbatim>\<open>SetCore\<close> lets go of the lock for its reload, which is
  taken as one step with it here.
\<close>

definition SetModule ::
  "codec \<Rightarrow> ioenv \<Rightarrow> string \<Rightarrow> obj \<Rightarrow> config \<Rightarrow> disk \<Rightarrow> (config \<times> disk \<times> cfg_error option) option"
where
  "SetModule code io name vs c d =
     (case user c of
        None \<Rightarrow> None
      | Some u \<Rightarrow>
          (let mods = sub_map u ''modules'';
               cur = mputs vs (sub_map mods name);
               c' = c\<lparr>user := Some (mput ''modules'' (JObj (mput name (JObj cur) mods)) u)\<rparr>;
               (d', e) = saveLocked code io c' d
           in Some (c', d', e)))"

definition SetCore ::
  "codec \<Rightarrow> ioenv \<Rightarrow> string \<Rightarrow> json \<Rightarrow> config \<Rightarrow> disk \<Rightarrow> (config \<times> disk \<times> cfg_error option) option"
where
  "SetCore code io key v c d =
     (case user c of
        None \<Rightarrow> None
      | Some u \<Rightarrow>
          (let c' = c\<lparr>user := Some (mput key v u)\<rparr>;
               (d', e) = saveLocked code io c' d
           in if e \<noteq> None then Some (c', d', e) else Some (Reload code io c' d')))"

section \<open>Lemmas\<close>


lemma sub_map_mput: "sub_map (mput k (JObj v) m) x = (if x = k then v else sub_map m x)"
  by (simp add: sub_map_def)

lemma prev_plain [simp]: "plain (prevPath c)"
  by (auto simp: plain_def prevPath_def suffix_def dest: arg_cong [where f = rev])










section \<open>Properties\<close>


definition no_io_errors :: ioenv where
  "no_io_errors = \<lparr>mkdir_err = None, read_err = (\<lambda>_. None), faults = (\<lambda>_. NoFault)\<rparr>"

definition sample_codec :: codec where
  "sample_codec = \<lparr>decode = (\<lambda>b. if b = [1] then Inr (JObj [(''site_name'', JStr ''a'')])
      else if b = [2, 10] then Inr (JObj [(''site_name'', JStr ''b'')])
      else if b = [110] then Inr JNull else Inl ''syntax''),
    encode = (\<lambda>m. Inr [2]), typed = (\<lambda>m cs. Inr cs)\<rparr>"

definition config0 :: config where
  "config0 = \<lparr>LoadNote = [], Path = ''fs.json'', user = Some [(''site_name'', JStr ''a'')], defaults = [],
     core_set = defaultCore\<rparr>"

definition disk_with :: "string \<Rightarrow> bytes \<Rightarrow> disk" where
  "disk_with p b = \<lparr>dir = [(p, 0)], hist = [[(p, 0)]], content = (\<lambda>_. b), synced = (\<lambda>_. True), fresh = 1\<rparr>"

lemma disk_with_ok:
  assumes "plain p"
  shows "disk_ok (disk_with p b)" "safe (disk_with p b) p {Some b}"
    "q \<noteq> p \<Longrightarrow> safe (disk_with p b) q {None}" "file_at (disk_with p b) p = Some b"
    "q \<noteq> p \<Longrightarrow> file_at (disk_with p b) q = None"
    "crash (disk_with p b) (disk_with p b)"
proof -
  have g: "mget [(p, 0)] q = (if q = p then Some (0 :: nat) else None)" for q by (simp add: mget_def)
  show "disk_ok (disk_with p b)" "safe (disk_with p b) p {Some b}"
    "q \<noteq> p \<Longrightarrow> safe (disk_with p b) q {None}" "file_at (disk_with p b) p = Some b"
    "q \<noteq> p \<Longrightarrow> file_at (disk_with p b) q = None"
    using assms by (auto simp: disk_ok_def unshared_def safe_def file_at_def disk_with_def g split: if_splits)
  show "crash (disk_with p b) (disk_with p b)"
    using crash.intros [of "[(p, 0)]" "disk_with p b" "\<lambda>_. b"] by (simp add: disk_with_def)
qed

lemma config0_plain: "plain ''fs.json''" "Path config0 = ''fs.json''" "prevPath config0 = ''fs.json.prev''"
  by (simp_all add: plain_def suffix_def config0_def prevPath_def)






text \<open>
  C36: A configuration file that is lost is restored. When the file is missing, empty or no longer
  JSON and the copy beside it is a non-empty document, loading takes the copy, says so, and
  writes it back into place.
\<close>

theorem config_recovered:
  assumes "read_err io (Path c) = None" and "ReadFile io d (prevPath c) = Data prev" and "prev \<noteq> []"
    and "decode code prev = Inr (JObj m)" and "m \<noteq> []"
    and lost: "\<forall>b. file_at d (Path c) = Some b \<longrightarrow> b = [] \<or> (\<exists>e. decode code b = Inl e)"
  shows "user (fst (Reload code io c d)) = Some m \<and> LoadNote (fst (Reload code io c d)) \<noteq> []
    \<and> (\<not> write_fails (faults io (Path c)) \<longrightarrow>
        file_at (fst (snd (Reload code io c d))) (Path c) = Some prev)"
proof -
  define data where "data = (case file_at d (Path c) of Some b \<Rightarrow> b | None \<Rightarrow> [])"
  obtain err u where lu: "load_user code data = (err, u)" by (cases "load_user code data")
  have l: "err \<noteq> None \<or> data = []"
    using lost lu by (auto simp: data_def load_user_def unmarshal_map_def split: option.splits if_splits)
  have p: "previous code (Data prev) True = Some (prev, m)"
    using assms(3-5) by (simp add: previous_def unmarshal_map_def)
  let ?w = "fst (writeDurably (Path c) prev (faults io (Path c)) d)"
  have w: "file_at ?w (Path c) = Some prev" if "\<not> write_fails (faults io (Path c))"
    using write_done [of "Path c" prev "faults io (Path c)" d ?w] that by (simp add: writeDurably_def)
  have r: "Reload code io c d =
      (case typed code (top_level (Some m)) defaultCore of
         Inl e \<Rightarrow> (c\<lparr>LoadNote := load_note c err, user := Some m\<rparr>, ?w, Some (ErrParse (Path c) e))
       | Inr cs \<Rightarrow> (c\<lparr>LoadNote := load_note c err, user := Some m, core_set := cs\<rparr>, ?w, None))"
    using l lu p assms(1,2)
    by (auto simp: Reload_def Let_def ReadFile_def data_def load_note_def prevPath_def split: option.splits sum.splits)
  show ?thesis using w by (auto simp: r load_note_def split: sum.splits)
qed

theorem config_recovered_witness:
  "user (fst (Reload sample_codec no_io_errors config0 (disk_with ''fs.json.prev'' [1])))
     = Some [(''site_name'', JStr ''a'')]"
proof -
  have "plain ''fs.json.prev''" using prev_plain [of config0] config0_plain by simp
  then show ?thesis
    using config_recovered [of no_io_errors config0 "disk_with ''fs.json.prev'' [1]" "[1]" sample_codec
        "[(''site_name'', JStr ''a'')]"] disk_with_ok [of "''fs.json.prev''", where b = "[1]"] config0_plain
    by (simp add: ReadFile_def no_io_errors_def sample_codec_def)
qed

text \<open>
  A file that holds JSON's null loads without an error, whatever copy is kept beside it, and then
  the first setting written panics: the map is nil.
\<close>

theorem null_config_panics:
  assumes "ReadFile io d (Path c) = Data b" and "b \<noteq> []" and "decode code b = Inr JNull"
    and "typed code [] defaultCore = Inr cs"
  shows "snd (snd (Reload code io c d)) = None
    \<and> SetModule code io' name vs (fst (Reload code io c d)) d' = None"
proof -
  have p: "previous code r False = None" for r by (simp add: previous_def split: read_result.split)
  have "load_user code b = (None, None)" using assms(2,3) by (simp add: load_user_def unmarshal_map_def)
  then show ?thesis
    using assms p by (simp add: Reload_def Let_def top_level_def SetModule_def)
qed

theorem null_config_panics_witness:
  "SetModule sample_codec no_io_errors ''dns'' []
     (fst (Reload sample_codec no_io_errors config0 (disk_with ''fs.json'' [110]))) empty_disk = None"
  using null_config_panics [of no_io_errors "disk_with ''fs.json'' [110]" config0 "[110]" sample_codec
      defaultCore] disk_with_ok [OF config0_plain(1), where b = "[110]"] config0_plain
  by (simp add: ReadFile_def no_io_errors_def sample_codec_def)

text \<open>
  A setting whose save fails is in force all the same: the caller is told of an error, the
  file keeps its old content, and the module reads the new value until the next restart.
\<close>

theorem failed_save_stays_in_memory:
  assumes "mkdir_err io = Some e" and "user c = Some u"
  shows "\<exists>c'. SetModule code io name vs c d = Some (c', d, Some (ErrMkdir e))
    \<and> overrides c' name = mputs vs (overrides c name)"
  using assms
  by (simp add: SetModule_def saveLocked_def save_ops_def run_ops_def Let_def overrides_def sub_map_mput)

theorem failed_save_stays_in_memory_witness:
  "\<exists>c'. SetModule sample_codec (no_io_errors\<lparr>mkdir_err := Some ''read-only''\<rparr>) ''dns'' [(''x'', JBool False)]
      config0 empty_disk = Some (c', empty_disk, Some (ErrMkdir ''read-only''))
    \<and> overrides c' ''dns'' = mputs [(''x'', JBool False)] (overrides config0 ''dns'')"
  by (rule failed_save_stays_in_memory) (simp_all add: config0_def)

end
