(* ===== verification/Licensing.thy ===== *)
theory Licensing
  imports Base64 GoTime Config
begin

text \<open>
  \<^verbatim>\<open>internal/licensing\<close>: the tier ladder, the catalogue of gated features, the signed license
  document with its token form, and activation keys; \<^verbatim>\<open>internal/core/license.go\<close>: what the
  rest of the daemon asks. The signature scheme and the JSON form of a document are parameters.
\<close>

section \<open>Tiers and features\<close>

definition TierCommunity :: string where "TierCommunity = ''community''"
definition TierPro :: string where "TierPro = ''pro''"
definition TierBusiness :: string where "TierBusiness = ''business''"

definition tierRank :: "(string \<times> int) list" where
  "tierRank = [(TierCommunity, 0), (TierPro, 1), (TierBusiness, 2)]"

definition Rank :: "string \<Rightarrow> int" where
  "Rank tier = (case map_of tierRank tier of Some r \<Rightarrow> r | None \<Rightarrow> - 1)"

definition ValidTier :: "string \<Rightarrow> bool" where
  "ValidTier tier \<longleftrightarrow> map_of tierRank tier \<noteq> None"

definition Tiers :: "string list" where
  "Tiers = [TierCommunity, TierPro, TierBusiness]"

record feature =
  ft_Key :: string
  ft_Tier :: string
  ft_Title :: string

definition mk_feature :: "string \<times> string \<times> string \<Rightarrow> feature" where
  "mk_feature f = \<lparr>ft_Key = fst f, ft_Tier = fst (snd f), ft_Title = snd (snd f)\<rparr>"

text \<open>The catalogue, without the descriptions, which no code reads.\<close>

definition Features :: "feature list" where
  "Features = map mk_feature
    [(''tls.inspect'', TierPro, ''TLS inspection''),
     (''firewall.analyse'', TierPro, ''Firewall rule hygiene''),
     (''device.enroll'', TierPro, ''Device enrolment (enforce)''),
     (''reports.schedule'', TierPro, ''Scheduled reports and export''),
     (''alerting.notify'', TierPro, ''Notification channels''),
     (''policy.unlimited'', TierPro, ''Unlimited policies and schedules''),
     (''retention.extended'', TierPro, ''Extended history''),
     (''paths.map'', TierPro, ''Path mapping''),
     (''qos.shape'', TierPro, ''Traffic priority''),
     (''deep.inspect'', TierBusiness, ''Stateful Packet Inspection''),
     (''egress.watch'', TierBusiness, ''Live egress monitoring''),
     (''telemetry.export'', TierBusiness, ''Telemetry export''),
     (''identity.directory'', TierBusiness, ''Directory identity''),
     (''admin.multi'', TierBusiness, ''Multiple administrators''),
     (''use.commercial'', TierBusiness, ''Commercial use'')]"

definition FeatureTier :: "string \<Rightarrow> string" where
  "FeatureTier key = (case find (\<lambda>f. ft_Key f = key) Features of
     Some f \<Rightarrow> ft_Tier f | None \<Rightarrow> TierCommunity)"

definition Includes :: "string \<Rightarrow> string \<Rightarrow> bool" where
  "Includes tier f \<longleftrightarrow> Rank tier \<ge> Rank (FeatureTier f)"

section \<open>Limits\<close>

definition limits :: "(string \<times> (string \<times> int) list) list" where
  "limits =
    [(TierCommunity, [(''policies'', 3), (''schedules'', 2), (''retention_days'', 7), (''installations'', 1)]),
     (TierPro, [(''policies'', 0), (''schedules'', 0), (''retention_days'', 90), (''installations'', 1)]),
     (TierBusiness, [(''policies'', 0), (''schedules'', 0), (''retention_days'', 365), (''installations'', 5)])]"

definition lookup0 :: "(string \<times> int) list \<Rightarrow> string \<Rightarrow> int" where
  "lookup0 m name = (case map_of m name of Some v \<Rightarrow> v | None \<Rightarrow> 0)"

definition Limits :: "string \<Rightarrow> (string \<times> int) list" where
  "Limits tier = (case map_of limits tier of
     Some m \<Rightarrow> m | None \<Rightarrow> the (map_of limits TierCommunity))"

definition Limit :: "string \<Rightarrow> string \<Rightarrow> int" where
  "Limit tier name = lookup0 (Limits tier) name"

section \<open>The license document\<close>

record license =
  l_ID :: string
  l_Key :: string
  l_Tier :: string
  l_Licensee :: string
  l_Email :: string
  l_Seats :: int
  l_Issued :: string
  l_Expires :: string
  l_Installation :: string
  l_Refresh :: string
  l_Issuer :: string
  l_Features :: "string list"
  l_Limits :: "(string \<times> int) list"
  l_Note :: string

datatype lic_error = ErrFormat | ErrSignature | ErrTier | ErrNoID | ErrIssued string
  | ErrExpires string | ErrRefresh string | ErrPrivateKey | ErrMarshal

text \<open>\<^verbatim>\<open>Validate\<close>: the error, or the document with its seats put right.\<close>

definition Validate :: "license \<Rightarrow> lic_error + license" where
  "Validate l =
     (if \<not> ValidTier (l_Tier l) \<or> l_Tier l = TierCommunity then Inl ErrTier
      else if trim_space (l_ID l) = [] then Inl ErrNoID
      else if parse_date (l_Issued l) = None then Inl (ErrIssued (l_Issued l))
      else if l_Expires l \<noteq> [] \<and> parse_date (l_Expires l) = None then Inl (ErrExpires (l_Expires l))
      else if l_Refresh l \<noteq> [] \<and> parse_rfc3339 (l_Refresh l) = None then Inl (ErrRefresh (l_Refresh l))
      else Inr (if l_Seats l < 1 then l\<lparr>l_Seats := 1\<rparr> else l))"

definition Expired :: "license \<Rightarrow> int \<Rightarrow> bool" where
  "Expired l t =
     (if l_Expires l = [] then False
      else case parse_date (l_Expires l) of
        None \<Rightarrow> True
      | Some d \<Rightarrow> \<not> t < d + 24 * 3600 * second)"

definition NeedsRefresh :: "license \<Rightarrow> int \<Rightarrow> bool" where
  "NeedsRefresh l t =
     (if l_Refresh l = [] then False
      else case parse_rfc3339 (l_Refresh l) of None \<Rightarrow> True | Some r \<Rightarrow> \<not> t < r)"

definition lic_Includes :: "license \<Rightarrow> string \<Rightarrow> bool" where
  "lic_Includes l f \<longleftrightarrow> Includes (l_Tier l) f \<or> list_ex (\<lambda>g. g = f) (l_Features l)"

definition lic_Limit :: "license \<Rightarrow> string \<Rightarrow> int" where
  "lic_Limit l name = (case map_of (l_Limits l) name of Some v \<Rightarrow> v | None \<Rightarrow> Limit (l_Tier l) name)"

section \<open>Tokens\<close>

record crypto =
  c_sign :: "bytes \<Rightarrow> bytes \<Rightarrow> bytes"
  c_verify :: "bytes \<Rightarrow> bytes \<Rightarrow> bytes \<Rightarrow> bool"
  marshal :: "license \<Rightarrow> bytes option"
  unmarshal :: "bytes \<Rightarrow> license option"

definition Prefix :: string where "Prefix = ''FSL1''"

definition Sign :: "crypto \<Rightarrow> license \<Rightarrow> bytes \<Rightarrow> lic_error + string" where
  "Sign c l priv =
     (case Validate l of
        Inl e \<Rightarrow> Inl e
      | Inr l' \<Rightarrow>
          if length priv \<noteq> 64 then Inl ErrPrivateKey
          else (case marshal c l' of
            None \<Rightarrow> Inl ErrMarshal
          | Some payload \<Rightarrow>
              Inr (Prefix @ ''.'' @ enc64 True payload @ ''.'' @ enc64 True (c_sign c priv payload))))"

definition Parse :: "crypto \<Rightarrow> string \<Rightarrow> bytes \<Rightarrow> lic_error + license" where
  "Parse c token pub =
     (case split_on (CHR ''.'') (trim_space token) of
        [p, a, b] \<Rightarrow>
          if p \<noteq> Prefix then Inl ErrFormat
          else (case decode_raw True a of
            None \<Rightarrow> Inl ErrFormat
          | Some payload \<Rightarrow> (case decode_raw True b of
              None \<Rightarrow> Inl ErrFormat
            | Some sig \<Rightarrow>
                if length pub \<noteq> 32 \<or> \<not> c_verify c pub payload sig then Inl ErrSignature
                else (case unmarshal c payload of
                  None \<Rightarrow> Inl ErrFormat
                | Some l \<Rightarrow> Validate l)))
      | _ \<Rightarrow> Inl ErrFormat)"

text \<open>\<^verbatim>\<open>ParseKey\<close> tries the four encodings in turn.\<close>

definition ParseKey :: "string \<Rightarrow> nat \<Rightarrow> bytes option" where
  "ParseKey b64 n =
     (let s = trim_space b64;
          good = (\<lambda>r. case r of Some b \<Rightarrow> length b = n | None \<Rightarrow> False)
      in case find good [decode_padded False s, decode_raw False s, decode_padded True s, decode_raw True s] of
           Some r \<Rightarrow> r | None \<Rightarrow> None)"

section \<open>Activation keys\<close>

definition crockford :: string where
  "crockford = ''0123456789ABCDEFGHJKMNPQRSTVWXYZ''"

text \<open>The accumulator is a 64-bit \<^verbatim>\<open>uint\<close>, which sheds its high bits as it is shifted.\<close>

fun emit32 :: "u64 \<Rightarrow> nat \<Rightarrow> string \<times> nat" where
  "emit32 acc bits =
     (if 5 \<le> bits then
        (let (s, r) = emit32 acc (bits - 5)
         in (crockford ! unat (drop_bit (bits - 5) acc AND 31) # s, r))
      else ([], bits))"

declare emit32.simps [simp del]

fun base32_loop :: "bytes \<Rightarrow> u64 \<Rightarrow> nat \<Rightarrow> string \<Rightarrow> string" where
  "base32_loop [] acc bits out =
     (if 0 < bits then out @ [crockford ! unat (push_bit (5 - bits) acc AND 31)] else out)"
| "base32_loop (c # cs) acc bits out =
     (let acc' = push_bit 8 acc OR ucast c; (s, r) = emit32 acc' (bits + 8)
      in base32_loop cs acc' r (out @ s))"

definition base32 :: "bytes \<Rightarrow> string" where
  "base32 b = base32_loop b 0 0 []"

definition key_letter :: "string \<Rightarrow> string" where
  "key_letter tier = (if tier = TierPro then ''P'' else if tier = TierBusiness then ''B'' else ''C'')"

text \<open>\<^verbatim>\<open>NewKey\<close>, on the thirteen random bytes it draws.\<close>

definition NewKey :: "bytes \<Rightarrow> string \<Rightarrow> string" where
  "NewKey rnd tier =
     (let s = take 16 (base32 rnd) in
      ''FS'' @ key_letter tier @ ''-'' @ take 4 s @ ''-'' @ take 4 (drop 4 s) @ ''-''
        @ take 4 (drop 8 s) @ ''-'' @ take 4 (drop 12 s))"

definition NewID :: "bytes \<Rightarrow> string \<Rightarrow> string" where
  "NewID rnd pre = pre @ ''_'' @ to_lower (base32 rnd)"

definition NormalizeKey :: "string \<Rightarrow> string" where
  "NormalizeKey k = filter (\<lambda>c. c \<noteq> CHR '' '') (to_upper (trim_space k))"

section \<open>Answers to the rest of the daemon\<close>

text \<open>
  The 402 answers of \<^verbatim>\<open>core/license.go\<close>, by what their \<^verbatim>\<open>Extra\<close> tells.
\<close>

datatype gate_error =
    Locked (g_title: string) (g_feature: string) (g_required: string) (g_tier: string)
  | LicExpired (g_feature: string)
  | LimitReached (g_what: string) (g_limit: int) (g_feature: string) (g_required: string)

definition feature_title :: "string \<Rightarrow> string" where
  "feature_title key = fold (\<lambda>f t. if ft_Key f = key then ft_Title f else t) Features key"

definition LockedError :: "string \<Rightarrow> string \<Rightarrow> gate_error option" where
  "LockedError feature current =
     (let need = FeatureTier feature in
      if Rank current \<ge> Rank need then None
      else Some (Locked (feature_title feature) feature need current))"

definition ExpiredError :: "string \<Rightarrow> gate_error" where
  "ExpiredError feature = LicExpired feature"

definition LimitError :: "string \<Rightarrow> int \<Rightarrow> string \<Rightarrow> gate_error" where
  "LimitError what limit feature = LimitReached what limit feature (FeatureTier feature)"

definition cap_days :: "int \<Rightarrow> int \<Rightarrow> int" where
  "cap_days days v = (if v \<le> 0 \<or> v > days then days else v)"

definition CapRetention :: "retention \<Rightarrow> int \<Rightarrow> retention" where
  "CapRetention r days =
     (if days \<le> 0 then r
      else r\<lparr>FlowsDays := cap_days days (FlowsDays r), DNSDays := cap_days days (DNSDays r),
        AlertsDays := cap_days days (AlertsDays r), EventsDays := cap_days days (EventsDays r),
        RollupDays := cap_days days (RollupDays r), TLSDays := cap_days days (TLSDays r)\<rparr>)"

section \<open>Lemmas\<close>

lemmas tier_defs = TierCommunity_def TierPro_def TierBusiness_def

lemma Rank_simps [simp]: "Rank TierCommunity = 0" "Rank TierPro = 1" "Rank TierBusiness = 2"
  by (simp_all add: Rank_def tierRank_def tier_defs)

lemma Rank_cases: "Rank t = (if t = TierCommunity then 0 else if t = TierPro then 1
    else if t = TierBusiness then 2 else - 1)"
  by (simp add: Rank_def tierRank_def tier_defs)

lemma ValidTier_iff: "ValidTier t \<longleftrightarrow> t \<in> set Tiers"
  by (auto simp: ValidTier_def tierRank_def Tiers_def)

lemma FeatureTier_valid: "FeatureTier f \<in> set Tiers"
proof (cases "find (\<lambda>g. ft_Key g = f) Features")
  case None
  then show ?thesis by (simp add: FeatureTier_def Tiers_def)
next
  case (Some g)
  then have "g \<in> set Features" by (auto simp: find_Some_iff)
  then have "ft_Tier g \<in> {TierPro, TierBusiness}" by (auto simp: Features_def mk_feature_def)
  then show ?thesis using Some by (auto simp: FeatureTier_def Tiers_def)
qed

lemma FeatureTier_rank: "0 \<le> Rank (FeatureTier f)"
  using FeatureTier_valid [of f] by (auto simp: Tiers_def)

lemma Includes_mono: "Rank t \<le> Rank t' \<Longrightarrow> Includes t f \<Longrightarrow> Includes t' f"
  by (simp add: Includes_def)

lemma LockedError_None_iff: "LockedError f t = None \<longleftrightarrow> Includes t f"
  by (simp add: LockedError_def Includes_def Let_def)

lemma Validate_ok:
  "Validate l = Inr l' \<Longrightarrow> l_Tier l' \<in> {TierPro, TierBusiness} \<and> 1 \<le> l_Seats l'
    \<and> l' = l\<lparr>l_Seats := max 1 (l_Seats l)\<rparr>"
  by (auto simp: Validate_def ValidTier_iff Tiers_def split: if_splits)

lemma Validate_idem: "Validate l = Inr l' \<Longrightarrow> Validate l' = Inr l'"
  by (auto simp: Validate_def split: if_splits)

section \<open>Properties\<close>

text \<open>
  The tiers form a ladder. A tier includes everything a lower one includes, a tier nobody
  knows includes nothing at all, not even what Community has, and what a tier lacks is refused
  with the tier that has it.
\<close>

theorem tier_ladder:
  "(Rank t \<le> Rank t' \<longrightarrow> Includes t f \<longrightarrow> Includes t' f)
   \<and> (\<not> ValidTier t \<longrightarrow> \<not> Includes t f)
   \<and> Includes TierBusiness f
   \<and> (LockedError f t = None \<longleftrightarrow> Includes t f)
   \<and> (\<forall>e. LockedError f t = Some e \<longrightarrow> Includes (g_required e) f \<and> Rank t < Rank (g_required e))"
proof -
  have "\<not> ValidTier t \<Longrightarrow> \<not> Includes t f"
    using FeatureTier_rank [of f] by (auto simp: Includes_def Rank_cases ValidTier_iff Tiers_def)
  moreover have "Includes TierBusiness f"
    using FeatureTier_valid [of f] by (auto simp: Includes_def Tiers_def)
  moreover have "LockedError f t = Some e \<Longrightarrow> Includes (g_required e) f \<and> Rank t < Rank (g_required e)" for e
    by (auto simp: LockedError_def Includes_def Let_def split: if_splits)
  ultimately show ?thesis using Includes_mono LockedError_None_iff by blast
qed

theorem tier_ladder_witness:
  "Includes TierPro ''tls.inspect'' \<and> Includes TierBusiness ''tls.inspect''
   \<and> \<not> Includes ''gold'' ''tls.inspect''"
proof -
  have "Includes TierPro ''tls.inspect''"
    by (simp add: Includes_def FeatureTier_def Features_def mk_feature_def)
  moreover have "\<not> ValidTier ''gold''" by (simp add: ValidTier_iff Tiers_def tier_defs)
  moreover have "Rank TierPro \<le> Rank TierBusiness" by simp
  ultimately show ?thesis
    using tier_ladder [of TierPro TierBusiness "''tls.inspect''"]
      tier_ladder [of "''gold''" TierPro "''tls.inspect''"] by blast
qed

text \<open>Parsing a token yields a document that is signed, of a paid tier and well-formed.\<close>

lemma Parse_sound:
  assumes "Parse c token pub = Inr l"
  shows "\<exists>payload sig l0. c_verify c pub payload sig \<and> unmarshal c payload = Some l0
    \<and> Validate l0 = Inr l \<and> length pub = 32"
proof -
  obtain p a b where s: "split_on (CHR ''.'') (trim_space token) = [p, a, b]"
    using assms by (auto simp: Parse_def split: list.splits)
  show ?thesis
    using assms by (auto simp: Parse_def s split: if_splits option.splits)
qed

lemma trim_space_id:
  "s \<noteq> [] \<Longrightarrow> \<not> is_space (hd s) \<Longrightarrow> \<not> is_space (last s) \<Longrightarrow> trim_space s = s"
proof -
  assume "s \<noteq> []" "\<not> is_space (hd s)" "\<not> is_space (last s)"
  then have "dropWhile is_space s = s" and "dropWhile is_space (rev s) = rev s"
    by (simp_all add: dropWhile_eq_self_iff hd_rev)
  then show ?thesis by (simp add: trim_space_def)
qed

lemma enc64_no_dot: "CHR ''.'' \<notin> set (enc64 True b)"
  using enc64_chars [of True b] alphabet_plain by blast

lemma enc64_no_space: "c \<in> set (enc64 True b) \<Longrightarrow> \<not> is_space c"
  using enc64_chars [of True b] alphabet_plain by blast

lemma token_trim: "trim_space (Prefix @ ''.'' @ enc64 True a @ ''.'' @ enc64 True b)
    = Prefix @ ''.'' @ enc64 True a @ ''.'' @ enc64 True b"
proof (rule trim_space_id)
  show "\<not> is_space (last (Prefix @ ''.'' @ enc64 True a @ ''.'' @ enc64 True b))"
    using enc64_no_space [of "last (enc64 True b)" b]
    by (cases "enc64 True b = []") (simp_all add: is_space_def)
qed (simp_all add: Prefix_def is_space_def)

lemma token_split: "split_on (CHR ''.'') (Prefix @ ''.'' @ enc64 True a @ ''.'' @ enc64 True b)
    = [Prefix, enc64 True a, enc64 True b]"
proof -
  have "CHR ''.'' \<notin> set Prefix" by (simp add: Prefix_def)
  then show ?thesis
    using enc64_no_dot [of a] enc64_no_dot [of b]
    by (simp add: split_on_append split_on_no_sep)
qed

lemma Parse_Sign:
  assumes sign: "Sign c l priv = Inr token" and pub: "length pub = 32"
    and pair: "\<And>msg. c_verify c pub msg (c_sign c priv msg)"
    and json: "\<And>payload. marshal c (l\<lparr>l_Seats := max 1 (l_Seats l)\<rparr>) = Some payload
      \<Longrightarrow> unmarshal c payload = Some (l\<lparr>l_Seats := max 1 (l_Seats l)\<rparr>)"
  shows "Parse c token pub = Inr (l\<lparr>l_Seats := max 1 (l_Seats l)\<rparr>)"
proof -
  obtain l' where v: "Validate l = Inr l'" using sign by (cases "Validate l") (auto simp: Sign_def)
  then obtain payload where p: "marshal c l' = Some payload"
    and t: "token = Prefix @ ''.'' @ enc64 True payload @ ''.'' @ enc64 True (c_sign c priv payload)"
    using sign by (auto simp: Sign_def split: if_splits option.splits)
  have l': "l' = l\<lparr>l_Seats := max 1 (l_Seats l)\<rparr>" using Validate_ok [OF v] by simp
  have "unmarshal c payload = Some l'" using json p unfolding l' by blast
  then have "Parse c token pub = Validate l'"
    unfolding t Parse_def token_trim token_split
    by (simp add: decode_raw_enc64 pub pair)
  then show ?thesis using Validate_idem [OF v] Validate_ok [OF v] by simp
qed

text \<open>
  C33: A signed license comes back from its token. Where the signature scheme accepts what the
  private key signed and the JSON form of this one document, its seats raised to one if they were fewer, reads back as it was,
  parsing the token that signing produced gives that document.
\<close>

theorem license_roundtrip:
  assumes sign: "Sign c l priv = Inr token" and pub: "length pub = 32"
    and pair: "\<And>msg. c_verify c pub msg (c_sign c priv msg)"
    and json: "\<And>payload. marshal c (l\<lparr>l_Seats := max 1 (l_Seats l)\<rparr>) = Some payload
      \<Longrightarrow> unmarshal c payload = Some (l\<lparr>l_Seats := max 1 (l_Seats l)\<rparr>)"
  shows "Parse c token pub = Inr (l\<lparr>l_Seats := max 1 (l_Seats l)\<rparr>)"
  by (rule Parse_Sign [OF assms])

definition sample_license :: license where
  "sample_license = \<lparr>l_ID = ''lic_1'', l_Key = [], l_Tier = TierPro, l_Licensee = ''Ada'', l_Email = [],
     l_Seats = 0, l_Issued = ''2026-09-20'', l_Expires = ''2027-09-20'', l_Installation = ''inst_a'',
     l_Refresh = [], l_Issuer = [], l_Features = [''telemetry.export''], l_Limits = [], l_Note = []\<rparr>"

text \<open>A toy signature scheme and document form, on which the hypotheses hold.\<close>

definition sample_crypto :: crypto where
  "sample_crypto = \<lparr>c_sign = (\<lambda>k m. m), c_verify = (\<lambda>k m s. s = m),
     marshal = (\<lambda>l. if l = sample_license\<lparr>l_Seats := 1\<rparr> then Some [1] else None),
     unmarshal = (\<lambda>b. if b = [1] then Some (sample_license\<lparr>l_Seats := 1\<rparr>) else None)\<rparr>"

lemma sample_validate: "Validate sample_license = Inr (sample_license\<lparr>l_Seats := 1\<rparr>)"
proof -
  have "parse_date ''2026-09-20'' \<noteq> None" and "parse_date ''2027-09-20'' \<noteq> None"
    by (simp_all add: parse_date_def get_date_def is_digit_def digit_val_def undec_def date_ok_def
        days_in_def)
  then show ?thesis
    by (simp add: Validate_def sample_license_def ValidTier_iff Tiers_def)
      (simp add: tier_defs trim_space_def is_space_def)
qed

definition sample_token :: string where
  "sample_token = Prefix @ ''.'' @ enc64 True [1] @ ''.'' @ enc64 True [1]"

lemma sample_sign: "Sign sample_crypto sample_license (replicate 64 0) = Inr sample_token"
  by (simp add: Sign_def sample_validate sample_token_def) (simp add: sample_crypto_def)

lemma sample_parse:
  "Parse sample_crypto sample_token (replicate 32 0) = Inr (sample_license\<lparr>l_Seats := 1\<rparr>)"
proof -
  have "Parse sample_crypto sample_token (replicate 32 0)
      = Inr (sample_license\<lparr>l_Seats := max 1 (l_Seats sample_license)\<rparr>)"
    by (rule Parse_Sign [OF sample_sign]) (auto simp: sample_crypto_def split: if_splits)
  then show ?thesis by (simp add: sample_license_def)
qed

theorem license_roundtrip_witness:
  "Parse sample_crypto sample_token (replicate 32 0) = Inr (sample_license\<lparr>l_Seats := 1\<rparr>)"
proof -
  have "Parse sample_crypto sample_token (replicate 32 0)
      = Inr (sample_license\<lparr>l_Seats := max 1 (l_Seats sample_license)\<rparr>)"
    by (rule license_roundtrip [OF sample_sign]) (auto simp: sample_crypto_def split: if_splits)
  then show ?thesis by (simp add: sample_license_def)
qed

section \<open>Activation keys\<close>

lemma emit32_shape: "length (fst (emit32 acc bits)) = bits div 5 \<and> snd (emit32 acc bits) = bits mod 5"
proof (induction acc bits rule: emit32.induct)
  case (1 acc bits)
  show ?case
  proof (cases "5 \<le> bits")
    case True
    then have "bits div 5 = Suc ((bits - 5) div 5)" "bits mod 5 = (bits - 5) mod 5"
      by (simp_all add: le_div_geq le_mod_geq)
    then show ?thesis using 1 True by (subst (1 2) emit32.simps) (simp add: case_prod_unfold)
  qed (subst (1 2) emit32.simps, simp)
qed

text \<open>The state behind some of the bytes.\<close>

fun base32_run :: "bytes \<Rightarrow> u64 \<times> nat \<times> string \<Rightarrow> u64 \<times> nat \<times> string" where
  "base32_run [] st = st"
| "base32_run (c # cs) (acc, bits, out) =
     (let acc' = push_bit 8 acc OR ucast c; (s, r) = emit32 acc' (bits + 8)
      in base32_run cs (acc', r, out @ s))"

lemma base32_loop_append:
  "base32_loop (xs @ ys) acc bits out =
    (case base32_run xs (acc, bits, out) of (acc', bits', out') \<Rightarrow> base32_loop ys acc' bits' out')"
  by (induction xs arbitrary: acc bits out) (auto simp: Let_def split: prod.split)

lemma base32_loop_out: "\<exists>s. base32_loop xs acc bits out = out @ s"
proof (induction xs arbitrary: acc bits out)
  case (Cons x xs)
  show ?case
    using Cons [of "push_bit 8 acc OR ucast x" "snd (emit32 (push_bit 8 acc OR ucast x) (bits + 8))"
        "out @ fst (emit32 (push_bit 8 acc OR ucast x) (bits + 8))"]
    by (auto simp: Let_def case_prod_unfold)
qed simp

lemma base32_run_shape:
  "bits < 5 \<Longrightarrow> (case base32_run xs (acc, bits, out) of (acc', bits', out') \<Rightarrow>
     bits' < 5 \<and> 5 * length out' + bits' = 5 * length out + bits + 8 * length xs)"
proof (induction xs arbitrary: acc bits out)
  case (Cons x xs)
  let ?acc = "push_bit 8 acc OR ucast x"
  obtain s r where e: "emit32 ?acc (bits + 8) = (s, r)" by (cases "emit32 ?acc (bits + 8)")
  have s: "length s = (bits + 8) div 5" "r = (bits + 8) mod 5"
    using emit32_shape [of ?acc "bits + 8"] e by simp_all
  then have "r < 5" "5 * length s + r = bits + 8" by simp_all
  then show ?case using Cons.IH [of r "out @ s" ?acc] e by (auto simp: Let_def split: prod.splits)
qed simp

lemma base32_first_ten:
  assumes "10 \<le> length rnd"
  shows "take 16 (base32 rnd) = snd (snd (base32_run (take 10 rnd) (0, 0, [])))
    \<and> length (take 16 (base32 rnd)) = 16"
proof -
  obtain acc bits out where r: "base32_run (take 10 rnd) (0, 0, []) = (acc, bits, out)"
    by (cases "base32_run (take 10 rnd) (0, 0, [])")
  have "bits < 5" "5 * length out + bits = 80"
    using base32_run_shape [of 0 "[]" "take 10 rnd" 0] assms r by simp_all
  then have l: "length out = 16" by presburger
  have "base32 rnd = base32_loop (drop 10 rnd) acc bits out"
    using base32_loop_append [of "take 10 rnd" "drop 10 rnd" 0 0 "[]"] r by (simp add: base32_def)
  then obtain s where "base32 rnd = out @ s" using base32_loop_out by metis
  then show ?thesis using l r by simp
qed

text \<open>
  An activation key is a tier letter and sixteen symbols in four groups, 23 characters, and
  is determined by the first ten of the thirteen random bytes: 80 bits, where its comment
  promises twenty symbols and 100 bits.
\<close>

theorem activation_key_bits:
  assumes "10 \<le> length rnd" and "10 \<le> length rnd'" and "take 10 rnd = take 10 rnd'"
  shows "NewKey rnd tier = NewKey rnd' tier \<and> length (NewKey rnd tier) = 23"
proof -
  define s where "s = take 16 (base32 rnd)"
  have "length s = 16" unfolding s_def using base32_first_ten [OF assms(1)] by blast
  moreover have "take 16 (base32 rnd') = s"
    unfolding s_def using base32_first_ten [OF assms(1)] base32_first_ten [OF assms(2)] assms(3) by metis
  ultimately have "length s = 16" "take 16 (base32 rnd') = s" by blast+
  then show ?thesis by (simp add: NewKey_def Let_def key_letter_def s_def [symmetric])
qed

theorem activation_key_bits_witness:
  "NewKey (replicate 10 7 @ [1, 2, 3]) TierPro = NewKey (replicate 10 7 @ [9, 9, 9]) TierPro"
proof -
  have "10 \<le> length (replicate 10 7 @ [1, 2, 3 :: u8])" "10 \<le> length (replicate 10 7 @ [9, 9, 9 :: u8])"
    "take 10 (replicate 10 7 @ [1, 2, 3 :: u8]) = take 10 (replicate 10 7 @ [9, 9, 9])"
    by simp_all
  from activation_key_bits [OF this] show ?thesis by simp
qed

text \<open>
  With a positive limit every retention period ends up between one day and the limit, a
  period already in that range is kept, and capping again changes nothing; the unlimited tier
  changes nothing.
\<close>

theorem retention_capped:
  fixes r :: retention
  assumes "0 < days"
  shows "(\<forall>f \<in> {FlowsDays, DNSDays, AlertsDays, EventsDays, RollupDays, TLSDays}.
      1 \<le> f (CapRetention r days) \<and> f (CapRetention r days) \<le> days
      \<and> (1 \<le> f r \<and> f r \<le> days \<longrightarrow> f (CapRetention r days) = f r))
    \<and> CapRetention (CapRetention r days) days = CapRetention r days \<and> CapRetention r 0 = r"
  using assms by (simp add: CapRetention_def cap_days_def)

theorem retention_capped_witness:
  "FlowsDays (CapRetention \<lparr>FlowsDays = 400, DNSDays = 0, AlertsDays = 3, EventsDays = 7, RollupDays = 8,
     TLSDays = 1\<rparr> 7) \<le> 7"
  using retention_capped [of 7 "\<lparr>FlowsDays = 400, DNSDays = 0, AlertsDays = 3, EventsDays = 7,
     RollupDays = 8, TLSDays = 1\<rparr>"] by simp

end
