(* ===== verification/LicenseModule.thy ===== *)
theory LicenseModule
  imports Licensing
begin

text \<open>
  \<^verbatim>\<open>internal/modules/license/license.go\<close>: the module that keeps, verifies and refreshes the
  installation's license, and the interface \<^verbatim>\<open>core.Licensing\<close> under which the rest of the
  daemon asks it, with its two providers. The license server is a parameter: what answer a request
  gets.
\<close>

section \<open>State\<close>

datatype verify_error = NoPublicKey | BadDocument lic_error | OtherInstallation string string

datatype call_error = NoServer | BadURL string | ServerUnreachable string | Withdrawn string
  | ServerSays string | ServerStatus int

text \<open>What the last error tells; \<^const>\<open>None\<close> is the empty text.\<close>

datatype lic_note = StoredRejected verify_error | CallFailed call_error | RefreshRejected verify_error

record lic_state =
  LastRefresh :: int
  LastNote :: "lic_note option"
  Revoked :: string
  Source :: string

record lic_kv =
  kv_installation :: "string option"
  kv_token :: "string option"
  kv_key :: "string option"
  kv_state :: "lic_state option"

record lic_module =
  pub :: "bytes option"
  installation :: string
  lic :: "license option"
  token :: string
  key :: string
  st :: lic_state
  kv :: lic_kv

record server_reply =
  rp_Token :: string
  rp_Error :: string
  rp_Code :: string

datatype http_answer = NoRequest string | NoAnswer string | Answer int server_reply

text \<open>
  The surroundings of one operation: cryptography and JSON, the settings, the server (by the URL,
  the key and the installation of a request) and the clock, in nanoseconds.
\<close>

record lic_env =
  le_crypto :: crypto
  le_settings :: obj
  le_server :: "string \<Rightarrow> string \<Rightarrow> string \<Rightarrow> http_answer"
  le_now :: int

section \<open>Verifying and storing\<close>

definition verify :: "crypto \<Rightarrow> lic_module \<Rightarrow> string \<Rightarrow> verify_error + license" where
  "verify c m tok =
     (case pub m of
        None \<Rightarrow> Inl NoPublicKey
      | Some k \<Rightarrow>
          (case Parse c tok k of
             Inl e \<Rightarrow> Inl (BadDocument e)
           | Inr l \<Rightarrow>
               if l_Installation l \<noteq> [] \<and> l_Installation l \<noteq> installation m
               then Inl (OtherInstallation (l_Installation l) (installation m))
               else Inr l))"

definition lic_store :: "lic_env \<Rightarrow> license \<Rightarrow> string \<Rightarrow> string \<Rightarrow> string \<Rightarrow> lic_module \<Rightarrow> lic_module" where
  "lic_store v l tok k source m =
     (let s = (st m)\<lparr>LastNote := None, Revoked := [], Source := source,
            LastRefresh := le_now v div second\<rparr>
      in m\<lparr>lic := Some l, token := tok, key := k, st := s,
           kv := (kv m)\<lparr>kv_token := Some tok, kv_key := Some k, kv_state := Some s\<rparr>\<rparr>)"

definition clear :: "string \<Rightarrow> lic_module \<Rightarrow> lic_module" where
  "clear reason m =
     (let s = (st m)\<lparr>Revoked := reason, LastNote := None\<rparr>
      in m\<lparr>lic := None, token := [], key := [], st := s,
           kv := (kv m)\<lparr>kv_token := Some [], kv_key := Some [], kv_state := Some s\<rparr>\<rparr>)"

definition setErr :: "lic_note \<Rightarrow> lic_module \<Rightarrow> lic_module" where
  "setErr n m =
     (let s = (st m)\<lparr>LastNote := Some n\<rparr>
      in m\<lparr>st := s, kv := (kv m)\<lparr>kv_state := Some s\<rparr>\<rparr>)"

text \<open>
  \<^verbatim>\<open>Setup\<close>, from the key compiled in, the random bytes for a new installation id and what is
  stored; \<^const>\<open>None\<close> is its error, a key that cannot be read.
\<close>

definition setup_installation :: "bytes \<Rightarrow> lic_kv \<Rightarrow> string \<times> lic_kv" where
  "setup_installation rnd k =
     (case kv_installation k of
        Some i \<Rightarrow> if i \<noteq> [] then (i, k)
          else (NewID rnd ''inst'', k\<lparr>kv_installation := Some (NewID rnd ''inst'')\<rparr>)
      | None \<Rightarrow> (NewID rnd ''inst'', k\<lparr>kv_installation := Some (NewID rnd ''inst'')\<rparr>))"

definition text_of :: "string option \<Rightarrow> string" where
  "text_of x = (case x of Some s \<Rightarrow> s | None \<Rightarrow> [])"

definition load_stored :: "crypto \<Rightarrow> bytes option \<Rightarrow> string \<Rightarrow> lic_kv \<Rightarrow> lic_module" where
  "load_stored c p inst k =
     (let s = (case kv_state k of Some s \<Rightarrow> s
           | None \<Rightarrow> \<lparr>LastRefresh = 0, LastNote = None, Revoked = [], Source = []\<rparr>);
          m = \<lparr>pub = p, installation = inst, lic = None, token = text_of (kv_token k),
               key = text_of (kv_key k), st = s, kv = k\<rparr>
      in if token m \<noteq> [] then
           (case verify c m (token m) of
              Inr l \<Rightarrow> m\<lparr>lic := Some l\<rparr>
            | Inl e \<Rightarrow> m\<lparr>st := s\<lparr>LastNote := Some (StoredRejected e)\<rparr>\<rparr>)
         else m)"

definition Setup :: "crypto \<Rightarrow> string \<Rightarrow> bytes \<Rightarrow> lic_kv \<Rightarrow> lic_module option" where
  "Setup c pubkey rnd k =
     (case (if pubkey = [] then Some None else map_option Some (ParseKey pubkey 32)) of
        None \<Rightarrow> None
      | Some p \<Rightarrow> (let (inst, k') = setup_installation rnd k in Some (load_stored c p inst k')))"

section \<open>The server\<close>

definition defaultServer :: string where
  "defaultServer = ''https://license.grio.co''"

definition call :: "lic_env \<Rightarrow> string \<Rightarrow> string \<Rightarrow> lic_module \<Rightarrow> call_error + string" where
  "call v path k m =
     (let base = trim_right (CHR ''/'') (Str (le_settings v) ''server_url'' defaultServer) in
      if base = [] then Inl NoServer
      else (case le_server v (base @ path) k (installation m) of
          NoRequest e \<Rightarrow> Inl (BadURL e)
        | NoAnswer e \<Rightarrow> Inl (ServerUnreachable e)
        | Answer code rep \<Rightarrow>
            if code = 200 \<and> rp_Token rep \<noteq> [] then Inr (rp_Token rep)
            else if code = 403 \<and> (rp_Code rep = ''revoked'' \<or> rp_Code rep = ''unknown'')
              then Inl (Withdrawn (rp_Error rep))
            else if rp_Error rep \<noteq> [] then Inl (ServerSays (rp_Error rep))
            else Inl (ServerStatus code)))"

text \<open>The errors of the operations, with the status each answers.\<close>

datatype lic_api_error = EnterKey | NoKeyInBuild | WithdrawnByServer string | ServerFailed call_error
  | ServerSentBad verify_error | PasteFile | BadFile verify_error | NothingToRefresh

fun error_status :: "lic_api_error \<Rightarrow> int" where
  "error_status EnterKey = 400"
| "error_status NoKeyInBuild = 500"
| "error_status (WithdrawnByServer _) = 403"
| "error_status (ServerFailed _) = 502"
| "error_status (ServerSentBad _) = 502"
| "error_status PasteFile = 400"
| "error_status (BadFile _) = 400"
| "error_status NothingToRefresh = 400"

definition activate :: "lic_env \<Rightarrow> string \<Rightarrow> lic_module \<Rightarrow> (lic_api_error + license) \<times> lic_module" where
  "activate v k0 m =
     (let k = NormalizeKey k0 in
      if k = [] then (Inl EnterKey, m)
      else if pub m = None then (Inl NoKeyInBuild, m)
      else (case call v ''/v1/activate'' k m of
          Inl (Withdrawn r) \<Rightarrow> (Inl (WithdrawnByServer r), m)
        | Inl e \<Rightarrow> (Inl (ServerFailed e), m)
        | Inr tok \<Rightarrow>
            (case verify (le_crypto v) m tok of
               Inl e \<Rightarrow> (Inl (ServerSentBad e), m)
             | Inr l \<Rightarrow> (Inr l, lic_store v l tok k ''online'' m))))"

definition refresh :: "lic_env \<Rightarrow> lic_module \<Rightarrow> lic_module" where
  "refresh v m =
     (if key m = [] \<or> lic m = None then m
      else (case call v ''/v1/refresh'' (key m) m of
          Inl (Withdrawn r) \<Rightarrow> clear r m
        | Inl e \<Rightarrow> setErr (CallFailed e) m
        | Inr tok \<Rightarrow>
            (case verify (le_crypto v) m tok of
               Inl e \<Rightarrow> setErr (RefreshRejected e) m
             | Inr l \<Rightarrow> lic_store v l tok (key m) ''online'' m)))"

definition refreshJob :: "lic_env \<Rightarrow> lic_module \<Rightarrow> lic_module" where
  "refreshJob v m =
     (case lic m of
        None \<Rightarrow> m
      | Some l \<Rightarrow> if NeedsRefresh l (le_now v) then refresh v m else m)"

section \<open>The API\<close>

definition body_string :: "obj \<Rightarrow> string \<Rightarrow> string" where
  "body_string b k = (case mget b k of Some (JStr s) \<Rightarrow> s | _ \<Rightarrow> [])"

definition apiActivate :: "lic_env \<Rightarrow> obj \<Rightarrow> lic_module \<Rightarrow> (lic_api_error + license) \<times> lic_module" where
  "apiActivate v b m = activate v (body_string b ''key'') m"

definition apiInstall :: "lic_env \<Rightarrow> obj \<Rightarrow> lic_module \<Rightarrow> (lic_api_error + license) \<times> lic_module" where
  "apiInstall v b m =
     (let tok = trim_space (body_string b ''token'') in
      if tok = [] then (Inl PasteFile, m)
      else (case verify (le_crypto v) m tok of
          Inl e \<Rightarrow> (Inl (BadFile e), m)
        | Inr l \<Rightarrow> (Inr l, lic_store v l tok [] ''offline'' m)))"

definition apiRefresh :: "lic_env \<Rightarrow> lic_module \<Rightarrow> (lic_api_error + unit) \<times> lic_module" where
  "apiRefresh v m = (if key m = [] then (Inl NothingToRefresh, m) else (Inr (), refresh v m))"

text \<open>Whatever the server answers to the deactivation, the license is removed.\<close>

definition apiRemove :: "lic_module \<Rightarrow> lic_module" where
  "apiRemove m = clear [] m"

definition keyHint :: "string \<Rightarrow> string" where
  "keyHint k = (if length k < 4 then []
     else [CHR 0xE2, CHR 0x80, CHR 0xA6] @ drop (length k - 4) k)"

section \<open>What the daemon asks\<close>

definition Tier :: "lic_module \<Rightarrow> string" where
  "Tier m = (case lic m of Some l \<Rightarrow> l_Tier l | None \<Rightarrow> TierCommunity)"

definition Allowed :: "lic_module \<Rightarrow> string \<Rightarrow> gate_error option" where
  "Allowed m f = (case lic m of
     Some l \<Rightarrow> if lic_Includes l f then None else LockedError f (Tier m)
   | None \<Rightarrow> LockedError f (Tier m))"

definition lic_limit :: "lic_module \<Rightarrow> string \<Rightarrow> int" where
  "lic_limit m name = (case lic m of Some l \<Rightarrow> lic_Limit l name | None \<Rightarrow> Limit TierCommunity name)"

definition lic_expired :: "int \<Rightarrow> lic_module \<Rightarrow> bool" where
  "lic_expired now m \<longleftrightarrow> (case lic m of Some l \<Rightarrow> Expired l now | None \<Rightarrow> False)"

definition apiFeatures ::
  "lic_module \<Rightarrow> (feature \<times> bool) list \<times> string \<times> (string \<times> (string \<times> int) list) list"
where
  "apiFeatures m = (map (\<lambda>f. (f, Allowed m (ft_Key f) = None)) Features, Tier m,
     map (\<lambda>t. (t, Limits t)) Tiers)"

datatype lic_health = NoBuildKey | WithdrawnCommunity string | PlainCommunity
  | PastDate string string | WithNote string lic_note | InForce string

definition Health :: "int \<Rightarrow> lic_module \<Rightarrow> lic_health" where
  "Health now m =
     (if pub m = None then NoBuildKey
      else (case lic m of
          None \<Rightarrow> if Revoked (st m) \<noteq> [] then WithdrawnCommunity (Revoked (st m)) else PlainCommunity
        | Some l \<Rightarrow>
            (let d = to_upper (take 1 (l_Tier l)) @ drop 1 (l_Tier l) in
             if Expired l now then PastDate d (l_Expires l)
             else (case LastNote (st m) of Some n \<Rightarrow> WithNote d n | None \<Rightarrow> InForce d))))"

text \<open>The provider that is used when no module published one.\<close>

definition community_Tier :: "unit \<Rightarrow> string" where
  "community_Tier u = TierCommunity"

definition community_Allowed :: "unit \<Rightarrow> string \<Rightarrow> gate_error option" where
  "community_Allowed u f = LockedError f TierCommunity"

definition community_Limit :: "unit \<Rightarrow> string \<Rightarrow> int" where
  "community_Limit u name = Limit TierCommunity name"

definition community_Expired :: "int \<Rightarrow> unit \<Rightarrow> bool" where
  "community_Expired now u = False"

section \<open>The module's invariant\<close>

text \<open>
  The license held is what the token held verifies to, and the store holds what the module does.
\<close>

definition lic_ok :: "crypto \<Rightarrow> lic_module \<Rightarrow> bool" where
  "lic_ok c m \<longleftrightarrow> lic m = (case verify c m (token m) of Inr l \<Rightarrow> Some l | Inl _ \<Rightarrow> None)
     \<and> text_of (kv_token (kv m)) = token m \<and> text_of (kv_key (kv m)) = key m
     \<and> kv_installation (kv m) = Some (installation m) \<and> installation m \<noteq> []"

lemma Parse_Nil: "Parse c [] k = Inl ErrFormat"
  by (simp add: Parse_def trim_space_def)

lemma verify_Nil: "\<exists>e. verify c m [] = Inl e"
  by (simp add: verify_def Parse_Nil split: option.split)

lemma verify_cong: "pub m' = pub m \<Longrightarrow> installation m' = installation m \<Longrightarrow> verify c m' = verify c m"
  by (rule ext) (auto simp: verify_def split: option.split sum.split)

lemma store_ok:
  assumes "lic_ok c m" and "verify c m tok = Inr l"
  shows "lic_ok c (lic_store v l tok k src m)"
proof -
  have "verify c (lic_store v l tok k src m) = verify c m"
    by (rule verify_cong) (simp_all add: lic_store_def Let_def)
  then show ?thesis using assms by (simp add: lic_ok_def lic_store_def Let_def text_of_def)
qed

lemma clear_ok: "lic_ok c m \<Longrightarrow> lic_ok c (clear r m)"
  using verify_Nil [of c "clear r m"] by (auto simp: lic_ok_def clear_def Let_def text_of_def)

lemma setErr_ok: "lic_ok c m \<Longrightarrow> lic_ok c (setErr n m)"
  using verify_cong [of "setErr n m" m c] by (simp add: lic_ok_def setErr_def Let_def)

lemma NewID_nonempty: "NewID rnd ''inst'' \<noteq> []"
  by (simp add: NewID_def)

lemma load_stored_ok:
  assumes "kv_installation k = Some inst" and "inst \<noteq> []"
  shows "lic_ok c (load_stored c p inst k)"
proof -
  define m where "m = \<lparr>pub = p, installation = inst, lic = None, token = text_of (kv_token k),
    key = text_of (kv_key k), st = (case kv_state k of Some s \<Rightarrow> s
      | None \<Rightarrow> \<lparr>LastRefresh = 0, LastNote = None, Revoked = [], Source = []\<rparr>), kv = k\<rparr>"
  have l: "load_stored c p inst k = (if token m \<noteq> [] then
      (case verify c m (token m) of Inr l \<Rightarrow> m\<lparr>lic := Some l\<rparr>
       | Inl e \<Rightarrow> m\<lparr>st := (st m)\<lparr>LastNote := Some (StoredRejected e)\<rparr>\<rparr>) else m)"
    by (simp add: load_stored_def Let_def m_def split: sum.split)
  have v: "verify c (m\<lparr>lic := x\<rparr>) = verify c m" "verify c (m\<lparr>st := y\<rparr>) = verify c m" for x y
    by (rule verify_cong; simp)+
  have f: "lic m = None" "text_of (kv_token (kv m)) = token m" "text_of (kv_key (kv m)) = key m"
    "kv_installation (kv m) = Some (installation m)" "installation m \<noteq> []"
    using assms by (simp_all add: m_def)
  show ?thesis
    unfolding l using f v verify_Nil [of c m] by (auto simp: lic_ok_def split: sum.split)
qed

lemma setup_installation_ok:
  "kv_installation (snd (setup_installation rnd k)) = Some (fst (setup_installation rnd k))
   \<and> fst (setup_installation rnd k) \<noteq> []"
  by (auto simp: setup_installation_def NewID_nonempty split: option.splits)

lemma Setup_ok: "Setup c pk rnd k = Some m \<Longrightarrow> lic_ok c m"
  using load_stored_ok setup_installation_ok [of rnd k]
  by (auto simp: Setup_def Let_def case_prod_unfold split: option.splits)

text \<open>The operations the module offers, each under an environment of its own.\<close>

datatype lic_op = Activate obj | Install obj | RefreshNow | RefreshJob | Remove

fun lic_step :: "lic_env \<Rightarrow> lic_op \<Rightarrow> lic_module \<Rightarrow> lic_module" where
  "lic_step v (Activate b) m = snd (apiActivate v b m)"
| "lic_step v (Install b) m = snd (apiInstall v b m)"
| "lic_step v RefreshNow m = snd (apiRefresh v m)"
| "lic_step v RefreshJob m = refreshJob v m"
| "lic_step v Remove m = apiRemove m"

definition lic_run :: "(lic_env \<times> lic_op) list \<Rightarrow> lic_module \<Rightarrow> lic_module" where
  "lic_run ops m = fold (\<lambda>(v, op). lic_step v op) ops m"

lemma refresh_ok: "lic_ok c m \<Longrightarrow> le_crypto v = c \<Longrightarrow> lic_ok c (refresh v m)"
  by (auto simp: refresh_def clear_ok setErr_ok store_ok split: sum.splits call_error.splits)

lemma lic_step_ok: "lic_ok c m \<Longrightarrow> le_crypto v = c \<Longrightarrow> lic_ok c (lic_step v op m)"
  by (cases op)
    (auto simp: apiActivate_def activate_def apiInstall_def apiRefresh_def apiRemove_def refreshJob_def
      Let_def clear_ok store_ok refresh_ok split: sum.splits call_error.splits option.splits)

lemma lic_run_ok: "lic_ok c m \<Longrightarrow> \<forall>(v, op) \<in> set ops. le_crypto v = c \<Longrightarrow> lic_ok c (lic_run ops m)"
proof (induction ops arbitrary: m)
  case (Cons p ops)
  obtain v op where p: "p = (v, op)" by (cases p)
  have "lic_ok c (lic_run ops (lic_step v op m))"
    using Cons.prems p lic_step_ok by (intro Cons.IH) auto
  then show ?case by (simp add: lic_run_def p)
qed (simp add: lic_run_def)

lemma lic_run_same: "pub (lic_run ops m) = pub m \<and> installation (lic_run ops m) = installation m"
proof (induction ops arbitrary: m)
  case (Cons p ops)
  obtain v op where p: "p = (v, op)" by (cases p)
  have "pub (lic_step v op m) = pub m \<and> installation (lic_step v op m) = installation m"
    by (cases op) (auto simp: apiActivate_def activate_def apiInstall_def apiRefresh_def apiRemove_def
      refreshJob_def refresh_def Let_def clear_def setErr_def lic_store_def
      split: sum.splits call_error.splits option.splits)
  then show ?case using Cons.IH [of "lic_step v op m"] by (simp add: lic_run_def p)
qed (simp add: lic_run_def)

lemma verify_valid:
  assumes "verify c m tok = Inr l"
  shows "l_Tier l \<in> {TierPro, TierBusiness}" and "1 \<le> l_Seats l"
    and "l_Installation l = [] \<or> l_Installation l = installation m"
    and "\<exists>k payload sig. pub m = Some k \<and> c_verify c k payload sig"
proof -
  obtain k where k: "pub m = Some k" "Parse c tok k = Inr l"
    "l_Installation l = [] \<or> l_Installation l = installation m"
    using assms by (auto simp: verify_def split: option.splits sum.splits if_splits)
  obtain l0 payload sig where p: "Validate l0 = Inr l" "c_verify c k payload sig"
    using Parse_sound [OF k(2)] by blast
  then show "l_Tier l \<in> {TierPro, TierBusiness}" "1 \<le> l_Seats l" using Validate_ok [OF p(1)] by blast+
  show "l_Installation l = [] \<or> l_Installation l = installation m"
    "\<exists>k payload sig. pub m = Some k \<and> c_verify c k payload sig"
    using k p(2) by blast+
qed

section \<open>The interface\<close>

text \<open>
  What \<^verbatim>\<open>core.Licensing\<close> promises its callers: a tier of the ladder, nothing refused that the
  tier includes, a refusal that names a tier which includes the feature and is higher than the
  present one, and limits that are those of the tier unless the license overrides them.
\<close>

locale licensing_service =
  fixes good :: "'s \<Rightarrow> bool"
    and tier :: "'s \<Rightarrow> string"
    and allowed :: "'s \<Rightarrow> string \<Rightarrow> gate_error option"
  assumes tier_known: "good s \<Longrightarrow> tier s \<in> set Tiers"
    and included: "good s \<Longrightarrow> Includes (tier s) f \<Longrightarrow> allowed s f = None"
    and refusal: "good s \<Longrightarrow> allowed s f = Some e \<Longrightarrow>
      Includes (g_required e) f \<and> Rank (tier s) < Rank (g_required e)"
begin

lemma free_features: "good s \<Longrightarrow> FeatureTier f = TierCommunity \<Longrightarrow> allowed s f = None"
  using included [of s f] tier_known [of s] by (auto simp: Includes_def Tiers_def)

lemma business_allows_all: "good s \<Longrightarrow> tier s = TierBusiness \<Longrightarrow> allowed s f = None"
  using included [of s f] FeatureTier_valid [of f] by (auto simp: Includes_def Tiers_def)

end

lemma LockedError_Some:
  "LockedError f t = Some e \<Longrightarrow> g_required e = FeatureTier f \<and> Rank t < Rank (FeatureTier f)"
  by (auto simp: LockedError_def Let_def split: if_splits)

interpretation community: licensing_service "\<lambda>_. True" community_Tier community_Allowed
  by unfold_locales
    (auto simp: community_Tier_def community_Allowed_def Tiers_def LockedError_None_iff Includes_def
      dest: LockedError_Some)

lemma Tier_known: "lic_ok c m \<Longrightarrow> Tier m \<in> set Tiers"
  using verify_valid(1) [of c m "token m"]
  by (auto simp: lic_ok_def Tier_def Tiers_def split: sum.splits option.splits)

interpretation module: licensing_service "lic_ok c" Tier Allowed for c
proof
  fix s f e
  assume ok: "lic_ok c s"
  show "Tier s \<in> set Tiers" by (rule Tier_known [OF ok])
  show "Allowed s f = None" if "Includes (Tier s) f"
    using that by (auto simp: Allowed_def LockedError_None_iff lic_Includes_def Tier_def split: option.split)
  show "Includes (g_required e) f \<and> Rank (Tier s) < Rank (g_required e)" if "Allowed s f = Some e"
    using that by (auto simp: Allowed_def Includes_def dest: LockedError_Some split: option.splits if_splits)
qed

section \<open>Properties\<close>

text \<open>
  C4: nothing but a verified license ever raises the tier. After the set-up and any sequence of
  activations, installations, refreshes and removals, whatever the server answered, a license
  that is in force is what the stored token verifies to: signed for the key compiled in, of a paid
  tier, and bound to this installation or to none; and a build without a key runs Community.
\<close>

theorem license_always_verified:
  assumes "Setup c pk rnd k = Some m0" and "\<forall>(v, op) \<in> set ops. le_crypto v = c" and "m = lic_run ops m0"
  shows "(\<forall>l. lic m = Some l \<longrightarrow> verify c m (token m) = Inr l \<and> l_Tier l \<in> {TierPro, TierBusiness}
        \<and> (l_Installation l = [] \<or> l_Installation l = installation m)
        \<and> (\<exists>key payload sig. pub m = Some key \<and> c_verify c key payload sig))
    \<and> Tier m \<in> set Tiers \<and> (pk = [] \<longrightarrow> Tier m = TierCommunity)"
proof -
  have ok: "lic_ok c m" using lic_run_ok [OF Setup_ok [OF assms(1)] assms(2)] assms(3) by simp
  have v: "verify c m (token m) = Inr l" if "lic m = Some l" for l
    using ok that by (auto simp: lic_ok_def split: sum.splits)
  have "pub m = None" if "pk = []"
    using assms(1,3) that lic_run_same [of ops m0]
    by (auto simp: Setup_def load_stored_def Let_def case_prod_unfold split: sum.splits if_splits)
  then have "lic m = None" if "pk = []" using v that by (cases "lic m") (auto simp: verify_def)
  then show ?thesis
    using v verify_valid [of c m "token m"] Tier_known [OF ok] by (auto simp: Tier_def)
qed

definition sample_kv :: lic_kv where
  "sample_kv = \<lparr>kv_installation = Some ''inst_a'', kv_token = Some sample_token, kv_key = Some ''FSP-1'',
     kv_state = None\<rparr>"

definition sample_module :: lic_module where
  "sample_module = \<lparr>pub = Some (replicate 32 0), installation = ''inst_a'',
     lic = Some (sample_license\<lparr>l_Seats := 1\<rparr>), token = sample_token, key = ''FSP-1'',
     st = \<lparr>LastRefresh = 0, LastNote = None, Revoked = [], Source = []\<rparr>, kv = sample_kv\<rparr>"

lemma enc64_zeros: "enc64 False (replicate (3 * n) 0 @ [0, 0]) = replicate (4 * n) (CHR ''A'') @ ''AAA''"
proof (induction n)
  case 0
  then show ?case by (simp add: enc_char_def alphabet_def)
next
  case (Suc n)
  have r: "replicate (3 * Suc n) x = x # x # x # replicate (3 * n) x" for x :: u8
    by (simp add: numeral_eq_Suc)
  have r': "replicate (4 * Suc n) x = x # x # x # x # replicate (4 * n) x" for x :: char
    by (simp add: numeral_eq_Suc)
  show ?case by (simp only: r r') (use Suc in \<open>simp add: enc_char_def alphabet_def\<close>)
qed

lemma sample_key: "ParseKey (replicate 43 (CHR ''A'')) 32 = Some (replicate 32 0)"
proof -
  let ?s = "replicate 43 (CHR ''A'')"
  have e: "enc64 False (replicate 32 0) = ?s"
  proof -
    have "replicate 32 (0 :: u8) = replicate (3 * 10) 0 @ [0, 0]"
      "?s = replicate (4 * 10) (CHR ''A'') @ ''AAA''"
      by (simp_all add: numeral_eq_Suc)
    then show ?thesis using enc64_zeros [of 10] by simp
  qed
  have u: "unfold_lines ?s = ?s" by (simp add: unfold_lines_def)
  have "decode_raw False ?s = Some (replicate 32 0)"
    using dec64_enc64 [of False "replicate 32 0"] by (simp add: decode_raw_def u e)
  moreover have "decode_padded False ?s = None" by (simp add: decode_padded_def u Let_def)
  moreover have "trim_space ?s = ?s" by (rule trim_space_fixed) (simp add: is_space_def)
  ultimately show ?thesis by (simp add: ParseKey_def Let_def)
qed

lemma sample_setup: "Setup sample_crypto (replicate 43 (CHR ''A'')) [] sample_kv = Some sample_module"
proof -
  have "sample_token \<noteq> []" by (simp add: sample_token_def Prefix_def)
  then show ?thesis
    by (simp add: Setup_def sample_key setup_installation_def load_stored_def Let_def sample_kv_def
        text_of_def verify_def sample_parse sample_module_def) (simp add: sample_license_def)
qed

definition sample_env :: "(string \<Rightarrow> string \<Rightarrow> string \<Rightarrow> http_answer) \<Rightarrow> lic_env" where
  "sample_env srv = \<lparr>le_crypto = sample_crypto, le_settings = [], le_server = srv, le_now = 0\<rparr>"

theorem license_always_verified_witness:
  "Tier (lic_run [(sample_env (\<lambda>_ _ _. NoAnswer ''timeout''), RefreshNow)] sample_module) \<in> set Tiers"
  using license_always_verified [OF sample_setup, of "[(sample_env (\<lambda>_ _ _. NoAnswer ''timeout''), RefreshNow)]"]
  by (simp add: sample_env_def)

text \<open>A restart changes nothing: what is stored sets up the same license, token, key and id again.\<close>

theorem restart_keeps_license:
  assumes "Setup c pk rnd k = Some m0" and "\<forall>(v, op) \<in> set ops. le_crypto v = c" and "m = lic_run ops m0"
    and "Setup c pk rnd' (kv m) = Some m'"
  shows "lic m' = lic m \<and> token m' = token m \<and> key m' = key m \<and> installation m' = installation m"
proof -
  have ok: "lic_ok c m" using lic_run_ok [OF Setup_ok [OF assms(1)] assms(2)] assms(3) by simp
  have ok': "lic_ok c m'" by (rule Setup_ok [OF assms(4)])
  have i: "setup_installation rnd' (kv m) = (installation m, kv m)"
    using ok by (simp add: setup_installation_def lic_ok_def)
  have "pub m' = (if pk = [] then None else ParseKey pk 32)" if "Setup c pk r kk = Some m'" for r kk m'
    using that by (auto simp: Setup_def load_stored_def Let_def case_prod_unfold split: sum.splits if_splits option.splits)
  then have p: "pub m' = pub m" using assms lic_run_same [of ops m0] by metis
  have n: "installation m' = installation m" "token m' = text_of (kv_token (kv m))" "key m' = text_of (kv_key (kv m))"
    using assms(4) i
    by (auto simp: Setup_def load_stored_def Let_def case_prod_unfold split: sum.splits if_splits option.splits)
  then have "token m' = token m" "key m' = key m" using ok by (simp_all add: lic_ok_def)
  moreover have "lic m' = lic m"
    using ok ok' verify_cong [OF p n(1)] \<open>token m' = token m\<close> by (simp add: lic_ok_def)
  ultimately show ?thesis using n by simp
qed

theorem restart_keeps_license_witness:
  "\<exists>m'. Setup sample_crypto (replicate 43 (CHR ''A'')) [] (kv sample_module) = Some m'
     \<and> lic m' = Some (sample_license\<lparr>l_Seats := 1\<rparr>)"
proof -
  have k: "kv sample_module = sample_kv" by (simp add: sample_module_def)
  show ?thesis
    using restart_keeps_license [OF sample_setup, of "[]" sample_module "[]" sample_module] sample_setup
    by (simp add: lic_run_def k) (simp add: sample_module_def)
qed






text \<open>
  The route that installs a license file documents its content as the field \<open>license\<close> of the
  body, but reads the field \<open>token\<close>: a request written by the documentation is always refused.
\<close>

theorem documented_install_refused:
  assumes "mget b ''token'' = None"
  shows "apiInstall v b m = (Inl PasteFile, m) \<and> error_status PasteFile = 400"
  using assms by (simp add: apiInstall_def body_string_def trim_space_def)

theorem documented_install_refused_witness:
  "fst (apiInstall (sample_env (\<lambda>_ _ _. NoAnswer [])) [(''license'', JStr sample_token)] sample_module)
     = Inl PasteFile"
  using documented_install_refused [of "[(''license'', JStr sample_token)]"] by (simp add: mget_def)

end
