(* ===== verification/ApiAccess.thy ===== *)
theory ApiAccess
  imports LicenseModule
begin

text \<open>
  Who may reach the API and change anything through it: \<^verbatim>\<open>internal/core/netsec.go\<close> (allowed
  addresses, scopes, throttling), the authentication, sessions and request path of
  \<^verbatim>\<open>internal/core/api.go\<close>, the feeds of \<^verbatim>\<open>internal/core/feed.go\<close> and the audit record of
  \<^verbatim>\<open>internal/core/core.go\<close>. Handlers, static files and the random source are parameters.
\<close>

section \<open>Addresses\<close>

definition ip_is_loopback :: "bytes \<Rightarrow> bool" where
  "ip_is_loopback b = (case to4 b of Some v \<Rightarrow> v ! 0 = 127 | None \<Rightarrow> b = replicate 15 0 @ [1])"

definition isLoopback :: "string \<Rightarrow> bool" where
  "isLoopback ip = (case parse_ip ip of Some p \<Rightarrow> ip_is_loopback p | None \<Rightarrow> False)"

definition entry_matches :: "string \<Rightarrow> bytes \<Rightarrow> bool" where
  "entry_matches e0 ip =
     (let e = trim_space e0 in
      if e = [] then False
      else if contains e ''/'' then
        (case parse_cidr e of Some (_, n) \<Rightarrow> net_contains n ip | None \<Rightarrow> False)
      else (case parse_ip e of Some p \<Rightarrow> ip_equal p ip | None \<Rightarrow> False))"

definition allowed :: "core_settings \<Rightarrow> string \<Rightarrow> bool" where
  "allowed cs client =
     (if isLoopback client then True
      else if APIAllow cs = [] then True
      else (case parse_ip client of
          None \<Rightarrow> False
        | Some ip \<Rightarrow> list_ex (\<lambda>e. entry_matches e ip) (APIAllow cs)))"

section \<open>Tokens and scopes\<close>

definition ScopeAdmin :: string where "ScopeAdmin = ''admin''"
definition ScopeRead :: string where "ScopeRead = ''read''"

definition tokenName :: "core_settings \<Rightarrow> string \<Rightarrow> string" where
  "tokenName cs presented =
     (if presented = [] then []
      else if APIToken cs \<noteq> [] \<and> presented = APIToken cs then ''token''
      else (case find (\<lambda>t. nt_Token t \<noteq> [] \<and> presented = nt_Token t) (APITokens cs) of
          Some t \<Rightarrow> ''token:'' @ nt_Name t
        | None \<Rightarrow> []))"

definition anyToken :: "core_settings \<Rightarrow> bool" where
  "anyToken cs \<longleftrightarrow> APIToken cs \<noteq> [] \<or> APITokens cs \<noteq> []"

definition scopeOf :: "core_settings \<Rightarrow> string \<Rightarrow> string" where
  "scopeOf cs name =
     (if \<not> has_prefix name ''token:'' then ScopeAdmin
      else (case find (\<lambda>t. ''token:'' @ nt_Name t = name) (APITokens cs) of
          Some t \<Rightarrow> if nt_Scope t = ScopeRead then ScopeRead else ScopeAdmin
        | None \<Rightarrow> ScopeAdmin))"

section \<open>Throttling\<close>

text \<open>Times are nanoseconds since 1970; \<open>zero_time\<close> is Go's zero time.\<close>

definition zero_time :: int where
  "zero_time = - 62135596800 * second"

record fail_rec =
  f_n :: int
  f_first :: int
  f_until :: int

type_synonym fails = "(string, fail_rec) gomap"

definition failWindow :: int where "failWindow = 15 * 60 * second"
definition failLimit :: int where "failLimit = 8"

definition throttled :: "int \<Rightarrow> string \<Rightarrow> fails \<Rightarrow> int option" where
  "throttled now client fs =
     (case mget fs client of
        None \<Rightarrow> None
      | Some f \<Rightarrow> if f_until f - now > 0 then Some (f_until f - now) else None)"

definition stale :: "int \<Rightarrow> fail_rec \<Rightarrow> bool" where
  "stale now f \<longleftrightarrow> now - f_first f > failWindow \<and> now > f_until f"

definition count_failure :: "int \<Rightarrow> fail_rec \<Rightarrow> fail_rec" where
  "count_failure now f0 =
     (let f = f0\<lparr>f_n := f_n f0 + 1\<rparr> in
      if f_n f \<ge> failLimit then f\<lparr>f_until := now + 60 * second * 2 ^ nat (min (f_n f - failLimit) 6)\<rparr> else f)"

definition failed :: "int \<Rightarrow> string \<Rightarrow> fails \<Rightarrow> fails" where
  "failed now client fs =
     (if isLoopback client then fs
      else
        (let f = (case mget fs client of
             Some f \<Rightarrow> if stale now f then \<lparr>f_n = 0, f_first = now, f_until = zero_time\<rparr> else f
           | None \<Rightarrow> \<lparr>f_n = 0, f_first = now, f_until = zero_time\<rparr>);
             fs' = mput client (count_failure now f) fs
         in if length fs' > 10000 then filter (\<lambda>(k, v). \<not> stale now v) fs' else fs'))"

definition succeeded :: "string \<Rightarrow> fails \<Rightarrow> fails" where
  "succeeded client fs = mdel client fs"

section \<open>Sessions\<close>

record session =
  s_user :: string
  s_scope :: string
  s_expires :: int

type_synonym sessions = "(string, session) gomap"

fun soonest :: "sessions \<Rightarrow> (string \<times> int) option \<Rightarrow> (string \<times> int) option" where
  "soonest [] best = best"
| "soonest ((k, s) # ss) best =
     soonest ss (case best of
        None \<Rightarrow> Some (k, s_expires s)
      | Some (b, t) \<Rightarrow> if b = [] \<or> s_expires s < t then Some (k, s_expires s) else best)"

text \<open>
  The loop that makes room ends because each turn removes an entry; \<open>fuel\<close> is the size of the
  table.
\<close>

fun make_room :: "nat \<Rightarrow> sessions \<Rightarrow> sessions" where
  "make_room 0 ss = ss"
| "make_room (Suc n) ss =
     (if length ss \<ge> 1000 then
        (case soonest ss None of Some (k, _) \<Rightarrow> make_room n (mdel k ss) | None \<Rightarrow> ss)
      else ss)"

definition session_life :: int where
  "session_life = 12 * 3600 * second"

definition add_session :: "int \<Rightarrow> string \<Rightarrow> session \<Rightarrow> sessions \<Rightarrow> sessions" where
  "add_session now sid s ss =
     (let live = filter (\<lambda>(k, x). \<not> s_expires x < now) ss
      in mput sid s (make_room (length live) live))"

text \<open>\<^verbatim>\<open>login\<close>, on the 32 random bytes it draws.\<close>

definition login :: "core_settings \<Rightarrow> int \<Rightarrow> bytes \<Rightarrow> string \<Rightarrow> string \<Rightarrow> sessions \<Rightarrow> (string \<times> sessions) option" where
  "login cs now rnd tok client ss =
     (let name0 = tokenName cs tok;
          name = (if name0 = ''token'' \<and> APITokenLocalOnly cs \<and> \<not> isLoopback client then [] else name0)
      in if name = [] then None
         else (let sid = enc64 True rnd in
           Some (sid, add_session now sid
             \<lparr>s_user = ''session ('' @ name @ '')'', s_scope = scopeOf cs name,
              s_expires = now + session_life\<rparr> ss)))"

definition dropSession :: "string option \<Rightarrow> sessions \<Rightarrow> sessions" where
  "dropSession cookie ss = (case cookie of Some sid \<Rightarrow> mdel sid ss | None \<Rightarrow> ss)"

section \<open>Requests\<close>

text \<open>
  What a request carries: the client's address, whether it came over TLS, and the headers, an
  absent header being empty. \<open>rq_body\<close> is \<^const>\<open>None\<close> when reading it fails; \<open>rq_token_in\<close>
  is the field \<^verbatim>\<open>token\<close> of the JSON body of a login.
\<close>

record request =
  rq_method :: string
  rq_path :: string
  rq_client :: string
  rq_tls :: bool
  rq_token :: string
  rq_auth :: string
  rq_user :: string
  rq_with :: string
  rq_cookie :: "string option"
  rq_length :: int
  rq_body :: "bytes option"
  rq_token_in :: string
  rq_key :: string

definition bearer :: "string \<Rightarrow> bool" where
  "bearer h \<longleftrightarrow> has_prefix (to_lower h) ''bearer ''"

definition presented :: "request \<Rightarrow> string" where
  "presented r = (if bearer (rq_auth r) then trim_space (drop 7 (rq_auth r)) else rq_token r)"

definition local_client :: "string \<Rightarrow> bool" where
  "local_client client \<longleftrightarrow> client = ''127.0.0.1'' \<or> client = ''::1''"

definition live_session :: "int \<Rightarrow> request \<Rightarrow> sessions \<Rightarrow> session option" where
  "live_session now r ss =
     (case rq_cookie r of
        None \<Rightarrow> None
      | Some c \<Rightarrow> (case mget ss c of
          Some s \<Rightarrow> if s_expires s > now then Some s else None
        | None \<Rightarrow> None))"

definition header_name :: "core_settings \<Rightarrow> request \<Rightarrow> string" where
  "header_name cs r =
     (let n = tokenName cs (presented r)
      in if n = ''token'' \<and> APITokenLocalOnly cs \<and> \<not> local_client (rq_client r) then [] else n)"

text \<open>The user and the scope, and the failures recorded on the way.\<close>

definition authenticateScoped ::
  "core_settings \<Rightarrow> int \<Rightarrow> request \<Rightarrow> sessions \<Rightarrow> fails \<Rightarrow> (string \<times> string) option \<times> fails"
where
  "authenticateScoped cs now r ss fs =
     (case live_session now r ss of
        Some s \<Rightarrow> (Some (s_user s, if s_scope s = [] then ScopeAdmin else s_scope s), fs)
      | None \<Rightarrow>
        (let lo = local_client (rq_client r);
             name = header_name cs r;
             fs' = (if presented r \<noteq> [] \<and> name = [] then failed now (rq_client r) fs else fs)
         in if name \<noteq> [] then
              (Some (if rq_user r \<noteq> [] \<and> lo then rq_user r @ '' (gui, '' @ name @ '')'' else name,
                 scopeOf cs name), fs')
            else if \<not> anyToken cs \<and> lo then
              (Some (if rq_user r \<noteq> [] then rq_user r @ '' (gui)'' else ''local'', ScopeAdmin), fs')
            else (None, fs')))"

section \<open>Routes\<close>

record route =
  r_Method :: string
  r_Path :: string
  r_Module :: string
  r_Write :: bool
  r_ReadSafe :: bool
  r_Feature :: string

type_synonym routes = "(string, route) gomap"

text \<open>\<^verbatim>\<open>Add\<close>: \<^const>\<open>None\<close> is the panic on a write route that is a GET.\<close>

definition add_route :: "route \<Rightarrow> routes \<Rightarrow> routes option" where
  "add_route r0 rs =
     (let r = r0\<lparr>r_Method := to_upper (r_Method r0)\<rparr> in
      if r_Write r \<and> r_Method r = ''GET'' then None
      else Some (mput (r_Method r @ '' '' @ r_Path r) r rs))"

definition is_param :: "string \<Rightarrow> bool" where
  "is_param p \<longleftrightarrow> has_prefix p ''{'' \<and> has_suffix p ''}''"

fun match_parts :: "string list \<Rightarrow> string list \<Rightarrow> (string, string) gomap \<Rightarrow> (string, string) gomap option" where
  "match_parts (pp # ps) (x # xs) params =
     (if is_param pp then match_parts ps xs (mput (take (length pp - 2) (drop 1 pp)) x params)
      else if pp \<noteq> x then None else match_parts ps xs params)"
| "match_parts _ _ params = Some params"

definition matchPath :: "string \<Rightarrow> string \<Rightarrow> (string, string) gomap option" where
  "matchPath pat p =
     (let pp = split_on (CHR ''/'') pat; xs = split_on (CHR ''/'') p
      in if length pp \<noteq> length xs then None else match_parts pp xs [])"

definition str_fields :: "string \<Rightarrow> string list" where
  "str_fields s = filter (\<lambda>w. w \<noteq> []) (split_on (CHR '' '') (map (\<lambda>c. if is_space c then CHR '' '' else c) s))"

fun matchPattern :: "string \<Rightarrow> string \<Rightarrow> routes \<Rightarrow> (route \<times> (string, string) gomap) option" where
  "matchPattern method p [] = None"
| "matchPattern method p ((k, r) # rs) =
     (case str_fields k of
        [m, pat] \<Rightarrow>
          if m \<noteq> method then matchPattern method p rs
          else (case matchPath pat p of
              Some params \<Rightarrow> Some (r, params)
            | None \<Rightarrow> matchPattern method p rs)
      | _ \<Rightarrow> matchPattern method p rs)"

definition find_route :: "string \<Rightarrow> string \<Rightarrow> routes \<Rightarrow> (route \<times> (string, string) gomap) option" where
  "find_route method p rs =
     (case mget rs (method @ '' '' @ p) of
        Some r \<Rightarrow> Some (r, [])
      | None \<Rightarrow>
          (case (if method \<in> {''PUT'', ''DELETE'', ''PATCH''} then mget rs (''POST '' @ p) else None) of
             Some r \<Rightarrow> Some (r, [])
           | None \<Rightarrow> matchPattern method p rs))"

text \<open>\<^verbatim>\<open>path.Clean\<close>.\<close>

fun clean_parts :: "bool \<Rightarrow> string list \<Rightarrow> string list \<Rightarrow> string list" where
  "clean_parts rooted [] s0 = rev s0"
| "clean_parts rooted (x # xs) s0 =
     (if x = [] \<or> x = ''.'' then clean_parts rooted xs s0
      else if x = ''..'' then
        (case s0 of
           [] \<Rightarrow> clean_parts rooted xs (if rooted then [] else [''..''])
         | t # ts \<Rightarrow> clean_parts rooted xs (if t = ''..'' then x # s0 else ts))
      else clean_parts rooted xs (x # s0))"

definition path_clean :: "string \<Rightarrow> string" where
  "path_clean s =
     (if s = [] then ''.''
      else (let rooted = (hd s = CHR ''/'');
                out = join_with ''/'' (clean_parts rooted (split_on (CHR ''/'') s) [])
            in if rooted then CHR ''/'' # out else if out = [] then ''.'' else out))"

section \<open>Feeds and audit\<close>

definition hex_text :: "bytes \<Rightarrow> string" where
  "hex_text b = concat (map hex_byte b)"

text \<open>\<^verbatim>\<open>RotateFeedKey\<close> on the 24 random bytes it draws; \<^verbatim>\<open>FeedKey\<close> with what is stored.\<close>

definition RotateFeedKey :: "bytes \<Rightarrow> string \<times> string option" where
  "RotateFeedKey rnd = (hex_text rnd, Some (hex_text rnd))"

definition FeedKey :: "bytes \<Rightarrow> string option \<Rightarrow> string \<times> string option" where
  "FeedKey rnd k =
     (case k of Some x \<Rightarrow> if length x \<ge> 32 then (x, k) else RotateFeedKey rnd | None \<Rightarrow> RotateFeedKey rnd)"

definition feed_lines :: "string list \<Rightarrow> string list" where
  "feed_lines doms = filter (\<lambda>d. d \<noteq> [] \<and> \<not> has_prefix d ''#'') (map trim_space doms)"

text \<open>
  The categories are a service of another module, \<^const>\<open>None\<close> when it is missing or has no such
  category; the result is the category and its lines, \<^const>\<open>None\<close> a plain 404.
\<close>

definition serveFeed :: "(string \<Rightarrow> string list option) \<Rightarrow> string \<Rightarrow> string \<Rightarrow> string \<Rightarrow> (string \<times> string list) option" where
  "serveFeed domains want got p =
     (if got \<noteq> want then None
      else (let name = trim_suffix (trim_prefix p ''/feeds/categories/'') ''.txt'' in
        if name = [] \<or> list_ex (\<lambda>c. c \<in> set ''/. '' \<or> c = CHR 0x5C) name
           \<or> \<not> has_prefix p ''/feeds/categories/'' then None
        else (case domains (to_lower name) of
            None \<Rightarrow> None
          | Some ds \<Rightarrow> Some (name, feed_lines ds))))"

record audit_rec =
  au_user :: string
  au_client :: string
  au_message :: string
  au_via :: string
  au_keys :: string
  au_touched :: "(string \<times> string) list"

definition audit_via :: "string \<Rightarrow> string" where
  "audit_via usr =
     (if contains usr ''(gui'' then ''gui''
      else if has_prefix usr ''session'' then ''session''
      else if usr = ''local'' then ''local''
      else if has_prefix usr ''token:'' then usr
      else ''token'')"

definition audit :: "string \<Rightarrow> string \<Rightarrow> string \<Rightarrow> obj \<Rightarrow> string \<Rightarrow> audit_rec" where
  "audit usr method p body client =
     \<lparr>au_user = usr, au_client = client, au_message = method @ '' '' @ p, au_via = audit_via usr,
      au_keys = join_with '','' (take 12 (sort (map fst body))),
      au_touched = List.map_filter (\<lambda>k. case mget body k of
          Some (JStr v) \<Rightarrow> if v \<noteq> [] \<and> length v \<le> 80 then Some (k, v) else None
        | _ \<Rightarrow> None) [''module'', ''name'', ''id'', ''definition'', ''policy'']\<rparr>"

section \<open>Serving a request\<close>

datatype handler_result = HOk | HError int | HFail | HPanic

datatype response =
    Status int
  | GateRefused gate_error
  | Redirect
  | RetryAfter int
  | Shell
  | Asset string
  | LoggedIn string
  | LoggedOut
  | FeedBody string "string list"
  | FeedNotFound
  | Done

text \<open>
  A handler is called with the user, whether the context is read-only, and the parameters of the
  path; \<open>ae_json\<close> is the body as a map.
\<close>

record api_env =
  ae_cs :: core_settings
  ae_routes :: routes
  ae_readonly :: bool
  ae_allowed :: "string \<Rightarrow> gate_error option"
  ae_expired :: bool
  ae_handler :: "route \<Rightarrow> string \<Rightarrow> bool \<Rightarrow> (string, string) gomap \<Rightarrow> request \<Rightarrow> handler_result"
  ae_json :: "bytes option \<Rightarrow> obj"
  ae_now :: int
  ae_rnd :: bytes
  ae_domains :: "string \<Rightarrow> string list option"

record api_state =
  sess :: sessions
  fl :: fails
  feed_kv :: "string option"

text \<open>The response, the handler that ran with the user and the read-only mark, and the audit.\<close>

record reply =
  rp_resp :: response
  rp_ran :: "(route \<times> string \<times> bool) option"
  rp_audit :: "audit_rec option"

definition just :: "response \<Rightarrow> reply" where
  "just x = \<lparr>rp_resp = x, rp_ran = None, rp_audit = None\<rparr>"

definition maxBody :: int where
  "maxBody = 4194304"

definition is_read :: "request \<Rightarrow> bool" where
  "is_read r \<longleftrightarrow> rq_method r = ''GET'' \<or> rq_method r = ''HEAD''"

definition too_large :: "request \<Rightarrow> bool" where
  "too_large r \<longleftrightarrow> \<not> is_read r \<and> (rq_length r > maxBody \<or>
     (case rq_body r of None \<Rightarrow> True | Some b \<Rightarrow> int (length b) > maxBody))"

text \<open>What proves that a write did not come from a foreign page.\<close>

definition own_header :: "request \<Rightarrow> bool" where
  "own_header r \<longleftrightarrow> rq_with r = ''Flowsight'' \<or> rq_token r \<noteq> [] \<or> bearer (rq_auth r)"

definition call_handler :: "api_env \<Rightarrow> request \<Rightarrow> string \<Rightarrow> string \<Rightarrow> bool \<Rightarrow> route \<Rightarrow> (string, string) gomap \<Rightarrow> reply" where
  "call_handler e r p usr ro rt params =
     (case ae_handler e rt usr ro params r of
        HOk \<Rightarrow> \<lparr>rp_resp = Done, rp_ran = Some (rt, usr, ro),
          rp_audit = (if r_Write rt
            then Some (audit usr (rq_method r) p (ae_json e (rq_body r)) (rq_client r)) else None)\<rparr>
      | HError s \<Rightarrow> \<lparr>rp_resp = Status s, rp_ran = Some (rt, usr, ro), rp_audit = None\<rparr>
      | _ \<Rightarrow> \<lparr>rp_resp = Status 500, rp_ran = Some (rt, usr, ro), rp_audit = None\<rparr>)"

definition serve_route :: "api_env \<Rightarrow> request \<Rightarrow> string \<Rightarrow> string \<Rightarrow> string \<Rightarrow> reply" where
  "serve_route e r p usr scope =
     (case find_route (rq_method r) p (ae_routes e) of
        None \<Rightarrow> just (Status 404)
      | Some (rt, params) \<Rightarrow>
          if scope = ScopeRead \<and> (r_Write rt \<or> (\<not> r_ReadSafe rt \<and> \<not> is_read r)) then just (Status 403)
          else if too_large r then just (Status 413)
          else if r_Write rt \<and> \<not> own_header r then just (Status 403)
          else if r_Write rt \<and> ae_readonly e then just (Status 403)
          else if r_Feature rt \<noteq> [] \<and> ae_allowed e (r_Feature rt) \<noteq> None
            then just (GateRefused (the (ae_allowed e (r_Feature rt))))
          else if r_Feature rt \<noteq> [] \<and> r_Write rt \<and> ae_expired e
            then just (GateRefused (ExpiredError (r_Feature rt)))
          else call_handler e r p usr (scope = ScopeRead) rt params)"

definition serve_api :: "api_env \<Rightarrow> request \<Rightarrow> string \<Rightarrow> api_state \<Rightarrow> reply \<times> api_state" where
  "serve_api e r p s0 =
     (case authenticateScoped (ae_cs e) (ae_now e) r (sess s0) (fl s0) of
        (auth, fs) \<Rightarrow>
          if p = ''/api/login'' \<and> rq_method r = ''POST'' then
            (case login (ae_cs e) (ae_now e) (ae_rnd e) (rq_token_in r) (rq_client r) (sess s0) of
               None \<Rightarrow> (just (Status 401), s0\<lparr>fl := failed (ae_now e) (rq_client r) fs\<rparr>)
             | Some (sid, ss) \<Rightarrow> (just (LoggedIn sid), s0\<lparr>sess := ss, fl := succeeded (rq_client r) fs\<rparr>))
          else (case auth of
               None \<Rightarrow> (just (Status 401), s0\<lparr>fl := fs\<rparr>)
             | Some (usr, scope) \<Rightarrow>
                 if p = ''/api/system/logout''
                 then (just LoggedOut, s0\<lparr>fl := fs, sess := dropSession (rq_cookie r) (sess s0)\<rparr>)
                 else (serve_route e r p usr scope, s0\<lparr>fl := fs\<rparr>)))"

definition ServeHTTP :: "api_env \<Rightarrow> request \<Rightarrow> api_state \<Rightarrow> reply \<times> api_state" where
  "ServeHTTP e r s0 =
     (let cs = ae_cs e; client = rq_client r; p = path_clean (rq_path r) in
      if is_read r \<and> has_prefix p ''/feeds/'' then
        (let (want, k) = FeedKey (ae_rnd e) (feed_kv s0) in
         (just (case serveFeed (ae_domains e) want (rq_key r) p of
              Some (name, ls) \<Rightarrow> FeedBody name ls | None \<Rightarrow> FeedNotFound), s0\<lparr>feed_kv := k\<rparr>))
      else if \<not> allowed cs client then (just (Status 403), s0)
      else if \<not> rq_tls r \<and> HTTPLocalOnly cs \<and> HTTPSPort cs > 0 \<and> \<not> isLoopback client then
        (just (if is_read r then Redirect else Status 403), s0)
      else (case throttled (ae_now e) client (fl s0) of
          Some wait \<Rightarrow> (just (RetryAfter (wait div second + 1)), s0)
        | None \<Rightarrow>
            if is_read r \<and> (p = ''/'' \<or> p = ''/index.html'') then (just Shell, s0)
            else (let p' = (if is_read r \<and> p = ''/favicon.ico'' then ''/static/favicon.svg'' else p) in
              if is_read r \<and> has_prefix p' ''/static/'' then (just (Asset (trim_prefix p' ''/static/'')), s0)
              else serve_api e r p' s0)))"

section \<open>An example\<close>

definition sample_request :: "string \<Rightarrow> string \<Rightarrow> string \<Rightarrow> request" where
  "sample_request m p tok = \<lparr>rq_method = m, rq_path = p, rq_client = ''127.0.0.2'', rq_tls = False, rq_token = tok,
     rq_auth = [], rq_user = [], rq_with = [], rq_cookie = None, rq_length = 0, rq_body = Some [], rq_token_in = tok,
     rq_key = []\<rparr>"

lemma presented_sample [simp]: "presented (sample_request m p tok) = tok"
  by (simp add: presented_def bearer_def sample_request_def has_prefix_def to_lower_def)

lemma sample_request_simps [simp]:
  "rq_client (sample_request m p tok) = ''127.0.0.2''" "rq_cookie (sample_request m p tok) = None"
  "rq_method (sample_request m p tok) = m" "rq_path (sample_request m p tok) = p"
  by (simp_all add: sample_request_def)

definition sample_api :: "routes \<Rightarrow> api_env" where
  "sample_api rs = \<lparr>ae_cs = defaultCore\<lparr>APIToken := ''s''\<rparr>, ae_routes = rs, ae_readonly = False,
     ae_allowed = (\<lambda>_. None), ae_expired = False, ae_handler = (\<lambda>_ _ _ _ _. HOk), ae_json = (\<lambda>_. []),
     ae_now = 0, ae_rnd = replicate 24 7,
     ae_domains = (\<lambda>n. if n = ''ads'' then Some [''# list'', '' a.example '', []] else None)\<rparr>"

definition empty_state :: api_state where
  "empty_state = \<lparr>sess = [], fl = [], feed_kv = None\<rparr>"

definition sample_route :: "bool \<Rightarrow> route" where
  "sample_route w = \<lparr>r_Method = ''POST'', r_Path = ''/api/x'', r_Module = [], r_Write = w, r_ReadSafe = False, r_Feature = []\<rparr>"

lemma serve_sample:
  "fst (ServeHTTP (sample_api (the (add_route (sample_route True) []))) (sample_request ''POST'' ''/api/x'' ''s'') empty_state)
    = \<lparr>rp_resp = Done, rp_ran = Some (sample_route True, ''token'', False),
       rp_audit = Some (audit ''token'' ''POST'' ''/api/x'' [] ''127.0.0.2'')\<rparr>"
proof -
  let ?e = "sample_api (the (add_route (sample_route True) []))"
  let ?r = "sample_request ''POST'' ''/api/x'' ''s''"
  have p: "path_clean ''/api/x'' = ''/api/x''" by (simp add: path_clean_def)
  have a: "allowed (ae_cs ?e) ''127.0.0.2''" by (simp add: allowed_def sample_api_def defaultCore_def)
  have l: "\<not> HTTPLocalOnly (ae_cs ?e)" by (simp add: sample_api_def defaultCore_def)
  have auth: "authenticateScoped (ae_cs ?e) (ae_now ?e) ?r [] [] = (Some (''token'', ScopeAdmin), [])"
    by (simp add: authenticateScoped_def live_session_def header_name_def tokenName_def sample_api_def defaultCore_def
        scopeOf_def has_prefix_def local_client_def)
  have f: "find_route ''POST'' ''/api/x'' (ae_routes ?e) = Some (sample_route True, [])"
    by (simp add: find_route_def sample_api_def add_route_def sample_route_def mget_def mput_def to_upper_def to_upper_char_def)
  have "serve_route ?e ?r ''/api/x'' ''token'' ScopeAdmin = \<lparr>rp_resp = Done,
      rp_ran = Some (sample_route True, ''token'', False),
      rp_audit = Some (audit ''token'' ''POST'' ''/api/x'' [] ''127.0.0.2'')\<rparr>"
    using f by (simp add: serve_route_def ScopeAdmin_def ScopeRead_def too_large_def is_read_def maxBody_def own_header_def
        call_handler_def) (simp add: sample_api_def sample_request_def sample_route_def maxBody_def)
  then show ?thesis
    using a auth l by (simp add: ServeHTTP_def serve_api_def p empty_state_def is_read_def throttled_def)
qed

section \<open>What a handler's run implies\<close>

lemma serve_route_ran:
  assumes "rp_ran (serve_route e r p u scope) = Some (rt, usr, ro)"
  shows "usr = u \<and> ro = (scope = ScopeRead) \<and> \<not> too_large r
    \<and> (\<exists>params. find_route (rq_method r) p (ae_routes e) = Some (rt, params))
    \<and> (scope = ScopeRead \<longrightarrow> \<not> r_Write rt \<and> (r_ReadSafe rt \<or> is_read r))
    \<and> (r_Write rt \<longrightarrow> own_header r \<and> \<not> ae_readonly e)
    \<and> (r_Feature rt \<noteq> [] \<longrightarrow> ae_allowed e (r_Feature rt) = None \<and> (r_Write rt \<longrightarrow> \<not> ae_expired e))"
  using assms
  by (auto simp: serve_route_def just_def call_handler_def split: option.splits if_splits handler_result.splits)

lemma serve_api_ran:
  assumes "serve_api e r p s0 = (rep, s1)" and "rp_ran rep = Some (rt, usr, ro)"
  shows "\<exists>scope. fst (authenticateScoped (ae_cs e) (ae_now e) r (sess s0) (fl s0)) = Some (usr, scope)
    \<and> rep = serve_route e r p usr scope"
proof -
  obtain auth fs where a: "authenticateScoped (ae_cs e) (ae_now e) r (sess s0) (fl s0) = (auth, fs)"
    by (cases "authenticateScoped (ae_cs e) (ae_now e) r (sess s0) (fl s0)")
  show ?thesis
    using assms
    by (auto simp: serve_api_def a just_def split: if_splits option.splits prod.splits dest: serve_route_ran)
qed

text \<open>
  C2: A handler runs only behind every gate. Its client may reach the interface and is not locked out,
  came over TLS or from this machine where that is required, and is authenticated with some scope;
  with the read scope it runs no write route, another than a GET only where the route says it
  is safe, and always marked read-only; a write carries a header a foreign page cannot send, and
  runs neither on a read-only instance nor past the license.
\<close>

theorem handler_behind_every_gate:
  assumes "ServeHTTP e r s0 = (rep, s1)" and "rp_ran rep = Some (rt, usr, ro)"
  shows "allowed (ae_cs e) (rq_client r) \<and> throttled (ae_now e) (rq_client r) (fl s0) = None
    \<and> (HTTPLocalOnly (ae_cs e) \<and> HTTPSPort (ae_cs e) > 0 \<longrightarrow> rq_tls r \<or> isLoopback (rq_client r))
    \<and> (\<exists>scope. fst (authenticateScoped (ae_cs e) (ae_now e) r (sess s0) (fl s0)) = Some (usr, scope)
        \<and> ro = (scope = ScopeRead)
        \<and> (scope = ScopeRead \<longrightarrow> \<not> r_Write rt \<and> (r_ReadSafe rt \<or> is_read r)))
    \<and> (\<exists>p params. find_route (rq_method r) p (ae_routes e) = Some (rt, params))
    \<and> (r_Write rt \<longrightarrow> own_header r \<and> \<not> ae_readonly e)
    \<and> (r_Feature rt \<noteq> [] \<longrightarrow> ae_allowed e (r_Feature rt) = None \<and> (r_Write rt \<longrightarrow> \<not> ae_expired e))"
proof -
  obtain p where p: "serve_api e r p s0 = (rep, s1)" "allowed (ae_cs e) (rq_client r)"
    "throttled (ae_now e) (rq_client r) (fl s0) = None"
    "HTTPLocalOnly (ae_cs e) \<and> HTTPSPort (ae_cs e) > 0 \<longrightarrow> rq_tls r \<or> isLoopback (rq_client r)"
    using assms by (auto simp: ServeHTTP_def Let_def just_def split: if_splits option.splits prod.splits)
  obtain scope where s: "fst (authenticateScoped (ae_cs e) (ae_now e) r (sess s0) (fl s0)) = Some (usr, scope)"
    "rep = serve_route e r p usr scope"
    using serve_api_ran [OF p(1) assms(2)] by blast
  show ?thesis
    using p s(1) serve_route_ran [of e r p usr scope rt usr ro] assms(2) s(2) by blast
qed

theorem handler_behind_every_gate_witness:
  "rp_resp (fst (ServeHTTP (sample_api (the (add_route (sample_route True) []))) (sample_request ''POST'' ''/api/x'' ''s'') empty_state)) = Done"
proof -
  let ?e = "sample_api (the (add_route (sample_route True) []))"
  let ?r = "sample_request ''POST'' ''/api/x'' ''s''"
  define rep where "rep = fst (ServeHTTP ?e ?r empty_state)"
  have rep: "rep = \<lparr>rp_resp = Done, rp_ran = Some (sample_route True, ''token'', False),
      rp_audit = Some (audit ''token'' ''POST'' ''/api/x'' [] ''127.0.0.2'')\<rparr>"
    unfolding rep_def by (simp add: serve_sample)
  have "HTTPSPort (ae_cs ?e) > 0" by (simp add: sample_api_def defaultCore_def)
  then show ?thesis
    using handler_behind_every_gate [of ?e ?r empty_state rep "snd (ServeHTTP ?e ?r empty_state)" "sample_route True" "''token''" False] rep
    by (simp add: rep_def)
qed

lemma tokenName_found:
  assumes "tokenName cs x \<noteq> []"
  shows "x \<noteq> [] \<and> (tokenName cs x = ''token'' \<and> APIToken cs \<noteq> [] \<and> x = APIToken cs
    \<or> (\<exists>t \<in> set (APITokens cs). nt_Token t \<noteq> [] \<and> x = nt_Token t \<and> tokenName cs x = ''token:'' @ nt_Name t))"
proof (cases "x = [] \<or> APIToken cs \<noteq> [] \<and> x = APIToken cs")
  case False
  then obtain t where "find (\<lambda>t. nt_Token t \<noteq> [] \<and> x = nt_Token t) (APITokens cs) = Some t"
    using assms by (auto simp: tokenName_def split: option.splits)
  then have "t \<in> set (APITokens cs) \<and> nt_Token t \<noteq> [] \<and> x = nt_Token t"
    by (auto simp: find_Some_iff)
  moreover have "tokenName cs x = ''token:'' @ nt_Name t"
    using False \<open>find _ _ = Some t\<close> by (auto simp: tokenName_def)
  ultimately show ?thesis using False by blast
qed (use assms in \<open>auto simp: tokenName_def\<close>)

text \<open>With distinct names the scope of a token is the one it is configured with.\<close>

lemma scope_of_token:
  assumes "distinct (map nt_Name (APITokens cs))" and "t \<in> set (APITokens cs)"
  shows "scopeOf cs (''token:'' @ nt_Name t) = (if nt_Scope t = ''read'' then ''read'' else ''admin'')"
proof -
  obtain u where u: "find (\<lambda>u. ''token:'' @ nt_Name u = ''token:'' @ nt_Name t) (APITokens cs) = Some u"
    using assms(2) by (cases "find (\<lambda>u. ''token:'' @ nt_Name u = ''token:'' @ nt_Name t) (APITokens cs)") (auto simp: find_None_iff)
  then have "u \<in> set (APITokens cs)" "nt_Name u = nt_Name t" by (auto simp: find_Some_iff)
  with assms have "u = t" by (auto simp: distinct_map dest: inj_onD)
  with u show ?thesis by (simp add: scopeOf_def has_prefix_def ScopeRead_def ScopeAdmin_def)
qed

text \<open>
  C16: nobody is authenticated without a secret or the trust of this machine, and nobody gets more than
  its secret gives, when the configured tokens have names of their own: the request carries a live session
  and has its scope; or the unnamed token, from this machine if it is confined to it, with the full scope;
  or a named token, with the read scope exactly when it is a read token; or no token is configured and it
  comes from this machine, with the full scope.
\<close>

theorem authenticated_by:
  assumes "distinct (map nt_Name (APITokens cs))" and "fst (authenticateScoped cs now r ss fs) = Some (usr, scope)"
  shows "(\<exists>sid s. rq_cookie r = Some sid \<and> mget ss sid = Some s \<and> now < s_expires s
        \<and> scope = (if s_scope s = [] then ''admin'' else s_scope s))
    \<or> presented r \<noteq> [] \<and> presented r = APIToken cs \<and> scope = ''admin'' \<and> (APITokenLocalOnly cs \<longrightarrow> local_client (rq_client r))
    \<or> presented r \<noteq> [] \<and> (\<exists>t \<in> set (APITokens cs). presented r = nt_Token t \<and>
        scope = (if nt_Scope t = ''read'' then ''read'' else ''admin''))
    \<or> APIToken cs = [] \<and> APITokens cs = [] \<and> local_client (rq_client r) \<and> scope = ''admin''"
proof (cases "live_session now r ss")
  case (Some s)
  then obtain sid where "rq_cookie r = Some sid" "mget ss sid = Some s" "now < s_expires s"
    by (auto simp: live_session_def split: option.splits if_splits)
  moreover have "scope = (if s_scope s = [] then ''admin'' else s_scope s)"
    using assms(2) Some by (auto simp: authenticateScoped_def ScopeAdmin_def)
  ultimately show ?thesis by blast
next
  case None
  show ?thesis
  proof (cases "header_name cs r = []")
    case True
    then show ?thesis using assms(2) None
      by (auto simp: authenticateScoped_def Let_def anyToken_def ScopeAdmin_def split: if_splits)
  next
    case False
    then have h: "header_name cs r = tokenName cs (presented r)"
      "tokenName cs (presented r) = ''token'' \<Longrightarrow> APITokenLocalOnly cs \<Longrightarrow> local_client (rq_client r)"
      by (auto simp: header_name_def Let_def split: if_splits)
    have sc: "scope = scopeOf cs (tokenName cs (presented r))"
      using assms(2) None False h(1) by (simp add: authenticateScoped_def Let_def)
    have ne: "tokenName cs (presented r) \<noteq> []" using False h(1) by simp
    have "scopeOf cs ''token'' = ''admin''" by (simp add: scopeOf_def has_prefix_def ScopeAdmin_def)
    with tokenName_found [OF ne] h(2) sc scope_of_token [OF assms(1)] show ?thesis by auto
  qed
qed

definition read_only :: core_settings where
  "read_only = defaultCore\<lparr>APITokens := [\<lparr>nt_Name = ''ci'', nt_Token = ''s'', nt_Scope = ''read''\<rparr>]\<rparr>"

theorem authenticated_by_witness:
  "\<exists>t \<in> set (APITokens read_only). presented (sample_request ''GET'' ''/api/x'' ''s'') = nt_Token t \<and> nt_Scope t = ''read''"
proof -
  let ?r = "sample_request ''GET'' ''/api/x'' ''s''"
  have "fst (authenticateScoped read_only 0 ?r [] []) = Some (''token:ci'', ''read'')"
    by code_simp
  moreover have "distinct (map nt_Name (APITokens read_only))" by (simp add: read_only_def)
  ultimately show ?thesis using authenticated_by [of read_only 0 ?r "[]" "[]"] by (auto split: if_splits)
qed

section \<open>Sessions\<close>










end
