(* ===== verification/AccessLimits.thy ===== *)
theory AccessLimits
  imports ApiAccess
begin

text \<open>
  What the request path of \<^verbatim>\<open>ApiAccess\<close> guarantees about guessing tokens, about the scopes of named
  tokens, about the feeds and about the license gate, and where it falls short of it.
\<close>

section \<open>Lock-out after failures\<close>

definition failures :: "(int \<times> string) list \<Rightarrow> fails \<Rightarrow> fails" where
  "failures ts fs = fold (\<lambda>(t, c). failed t c) ts fs"

lemma failures_simps [simp]:
  "failures [] fs = fs" "failures ((t, c) # ts) fs = failures ts (failed t c fs)"
  "failures (ts @ us) fs = failures us (failures ts fs)"
  by (simp_all add: failures_def)

definition record_of :: "int \<Rightarrow> int \<Rightarrow> nat \<Rightarrow> fail_rec" where
  "record_of t0 t1 n = \<lparr>f_n = int n, f_first = t0,
     f_until = (if n \<ge> 8 then t1 + 60 * second * 2 ^ min (n - 8) 6 else zero_time)\<rparr>"

lemma count_failure_record:
  "count_failure t1 (record_of t0 t n) = record_of t0 t1 (Suc n)"
proof -
  have "nat (min (int n + 1 - 8) 6) = min (Suc n - 8) 6" if "7 \<le> n"
    using that by arith
  then show ?thesis by (auto simp: count_failure_def record_of_def failLimit_def)
qed

lemma first_failure: "count_failure t \<lparr>f_n = 0, f_first = t, f_until = zero_time\<rparr> = record_of t t 1"
  using count_failure_record [of t t t 0] by (simp add: record_of_def)

lemma mget_filter_stale:
  assumes "mkeys_ok fs" and "mget fs k = Some f" and "\<not> stale t f"
  shows "mget (filter (\<lambda>(k, v). \<not> stale t v) fs) k = Some f"
  using assms
  by (simp add: mget_def mkeys_ok_def distinct_map_filter)

lemma failed_ok: "mkeys_ok fs \<Longrightarrow> mkeys_ok (failed t c fs)"
proof -
  assume "mkeys_ok fs"
  then have "mkeys_ok (mput c f fs)" for f by simp
  then show ?thesis using \<open>mkeys_ok fs\<close> by (auto simp: failed_def Let_def mkeys_ok_def distinct_map_filter)
qed

lemma failures_ok: "mkeys_ok fs \<Longrightarrow> mkeys_ok (failures ts fs)"
  by (induction ts arbitrary: fs) (auto simp: failed_ok)

lemma failed_record:
  assumes "\<not> isLoopback c" and "mkeys_ok fs"
    and "mget fs c = None \<and> n = 0 \<and> t0 = t \<or> mget fs c = Some (record_of t0 t' n) \<and> t - t0 \<le> failWindow"
  shows "mget (failed t c fs) c = Some (record_of t0 t (Suc n))"
proof -
  define f0 where "f0 = (case mget fs c of
      Some f \<Rightarrow> if stale t f then \<lparr>f_n = 0, f_first = t, f_until = zero_time\<rparr> else f
    | None \<Rightarrow> \<lparr>f_n = 0, f_first = t, f_until = zero_time\<rparr>)"
  have f: "count_failure t f0 = record_of t0 t (Suc n)"
  proof (cases "mget fs c")
    case None
    then show ?thesis using assms(3) first_failure by (auto simp: f0_def)
  next
    case (Some f)
    then have "f = record_of t0 t' n" "\<not> stale t f"
      using assms(3) by (auto simp: stale_def record_of_def)
    then show ?thesis using Some count_failure_record by (simp add: f0_def)
  qed
  have "\<not> stale t (record_of t0 t (Suc n))"
    using assms(3) by (auto simp: stale_def record_of_def failWindow_def second_def)
  then have "mget (filter (\<lambda>(k, v). \<not> stale t v) (mput c (record_of t0 t (Suc n)) fs)) c
      = Some (record_of t0 t (Suc n))"
    using assms(2) by (intro mget_filter_stale) simp_all
  then show ?thesis using assms(1) f by (simp add: failed_def Let_def flip: f0_def)
qed

lemma failures_record:
  assumes "\<not> isLoopback c" and "mkeys_ok fs" and "mget fs c = None" and "ts \<noteq> []"
    and "\<forall>t \<in> set ts. t - hd ts \<le> failWindow"
  shows "mget (failures (map (\<lambda>t. (t, c)) ts) fs) c = Some (record_of (hd ts) (last ts) (length ts))"
  using assms(4,5)
proof (induction ts rule: rev_induct)
  case (snoc t ts)
  let ?fs = "failures (map (\<lambda>t. (t, c)) ts) fs"
  have ok: "mkeys_ok ?fs" using assms(2) failures_ok by blast
  show ?case
  proof (cases "ts = []")
    case True
    then show ?thesis using failed_record [of c fs 0 t t] assms by simp
  next
    case False
    then have "mget ?fs c = Some (record_of (hd ts) (last ts) (length ts))" "t - hd ts \<le> failWindow"
      using snoc by auto
    then show ?thesis
      using failed_record [of c ?fs "length ts" "hd ts" t "last ts"] assms(1) ok False by simp
  qed
qed simp

text \<open>
  Guessing is slowed down. After \<open>n\<close> failures of a client from elsewhere, the first not
  more than fifteen minutes before the others, it is locked out exactly if \<open>n\<close> is at least
  eight, and then for one minute after the last failure, doubled with every further failure up to
  64 minutes; and this machine is never locked out.
\<close>

theorem lockout_doubles:
  assumes "mkeys_ok fs" and "mget fs client = None" and "ts \<noteq> []"
    and "\<forall>t \<in> set ts. t - hd ts \<le> failWindow" and "0 \<le> now"
  shows "throttled now client (failures (map (\<lambda>t. (t, client)) ts) fs) =
    (let n = length ts; until = last ts + 60 * second * 2 ^ min (n - 8) 6 in
     if \<not> isLoopback client \<and> 8 \<le> n \<and> now < until then Some (until - now) else None)"
proof (cases "isLoopback client")
  case True
  have "failures (map (\<lambda>t. (t, client)) us) fs = fs" for us
    by (induction us) (simp_all add: failed_def True)
  then show ?thesis using True assms(2) by (simp add: throttled_def Let_def)
next
  case False
  have z: "\<not> zero_time > now" using assms(5) by (simp add: zero_time_def second_def)
  show ?thesis
    using failures_record [OF False assms(1-4)] False z
    by (auto simp: throttled_def record_of_def Let_def)
qed

theorem lockout_doubles_witness:
  "throttled (1000 * second) ''x'' (failures (map (\<lambda>t. (t, ''x'')) (replicate 10 (900 * second))) []) = Some (140 * second)"
proof -
  have l: "isLoopback ''x'' = False" by (simp add: isLoopback_def parse_ip_def parse_eval)
  show ?thesis
    using lockout_doubles [where fs = "[]" and client = "''x''" and ts = "replicate 10 (900 * second)" and now = "1000 * second"]
    by (simp add: l failWindow_def second_def)
qed

text \<open>
  The sweep is not a bound. As many clients from elsewhere as fail within fifteen minutes of the
  first of them are all remembered, however many they are: the sweep past ten thousand only removes
  records older than that.
\<close>

lemma mput_new: "c \<notin> mkeys fs \<Longrightarrow> mput c f fs = fs @ [(c, f)]"
  unfolding mput_def by (induction fs) (auto simp: mkeys_def)

lemma failed_recent:
  assumes "\<forall>(k, f) \<in> set fs. t - f_first f \<le> failWindow" and "0 \<le> t - t0" and "t - t0 \<le> failWindow"
    and "\<forall>(k, f) \<in> set fs. t0 \<le> f_first f" and "c \<notin> mkeys fs" and "\<not> isLoopback c"
  shows "\<exists>f. failed t c fs = mput c f fs \<and> f_first f = t"
proof -
  let ?f = "record_of t t 1"
  have m: "set (mput c ?f fs) = insert (c, ?f) (set fs)"
    using assms(5) by (simp add: mput_new)
  have "filter (\<lambda>(k, v). \<not> stale t v) (mput c ?f fs) = mput c ?f fs"
    using assms(1) m by (intro filter_True) (auto simp: stale_def record_of_def failWindow_def second_def)
  then have "failed t c fs = mput c ?f fs"
    using assms(5,6) by (simp add: failed_def Let_def first_failure flip: mget_None_iff)
  then show ?thesis by (auto simp: record_of_def)
qed

theorem failures_unbounded:
  assumes "distinct (map snd ts)" and "\<forall>(t, c) \<in> set ts. t0 \<le> t \<and> t \<le> t0 + failWindow \<and> \<not> isLoopback c"
  shows "length (failures ts []) = length ts"
proof -
  have "length (failures ts []) = length ts \<and> mkeys (failures ts []) = snd ` set ts
      \<and> (\<forall>(k, f) \<in> set (failures ts []). t0 \<le> f_first f \<and> f_first f \<le> t0 + failWindow)"
    using assms
  proof (induction ts rule: rev_induct)
    case (snoc p ts)
    obtain t c where p: "p = (t, c)" by (cases p)
    let ?fs = "failures ts []"
    have ih: "length ?fs = length ts" "mkeys ?fs = snd ` set ts"
      "\<forall>(k, f) \<in> set ?fs. t0 \<le> f_first f \<and> f_first f \<le> t0 + failWindow"
      using snoc by auto
    have c: "c \<notin> mkeys ?fs" using snoc.prems(1) p ih(2) by auto
    obtain f where f: "failed t c ?fs = mput c f ?fs" "f_first f = t"
      using failed_recent [of ?fs t t0 c] ih(3) c snoc.prems(2) p by fastforce
    have m: "set (mput c f ?fs) = insert (c, f) (set ?fs)" "length (mput c f ?fs) = Suc (length ?fs)"
      using c by (simp_all add: mput_new)
    have t: "t0 \<le> t \<and> t \<le> t0 + failWindow" using snoc.prems(2) p by auto
    show ?case using ih f m p t by auto
  qed simp
  then show ?thesis by simp
qed

theorem failures_unbounded_witness:
  "length (failures [(5, ''a''), (6, ''b'')] []) = 2"
proof -
  have "isLoopback ''a'' = False" "isLoopback ''b'' = False"
    by (simp_all add: isLoopback_def parse_ip_def parse_eval)
  then show ?thesis
    using failures_unbounded [where ts = "[(5, ''a''), (6, ''b'')]" and ?t0.0 = 5]
    by (simp add: failWindow_def second_def)
qed

section \<open>Named tokens\<close>

text \<open>
  A scope is looked up by the name of a token, not by the token. A read-only token configured after
  an unrestricted one of the same name is therefore given the admin scope, in a header or at a
  login.
\<close>

theorem same_name_escalates:
  assumes "APITokens cs = [a, b]" and "nt_Name a = nt_Name b" and "nt_Scope a \<noteq> ScopeRead"
    and "nt_Scope b = ScopeRead" and "nt_Token b \<noteq> []" and "nt_Token a \<noteq> nt_Token b" and "APIToken cs \<noteq> nt_Token b"
    and "presented r = nt_Token b" and "rq_cookie r = None"
  shows "(\<exists>usr. fst (authenticateScoped cs now r ss fs) = Some (usr, ScopeAdmin))
    \<and> (\<exists>sid s ss'. login cs now rnd (nt_Token b) client ss = Some (sid, ss') \<and> mget ss' sid = Some s \<and> s_scope s = ScopeAdmin)"
proof -
  have n: "tokenName cs (nt_Token b) = ''token:'' @ nt_Name b"
    using assms(1,5-7) by (auto simp: tokenName_def)
  have s: "scopeOf cs (''token:'' @ nt_Name b) = ScopeAdmin"
    using assms(1-3) by (simp add: scopeOf_def has_prefix_def)
  show ?thesis
    using n s assms(8,9)
    by (auto simp: authenticateScoped_def live_session_def header_name_def login_def add_session_def Let_def)
qed

theorem same_name_escalates_witness:
  "\<exists>usr. fst (authenticateScoped (defaultCore\<lparr>APITokens := [\<lparr>nt_Name = ''ci'', nt_Token = ''a'', nt_Scope = []\<rparr>,
     \<lparr>nt_Name = ''ci'', nt_Token = ''b'', nt_Scope = ScopeRead\<rparr>]\<rparr>) 0 (sample_request ''POST'' ''/api/x'' ''b'') [] [])
     = Some (usr, ScopeAdmin)"
  using same_name_escalates [where cs = "defaultCore\<lparr>APITokens := [\<lparr>nt_Name = ''ci'', nt_Token = ''a'', nt_Scope = []\<rparr>,
     \<lparr>nt_Name = ''ci'', nt_Token = ''b'', nt_Scope = ScopeRead\<rparr>]\<rparr>" and r = "sample_request ''POST'' ''/api/x'' ''b''"
     and now = 0 and ss = "[]" and fs = "[]" and rnd = "[]" and client = "[]"
     and a = "\<lparr>nt_Name = ''ci'', nt_Token = ''a'', nt_Scope = []\<rparr>"
     and b = "\<lparr>nt_Name = ''ci'', nt_Token = ''b'', nt_Scope = ScopeRead\<rparr>"]
  by (simp add: defaultCore_def ScopeRead_def)

text \<open>
  The two places that ask for this machine disagree. With the unnamed token restricted to
  this machine, a loopback address other than 127.0.0.1 and ::1 is refused when it presents the
  token in a header, and let in when it logs in with the same token.
\<close>

theorem loopback_forms_disagree:
  assumes "APIToken cs \<noteq> []" and "APITokenLocalOnly cs" and "isLoopback (rq_client r)" and "\<not> local_client (rq_client r)"
    and "presented r = APIToken cs" and "rq_cookie r = None"
  shows "fst (authenticateScoped cs now r ss fs) = None
    \<and> (\<exists>sid ss'. login cs now rnd (APIToken cs) (rq_client r) ss = Some (sid, ss'))"
proof -
  have "tokenName cs (APIToken cs) = ''token''" using assms(1) by (simp add: tokenName_def)
  then show ?thesis
    using assms
    by (simp add: authenticateScoped_def live_session_def header_name_def login_def anyToken_def Let_def)
qed

theorem loopback_forms_disagree_witness:
  "fst (authenticateScoped (defaultCore\<lparr>APIToken := ''s'', APITokenLocalOnly := True\<rparr>) 0
     (sample_request ''GET'' ''/api/x'' ''s'') [] []) = None"
proof -
  have "isLoopback ''127.0.0.2''"
    by (simp add: isLoopback_def parse_ip_def ip_is_loopback_def to4_def parse_eval as16_def v4_prefix_def)
  then show ?thesis
    using loopback_forms_disagree [where cs = "defaultCore\<lparr>APIToken := ''s'', APITokenLocalOnly := True\<rparr>"
      and r = "sample_request ''GET'' ''/api/x'' ''s''" and now = 0 and ss = "[]" and fs = "[]" and rnd = "[]"]
    by (simp add: defaultCore_def local_client_def)
qed

section \<open>Feeds\<close>

lemma FeedKey_length: "length rnd = 24 \<Longrightarrow> FeedKey rnd k = (want, k') \<Longrightarrow> 32 \<le> length want \<and> k' = Some want"
proof -
  have h: "length (hex_text b) = 2 * length b" for b by (induction b) (simp_all add: hex_text_def hex_byte_def)
  show "length rnd = 24 \<Longrightarrow> FeedKey rnd k = (want, k') \<Longrightarrow> 32 \<le> length want \<and> k' = Some want"
    by (auto simp: FeedKey_def RotateFeedKey_def h split: option.splits if_splits)
qed

text \<open>
  A feed discloses a category list to whoever has the key, and nothing else. The key that
  was presented is the stored one and has at least 32 characters, the name has no separator and
  no dot, the lines are the domains of that category without blanks and comments, and neither a
  session nor a record of failures changes, nor does any handler run.
\<close>

theorem feeds_need_key:
  assumes "ServeHTTP e r s0 = (rep, s1)" and "rp_resp rep = FeedBody name ls" and "length (ae_rnd e) = 24"
  shows "32 \<le> length (rq_key r) \<and> feed_kv s1 = Some (rq_key r) \<and> set name \<inter> {CHR ''/'', CHR ''.'', CHR '' '', CHR 0x5C} = {}
    \<and> (\<exists>ds. ae_domains e (to_lower name) = Some ds \<and> ls = filter (\<lambda>d. d \<noteq> [] \<and> \<not> has_prefix d ''#'') (map trim_space ds))
    \<and> sess s1 = sess s0 \<and> fl s1 = fl s0 \<and> rp_ran rep = None"
proof -
  have no: "rp_resp (serve_route e r p u sc) \<noteq> FeedBody name ls" for p u sc
    by (auto simp: serve_route_def just_def call_handler_def split: option.splits handler_result.splits)
  have no': "serve_api e r p s0 \<noteq> (rep, s1)" for p
    using assms(2) no by (auto simp: serve_api_def just_def split: option.splits prod.splits)
  obtain want k where k: "FeedKey (ae_rnd e) (feed_kv s0) = (want, k)" by (cases "FeedKey (ae_rnd e) (feed_kv s0)")
  have f: "serveFeed (ae_domains e) want (rq_key r) (path_clean (rq_path r)) = Some (name, ls)
    \<and> s1 = s0\<lparr>feed_kv := k\<rparr> \<and> rp_ran rep = None"
  proof (cases "is_read r \<and> has_prefix (path_clean (rq_path r)) ''/feeds/''")
    case True
    then show ?thesis using assms(1,2) k by (auto simp: ServeHTTP_def just_def split: option.splits)
  next
    case False
    then have "rp_resp rep \<noteq> FeedBody name ls"
      using assms(1) no' by (auto simp: ServeHTTP_def just_def Let_def split: if_splits option.splits)
    then show ?thesis using assms(2) by blast
  qed
  then show ?thesis
    using FeedKey_length [OF assms(3) k]
    by (auto simp: serveFeed_def Let_def feed_lines_def list_ex_iff split: if_splits option.splits)
qed

theorem feeds_need_key_witness:
  "rp_ran (fst (ServeHTTP (sample_api []) (sample_request ''GET'' ''/feeds/categories/ads.txt'' []\<lparr>rq_key := hex_text (replicate 24 7)\<rparr>)
     \<lparr>sess = [], fl = [], feed_kv = None\<rparr>)) = None"
proof -
  let ?r = "sample_request ''GET'' ''/feeds/categories/ads.txt'' []\<lparr>rq_key := hex_text (replicate 24 7)\<rparr>"
  have c: "path_clean ''/feeds/categories/ads.txt'' = ''/feeds/categories/ads.txt''"
    by (simp add: path_clean_def)
  have "serveFeed (ae_domains (sample_api [])) (hex_text (replicate 24 7)) (hex_text (replicate 24 7))
      ''/feeds/categories/ads.txt'' = Some (''ads'', [''a.example''])"
    by (simp add: serveFeed_def sample_api_def feed_lines_def trim_prefix_def trim_suffix_def has_prefix_def
        has_suffix_def to_lower_def to_lower_char_def trim_space_def is_space_def)
  then have eq: "ServeHTTP (sample_api []) ?r \<lparr>sess = [], fl = [], feed_kv = None\<rparr>
      = (just (FeedBody ''ads'' [''a.example'']), \<lparr>sess = [], fl = [], feed_kv = Some (hex_text (replicate 24 7))\<rparr>)"
    by (simp add: ServeHTTP_def is_read_def c FeedKey_def RotateFeedKey_def has_prefix_def) (simp add: sample_api_def sample_request_def)
  have "length (ae_rnd (sample_api [])) = 24" by (simp add: sample_api_def)
  with feeds_need_key [OF eq, of "''ads''" "[''a.example'']"] show ?thesis
    by (simp only: eq fst_conv just_def reply.simps)
qed

section \<open>The license gate\<close>

lemma serve_route_refusal:
  assumes "rp_resp (serve_route e r p u sc) = GateRefused g"
  shows "rp_ran (serve_route e r p u sc) = None
    \<and> (\<exists>rt params. find_route (rq_method r) p (ae_routes e) = Some (rt, params) \<and> r_Feature rt \<noteq> []
    \<and> (ae_allowed e (r_Feature rt) = Some g
       \<or> ae_allowed e (r_Feature rt) = None \<and> r_Write rt \<and> ae_expired e \<and> g = ExpiredError (r_Feature rt)))"
proof -
  obtain rt params where f: "find_route (rq_method r) p (ae_routes e) = Some (rt, params)"
    using assms by (auto simp: serve_route_def just_def split: option.splits)
  have "rp_resp (call_handler e r p u ro rt params) \<noteq> GateRefused g" for ro
    by (simp add: call_handler_def split: handler_result.split)
  then show ?thesis
    using assms by (auto simp: serve_route_def f just_def split: if_splits)
qed

lemma serve_api_refusal:
  assumes "serve_api e r p s0 = (rep, s1)" and "rp_resp rep = GateRefused g"
  shows "\<exists>u sc. rep = serve_route e r p u sc"
proof -
  obtain auth fs where a: "authenticateScoped (ae_cs e) (ae_now e) r (sess s0) (fl s0) = (auth, fs)"
    by (cases "authenticateScoped (ae_cs e) (ae_now e) r (sess s0) (fl s0)")
  show ?thesis
    using assms by (auto simp: serve_api_def a just_def split: if_splits option.splits prod.splits)
qed

lemma ServeHTTP_refusal:
  assumes "ServeHTTP e r s0 = (rep, s1)" and "rp_resp rep = GateRefused g"
  shows "\<exists>p. serve_api e r p s0 = (rep, s1)"
proof (rule ccontr)
  assume no: "\<nexists>p. serve_api e r p s0 = (rep, s1)"
  obtain want k where k: "FeedKey (ae_rnd e) (feed_kv s0) = (want, k)"
    by (cases "FeedKey (ae_rnd e) (feed_kv s0)")
  have "rp_resp rep \<noteq> GateRefused g"
    using assms(1) no by (auto simp: ServeHTTP_def k just_def Let_def split: if_splits option.splits)
  with assms(2) show False by blast
qed

text \<open>
  C32: the gate in front of the handlers says what the license says. When the gate itself refuses a request, the
  route that was asked for has a feature and no handler ran; either the present tier does not include that
  feature, and the refusal names a higher tier that does, or the route writes under
  an expired license. Hence Business is refused by the gate only when it has expired. What
  handlers refuse themselves, also with 402, is not the gate's and not part of this.
\<close>

theorem gate_follows_license:
  assumes "lic_ok c m" and "ae_allowed e = Allowed m" and "ae_expired e = lic_expired now m"
    and "ServeHTTP e r s0 = (rep, s1)" and "rp_resp rep = GateRefused g"
  shows "rp_ran rep = None \<and> (\<exists>p rt params. find_route (rq_method r) p (ae_routes e) = Some (rt, params) \<and> r_Feature rt \<noteq> []
      \<and> (Includes (g_required g) (r_Feature rt) \<and> Rank (Tier m) < Rank (g_required g)
            \<and> \<not> Includes (Tier m) (r_Feature rt)
         \<or> r_Write rt \<and> lic_expired now m \<and> g = ExpiredError (r_Feature rt)))
    \<and> (Tier m = TierBusiness \<longrightarrow> lic_expired now m)"
proof -
  obtain p rt params where g: "rp_ran rep = None" "find_route (rq_method r) p (ae_routes e) = Some (rt, params)"
    "r_Feature rt \<noteq> []" and or: "Allowed m (r_Feature rt) = Some g
       \<or> r_Write rt \<and> lic_expired now m \<and> g = ExpiredError (r_Feature rt)"
  proof -
    obtain p where p: "serve_api e r p s0 = (rep, s1)" using ServeHTTP_refusal [OF assms(4,5)] by blast
    then obtain u sc where "rep = serve_route e r p u sc" using serve_api_refusal assms(5) by blast
    then show ?thesis
      using serve_route_refusal [of e r p u sc g] assms(2,3,5) that by auto
  qed
  from or show ?thesis
  proof
    assume a: "Allowed m (r_Feature rt) = Some g"
    have "\<not> Includes (Tier m) (r_Feature rt)" using module.included [OF assms(1)] a by fastforce
    moreover have "Tier m \<noteq> TierBusiness" using module.business_allows_all [OF assms(1)] a by fastforce
    ultimately show ?thesis using module.refusal [OF assms(1) a] g by blast
  qed (use g in blast)
qed

definition gated_route :: route where
  "gated_route = \<lparr>r_Method = ''GET'', r_Path = ''/api/x'', r_Module = [], r_Write = False, r_ReadSafe = True,
     r_Feature = ''telemetry.export''\<rparr>"

definition free_module :: lic_module where
  "free_module = \<lparr>pub = None, installation = ''inst_a'', lic = None, token = [], key = [],
     st = \<lparr>LastRefresh = 0, LastNote = None, Revoked = [], Source = []\<rparr>,
     kv = \<lparr>kv_installation = Some ''inst_a'', kv_token = None, kv_key = None, kv_state = None\<rparr>\<rparr>"

lemma serve_gated:
  "ServeHTTP (sample_api (the (add_route gated_route []))\<lparr>ae_allowed := Allowed free_module\<rparr>)
      (sample_request ''GET'' ''/api/x'' ''s'') empty_state
    = (just (GateRefused (Locked ''Telemetry export'' ''telemetry.export'' TierBusiness TierCommunity)), empty_state)"
proof -
  let ?e = "sample_api (the (add_route gated_route []))\<lparr>ae_allowed := Allowed free_module\<rparr>"
  let ?r = "sample_request ''GET'' ''/api/x'' ''s''"
  have p: "path_clean ''/api/x'' = ''/api/x''" by (simp add: path_clean_def)
  have a: "allowed (ae_cs ?e) ''127.0.0.2''" by (simp add: allowed_def sample_api_def defaultCore_def)
  have l: "\<not> HTTPLocalOnly (ae_cs ?e)" by (simp add: sample_api_def defaultCore_def)
  have auth: "authenticateScoped (ae_cs ?e) (ae_now ?e) ?r [] [] = (Some (''token'', ScopeAdmin), [])"
    by (simp add: authenticateScoped_def live_session_def header_name_def tokenName_def sample_api_def defaultCore_def
        scopeOf_def has_prefix_def local_client_def)
  have f: "find_route ''GET'' ''/api/x'' (ae_routes ?e) = Some (gated_route, [])"
    by (simp add: find_route_def sample_api_def add_route_def gated_route_def mget_def mput_def to_upper_def to_upper_char_def)
  have g: "Allowed free_module ''telemetry.export'' = Some (Locked ''Telemetry export'' ''telemetry.export'' TierBusiness TierCommunity)"
    by (simp add: Allowed_def free_module_def Tier_def LockedError_def FeatureTier_def Features_def mk_feature_def
        feature_title_def Rank_def tierRank_def TierBusiness_def TierCommunity_def TierPro_def)
  have "serve_route ?e ?r ''/api/x'' ''token'' ScopeAdmin
      = just (GateRefused (Locked ''Telemetry export'' ''telemetry.export'' TierBusiness TierCommunity))"
    using f by (simp add: serve_route_def ScopeAdmin_def ScopeRead_def too_large_def is_read_def g gated_route_def)
  then show ?thesis
    using a auth l by (simp add: ServeHTTP_def serve_api_def p empty_state_def is_read_def throttled_def has_prefix_def)
qed

theorem gate_follows_license_witness:
  "\<exists>p rt params. find_route ''GET'' p (the (add_route gated_route [])) = Some (rt, params)
     \<and> \<not> Includes (Tier free_module) (r_Feature rt)"
proof -
  have "lic_ok sample_crypto free_module"
    using verify_Nil [of sample_crypto free_module] by (auto simp: lic_ok_def free_module_def text_of_def)
  from gate_follows_license [OF this _ _ serve_gated, where now = 0] show ?thesis
    by (auto simp: just_def lic_expired_def free_module_def sample_api_def)
qed

end
