(* ===== verification/Delivery.thy ===== *)
theory Delivery
  imports GoText
begin

text \<open>
  \<^verbatim>\<open>internal/modules/alerting/delivery.go\<close>: sending one message through one channel, with its rate
  limit, duplicate window, retries and log. A channel's \<^verbatim>\<open>Send\<close>, the context and the clock
  are parameters of a delivery.
\<close>

section \<open>Data\<close>

record device_info =
  dev_IP :: string
  dev_MAC :: string
  dev_Name :: string
  dev_Zone :: string

record message =
  msg_Timestamp :: int
  msg_Title :: string
  msg_Severity :: string
  msg_Module :: string
  msg_Category :: string
  msg_Evidence :: "string list"
  msg_Device :: "device_info option"
  msg_Zone :: string
  msg_AlertKey :: string
  msg_Body :: string
  msg_Link :: string
  msg_RuleID :: string

record channel =
  ch_Name :: string
  ch_Type :: string
  ch_Enabled :: bool
  ch_Config :: "(string, string) gomap"

record attempt =
  at_Timestamp :: int
  at_ChannelID :: string
  at_AlertKey :: string
  at_Severity :: string
  at_Title :: string
  at_Success :: bool
  at_LatencyMs :: int
  at_Error :: string
  at_RetryCount :: nat

record delivery_engine =
  rateLimits :: "(string, int) gomap"
  deliveryLog :: "(string, attempt list) gomap"
  deliveryLogSize :: int

definition NewDeliveryEngine :: "int \<Rightarrow> delivery_engine" where
  "NewDeliveryEngine n =
     \<lparr>rateLimits = [], deliveryLog = [], deliveryLogSize = (if n \<le> 0 then 200 else n)\<rparr>"

text \<open>
  The surroundings of one delivery: the clock at each place that reads it (in seconds), what the
  \<open>n\<close>-th call of \<^verbatim>\<open>Send\<close> answers (its latency, and \<^const>\<open>None\<close> for no error), and whether the
  context is done before the \<open>n\<close>-th call or during the wait after it.
\<close>

record deliver_env =
  dv_start :: int
  dv_limit_at :: int
  dv_dup_at :: int
  dv_sent_at :: int
  dv_send :: "nat \<Rightarrow> int \<times> string option"
  dv_done :: "nat \<Rightarrow> bool"
  dv_wait_done :: "nat \<Rightarrow> bool"

section \<open>Operations\<close>

text \<open>\<^verbatim>\<open>fmt.Sscanf\<close> with \<^verbatim>\<open>%d\<close>: the number at the head of a text, and what follows it.\<close>

definition scan_d :: "string \<Rightarrow> (int \<times> string) option" where
  "scan_d s0 =
     (let s = dropWhile (\<lambda>c. is_space c \<and> c \<noteq> CHR 0x0A) s0;
          (neg, t) = (case s of [] \<Rightarrow> (False, [])
            | c # r \<Rightarrow> if c = CHR ''-'' then (True, r) else if c = CHR ''+'' then (False, r) else (False, s));
          ds = takeWhile is_digit t
      in if ds = [] then None
         else (let v = (if neg then - int (undec ds) else int (undec ds)) in
           if - (2 ^ 63) \<le> v \<and> v < 2 ^ 63 then Some (v, dropWhile is_digit t) else None))"

definition limit_key :: "string \<Rightarrow> string \<Rightarrow> string" where
  "limit_key ch k = ch @ '':'' @ k"

definition last_send :: "string \<Rightarrow> string \<Rightarrow> delivery_engine \<Rightarrow> int" where
  "last_send ch k e = (case mget (rateLimits e) (limit_key ch k) of Some t \<Rightarrow> t | None \<Rightarrow> 0)"

definition limit_minutes :: "string \<Rightarrow> int" where
  "limit_minutes s = (case scan_d s of Some (n, _) \<Rightarrow> n | None \<Rightarrow> 0)"

definition CheckRateLimit :: "int \<Rightarrow> string \<Rightarrow> string \<Rightarrow> string \<Rightarrow> delivery_engine \<Rightarrow> bool" where
  "CheckRateLimit now ch k minutesStr e =
     (if minutesStr = [] then True
      else (let minutes = limit_minutes minutesStr in
        if minutes \<le> 0 then True else now - last_send ch k e \<ge> i64 (minutes * 60)))"

definition IsDuplicate :: "int \<Rightarrow> string \<Rightarrow> string \<Rightarrow> delivery_engine \<Rightarrow> bool" where
  "IsDuplicate now ch k e \<longleftrightarrow> now - last_send ch k e < 600"

definition RecordSend :: "int \<Rightarrow> string \<Rightarrow> string \<Rightarrow> delivery_engine \<Rightarrow> delivery_engine" where
  "RecordSend now ch k e = e\<lparr>rateLimits := mput (limit_key ch k) now (rateLimits e)\<rparr>"

definition log_of :: "delivery_engine \<Rightarrow> string \<Rightarrow> attempt list" where
  "log_of e ch = (case mget (deliveryLog e) ch of Some l \<Rightarrow> l | None \<Rightarrow> [])"

definition logAttempt :: "string \<Rightarrow> attempt \<Rightarrow> delivery_engine \<Rightarrow> delivery_engine" where
  "logAttempt ch a e =
     (let l = log_of e ch @ [a];
          l' = (if int (length l) > deliveryLogSize e then drop (nat (int (length l) - deliveryLogSize e)) l else l)
      in e\<lparr>deliveryLog := mput ch l' (deliveryLog e)\<rparr>)"

text \<open>The retries, over the calls still to make; the result says whether the message was sent.\<close>

fun retry_loop :: "deliver_env \<Rightarrow> nat list \<Rightarrow> attempt \<Rightarrow> attempt \<times> bool" where
  "retry_loop v [] a =
     (a\<lparr>at_Success := False, at_Error := (if at_Error a = [] then ''all retries failed'' else at_Error a),
        at_RetryCount := 3\<rparr>, False)"
| "retry_loop v (n # ns) a =
     (if dv_done v n then (a\<lparr>at_Success := False, at_Error := ''context cancelled'', at_RetryCount := n\<rparr>, False)
      else (case dv_send v n of
          (ms, None) \<Rightarrow> (a\<lparr>at_LatencyMs := ms, at_Success := True, at_Error := [], at_RetryCount := n\<rparr>, True)
        | (ms, Some err) \<Rightarrow>
            if n < 2 then
              (let a' = a\<lparr>at_LatencyMs := ms, at_Error := err\<rparr> in
               if dv_wait_done v n
               then (a'\<lparr>at_Success := False, at_Error := ''context cancelled on retry'', at_RetryCount := n\<rparr>, False)
               else retry_loop v ns a')
            else retry_loop v ns (a\<lparr>at_LatencyMs := ms\<rparr>)))"

definition new_attempt :: "deliver_env \<Rightarrow> channel \<Rightarrow> message \<Rightarrow> attempt" where
  "new_attempt v ch m = \<lparr>at_Timestamp = dv_start v, at_ChannelID = ch_Name ch, at_AlertKey = msg_AlertKey m,
     at_Severity = msg_Severity m, at_Title = msg_Title m, at_Success = False, at_LatencyMs = 0, at_Error = [],
     at_RetryCount = 0\<rparr>"

definition config_of :: "channel \<Rightarrow> string \<Rightarrow> string" where
  "config_of ch k = (case mget (ch_Config ch) k of Some s \<Rightarrow> s | None \<Rightarrow> [])"

definition may_send :: "deliver_env \<Rightarrow> channel \<Rightarrow> message \<Rightarrow> delivery_engine \<Rightarrow> bool" where
  "may_send v ch m e \<longleftrightarrow>
     CheckRateLimit (dv_limit_at v) (ch_Name ch) (msg_AlertKey m) (config_of ch ''rate_limit_minutes'') e
     \<and> \<not> IsDuplicate (dv_dup_at v) (ch_Name ch) (msg_AlertKey m) e"

definition Deliver :: "deliver_env \<Rightarrow> channel \<Rightarrow> message \<Rightarrow> delivery_engine \<Rightarrow> attempt \<times> delivery_engine" where
  "Deliver v ch m e =
     (let a = new_attempt v ch m in
      if \<not> CheckRateLimit (dv_limit_at v) (ch_Name ch) (msg_AlertKey m) (config_of ch ''rate_limit_minutes'') e then
        (let a' = a\<lparr>at_Error := ''rate limited''\<rparr> in (a', logAttempt (ch_Name ch) a' e))
      else if IsDuplicate (dv_dup_at v) (ch_Name ch) (msg_AlertKey m) e then
        (let a' = a\<lparr>at_Error := ''duplicate (same alert within dedup window)''\<rparr> in (a', logAttempt (ch_Name ch) a' e))
      else (case retry_loop v [0, 1, 2] a of
          (a', sent) \<Rightarrow>
            (let e' = logAttempt (ch_Name ch) a' e
             in (a', if sent then RecordSend (dv_sent_at v) (ch_Name ch) (msg_AlertKey m) e' else e'))))"

text \<open>A limit that is not positive, or more than there are, is taken for all of them.\<close>

definition GetDeliveryLog :: "string \<Rightarrow> int \<Rightarrow> delivery_engine \<Rightarrow> attempt list" where
  "GetDeliveryLog ch limit e =
     (let l = log_of e ch; n = (if limit \<le> 0 \<or> limit > int (length l) then int (length l) else limit)
      in drop (nat (int (length l) - n)) l)"

definition GetAllDeliveryLogs :: "int \<Rightarrow> delivery_engine \<Rightarrow> (string, attempt list) gomap" where
  "GetAllDeliveryLogs limit e =
     map (\<lambda>(ch, l). (ch, if limit \<le> 0 \<or> limit > int (length l) then l else drop (nat (int (length l) - limit)) l))
       (deliveryLog e)"

definition CleanupExpired :: "int \<Rightarrow> delivery_engine \<Rightarrow> delivery_engine" where
  "CleanupExpired now e = e\<lparr>rateLimits := filter (\<lambda>(k, t). \<not> now - t > 24 * 60 * 60) (rateLimits e)\<rparr>"

definition ClearDeliveryLog :: "int \<Rightarrow> delivery_engine \<Rightarrow> delivery_engine" where
  "ClearDeliveryLog now e =
     e\<lparr>deliveryLog := map (\<lambda>(ch, l). (ch, filter (\<lambda>a. now - at_Timestamp a \<le> 7 * 24 * 60 * 60) l)) (deliveryLog e)\<rparr>"

section \<open>Bounded logs\<close>

text \<open>
  What a log that keeps the last entries of each key promises: appending to one key shifts its
  oldest entry out and touches no other.
\<close>

definition last_n :: "nat \<Rightarrow> 'a list \<Rightarrow> 'a list" where
  "last_n n xs = drop (length xs - n) xs"

lemma length_last_n [simp]: "length (last_n n xs) = min n (length xs)"
  by (simp add: last_n_def)

lemma last_n_all [simp]: "length xs \<le> n \<Longrightarrow> last_n n xs = xs"
  by (simp add: last_n_def)

lemma last_n_snoc [simp]: "last_n n (last_n n xs @ ys) = last_n n (xs @ ys)"
proof (cases "length xs \<le> n")
  case False
  then have "drop (length xs - n) (xs @ ys) = drop (length xs - n) xs @ ys" by simp
  moreover have "last_n n (drop (length xs - n) (xs @ ys)) = last_n n (xs @ ys)"
    using False by (simp add: last_n_def) (metis add.commute)
  ultimately show ?thesis using False by (simp add: last_n_def)
qed simp

locale bounded_log =
  fixes entries :: "'s \<Rightarrow> 'k \<Rightarrow> 'a list"
    and push :: "'k \<Rightarrow> 'a \<Rightarrow> 's \<Rightarrow> 's"
    and bound :: "'s \<Rightarrow> nat"
  assumes push_same: "entries (push k a s) k = last_n (bound s) (entries s k @ [a])"
    and push_other: "k' \<noteq> k \<Longrightarrow> entries (push k a s) k' = entries s k'"
    and push_bound: "bound (push k a s) = bound s"
begin

lemma pushes_bound: "bound (fold (\<lambda>(k, a). push k a) xs s) = bound s"
  by (induction xs arbitrary: s) (auto simp: push_bound)

lemma recent_history:
  assumes "length (entries s k) \<le> bound s"
  shows "entries (fold (\<lambda>(k, a). push k a) xs s) k
    = last_n (bound s) (entries s k @ map snd (filter (\<lambda>p. fst p = k) xs))"
proof (induction xs rule: rev_induct)
  case Nil
  then show ?case using assms by simp
next
  case (snoc p xs)
  obtain k' a where p: "p = (k', a)" by (cases p)
  show ?case
  proof (cases "k' = k")
    case True
    then show ?thesis using snoc p by (simp add: push_same pushes_bound flip: append_assoc)
  next
    case False
    then show ?thesis using snoc p by (simp add: push_other)
  qed
qed

lemma stays_bounded:
  "length (entries s k) \<le> bound s \<Longrightarrow> length (entries (push k' a s) k) \<le> bound (push k' a s)"
  by (cases "k' = k") (auto simp: push_same push_other push_bound)

end

lemma last_n_drop: "int (length l) > n \<Longrightarrow> drop (nat (int (length l) - n)) l = last_n (nat n) l"
  by (cases "n \<ge> 0") (auto simp: last_n_def nat_diff_distrib)

interpretation dlog: bounded_log log_of logAttempt "\<lambda>e. nat (deliveryLogSize e)"
proof
  fix k a and s :: delivery_engine
  let ?l = "log_of s k @ [a]"
  have "log_of (logAttempt k a s) k = (if int (length ?l) > deliveryLogSize s
      then drop (nat (int (length ?l) - deliveryLogSize s)) ?l else ?l)"
    by (simp only: logAttempt_def Let_def) (simp add: log_of_def del: length_append)
  moreover have "\<not> int (length ?l) > deliveryLogSize s \<Longrightarrow> last_n (nat (deliveryLogSize s)) ?l = ?l"
    by (rule last_n_all) linarith
  moreover have "int (length ?l) > deliveryLogSize s \<Longrightarrow>
      drop (nat (int (length ?l) - deliveryLogSize s)) ?l = last_n (nat (deliveryLogSize s)) ?l"
    by (rule last_n_drop)
  ultimately show "log_of (logAttempt k a s) k = last_n (nat (deliveryLogSize s)) ?l" by presburger
qed (simp_all add: logAttempt_def log_of_def Let_def)

section \<open>What a delivery does\<close>

text \<open>The calls that were made until the first that succeeded, if one did.\<close>

definition first_ok :: "deliver_env \<Rightarrow> nat option" where
  "first_ok v = find (\<lambda>n. snd (dv_send v n) = None) [0, 1, 2]"

definition error_text :: "deliver_env \<Rightarrow> nat \<Rightarrow> string" where
  "error_text v n = (case snd (dv_send v n) of Some e \<Rightarrow> e | None \<Rightarrow> [])"

lemma retry_outcome:
  assumes "\<And>n. \<not> dv_done v n \<and> \<not> dv_wait_done v n"
  shows "retry_loop v [0, 1, 2] a = (case first_ok v of
      Some n \<Rightarrow> (a\<lparr>at_LatencyMs := fst (dv_send v n), at_Success := True, at_Error := [], at_RetryCount := n\<rparr>, True)
    | None \<Rightarrow> (a\<lparr>at_LatencyMs := fst (dv_send v 2), at_Success := False, at_RetryCount := 3,
        at_Error := (if error_text v 1 = [] then ''all retries failed'' else error_text v 1)\<rparr>, False))"
  using assms
  by (cases "dv_send v 0"; cases "dv_send v 1"; cases "dv_send v 2")
    (auto simp: first_ok_def error_text_def split: option.splits)

lemma log_of_record [simp]: "log_of (RecordSend t ch k e) = log_of e"
  by (simp add: RecordSend_def log_of_def fun_eq_iff)

lemma limits_logAttempt [simp]: "rateLimits (logAttempt ch a e) = rateLimits e"
  by (simp add: logAttempt_def Let_def)

lemma last_send_logAttempt [simp]: "last_send ch k (logAttempt ch' a e) = last_send ch k e"
  by (simp add: last_send_def)

lemma last_send_record:
  "last_send ch k (RecordSend t ch' k' e) = (if limit_key ch k = limit_key ch' k' then t else last_send ch k e)"
  by (simp add: last_send_def RecordSend_def)

lemma Deliver_log: "log_of (snd (Deliver v ch m e)) = log_of (logAttempt (ch_Name ch) (fst (Deliver v ch m e)) e)"
  by (auto simp: Deliver_def Let_def split: prod.split)

lemma retry_success: "at_Success (fst (retry_loop v ns a)) = snd (retry_loop v ns a)"
  by (induction v ns a rule: retry_loop.induct) (simp_all add: Let_def split: prod.split option.split)

text \<open>What an attempt is about, however it goes.\<close>

lemma retry_about:
  "at_ChannelID (fst (retry_loop v ns a)) = at_ChannelID a \<and> at_AlertKey (fst (retry_loop v ns a)) = at_AlertKey a
    \<and> at_Severity (fst (retry_loop v ns a)) = at_Severity a \<and> at_Title (fst (retry_loop v ns a)) = at_Title a"
  by (induction v ns a rule: retry_loop.induct) (simp_all add: Let_def split: prod.split option.split)

declare retry_loop.simps [simp del]

lemma Deliver_about:
  "at_ChannelID (fst (Deliver v ch m e)) = ch_Name ch \<and> at_AlertKey (fst (Deliver v ch m e)) = msg_AlertKey m
    \<and> at_Severity (fst (Deliver v ch m e)) = msg_Severity m \<and> at_Title (fst (Deliver v ch m e)) = msg_Title m"
  using retry_about [of v "[0, 1, 2]" "new_attempt v ch m"]
  by (simp add: Deliver_def new_attempt_def Let_def case_prod_unfold)

lemma Deliver_limits:
  "rateLimits (snd (Deliver v ch m e)) = (if at_Success (fst (Deliver v ch m e))
     then mput (limit_key (ch_Name ch) (msg_AlertKey m)) (dv_sent_at v) (rateLimits e) else rateLimits e)"
  using retry_success [of v "[0, 1, 2]" "new_attempt v ch m"]
  by (auto simp: Deliver_def Let_def RecordSend_def new_attempt_def split: prod.split)

lemma Deliver_success_may: "at_Success (fst (Deliver v ch m e)) \<Longrightarrow> may_send v ch m e"
  by (auto simp: Deliver_def Let_def may_send_def new_attempt_def split: if_splits)

text \<open>
  What a delivery does. With a context that is not cancelled a message is sent exactly if it is
  neither limited nor a duplicate and one of three calls succeeds; then the number of retries is
  that of the calls that failed and the time is recorded under the channel and the alert's key.
  Otherwise nothing is recorded, and in every case the attempt enters the channel's log.
\<close>

theorem delivery_outcome:
  assumes "\<And>n. \<not> dv_done v n \<and> \<not> dv_wait_done v n" and "Deliver v ch m e = (a, e')"
  shows "(at_Success a \<longleftrightarrow> may_send v ch m e \<and> (\<exists>n < 3. snd (dv_send v n) = None))
    \<and> (at_Success a \<longrightarrow> snd (dv_send v (at_RetryCount a)) = None \<and> at_RetryCount a < 3 \<and> at_Error a = []
        \<and> (\<forall>i < at_RetryCount a. snd (dv_send v i) \<noteq> None))
    \<and> rateLimits e' = (if at_Success a then mput (limit_key (ch_Name ch) (msg_AlertKey m)) (dv_sent_at v) (rateLimits e)
        else rateLimits e)
    \<and> log_of e' (ch_Name ch) = last_n (nat (deliveryLogSize e)) (log_of e (ch_Name ch) @ [a])"
proof -
  have l3: "(\<exists>n < 3. P n) \<longleftrightarrow> P 0 \<or> P 1 \<or> P 2" for P :: "nat \<Rightarrow> bool"
    by (auto simp: less_Suc_eq numeral_eq_Suc)
  have less: "(i :: nat) < 1 \<longleftrightarrow> i = 0" "(i :: nat) < 2 \<longleftrightarrow> i = 0 \<or> i = 1" for i by auto
  have l: "log_of e' (ch_Name ch) = last_n (nat (deliveryLogSize e)) (log_of e (ch_Name ch) @ [a])"
    using Deliver_log [of v ch m e] assms(2) by (simp add: dlog.push_same)
  have lim: "rateLimits e' = (if at_Success a
      then mput (limit_key (ch_Name ch) (msg_AlertKey m)) (dv_sent_at v) (rateLimits e) else rateLimits e)"
    using Deliver_limits [of v ch m e] assms(2) by simp
  show ?thesis
  proof (cases "may_send v ch m e")
    case True
    define r where "r = fst (retry_loop v [0, 1, 2] (new_attempt v ch m))"
    have "a = r"
      using assms(2) True by (simp add: Deliver_def may_send_def Let_def r_def split: prod.splits)
    moreover have "(at_Success r \<longleftrightarrow> (\<exists>n < 3. snd (dv_send v n) = None))
      \<and> (at_Success r \<longrightarrow> snd (dv_send v (at_RetryCount r)) = None \<and> at_RetryCount r < 3 \<and> at_Error r = []
        \<and> (\<forall>i < at_RetryCount r. snd (dv_send v i) \<noteq> None))"
      unfolding r_def retry_outcome [OF assms(1)] l3
      by (auto simp: first_ok_def less)
    ultimately show ?thesis using True l lim by simp
  next
    case False
    then have "\<not> at_Success a" using Deliver_success_may [of v ch m e] assms(2) by auto
    then show ?thesis using False l lim by simp
  qed
qed

definition plain_env :: "int \<Rightarrow> (nat \<Rightarrow> int \<times> string option) \<Rightarrow> deliver_env" where
  "plain_env now f = \<lparr>dv_start = now, dv_limit_at = now, dv_dup_at = now, dv_sent_at = now, dv_send = f,
     dv_done = (\<lambda>_. False), dv_wait_done = (\<lambda>_. False)\<rparr>"

definition mail_channel :: channel where
  "mail_channel = \<lparr>ch_Name = ''ops'', ch_Type = ''smtp'', ch_Enabled = True, ch_Config = [(''rate_limit_minutes'', ''5'')]\<rparr>"

definition sample_message :: message where
  "sample_message = \<lparr>msg_Timestamp = 0, msg_Title = ''disk full'', msg_Severity = ''high'', msg_Module = ''system'',
     msg_Category = ''notification'', msg_Evidence = [], msg_Device = None, msg_Zone = [], msg_AlertKey = ''k'', msg_Body = [],
     msg_Link = [], msg_RuleID = []\<rparr>"

lemma limit_5 [simp]: "limit_minutes ''5'' = 5"
  by (simp add: limit_minutes_def scan_d_def is_space_def is_digit_def undec_def digit_val_def)

lemma new_engine [simp]:
  "log_of (NewDeliveryEngine n) ch = []" "deliveryLogSize (NewDeliveryEngine n) = (if n \<le> 0 then 200 else n)"
  "last_send ch k (NewDeliveryEngine n) = 0" "rateLimits (NewDeliveryEngine n) = []"
  by (simp_all add: NewDeliveryEngine_def log_of_def last_send_def)

theorem delivery_outcome_witness:
  "\<exists>a. fst (Deliver (plain_env 100000 (\<lambda>n. (3, if n = 0 then Some ''timeout'' else None))) mail_channel sample_message
      (NewDeliveryEngine 0)) = a \<and> at_Success a"
proof -
  let ?v = "plain_env 100000 (\<lambda>n. (3, if n = 0 then Some ''timeout'' else None))"
  obtain a e' where d: "Deliver ?v mail_channel sample_message (NewDeliveryEngine 0) = (a, e')" by fastforce
  have "may_send ?v mail_channel sample_message (NewDeliveryEngine 0)"
    by (simp add: may_send_def CheckRateLimit_def IsDuplicate_def config_of_def mail_channel_def plain_env_def mget_def i64_def)
  moreover have "\<exists>n < 3. snd (dv_send ?v n) = None" by (rule exI [of _ 1]) (simp add: plain_env_def)
  moreover have "\<not> dv_done ?v n \<and> \<not> dv_wait_done ?v n" for n by (simp add: plain_env_def)
  ultimately show ?thesis using delivery_outcome [OF _ d] d by simp
qed

text \<open>
  What the log of a channel says when the message did not get through: the error of the second
  call, whatever the third, and last, one answered.
\<close>

theorem last_error_lost:
  assumes "\<And>n. \<not> dv_done v n \<and> \<not> dv_wait_done v n" and "may_send v ch m e"
    and "snd (dv_send v 0) = Some e0" and "snd (dv_send v 1) = Some e1" and "snd (dv_send v 2) = Some e2" and "e1 \<noteq> []"
  shows "at_Error (fst (Deliver v ch m e)) = e1"
proof -
  have "fst (Deliver v ch m e) = fst (retry_loop v [0, 1, 2] (new_attempt v ch m))"
    using assms(2) by (simp add: Deliver_def may_send_def Let_def split: prod.split)
  then show ?thesis
    using assms(3-6) unfolding retry_outcome [OF assms(1)] by (simp add: first_ok_def error_text_def)
qed

theorem last_error_lost_witness:
  "at_Error (fst (Deliver (plain_env 100000 (\<lambda>n. (3, Some (if n = 2 then ''refused'' else ''timeout'')))) mail_channel sample_message
      (NewDeliveryEngine 0))) = ''timeout''"
proof -
  let ?v = "plain_env 100000 (\<lambda>n. (3, Some (if n = 2 then ''refused'' else ''timeout'')))"
  have "may_send ?v mail_channel sample_message (NewDeliveryEngine 0)"
    by (simp add: may_send_def CheckRateLimit_def IsDuplicate_def config_of_def mail_channel_def plain_env_def mget_def i64_def)
  then show ?thesis
    using last_error_lost [of ?v mail_channel sample_message "NewDeliveryEngine 0" "''timeout''" "''timeout''" "''refused''"]
    by (simp add: plain_env_def)
qed

section \<open>Sequences of deliveries\<close>

fun deliver_all :: "(deliver_env \<times> channel \<times> message) list \<Rightarrow> delivery_engine \<Rightarrow> attempt list \<times> delivery_engine" where
  "deliver_all [] e = ([], e)"
| "deliver_all ((v, ch, m) # ops) e =
     (let (a, e1) = Deliver v ch m e; (as, e2) = deliver_all ops e1 in (a # as, e2))"

lemma Deliver_channel: "at_ChannelID (fst (Deliver v ch m e)) = ch_Name ch"
proof -
  have "at_ChannelID (fst (retry_loop v ns a)) = at_ChannelID a" for ns a
    by (induction v ns a rule: retry_loop.induct) (simp_all add: retry_loop.simps Let_def split: prod.split option.split)
  then show ?thesis
    by (auto simp: Deliver_def Let_def new_attempt_def split: prod.split)
      (metis (no_types, lifting) attempt.select_convs(2) fst_conv)+
qed

lemma Deliver_size: "deliveryLogSize (snd (Deliver v ch m e)) = deliveryLogSize e"
  by (auto simp: Deliver_def Let_def RecordSend_def logAttempt_def split: prod.split)

lemma deliver_all_log:
  assumes "deliver_all ops e = (as, e')" and "length (log_of e c) \<le> nat (deliveryLogSize e)"
  shows "log_of e' c = last_n (nat (deliveryLogSize e)) (log_of e c @ filter (\<lambda>a. at_ChannelID a = c) as)"
  using assms
proof (induction ops arbitrary: e as)
  case (Cons op ops)
  obtain v ch m where op: "op = (v, ch, m)" by (cases op)
  obtain a e1 where d: "Deliver v ch m e = (a, e1)" by fastforce
  obtain as' where r: "deliver_all ops e1 = (as', e')" and as: "as = a # as'"
    using Cons.prems(1) op d by (auto split: prod.splits)
  have n: "deliveryLogSize e1 = deliveryLogSize e" using Deliver_size [of v ch m e] d by simp
  have l: "log_of e1 = log_of (logAttempt (ch_Name ch) a e)" using Deliver_log [of v ch m e] d by simp
  have c: "at_ChannelID a = ch_Name ch" using Deliver_channel [of v ch m e] d by simp
  have "log_of e1 c = last_n (nat (deliveryLogSize e)) (log_of e c @ filter (\<lambda>a. at_ChannelID a = c) [a])"
    using Cons.prems(2) by (simp add: l c dlog.push_same dlog.push_other)
  moreover have "length (log_of e1 c) \<le> nat (deliveryLogSize e1)"
    unfolding calculation n by simp
  ultimately show ?case using Cons.IH [OF r] n as by simp
qed simp

text \<open>
  C34: the log of a channel is its recent history: after any sequence of deliveries it holds exactly the
  last attempts on that channel, oldest first, as many as the size the engine was made with, or 200.
\<close>

theorem log_is_recent_history:
  assumes "deliver_all ops (NewDeliveryEngine n) = (as, e)"
  shows "log_of e c = last_n (if n \<le> 0 then 200 else nat n) (filter (\<lambda>a. at_ChannelID a = c) as)
    \<and> GetDeliveryLog c 0 e = log_of e c"
proof -
  have "log_of e c = last_n (if n \<le> 0 then 200 else nat n) (filter (\<lambda>a. at_ChannelID a = c) as)"
    using deliver_all_log [OF assms, of c] by (auto split: if_splits)
  then show ?thesis by (simp add: GetDeliveryLog_def Let_def)
qed

theorem log_is_recent_history_witness:
  "log_of (snd (deliver_all [(plain_env 100000 (\<lambda>_. (3, None)), mail_channel, sample_message)] (NewDeliveryEngine 1))) ''web'' = []"
proof -
  obtain as e where d: "deliver_all [(plain_env 100000 (\<lambda>_. (3, None)), mail_channel, sample_message)] (NewDeliveryEngine 1) = (as, e)"
    by fastforce
  then have "filter (\<lambda>a. at_ChannelID a = ''web'') as = []"
    using Deliver_channel [of "plain_env 100000 (\<lambda>_. (3, None))" mail_channel sample_message "NewDeliveryEngine 1"]
    by (auto split: prod.splits simp: mail_channel_def)
  then show ?thesis using log_is_recent_history [OF d, of "''web''"] d by simp
qed

lemma Deliver_last_send:
  "t \<le> last_send c k e \<Longrightarrow> t \<le> dv_sent_at v \<Longrightarrow> t \<le> last_send c k (snd (Deliver v ch m e))"
  using Deliver_limits [of v ch m e] by (auto simp: last_send_def)

lemma deliver_all_last_send:
  "t \<le> last_send c k e \<Longrightarrow> \<forall>(v, ch, m) \<in> set ops. t \<le> dv_sent_at v \<Longrightarrow> t \<le> last_send c k (snd (deliver_all ops e))"
proof (induction ops arbitrary: e)
  case (Cons op ops)
  obtain v ch m where op: "op = (v, ch, m)" by (cases op)
  have "t \<le> last_send c k (snd (Deliver v ch m e))" using Cons.prems op by (intro Deliver_last_send) auto
  moreover have "\<forall>(v, ch, m) \<in> set ops. t \<le> dv_sent_at v" using Cons.prems(2) by auto
  ultimately have "t \<le> last_send c k (snd (deliver_all ops (snd (Deliver v ch m e))))" by (rule Cons.IH)
  then show ?case using op by (auto split: prod.split)
qed simp

text \<open>
  The same alert is not sent twice in a row. Between two deliveries of one alert through one
  channel that both succeed, whatever was delivered between them, ten minutes pass, and the minutes of
  the channel's rate limit if it has one.
\<close>

theorem resend_waits:
  assumes "Deliver v1 c1 m1 e0 = (a1, e1)" and "at_Success a1"
    and "\<forall>(v, ch, m) \<in> set ops. dv_sent_at v1 \<le> dv_sent_at v"
    and "Deliver v2 c2 m2 (snd (deliver_all ops e1)) = (a2, e3)" and "at_Success a2"
    and "ch_Name c2 = ch_Name c1" and "msg_AlertKey m2 = msg_AlertKey m1"
  shows "dv_sent_at v1 + 600 \<le> dv_dup_at v2
    \<and> (let n = limit_minutes (config_of c2 ''rate_limit_minutes'') in
       0 < n \<and> n < 2 ^ 50 \<longrightarrow> dv_sent_at v1 + n * 60 \<le> dv_limit_at v2)"
proof -
  let ?e = "snd (deliver_all ops e1)" and ?s = "config_of c2 ''rate_limit_minutes''"
  have "last_send (ch_Name c1) (msg_AlertKey m1) e1 = dv_sent_at v1"
    using Deliver_limits [of v1 c1 m1 e0] assms(1,2) by (simp add: last_send_def)
  then have l: "dv_sent_at v1 \<le> last_send (ch_Name c1) (msg_AlertKey m1) ?e"
    using assms(3) by (intro deliver_all_last_send) simp_all
  have m: "may_send v2 c2 m2 ?e" using Deliver_success_may [of v2 c2 m2 ?e] assms(4,5) by simp
  have "0 < limit_minutes ?s \<Longrightarrow> ?s \<noteq> []" by (auto simp: limit_minutes_def scan_d_def)
  then show ?thesis
    using l m assms(6,7) by (auto simp: may_send_def CheckRateLimit_def IsDuplicate_def Let_def i64_id)
qed

theorem resend_waits_witness:
  "\<not> at_Success (fst (Deliver (plain_env 100299 (\<lambda>_. (3, None))) mail_channel sample_message
     (snd (Deliver (plain_env 100000 (\<lambda>_. (3, None))) mail_channel sample_message (NewDeliveryEngine 0)))))"
proof -
  let ?v = "plain_env 100000 (\<lambda>_. (3, None))" and ?w = "plain_env 100299 (\<lambda>_. (3, None))"
  obtain a e where d: "Deliver ?v mail_channel sample_message (NewDeliveryEngine 0) = (a, e)" by fastforce
  obtain a' e' where d': "Deliver ?w mail_channel sample_message e = (a', e')" by fastforce
  have m: "may_send ?v mail_channel sample_message (NewDeliveryEngine 0)"
    by (simp add: may_send_def CheckRateLimit_def IsDuplicate_def config_of_def mail_channel_def plain_env_def mget_def i64_def)
  then have "a = fst (retry_loop ?v [0, 1, 2] (new_attempt ?v mail_channel sample_message))"
    using d by (simp add: Deliver_def may_send_def Let_def split: prod.splits)
  then have "at_Success a" by (simp add: retry_loop.simps plain_env_def)
  then have "\<not> at_Success a'"
    using resend_waits [OF d, of "[]" ?w mail_channel sample_message] d' by (auto simp: plain_env_def)
  then show ?thesis using d d' by simp
qed

end
