(* ===== verification/AlertEngine.thy ===== *)
theory AlertEngine
  imports Delivery
begin

text \<open>
  \<^verbatim>\<open>internal/modules/alerting/engine.go\<close>: digests, escalation, quiet hours, maintenance mode and the
  state that is kept across restarts. Stored values are what was stored, JSON aside; the lock is
  the subject of another theory, and each operation is atomic here.
\<close>

section \<open>State\<close>

record digest_item =
  di_Message :: message
  di_QueuedAt :: int
  di_Severity :: string

record escalation_level =
  el_Minutes :: int
  el_SentAt :: int

record escalation_state =
  es_AlertKey :: string
  es_RuleID :: string
  es_FirstSentAt :: int
  es_LastSeenAt :: int
  es_Acknowledged :: bool
  es_AcknowledgedAt :: int
  es_Resolved :: bool
  es_ResolvedAt :: int
  es_Levels :: "(int, escalation_level) gomap"

record escalation =
  ec_AfterMinutes :: int
  ec_Channels :: "string list"
  ec_OnlyOnce :: bool

record rule_config =
  rc_Enabled :: bool
  rc_Severity :: string
  rc_SeverityOnly :: "string list"
  rc_Module :: string
  rc_Category :: string
  rc_Device :: string
  rc_Zone :: string
  rc_Channels :: "string list"
  rc_Cooldown :: int
  rc_DigestMinutes :: int
  rc_Escalation :: "escalation option"

type_synonym digest_queues = "(string, (string, digest_item list) gomap) gomap"

record alert_engine =
  digestQueues :: digest_queues
  escalationState :: "(string, escalation_state) gomap"
  quietHoursDeferred :: "(string, digest_item list) gomap"
  maintenanceEnabled :: bool
  maintenanceUntil :: int
  suppressedCount :: int

definition NewAlertEngine :: alert_engine where
  "NewAlertEngine = \<lparr>digestQueues = [], escalationState = [], quietHoursDeferred = [],
     maintenanceEnabled = False, maintenanceUntil = 0, suppressedCount = 0\<rparr>"

text \<open>The keys the engine uses in the store; the maintenance entry is shared with the API.\<close>

record maintenance =
  mt_enabled :: bool
  mt_until :: int
  mt_suppressed :: int
  mt_reason :: string

record engine_kv =
  kv_digests :: "digest_queues option"
  kv_escalations :: "(string, escalation_state) gomap option"
  kv_deferred :: "(string, digest_item list) gomap option"
  kv_maintenance :: "maintenance option"

definition or_empty :: "('k, 'v) gomap option \<Rightarrow> ('k, 'v) gomap" where
  "or_empty x = (case x of Some m \<Rightarrow> m | None \<Rightarrow> [])"

definition LoadState :: "'a engine_kv_scheme \<Rightarrow> alert_engine \<Rightarrow> alert_engine" where
  "LoadState s e =
     (let mt = (case kv_maintenance s of Some m \<Rightarrow> m
           | None \<Rightarrow> \<lparr>mt_enabled = False, mt_until = 0, mt_suppressed = 0, mt_reason = []\<rparr>)
      in e\<lparr>digestQueues := or_empty (kv_digests s), escalationState := or_empty (kv_escalations s),
        quietHoursDeferred := or_empty (kv_deferred s), maintenanceEnabled := mt_enabled mt,
        maintenanceUntil := mt_until mt, suppressedCount := mt_suppressed mt\<rparr>)"

text \<open>Four writes, of which \<open>ok\<close> says which succeed; the first that fails ends it.\<close>

definition SaveState :: "(nat \<Rightarrow> bool) \<Rightarrow> alert_engine \<Rightarrow> 'a engine_kv_scheme \<Rightarrow> bool \<times> 'a engine_kv_scheme" where
  "SaveState ok e s =
     (if \<not> ok 0 then (False, s)
      else (let s1 = s\<lparr>kv_digests := Some (digestQueues e)\<rparr> in
        if \<not> ok 1 then (False, s1)
        else (let s2 = s1\<lparr>kv_escalations := Some (escalationState e)\<rparr> in
          if \<not> ok 2 then (False, s2)
          else (let s3 = s2\<lparr>kv_deferred := Some (quietHoursDeferred e)\<rparr> in
            if \<not> ok 3 then (False, s3)
            else (True, s3\<lparr>kv_maintenance := Some \<lparr>mt_enabled = maintenanceEnabled e, mt_until = maintenanceUntil e,
              mt_suppressed = suppressedCount e, mt_reason = []\<rparr>\<rparr>)))))"

section \<open>Queues\<close>

definition queue_of :: "alert_engine \<Rightarrow> string \<times> string \<Rightarrow> digest_item list" where
  "queue_of e rc = (case mget (digestQueues e) (fst rc) of
     Some m \<Rightarrow> (case mget m (snd rc) of Some q \<Rightarrow> q | None \<Rightarrow> []) | None \<Rightarrow> [])"

definition push_item :: "string \<times> string \<Rightarrow> digest_item \<Rightarrow> alert_engine \<Rightarrow> alert_engine" where
  "push_item rc i e =
     (let m = or_empty (mget (digestQueues e) (fst rc));
          q = queue_of e rc @ [i];
          q' = (if length q > 500 then drop (length q - 500) q else q)
      in e\<lparr>digestQueues := mput (fst rc) (mput (snd rc) q' m) (digestQueues e)\<rparr>)"

definition item_of :: "int \<Rightarrow> message \<Rightarrow> digest_item" where
  "item_of now m = \<lparr>di_Message = m, di_QueuedAt = now, di_Severity = msg_Severity m\<rparr>"

definition QueueForDigest :: "int \<Rightarrow> string \<Rightarrow> string \<Rightarrow> message \<Rightarrow> alert_engine \<Rightarrow> alert_engine" where
  "QueueForDigest now r c m e = push_item (r, c) (item_of now m) e"

definition DeferAlert :: "int \<Rightarrow> string \<Rightarrow> message \<Rightarrow> alert_engine \<Rightarrow> alert_engine" where
  "DeferAlert now c m e = e\<lparr>quietHoursDeferred :=
     mput c ((case mget (quietHoursDeferred e) c of Some q \<Rightarrow> q | None \<Rightarrow> []) @ [item_of now m]) (quietHoursDeferred e)\<rparr>"

section \<open>Escalation and maintenance\<close>

definition TrackForEscalation :: "int \<Rightarrow> string \<Rightarrow> message \<Rightarrow> alert_engine \<Rightarrow> alert_engine" where
  "TrackForEscalation now r m e =
     (let s = (case mget (escalationState e) (msg_AlertKey m) of Some s \<Rightarrow> s
           | None \<Rightarrow> \<lparr>es_AlertKey = msg_AlertKey m, es_RuleID = r, es_FirstSentAt = now, es_LastSeenAt = 0,
               es_Acknowledged = False, es_AcknowledgedAt = 0, es_Resolved = False, es_ResolvedAt = 0, es_Levels = []\<rparr>)
      in e\<lparr>escalationState := mput (msg_AlertKey m) (s\<lparr>es_LastSeenAt := now\<rparr>) (escalationState e)\<rparr>)"

definition change_state :: "string \<Rightarrow> (escalation_state \<Rightarrow> escalation_state) \<Rightarrow> alert_engine \<Rightarrow> alert_engine" where
  "change_state k f e = (case mget (escalationState e) k of
     Some s \<Rightarrow> e\<lparr>escalationState := mput k (f s) (escalationState e)\<rparr> | None \<Rightarrow> e)"

definition AcknowledgeAlert :: "int \<Rightarrow> string \<Rightarrow> alert_engine \<Rightarrow> alert_engine" where
  "AcknowledgeAlert now k = change_state k (\<lambda>s. s\<lparr>es_Acknowledged := True, es_AcknowledgedAt := now\<rparr>)"

definition ResolveAlert :: "int \<Rightarrow> string \<Rightarrow> alert_engine \<Rightarrow> alert_engine" where
  "ResolveAlert now k = change_state k (\<lambda>s. s\<lparr>es_Resolved := True, es_ResolvedAt := now\<rparr>)"

definition IsInMaintenanceMode :: "int \<Rightarrow> alert_engine \<Rightarrow> bool" where
  "IsInMaintenanceMode now e \<longleftrightarrow> maintenanceEnabled e \<and> (maintenanceUntil e = 0 \<or> now < maintenanceUntil e)"

definition IncrementSuppressed :: "alert_engine \<Rightarrow> alert_engine" where
  "IncrementSuppressed e = e\<lparr>suppressedCount := suppressedCount e + 1\<rparr>"

section \<open>Quiet hours\<close>

text \<open>\<^verbatim>\<open>fmt.Sscanf\<close> with \<^verbatim>\<open>%d:%d\<close>, what it does not reach staying 0.\<close>

definition scan_hhmm :: "string \<Rightarrow> int \<times> int" where
  "scan_hhmm s =
     (case scan_d s of
        None \<Rightarrow> (0, 0)
      | Some (h, r) \<Rightarrow>
          (if r \<noteq> [] \<and> hd r = CHR '':''
           then (case scan_d (tl r) of Some (m, _) \<Rightarrow> (h, m) | None \<Rightarrow> (h, 0)) else (h, 0)))"

definition minute_of :: "int \<times> int \<Rightarrow> int" where
  "minute_of hm = i64 (fst hm * 60 + snd hm)"

definition isTimeInWindow :: "int \<times> int \<Rightarrow> string \<Rightarrow> string \<Rightarrow> bool" where
  "isTimeInWindow now start stop =
     (let c = minute_of now; s = minute_of (scan_hhmm start); e = minute_of (scan_hhmm stop)
      in if s \<le> e then c \<ge> s \<and> c < e else c \<ge> s \<or> c < e)"

definition IsInQuietHours :: "int \<times> int \<Rightarrow> channel \<Rightarrow> bool" where
  "IsInQuietHours now ch =
     (let s = config_of ch ''quiet_hours_start''; e = config_of ch ''quiet_hours_end''
      in if s = [] \<or> e = [] then False else isTimeInWindow now s e)"

section \<open>Digests\<close>

definition severity_rank :: "string \<Rightarrow> int" where
  "severity_rank s = (case map_of [(''info'', 0), (''low'', 1), (''medium'', 2), (''high'', 3), (''critical'', 4)] s of
     Some n \<Rightarrow> n | None \<Rightarrow> 0)"

definition highest_severity :: "digest_item list \<Rightarrow> string" where
  "highest_severity is = snd (fold (\<lambda>i (n, s).
     if severity_rank (di_Severity i) > n then (severity_rank (di_Severity i), di_Severity i) else (n, s)) is (0, ''info''))"

fun evidence_lines :: "digest_item list \<Rightarrow> string list option" where
  "evidence_lines [] = Some []"
| "evidence_lines (i # is) =
     (case msg_Device (di_Message i) of
        None \<Rightarrow> None
      | Some d \<Rightarrow> map_option ((#) (''['' @ di_Severity i @ ''] '' @ msg_Title (di_Message i) @ '' ('' @ dev_Name d @ '')''))
          (evidence_lines is))"

text \<open>
  The digest of a queue, on the clock's nanoseconds; \<^const>\<open>None\<close> is the panic on an alert without a
  device, whose name is read all the same.
\<close>

definition createDigestMessage :: "int \<Rightarrow> digest_item list \<Rightarrow> message option" where
  "createDigestMessage nanos is =
     (let z = \<lparr>msg_Timestamp = 0, msg_Title = [], msg_Severity = [], msg_Module = [], msg_Category = [],
            msg_Evidence = [], msg_Device = None, msg_Zone = [], msg_AlertKey = [], msg_Body = [], msg_Link = [],
            msg_RuleID = []\<rparr> in
      if is = [] then Some z
      else (case evidence_lines is of
          None \<Rightarrow> None
        | Some ev \<Rightarrow>
            (let ts = map di_QueuedAt is; m0 = (Max (set ts) - Min (set ts)) div 60; m = (if m0 = 0 then 1 else m0)
             in Some (z\<lparr>msg_Timestamp := nanos,
               msg_Title := dec_int (int (length is)) @ '' alerts in the last '' @ dec_int m @ '' minutes'',
               msg_Severity := highest_severity is, msg_Evidence := ev,
               msg_AlertKey := ''digest-'' @ dec_int nanos, msg_Module := ''alerting'', msg_Category := ''digest''\<rparr>))))"

definition find_channel :: "channel list \<Rightarrow> string \<Rightarrow> channel option" where
  "find_channel chs c = (case find (\<lambda>ch. ch_Name ch = c) chs of
     Some ch \<Rightarrow> if ch_Enabled ch then Some ch else None | None \<Rightarrow> None)"

text \<open>
  What a run of the jobs meets: the channels, which channel types exist, each delivery, and the
  clock when a message is made (for a rule or an alert, and a channel).
\<close>

record run_env =
  re_channels :: "channel list"
  re_known :: "string \<Rightarrow> bool"
  re_deliver :: "string \<Rightarrow> channel \<Rightarrow> message \<Rightarrow> deliver_env"
  re_nanos :: "string \<Rightarrow> string \<Rightarrow> int"

text \<open>The queues that are not empty, one by one; the last component is whether it ended without a panic.\<close>

fun flush_loop :: "run_env \<Rightarrow> (string \<times> string \<times> digest_item list) list \<Rightarrow> delivery_engine \<Rightarrow> nat \<Rightarrow> delivery_engine \<times> nat \<times> bool" where
  "flush_loop v [] d n = (d, n, True)"
| "flush_loop v ((r, c, is) # qs) d n =
     (case find_channel (re_channels v) c of
        None \<Rightarrow> flush_loop v qs d n
      | Some ch \<Rightarrow>
          (case createDigestMessage (re_nanos v r c) is of
             None \<Rightarrow> (d, n, False)
           | Some m \<Rightarrow>
               if \<not> re_known v (ch_Type ch) then flush_loop v qs d n
               else (let (a, d') = Deliver (re_deliver v r ch m) ch m d
                 in flush_loop v qs d' (if at_Success a then Suc n else n))))"

definition queues :: "alert_engine \<Rightarrow> (string \<times> string \<times> digest_item list) list" where
  "queues e = filter (\<lambda>(r, c, is). is \<noteq> [])
     (concat (map (\<lambda>(r, m). map (\<lambda>(c, is). (r, c, is)) m) (digestQueues e)))"

text \<open>The number of digests sent, \<^const>\<open>None\<close> when it panicked.\<close>

definition FlushDigestQueues ::
  "run_env \<Rightarrow> (nat \<Rightarrow> bool) \<Rightarrow> alert_engine \<Rightarrow> delivery_engine \<Rightarrow> 'a engine_kv_scheme
    \<Rightarrow> nat option \<times> alert_engine \<times> delivery_engine \<times> 'a engine_kv_scheme"
where
  "FlushDigestQueues v ok e d s =
     (let e' = e\<lparr>digestQueues := []\<rparr>; (d', n, fine) = flush_loop v (queues e) d 0
      in if fine then (Some n, e', d', snd (SaveState ok e' s)) else (None, e', d', s))"

section \<open>Checking escalations\<close>

definition go_div :: "int \<Rightarrow> int \<Rightarrow> int" where
  "go_div a b = (if a \<ge> 0 then a div b else - ((- a) div b))"

text \<open>Whether an alert is due for an escalation, and which.\<close>

definition due_escalation :: "int \<Rightarrow> (string, rule_config) gomap \<Rightarrow> escalation_state \<Rightarrow> escalation option" where
  "due_escalation now rules s =
     (if es_Resolved s \<or> es_Acknowledged s then None
      else (case mget rules (es_RuleID s) of
          None \<Rightarrow> None
        | Some r \<Rightarrow> (case rc_Escalation r of
            None \<Rightarrow> None
          | Some esc \<Rightarrow>
              if go_div (now - es_FirstSentAt s) 60 < ec_AfterMinutes esc then None
              else if mget (es_Levels s) (ec_AfterMinutes esc) \<noteq> None \<and> ec_OnlyOnce esc then None
              else Some esc)))"

definition escalation_message :: "int \<Rightarrow> string \<Rightarrow> escalation \<Rightarrow> message" where
  "escalation_message nanos k esc = \<lparr>msg_Timestamp = nanos,
     msg_Title = ''[ESCALATION] Unacknowledged alert after '' @ dec_int (ec_AfterMinutes esc) @ '' minutes'',
     msg_Severity = ''critical'', msg_Module = ''alerting'', msg_Category = ''escalation'', msg_Evidence = [],
     msg_Device = None, msg_Zone = [], msg_AlertKey = k @ ''-escalation'', msg_Body = [], msg_Link = [], msg_RuleID = []\<rparr>"

definition mark_level :: "int \<Rightarrow> string \<Rightarrow> escalation \<Rightarrow> alert_engine \<Rightarrow> alert_engine" where
  "mark_level now k esc = change_state k (\<lambda>s. s\<lparr>es_Levels := mput (ec_AfterMinutes esc)
     \<lparr>el_Minutes = ec_AfterMinutes esc, el_SentAt = now\<rparr> (es_Levels s)\<rparr>)"

type_synonym run_state = "alert_engine \<times> delivery_engine \<times> (string \<times> attempt) list"

text \<open>The attempts made so far are the third component, each with the key of its alert.\<close>

fun escalate :: "run_env \<Rightarrow> int \<Rightarrow> string \<Rightarrow> escalation \<Rightarrow> string list \<Rightarrow> run_state \<Rightarrow> run_state" where
  "escalate v now k esc [] st0 = st0"
| "escalate v now k esc (c # cs) (e, d, out) =
     (case find_channel (re_channels v) c of
        None \<Rightarrow> escalate v now k esc cs (e, d, out)
      | Some ch \<Rightarrow>
          if \<not> re_known v (ch_Type ch) then escalate v now k esc cs (e, d, out)
          else (let m = escalation_message (re_nanos v k c) k esc; (a, d') = Deliver (re_deliver v k ch m) ch m d
            in escalate v now k esc cs (if at_Success a then mark_level now k esc e else e, d', out @ [(k, a)])))"

definition check_one :: "run_env \<Rightarrow> int \<Rightarrow> (string, rule_config) gomap \<Rightarrow> string \<times> escalation_state \<Rightarrow> run_state \<Rightarrow> run_state" where
  "check_one v now rules p st0 =
     (case due_escalation now rules (snd p) of
        None \<Rightarrow> st0 | Some esc \<Rightarrow> escalate v now (fst p) esc (ec_Channels esc) st0)"

definition CheckEscalations :: "run_env \<Rightarrow> int \<Rightarrow> (string, rule_config) gomap \<Rightarrow> alert_engine \<Rightarrow> delivery_engine \<Rightarrow> run_state" where
  "CheckEscalations v now rules e d = fold (check_one v now rules) (escalationState e) (e, d, [])"

definition escalatedCount :: "run_state \<Rightarrow> nat" where
  "escalatedCount st0 = length (filter (\<lambda>(k, a). at_Success a) (snd (snd st0)))"

record engine_status =
  gs_MaintenanceActive :: bool
  gs_MaintenanceUntil :: int
  gs_SuppressedCount :: int
  gs_DigestQueueSize :: nat
  gs_EscalationTracked :: nat
  gs_DeferredCount :: nat

definition GetStatus :: "int \<Rightarrow> alert_engine \<Rightarrow> engine_status" where
  "GetStatus now e =
     \<lparr>gs_MaintenanceActive = IsInMaintenanceMode now e, gs_MaintenanceUntil = maintenanceUntil e,
      gs_SuppressedCount = suppressedCount e,
      gs_DigestQueueSize = sum_list (map (\<lambda>(r, m). sum_list (map (\<lambda>(c, is). length is) m)) (digestQueues e)),
      gs_EscalationTracked = length (escalationState e),
      gs_DeferredCount = sum_list (map (\<lambda>(c, is). length is) (quietHoursDeferred e))\<rparr>"

section \<open>Digest queues are bounded logs\<close>

lemma queue_of_push: "queue_of (push_item rc i e) rc' =
    (if rc' = rc then last_n 500 (queue_of e rc @ [i]) else queue_of e rc')"
  by (cases rc; cases rc')
    (auto simp: push_item_def queue_of_def or_empty_def last_n_def Let_def split: option.split)

interpretation queue: bounded_log queue_of push_item "\<lambda>_. 500"
  by unfold_locales (simp_all add: queue_of_push)

text \<open>
  A digest queue is the recent history of what was queued for it. Starting empty, after any
  sequence of alerts queued for any rules and channels, the queue of each pair holds exactly the last 500
  queued for it, in order and with the time and severity of each.
\<close>

theorem digest_queue_recent:
  "queue_of (fold (\<lambda>(now, r, c, m). QueueForDigest now r c m) ops NewAlertEngine) (r0, c0)
    = last_n 500 (map (\<lambda>(now, r, c, m). item_of now m) (filter (\<lambda>(now, r, c, m). r = r0 \<and> c = c0) ops))"
proof -
  have f: "fold (\<lambda>(now, r, c, m). QueueForDigest now r c m) ops e
    = fold (\<lambda>(k, i). push_item k i) (map (\<lambda>(now, r, c, m). ((r, c), item_of now m)) ops) e" for e
    by (induction ops arbitrary: e) (auto simp: QueueForDigest_def)
  have g: "map snd (filter (\<lambda>p. fst p = (r0, c0)) (map (\<lambda>(now, r, c, m). ((r, c), item_of now m)) ops))
    = map (\<lambda>(now, r, c, m). item_of now m) (filter (\<lambda>(now, r, c, m). r = r0 \<and> c = c0) ops)"
    by (induction ops) auto
  have z: "queue_of NewAlertEngine (r0, c0) = []" by (simp add: queue_of_def NewAlertEngine_def)
  show ?thesis
    unfolding f using queue.recent_history [of NewAlertEngine "(r0, c0)"] by (simp add: z g)
qed

section \<open>Quiet hours\<close>

text \<open>
  Quiet hours are an arc of the day. For a window and a time given by valid hours and minutes, the
  time is in the window exactly if, counting minutes around the clock from its start, it comes before
  its end: in particular a window that ends when it starts is empty, and one that ends earlier
  passes midnight.
\<close>

theorem quiet_hours_arc:
  assumes "scan_hhmm start = (sh, sm)" and "scan_hhmm stop = (eh, em)"
    and "0 \<le> sh" "sh < 24" "0 \<le> sm" "sm < 60" "0 \<le> eh" "eh < 24" "0 \<le> em" "em < 60"
    and "0 \<le> h" "h < 24" "0 \<le> m" "m < 60"
  shows "isTimeInWindow (h, m) start stop \<longleftrightarrow>
    (h * 60 + m - (sh * 60 + sm)) mod 1440 < (eh * 60 + em - (sh * 60 + sm)) mod 1440"
proof -
  define c s e where d: "c = h * 60 + m" "s = sh * 60 + sm" "e = eh * 60 + em"
  have r: "0 \<le> c" "c < 1440" "0 \<le> s" "s < 1440" "0 \<le> e" "e < 1440" using assms d by auto
  have w: "(x - y) mod 1440 = (if y \<le> x then x - y else x - y + 1440)"
    if "0 \<le> x" "x < 1440" "0 \<le> y" "y < 1440" for x y :: int
  proof (cases "y \<le> x")
    case False
    then have "(x - y + 1440) mod 1440 = x - y + 1440" using that by (intro mod_pos_pos_trivial) auto
    then show ?thesis using False by simp
  qed (use that in simp)
  have "isTimeInWindow (h, m) start stop \<longleftrightarrow> (if s \<le> e then c \<ge> s \<and> c < e else c \<ge> s \<or> c < e)"
    using assms(1,2) r by (simp add: isTimeInWindow_def minute_of_def i64_id Let_def flip: d)
  then show ?thesis
    unfolding d [symmetric] using r by (auto simp: w split: if_splits)
qed

theorem quiet_hours_arc_witness:
  "isTimeInWindow (23, 30) ''22:00'' ''6:15'' \<and> \<not> isTimeInWindow (6, 15) ''22:00'' ''6:15''"
proof -
  have s: "scan_hhmm ''22:00'' = (22, 0)" and e: "scan_hhmm ''6:15'' = (6, 15)"
    by (simp_all add: scan_hhmm_def scan_d_def is_space_def is_digit_def undec_def digit_val_def)
  show ?thesis
    using quiet_hours_arc [OF s e, of 23 30] quiet_hours_arc [OF s e, of 6 15] by simp
qed

section \<open>State across restarts\<close>

text \<open>
  A restart keeps the engine. What is saved without an error is what the next start loads: the
  digests, the alerts tracked, the deferred ones and the maintenance mode.
\<close>

theorem engine_survives_restart:
  assumes "SaveState ok e s = (True, s')"
  shows "LoadState s' e0 = e"
  using assms by (auto simp: SaveState_def LoadState_def or_empty_def Let_def split: if_splits)

theorem engine_survives_restart_witness:
  "LoadState (snd (SaveState (\<lambda>_. True) (IncrementSuppressed NewAlertEngine)
     \<lparr>kv_digests = None, kv_escalations = None, kv_deferred = None, kv_maintenance = None\<rparr>)) NewAlertEngine
   = IncrementSuppressed NewAlertEngine"
proof -
  obtain s' where s: "SaveState (\<lambda>_. True) (IncrementSuppressed NewAlertEngine)
     \<lparr>kv_digests = None, kv_escalations = None, kv_deferred = None, kv_maintenance = None\<rparr> = (True, s')"
    by (simp add: SaveState_def Let_def)
  from engine_survives_restart [OF this] show ?thesis by (simp add: s)
qed

section \<open>Digests that are lost\<close>

lemma evidence_None: "evidence_lines is = None \<longleftrightarrow> (\<exists>i \<in> set is. msg_Device (di_Message i) = None)"
  by (induction "is") (auto split: option.split)

lemma digest_None: "createDigestMessage t is = None \<longleftrightarrow> (\<exists>i \<in> set is. msg_Device (di_Message i) = None)"
  using evidence_None [of "is"] by (auto simp: createDigestMessage_def Let_def split: option.split)

lemma flush_loop_panics:
  assumes "(r, c, is) \<in> set qs" and "find_channel (re_channels v) c \<noteq> None" and "\<exists>i \<in> set is. msg_Device (di_Message i) = None"
  shows "snd (snd (flush_loop v qs d n)) = False"
  using assms(1)
proof (induction qs arbitrary: d n)
  case (Cons q qs)
  obtain r' c' is' where q: "q = (r', c', is')" by (cases q)
  show ?case
  proof (cases "(r, c, is) \<in> set qs")
    case True
    then show ?thesis using Cons.IH q by (auto simp: Let_def split: option.split prod.split)
  next
    case False
    then have "q = (r, c, is)" using Cons.prems by auto
    moreover have "createDigestMessage (re_nanos v r c) is = None" using assms(3) digest_None by blast
    ultimately show ?thesis using assms(2) by (auto split: option.split)
  qed
qed simp

text \<open>
  One alert without a device loses every digest. If any queue for an enabled channel holds such an
  alert, flushing panics; by then all the queues have been emptied and nothing is saved, so what was
  queued, for this rule and all others, is gone except for the digests delivered before.
\<close>

theorem digests_lost:
  assumes "(r, c, is) \<in> set (queues e)" and "find_channel (re_channels v) c = Some ch"
    and "i \<in> set is" and "msg_Device (di_Message i) = None"
  shows "\<exists>d'. FlushDigestQueues v ok e d s = (None, e\<lparr>digestQueues := []\<rparr>, d', s)"
proof -
  have "snd (snd (flush_loop v (queues e) d 0)) = False"
    using flush_loop_panics [OF assms(1)] assms(2-4) by blast
  then show ?thesis by (cases "flush_loop v (queues e) d 0") (auto simp: FlushDigestQueues_def Let_def)
qed

definition run_with :: "channel list \<Rightarrow> run_env" where
  "run_with chs = \<lparr>re_channels = chs, re_known = (\<lambda>_. True), re_deliver = (\<lambda>_ _ _. plain_env 100000 (\<lambda>_. (3, None))),
     re_nanos = (\<lambda>_ _. 100000 * 10 ^ 9)\<rparr>"

definition empty_kv :: engine_kv where
  "empty_kv = \<lparr>kv_digests = None, kv_escalations = None, kv_deferred = None, kv_maintenance = None\<rparr>"

theorem digests_lost_witness:
  "fst (FlushDigestQueues (run_with [mail_channel]) (\<lambda>_. True)
     (QueueForDigest 0 ''low'' ''ops'' sample_message NewAlertEngine) (NewDeliveryEngine 0) empty_kv) = None"
proof -
  let ?e = "QueueForDigest 0 ''low'' ''ops'' sample_message NewAlertEngine"
  have "(''low'', ''ops'', [item_of 0 sample_message]) \<in> set (queues ?e)"
    by (simp add: queues_def QueueForDigest_def push_item_def queue_of_def NewAlertEngine_def or_empty_def mput_def)
  moreover have "find_channel (re_channels (run_with [mail_channel])) ''ops'' = Some mail_channel"
    by (simp add: find_channel_def run_with_def mail_channel_def)
  moreover have "msg_Device (di_Message (item_of 0 sample_message)) = None"
    by (simp add: item_of_def sample_message_def)
  ultimately obtain d' where "FlushDigestQueues (run_with [mail_channel]) (\<lambda>_. True) ?e (NewDeliveryEngine 0) empty_kv
      = (None, ?e\<lparr>digestQueues := []\<rparr>, d', empty_kv)"
    using digests_lost [of "''low''" "''ops''" "[item_of 0 sample_message]" ?e "run_with [mail_channel]" mail_channel
        "item_of 0 sample_message" "\<lambda>_. True" "NewDeliveryEngine 0" empty_kv]
    by (metis list.set_intros(1))
  then show ?thesis by simp
qed

section \<open>Escalations\<close>

definition level_of :: "alert_engine \<Rightarrow> string \<Rightarrow> int \<Rightarrow> bool" where
  "level_of e k n \<longleftrightarrow> (case mget (escalationState e) k of Some s \<Rightarrow> mget (es_Levels s) n \<noteq> None | None \<Rightarrow> False)"

definition rule_of :: "alert_engine \<Rightarrow> string \<Rightarrow> string option" where
  "rule_of e k = map_option es_RuleID (mget (escalationState e) k)"

lemma mark_level_simps:
  "rule_of (mark_level now k esc e) = rule_of e"
  "level_of (mark_level now k esc e) k' n \<longleftrightarrow>
     level_of e k' n \<or> k' = k \<and> n = ec_AfterMinutes esc \<and> rule_of e k \<noteq> None"
  "mkeys_ok (escalationState e) \<Longrightarrow> mkeys_ok (escalationState (mark_level now k esc e))"
  by (auto simp: mark_level_def change_state_def level_of_def rule_of_def fun_eq_iff split: option.split)

text \<open>What a run over channels or alerts adds to the attempts, and what it leaves.\<close>

definition grows :: "run_state \<Rightarrow> run_state \<Rightarrow> (string \<times> attempt) list \<Rightarrow> bool" where
  "grows st0 st1 new \<longleftrightarrow> snd (snd st1) = snd (snd st0) @ new \<and> rule_of (fst st1) = rule_of (fst st0)
     \<and> (mkeys_ok (escalationState (fst st0)) \<longrightarrow> mkeys_ok (escalationState (fst st1)))
     \<and> (\<forall>k n. level_of (fst st0) k n \<longrightarrow> level_of (fst st1) k n)"

lemma grows_refl: "grows st0 st0 []"
  by (simp add: grows_def)

lemma grows_trans: "grows st0 st1 xs \<Longrightarrow> grows st1 st2 ys \<Longrightarrow> grows st0 st2 (xs @ ys)"
  by (auto simp: grows_def)

lemma escalate_grows:
  "\<exists>new. grows st0 (escalate v now k esc cs st0) new \<and> (\<forall>(k', a) \<in> set new. k' = k)
    \<and> (\<forall>(k', a) \<in> set new. at_Success a \<longrightarrow> rule_of (fst st0) k \<noteq> None \<longrightarrow>
         level_of (fst (escalate v now k esc cs st0)) k (ec_AfterMinutes esc))"
proof (induction cs arbitrary: st0)
  case Nil
  show ?case using grows_refl by fastforce
next
  case (Cons c cs)
  obtain e d out where st0: "st0 = (e, d, out)" by (cases st0)
  show ?case
  proof (cases "\<exists>ch. find_channel (re_channels v) c = Some ch \<and> re_known v (ch_Type ch)")
    case False
    then show ?thesis using Cons.IH [of st0] st0 by (auto split: option.split)
  next
    case True
    then obtain ch where ch: "find_channel (re_channels v) c = Some ch" "re_known v (ch_Type ch)" by blast
    define m where "m = escalation_message (re_nanos v k c) k esc"
    obtain a d' where d: "Deliver (re_deliver v k ch m) ch m d = (a, d')" by fastforce
    define st1 where "st1 = (if at_Success a then mark_level now k esc e else e, d', out @ [(k, a)])"
    have r: "escalate v now k esc (c # cs) st0 = escalate v now k esc cs st1"
      using ch d st0 by (simp add: m_def st1_def)
    have g: "grows st0 st1 [(k, a)]" by (auto simp: grows_def st0 st1_def mark_level_simps)
    obtain new where n: "grows st1 (escalate v now k esc cs st1) new" "\<forall>(k', a) \<in> set new. k' = k"
      "\<forall>(k', a) \<in> set new. at_Success a \<longrightarrow> rule_of (fst st1) k \<noteq> None \<longrightarrow>
         level_of (fst (escalate v now k esc cs st1)) k (ec_AfterMinutes esc)"
      using Cons.IH [of st1] by blast
    have "rule_of (fst st1) = rule_of (fst st0)" using g by (simp add: grows_def)
    moreover have "level_of (fst (escalate v now k esc cs st1)) k (ec_AfterMinutes esc)"
      if "at_Success a" "rule_of (fst st0) k \<noteq> None"
      using n(1) that by (auto simp: grows_def st1_def st0 mark_level_simps)
    ultimately show ?thesis
      unfolding r using grows_trans [OF g n(1)] n(2,3) by (intro exI [of _ "[(k, a)] @ new"]) auto
  qed
qed

lemma check_grows:
  "\<exists>new. grows st0 (fold (check_one v now rules) ps st0) new
    \<and> (\<forall>(k, a) \<in> set new. \<exists>s esc. (k, s) \<in> set ps \<and> due_escalation now rules s = Some esc
        \<and> (at_Success a \<longrightarrow> rule_of (fst st0) k \<noteq> None \<longrightarrow>
             level_of (fst (fold (check_one v now rules) ps st0)) k (ec_AfterMinutes esc)))"
proof (induction ps arbitrary: st0)
  case Nil
  show ?case using grows_refl by fastforce
next
  case (Cons p ps)
  obtain k s where p: "p = (k, s)" by (cases p)
  let ?st1 = "check_one v now rules p st0" and ?st2 = "fold (check_one v now rules) (p # ps) st0"
  obtain xs where xs: "grows st0 ?st1 xs"
    "\<forall>(k', a) \<in> set xs. k' = k \<and> (\<exists>esc. due_escalation now rules s = Some esc
        \<and> (at_Success a \<longrightarrow> rule_of (fst st0) k \<noteq> None \<longrightarrow> level_of (fst ?st1) k (ec_AfterMinutes esc)))"
  proof (cases "due_escalation now rules s")
    case None
    then have "grows st0 ?st1 []" by (simp add: check_one_def p grows_refl)
    then show ?thesis using that [of "[]"] by simp
  next
    case (Some esc)
    then have "?st1 = escalate v now k esc (ec_Channels esc) st0" by (simp add: check_one_def p)
    then show ?thesis using that escalate_grows [of st0 v now k esc "ec_Channels esc"] Some by fastforce
  qed
  obtain ys where ys: "grows ?st1 ?st2 ys"
    "\<forall>(k, a) \<in> set ys. \<exists>s esc. (k, s) \<in> set ps \<and> due_escalation now rules s = Some esc
        \<and> (at_Success a \<longrightarrow> rule_of (fst ?st1) k \<noteq> None \<longrightarrow> level_of (fst ?st2) k (ec_AfterMinutes esc))"
    using Cons.IH [of ?st1] by auto
  have "rule_of (fst ?st1) = rule_of (fst st0)" using xs(1) by (simp add: grows_def)
  moreover have "level_of (fst ?st1) k n \<Longrightarrow> level_of (fst ?st2) k n" for k n using ys(1) by (simp add: grows_def)
  ultimately show ?case
    using grows_trans [OF xs(1) ys(1)] xs(2) ys(2) p by (intro exI [of _ "xs @ ys"]) fastforce
qed

text \<open>One check: whom its attempts are about, and what a success leaves behind.\<close>

lemma check_attempts:
  assumes "mkeys_ok (escalationState e)" and "CheckEscalations v now rules e d = (e1, d1, out1)"
  shows "(k, a) \<in> set out1 \<Longrightarrow> \<exists>s esc. mget (escalationState e) k = Some s \<and> due_escalation now rules s = Some esc
      \<and> (at_Success a \<longrightarrow> level_of e1 k (ec_AfterMinutes esc))"
    and "rule_of e1 = rule_of e" and "mkeys_ok (escalationState e1)" and "level_of e k n \<Longrightarrow> level_of e1 k n"
proof -
  obtain new where n: "grows (e, d, []) (e1, d1, out1) new"
    "\<forall>(k, a) \<in> set new. \<exists>s esc. (k, s) \<in> set (escalationState e) \<and> due_escalation now rules s = Some esc
        \<and> (at_Success a \<longrightarrow> rule_of e k \<noteq> None \<longrightarrow> level_of e1 k (ec_AfterMinutes esc))"
    using check_grows [of "(e, d, [])" v now rules "escalationState e"] assms(2) by (auto simp: CheckEscalations_def)
  show "rule_of e1 = rule_of e" "mkeys_ok (escalationState e1)" "level_of e k n \<Longrightarrow> level_of e1 k n"
    using n(1) assms(1) by (simp_all add: grows_def)
  assume "(k, a) \<in> set out1"
  then have "(k, a) \<in> set new" using n(1) by (simp add: grows_def)
  with n(2) obtain s esc where s: "(k, s) \<in> set (escalationState e)" "due_escalation now rules s = Some esc"
    "at_Success a \<longrightarrow> rule_of e k \<noteq> None \<longrightarrow> level_of e1 k (ec_AfterMinutes esc)" by fast
  moreover have "mget (escalationState e) k = Some s" using assms(1) s(1) by (simp add: mget_def mkeys_ok_def)
  ultimately show "\<exists>s esc. mget (escalationState e) k = Some s \<and> due_escalation now rules s = Some esc
      \<and> (at_Success a \<longrightarrow> level_of e1 k (ec_AfterMinutes esc))" by (auto simp: rule_of_def)
qed

text \<open>An alert whose level is marked and whose rule escalates only once.\<close>

lemma check_silent:
  assumes "mkeys_ok (escalationState e)" and "rule_of e k = Some r" and "mget rules r = Some rule"
    and "rc_Escalation rule = Some esc" and "ec_OnlyOnce esc" and "level_of e k (ec_AfterMinutes esc)"
  shows "(k, a) \<notin> set (snd (snd (CheckEscalations v now rules e d)))"
proof
  obtain e1 d1 out1 where c: "CheckEscalations v now rules e d = (e1, d1, out1)" by (metis prod_cases3)
  assume "(k, a) \<in> set (snd (snd (CheckEscalations v now rules e d)))"
  then obtain s esc' where s: "mget (escalationState e) k = Some s" "due_escalation now rules s = Some esc'"
    using check_attempts(1) [OF assms(1) c] c by fastforce
  then show False using assms(2-6) by (auto simp: due_escalation_def rule_of_def level_of_def split: if_splits)
qed

text \<open>What the operations between two checks do to the alerts that are tracked.\<close>

definition marked :: "string \<Rightarrow> string \<Rightarrow> int \<Rightarrow> alert_engine \<Rightarrow> bool" where
  "marked k r n e \<longleftrightarrow> mkeys_ok (escalationState e) \<and> rule_of e k = Some r \<and> level_of e k n"

lemma marked_cong: "escalationState e' = escalationState e \<Longrightarrow> marked k r n e' = marked k r n e"
  by (simp add: marked_def rule_of_def level_of_def)

lemma marked_track: "marked k r n e \<Longrightarrow> marked k r n (TrackForEscalation now r' m e)"
  by (auto simp: marked_def rule_of_def level_of_def TrackForEscalation_def Let_def split: option.splits)

lemma marked_check: "marked k r n e \<Longrightarrow> marked k r n (fst (CheckEscalations v now rules e d))"
  using check_attempts(2-4) [of e v now rules d "fst (CheckEscalations v now rules e d)"
      "fst (snd (CheckEscalations v now rules e d))" "snd (snd (CheckEscalations v now rules e d))"]
  by (simp add: marked_def)

text \<open>What the store holds of them after a write, and what a start reads from it.\<close>

definition stored_marked :: "string \<Rightarrow> string \<Rightarrow> int \<Rightarrow> 'a engine_kv_scheme \<Rightarrow> bool" where
  "stored_marked k r n s \<longleftrightarrow> marked k r n (LoadState s NewAlertEngine)"

lemma marked_load: "stored_marked k r n s \<longleftrightarrow> marked k r n (LoadState s e)"
  unfolding stored_marked_def by (rule marked_cong) (simp add: LoadState_def Let_def)

lemma stored_save:
  assumes "marked k r n e"
  shows "stored_marked k r n s \<or> ok 0 \<and> ok 1 \<Longrightarrow> stored_marked k r n (snd (SaveState ok e s))"
proof -
  have "kv_escalations (snd (SaveState ok e s)) = (if ok 0 \<and> ok 1 then Some (escalationState e) else kv_escalations s)"
    by (simp add: SaveState_def Let_def)
  then have "escalationState (LoadState (snd (SaveState ok e s)) NewAlertEngine)
      = (if ok 0 \<and> ok 1 then escalationState e else escalationState (LoadState s NewAlertEngine))"
    by (simp add: LoadState_def or_empty_def Let_def)
  then show "stored_marked k r n s \<or> ok 0 \<and> ok 1 \<Longrightarrow> stored_marked k r n (snd (SaveState ok e s))"
    using assms marked_cong [of "LoadState (snd (SaveState ok e s)) NewAlertEngine"] unfolding stored_marked_def by metis
qed

lemma stored_cong: "kv_escalations s' = kv_escalations s \<Longrightarrow> stored_marked k r n s' = stored_marked k r n s"
  unfolding stored_marked_def by (rule marked_cong) (simp add: LoadState_def Let_def)

definition once_rules :: "(string, rule_config) gomap" where
  "once_rules = [(''r'', \<lparr>rc_Enabled = True, rc_Severity = [], rc_SeverityOnly = [], rc_Module = [], rc_Category = [],
     rc_Device = [], rc_Zone = [], rc_Channels = [''ops''], rc_Cooldown = 0, rc_DigestMinutes = 0,
     rc_Escalation = Some \<lparr>ec_AfterMinutes = 15, ec_Channels = [''ops''], ec_OnlyOnce = True\<rparr>\<rparr>)]"

lemma delivers_first:
  "at_Success (fst (Deliver (plain_env 100000 (\<lambda>_. (3, None))) mail_channel m (NewDeliveryEngine 0)))"
proof -
  have "may_send (plain_env 100000 (\<lambda>_. (3, None))) mail_channel m (NewDeliveryEngine 0)"
    by (simp add: may_send_def CheckRateLimit_def IsDuplicate_def config_of_def mail_channel_def plain_env_def mget_def i64_def)
  then show ?thesis by (simp add: Deliver_def may_send_def Let_def retry_loop.simps plain_env_def split: prod.split)
qed

end
