(* ===== verification/Alerting.thy ===== *)
theory Alerting
  imports AlertEngine
begin

text \<open>
  \<^verbatim>\<open>internal/modules/alerting/alerting.go\<close> and the routes of \<^verbatim>\<open>routes.go\<close> that change state: routing an
  alert through rules and channels, the notifier service, the periodic jobs, maintenance mode and
  acknowledgement. Rules that read the database (\<^verbatim>\<open>evaluateRules\<close>) are not modelled.
\<close>

section \<open>State\<close>

record legacy_rule =
  lr_Name :: string
  lr_Enabled :: bool
  lr_Severity :: string
  lr_Cooldown :: int
  lr_Channels :: "string list"

text \<open>
  The store as this module sees it. \<open>kv_rules\<close> and \<open>kv_legacy\<close> are the two readings of the one
  entry for the rules.
\<close>

record alerting_kv = engine_kv +
  kv_channels :: "channel list"
  kv_rules :: "(string, rule_config) gomap"
  kv_legacy :: "(string, legacy_rule) gomap"
  kv_cooldowns :: "(string, int) gomap"
  kv_acks :: "(string, int) gomap"
  kv_resolved :: "(string, int) gomap"

record alert_module =
  am_engine :: alert_engine
  am_delivery :: delivery_engine
  am_lastErr :: string
  am_kv :: alerting_kv

text \<open>
  What one call meets beside \<^typ>\<open>run_env\<close>: the clock where a rule's cooldown is checked, where the
  engine reads it for a rule and a channel, where maintenance is checked, the local time for a channel,
  the nanoseconds of a notification, and which writes to the store succeed.
\<close>

record alert_env = run_env +
  ax_now :: "string \<Rightarrow> int"
  ax_clock :: "string \<Rightarrow> string \<Rightarrow> int"
  ax_mode :: int
  ax_time :: "string \<Rightarrow> int \<times> int"
  ax_nanos :: int
  ax_stored :: "string \<Rightarrow> bool"

definition run_part :: "alert_env \<Rightarrow> alerting_kv \<Rightarrow> run_env" where
  "run_part v s = \<lparr>re_channels = kv_channels s, re_known = re_known v, re_deliver = re_deliver v, re_nanos = re_nanos v\<rparr>"

section \<open>Routing an alert\<close>

definition matchSeverity :: "string \<Rightarrow> string \<Rightarrow> bool" where
  "matchSeverity msgSev minSev \<longleftrightarrow> severity_rank msgSev \<ge> severity_rank minSev"

definition rule_matches :: "rule_config \<Rightarrow> message \<Rightarrow> bool" where
  "rule_matches r m \<longleftrightarrow> rc_Enabled r
     \<and> (if rc_SeverityOnly r \<noteq> [] then list_ex (\<lambda>s. s = msg_Severity m) (rc_SeverityOnly r)
        else rc_Severity r = [] \<or> matchSeverity (msg_Severity m) (rc_Severity r))
     \<and> (rc_Module r = [] \<or> rc_Module r = msg_Module m)
     \<and> (rc_Category r = [] \<or> rc_Category r = msg_Category m)
     \<and> (case msg_Device m of None \<Rightarrow> True
        | Some d \<Rightarrow> rc_Device r = [] \<or> rc_Device r = dev_IP d \<or> rc_Device r = dev_MAC d)
     \<and> (rc_Zone r = [] \<or> rc_Zone r = msg_Zone m)"

definition cooldown_key :: "string \<Rightarrow> message \<Rightarrow> string" where
  "cooldown_key r m = ''alerting.cooldown.'' @ r @ ''.'' @ msg_AlertKey m"

definition cooling :: "int \<Rightarrow> int \<Rightarrow> string \<Rightarrow> alerting_kv \<Rightarrow> bool" where
  "cooling now cooldown k s =
     (let lastSent = (case mget (kv_cooldowns s) k of Some t \<Rightarrow> t | None \<Rightarrow> 0)
      in lastSent > 0 \<and> now - lastSent < cooldown)"

definition send_one :: "alert_env \<Rightarrow> string \<Rightarrow> rule_config \<Rightarrow> message \<Rightarrow> string \<Rightarrow> alert_module \<Rightarrow> alert_module" where
  "send_one v r rule msg c m =
     (case find_channel (kv_channels (am_kv m)) c of
        None \<Rightarrow> m
      | Some ch \<Rightarrow>
          if rc_DigestMinutes rule > 0 then m\<lparr>am_engine := QueueForDigest (ax_clock v r c) r c msg (am_engine m)\<rparr>
          else if IsInQuietHours (ax_time v c) ch \<and> msg_Severity msg \<noteq> ''critical''
          then m\<lparr>am_engine := DeferAlert (ax_clock v r c) c msg (am_engine m)\<rparr>
          else if \<not> re_known v (ch_Type ch)
          then m\<lparr>am_lastErr := ''unknown channel type '' @ ch_Type ch @ '': unknown channel type: '' @ ch_Type ch\<rparr>
          else (let (a, d) = Deliver (re_deliver v r ch msg) ch msg (am_delivery m)
            in m\<lparr>am_delivery := d, am_lastErr := (if at_Success a then am_lastErr m else at_Error a)\<rparr>))"

definition sendToChannels :: "alert_env \<Rightarrow> string \<Rightarrow> rule_config \<Rightarrow> message \<Rightarrow> alert_module \<Rightarrow> alert_module" where
  "sendToChannels v r rule msg m = fold (send_one v r rule msg) (rc_Channels rule) m"

definition set_cooldown :: "alert_env \<Rightarrow> string \<Rightarrow> int \<Rightarrow> alert_module \<Rightarrow> alert_module" where
  "set_cooldown v k now m =
     (if ax_stored v k then m\<lparr>am_kv := (am_kv m)\<lparr>kv_cooldowns := mput k now (kv_cooldowns (am_kv m))\<rparr>\<rparr> else m)"

definition raise_rule :: "alert_env \<Rightarrow> message \<Rightarrow> string \<times> rule_config \<Rightarrow> alert_module \<Rightarrow> alert_module" where
  "raise_rule v msg p m =
     (let (r, rule) = p; k = cooldown_key r msg in
      if \<not> rule_matches rule msg \<or> cooling (ax_now v r) (rc_Cooldown rule) k (am_kv m) then m
      else (let m2 = set_cooldown v k (ax_now v r) (sendToChannels v r rule msg m)
        in if rc_Escalation rule = None then m2
           else m2\<lparr>am_engine := TrackForEscalation (ax_clock v r []) r msg (am_engine m2)\<rparr>))"

definition raiseAlert :: "alert_env \<Rightarrow> message \<Rightarrow> alert_module \<Rightarrow> alert_module" where
  "raiseAlert v msg m =
     (if IsInMaintenanceMode (ax_mode v) (am_engine m) \<and> msg_Severity msg \<noteq> ''critical''
      then m\<lparr>am_engine := IncrementSuppressed (am_engine m)\<rparr>
      else fold (raise_rule v msg) (kv_rules (am_kv m)) m)"

section \<open>The notifier service\<close>

definition stored_maintenance :: "alerting_kv \<Rightarrow> maintenance" where
  "stored_maintenance s = (case kv_maintenance s of Some mt \<Rightarrow> mt
     | None \<Rightarrow> \<lparr>mt_enabled = False, mt_until = 0, mt_suppressed = 0, mt_reason = []\<rparr>)"

definition notify_message :: "int \<Rightarrow> string \<Rightarrow> string \<Rightarrow> string \<Rightarrow> message" where
  "notify_message nanos subject body severity =
     \<lparr>msg_Timestamp = nanos, msg_Title = subject, msg_Severity = severity, msg_Module = ''system'',
      msg_Category = ''notification'', msg_Evidence = [], msg_Device = None, msg_Zone = [],
      msg_AlertKey = ''legacy-'' @ subject @ ''-'' @ dec_int nanos, msg_Body = body, msg_Link = [], msg_RuleID = []\<rparr>"

text \<open>The older rules, with what they send: channel, rule, subject and text.\<close>

definition legacy_one ::
  "alert_env \<Rightarrow> string \<Rightarrow> string \<Rightarrow> string \<Rightarrow> string \<times> legacy_rule
    \<Rightarrow> alert_module \<times> (channel \<times> string \<times> string \<times> string) list
    \<Rightarrow> alert_module \<times> (channel \<times> string \<times> string \<times> string) list"
where
  "legacy_one v subject body severity p mo =
     (let (r, rule) = p; (m, out) = mo; k = ''alerting.cooldown.'' @ lr_Name rule @ ''.'' @ subject in
      if \<not> lr_Enabled rule \<or> lr_Severity rule \<noteq> severity \<or> cooling (ax_now v r) (lr_Cooldown rule) k (am_kv m) then mo
      else (set_cooldown v k (ax_now v r) m,
        out @ concat (map (\<lambda>c. map (\<lambda>ch. (ch, lr_Name rule, subject, body))
          (filter (\<lambda>ch. ch_Name ch = c \<and> ch_Enabled ch) (kv_channels (am_kv m)))) (lr_Channels rule))))"

definition Notify ::
  "alert_env \<Rightarrow> string \<Rightarrow> string \<Rightarrow> string \<Rightarrow> alert_module
    \<Rightarrow> alert_module \<times> (channel \<times> string \<times> string \<times> string) list"
where
  "Notify v subject body severity m =
     (let mt = stored_maintenance (am_kv m) in
      if mt_enabled mt \<and> (mt_until mt = 0 \<or> ax_mode v < mt_until mt) then (m, [])
      else if kv_rules (am_kv m) \<noteq> [] then (raiseAlert v (notify_message (ax_nanos v) subject body severity) m, [])
      else fold (legacy_one v subject body severity) (kv_legacy (am_kv m)) (m, []))"

section \<open>Jobs and routes\<close>

text \<open>The second component is whether the job ended without a panic.\<close>

definition flushDigests :: "alert_env \<Rightarrow> (nat \<Rightarrow> bool) \<Rightarrow> alert_module \<Rightarrow> alert_module \<times> bool" where
  "flushDigests v ok m =
     (let (n, e, d, s) = FlushDigestQueues (run_part v (am_kv m)) ok (am_engine m) (am_delivery m) (am_kv m)
      in (m\<lparr>am_engine := e, am_delivery := d, am_kv := s\<rparr>, n \<noteq> None))"

definition checkEscalations :: "alert_env \<Rightarrow> alert_module \<Rightarrow> alert_module \<times> (string \<times> attempt) list" where
  "checkEscalations v m =
     (let (e, d, out) = CheckEscalations (run_part v (am_kv m)) (ax_mode v) (kv_rules (am_kv m)) (am_engine m) (am_delivery m)
      in (m\<lparr>am_engine := e, am_delivery := d\<rparr>, out))"

definition persistAlertEngineState :: "(nat \<Rightarrow> bool) \<Rightarrow> alert_module \<Rightarrow> alert_module" where
  "persistAlertEngineState ok m = m\<lparr>am_kv := snd (SaveState ok (am_engine m) (am_kv m))\<rparr>"

text \<open>Switching maintenance mode; the text is the reason given.\<close>

definition apiSetMaintenance :: "int \<Rightarrow> bool \<Rightarrow> int \<Rightarrow> string \<Rightarrow> alert_module \<Rightarrow> alert_module" where
  "apiSetMaintenance now enabled minutes reason m =
     m\<lparr>am_kv := (am_kv m)\<lparr>kv_maintenance := Some
       (if enabled then \<lparr>mt_enabled = True, mt_until = (if minutes > 0 then now + i64 (minutes * 60) else 0),
          mt_suppressed = 0, mt_reason = reason\<rparr>
        else \<lparr>mt_enabled = False, mt_until = 0, mt_suppressed = 0, mt_reason = []\<rparr>)\<rparr>\<rparr>"

definition apiAckAlert :: "int \<Rightarrow> string \<Rightarrow> alert_module \<Rightarrow> alert_module option" where
  "apiAckAlert now k m = (if k = [] then None
     else Some (m\<lparr>am_kv := (am_kv m)\<lparr>kv_acks := mput (''alerting.ack.'' @ k) now (kv_acks (am_kv m))\<rparr>\<rparr>))"

definition apiResolveAlert :: "int \<Rightarrow> string \<Rightarrow> alert_module \<Rightarrow> alert_module option" where
  "apiResolveAlert now k m = (if k = [] then None
     else Some (m\<lparr>am_kv := (am_kv m)\<lparr>kv_resolved := mput (''alerting.resolved.'' @ k) now (kv_resolved (am_kv m))\<rparr>\<rparr>))"

section \<open>Routing\<close>

definition deferred_of :: "alert_module \<Rightarrow> string \<Rightarrow> digest_item list" where
  "deferred_of m c = (case mget (quietHoursDeferred (am_engine m)) c of Some q \<Rightarrow> q | None \<Rightarrow> [])"

lemma find_channel_name: "find_channel chs c = Some ch \<Longrightarrow> ch_Name ch = c"
  by (auto simp: find_channel_def find_Some_iff split: option.splits if_splits)

lemma queue_of_more [simp]:
  "queue_of (e\<lparr>quietHoursDeferred := x\<rparr>) rc = queue_of e rc"
  "queue_of (e\<lparr>escalationState := y\<rparr>) rc = queue_of e rc"
  by (simp_all add: queue_of_def)

lemma engine_steps [simp]:
  "quietHoursDeferred (QueueForDigest now r c msg e) = quietHoursDeferred e"
  "quietHoursDeferred (TrackForEscalation now r msg e) = quietHoursDeferred e"
  "queue_of (QueueForDigest now r c msg e) rc =
     (if rc = (r, c) then last_n 500 (queue_of e rc @ [item_of now msg]) else queue_of e rc)"
  "queue_of (TrackForEscalation now r msg e) rc = queue_of e rc"
  "queue_of (DeferAlert now c msg e) rc = queue_of e rc"
proof -
  show "quietHoursDeferred (QueueForDigest now r c msg e) = quietHoursDeferred e"
    by (simp add: QueueForDigest_def push_item_def Let_def)
  show "queue_of (QueueForDigest now r c msg e) rc =
     (if rc = (r, c) then last_n 500 (queue_of e rc @ [item_of now msg]) else queue_of e rc)"
    by (simp add: QueueForDigest_def queue_of_push)
qed (simp_all add: TrackForEscalation_def DeferAlert_def Let_def)

lemma send_one_kv [simp]: "am_kv (send_one v r rule msg c m) = am_kv m"
  by (auto simp: send_one_def Let_def split: option.split prod.split)

text \<open>What handing an alert to a channel does there, as the rule and the time of day have it.\<close>

definition reaches :: "alert_env \<Rightarrow> string \<Rightarrow> rule_config \<Rightarrow> message \<Rightarrow> string \<Rightarrow> alert_module \<Rightarrow> alert_module \<Rightarrow> bool" where
  "reaches v r rule msg c m m' \<longleftrightarrow>
     (case find_channel (kv_channels (am_kv m)) c of None \<Rightarrow> True | Some ch \<Rightarrow>
       if rc_DigestMinutes rule > 0
       then queue_of (am_engine m') (r, c) = last_n 500 (queue_of (am_engine m) (r, c) @ [item_of (ax_clock v r c) msg])
       else if IsInQuietHours (ax_time v c) ch \<and> msg_Severity msg \<noteq> ''critical''
       then deferred_of m' c = deferred_of m c @ [item_of (ax_clock v r c) msg]
       else re_known v (ch_Type ch) \<longrightarrow> (\<exists>a. log_of (am_delivery m') c =
         last_n (nat (deliveryLogSize (am_delivery m))) (log_of (am_delivery m) c @ [a])))"

definition same_at :: "string \<Rightarrow> string \<Rightarrow> alert_module \<Rightarrow> alert_module \<Rightarrow> bool" where
  "same_at r c m m' \<longleftrightarrow> queue_of (am_engine m') (r, c) = queue_of (am_engine m) (r, c) \<and> deferred_of m' c = deferred_of m c
     \<and> log_of (am_delivery m') c = log_of (am_delivery m) c \<and> deliveryLogSize (am_delivery m') = deliveryLogSize (am_delivery m)"

lemma send_one_other:
  assumes "c' \<noteq> c"
  shows "same_at r c' m (send_one v r rule msg c m)"
proof (cases "find_channel (kv_channels (am_kv m)) c")
  case (Some ch)
  obtain a d where d: "Deliver (re_deliver v r ch msg) ch msg (am_delivery m) = (a, d)" by fastforce
  have "log_of d c' = log_of (am_delivery m) c' \<and> deliveryLogSize d = deliveryLogSize (am_delivery m)"
    using Deliver_log [of "re_deliver v r ch msg" ch msg "am_delivery m"] d find_channel_name [OF Some] assms
      Deliver_size [of "re_deliver v r ch msg" ch msg "am_delivery m"] by (simp add: dlog.push_other)
  then show ?thesis
    using Some assms d by (auto simp: send_one_def same_at_def deferred_of_def DeferAlert_def)
qed (simp add: send_one_def same_at_def)

lemma send_one_reaches: "reaches v r rule msg c m (send_one v r rule msg c m)"
proof (cases "find_channel (kv_channels (am_kv m)) c")
  case (Some ch)
  obtain a d where d: "Deliver (re_deliver v r ch msg) ch msg (am_delivery m) = (a, d)" by fastforce
  have "log_of d c = last_n (nat (deliveryLogSize (am_delivery m))) (log_of (am_delivery m) c @ [a])"
    using Deliver_log [of "re_deliver v r ch msg" ch msg "am_delivery m"] d find_channel_name [OF Some]
    by (simp add: dlog.push_same)
  then show ?thesis
    using Some d by (auto simp: send_one_def reaches_def deferred_of_def DeferAlert_def)
qed (simp add: reaches_def)

lemma same_at_trans: "same_at r c m1 m2 \<Longrightarrow> same_at r c m2 m3 \<Longrightarrow> same_at r c m1 m3"
  by (simp add: same_at_def)

lemma reaches_same: "same_at r c m0 m1 \<Longrightarrow> reaches v r rule msg c m1 m2 \<Longrightarrow> same_at r c m2 m3
    \<Longrightarrow> am_kv m1 = am_kv m0 \<Longrightarrow> reaches v r rule msg c m0 m3"
  by (auto simp: same_at_def reaches_def split: option.splits if_splits)

lemma sendToChannels_other: "c \<notin> set cs \<Longrightarrow> same_at r c m (fold (send_one v r rule msg) cs m)"
proof (induction cs arbitrary: m)
  case Nil
  show ?case by (simp add: same_at_def)
next
  case (Cons c' cs)
  then show ?case
    using same_at_trans [OF send_one_other [of c c' r m v rule msg]] by simp
qed

lemma sends_kv [simp]: "am_kv (fold (send_one v r rule msg) cs m) = am_kv m"
  by (induction cs arbitrary: m) simp_all

lemma sendToChannels_reaches:
  assumes "distinct cs" and "c \<in> set cs"
  shows "reaches v r rule msg c m (fold (send_one v r rule msg) cs m)"
proof -
  obtain us vs where cs: "cs = us @ c # vs" using split_list [OF assms(2)] by blast
  then have o: "c \<notin> set us" "c \<notin> set vs" using assms(1) by auto
  let ?m1 = "fold (send_one v r rule msg) us m"
  let ?m2 = "send_one v r rule msg c ?m1"
  have "same_at r c ?m2 (fold (send_one v r rule msg) vs ?m2)" by (rule sendToChannels_other [OF o(2)])
  from reaches_same [OF sendToChannels_other [OF o(1)] send_one_reaches this] show ?thesis
    by (simp add: cs)
qed

lemma raise_reaches:
  assumes "rule_matches rule msg" and "\<not> cooling (ax_now v r) (rc_Cooldown rule) (cooldown_key r msg) (am_kv m)"
    and "distinct (rc_Channels rule)" and "m' = raise_rule v msg (r, rule) m"
  shows "(\<forall>c \<in> set (rc_Channels rule). reaches v r rule msg c m m')
    \<and> (\<forall>c. c \<notin> set (rc_Channels rule) \<longrightarrow> same_at r c m m')
    \<and> (ax_stored v (cooldown_key r msg) \<longrightarrow>
        mget (kv_cooldowns (am_kv m')) (cooldown_key r msg) = Some (ax_now v r))
    \<and> (rc_Escalation rule \<noteq> None \<longrightarrow> mget (escalationState (am_engine m')) (msg_AlertKey msg) \<noteq> None)"
proof -
  let ?k = "cooldown_key r msg" and ?m1 = "sendToChannels v r rule msg m"
  have m': "m' = (let m2 = set_cooldown v ?k (ax_now v r) ?m1
        in if rc_Escalation rule = None then m2
           else m2\<lparr>am_engine := TrackForEscalation (ax_clock v r []) r msg (am_engine m2)\<rparr>)"
    using assms(1,2,4) by (simp add: raise_rule_def)
  have same: "same_at r c ?m1 m'" for c
    unfolding m' by (auto simp: same_at_def set_cooldown_def Let_def deferred_of_def)
  have "reaches v r rule msg c m m'" if "c \<in> set (rc_Channels rule)" for c
    using reaches_same [OF _ sendToChannels_reaches [OF assms(3) that] same [unfolded sendToChannels_def]]
    by (simp add: same_at_def)
  moreover have "same_at r c m m'" if "c \<notin> set (rc_Channels rule)" for c
    using same_at_trans [OF sendToChannels_other [OF that] same [unfolded sendToChannels_def]] .
  moreover have "ax_stored v ?k \<longrightarrow> mget (kv_cooldowns (am_kv m')) ?k = Some (ax_now v r)"
    unfolding m' by (simp add: set_cooldown_def Let_def)
  moreover have "rc_Escalation rule \<noteq> None \<longrightarrow> mget (escalationState (am_engine m')) (msg_AlertKey msg) \<noteq> None"
    unfolding m' by (simp add: TrackForEscalation_def Let_def)
  ultimately show ?thesis by blast
qed

text \<open>On its way to a channel nothing is sent to it before: what counts for its limits is unchanged.\<close>

lemma limit_key_channel: "limit_key c k = limit_key c' k \<longleftrightarrow> c = c'"
  by (simp add: limit_key_def)

lemma send_one_last:
  assumes "c' \<noteq> c"
  shows "last_send c' (msg_AlertKey msg) (am_delivery (send_one v r rule msg c m)) = last_send c' (msg_AlertKey msg) (am_delivery m)"
proof (cases "find_channel (kv_channels (am_kv m)) c")
  case (Some ch)
  obtain a d where d: "Deliver (re_deliver v r ch msg) ch msg (am_delivery m) = (a, d)" by fastforce
  then have "rateLimits d = (if at_Success a
     then mput (limit_key c (msg_AlertKey msg)) (dv_sent_at (re_deliver v r ch msg)) (rateLimits (am_delivery m))
     else rateLimits (am_delivery m))"
    using Deliver_limits [of "re_deliver v r ch msg" ch msg "am_delivery m"] find_channel_name [OF Some] by simp
  then have "last_send c' (msg_AlertKey msg) d = last_send c' (msg_AlertKey msg) (am_delivery m)"
    using assms by (simp add: last_send_def limit_key_channel)
  then show ?thesis using Some d by (simp add: send_one_def)
qed (simp add: send_one_def)

lemma sends_last:
  "c \<notin> set cs \<Longrightarrow> last_send c (msg_AlertKey msg) (am_delivery (fold (send_one v r rule msg) cs m))
    = last_send c (msg_AlertKey msg) (am_delivery m)"
proof (induction cs arbitrary: m)
  case (Cons c' cs)
  then show ?case using send_one_last [of c c' msg v r rule m] by simp
qed simp

lemma may_send_last:
  "last_send (ch_Name ch) (msg_AlertKey msg) d = last_send (ch_Name ch) (msg_AlertKey msg) d' \<Longrightarrow>
    may_send x ch msg d = may_send x ch msg d'"
  by (simp add: may_send_def CheckRateLimit_def IsDuplicate_def)

text \<open>What a delivery of an alert enters in the log.\<close>

definition attempt_for :: "deliver_env \<Rightarrow> channel \<Rightarrow> message \<Rightarrow> delivery_engine \<Rightarrow> attempt \<Rightarrow> bool" where
  "attempt_for x ch msg d a \<longleftrightarrow> at_ChannelID a = ch_Name ch \<and> at_AlertKey a = msg_AlertKey msg
     \<and> at_Severity a = msg_Severity msg \<and> at_Title a = msg_Title msg
     \<and> (at_Success a \<longleftrightarrow> may_send x ch msg d \<and> (\<exists>n < 3. snd (dv_send x n) = None))"

lemma deliver_attempt:
  assumes "\<And>n. \<not> dv_done x n \<and> \<not> dv_wait_done x n"
  shows "attempt_for x ch msg d (fst (Deliver x ch msg d))"
proof -
  obtain a d' where d: "Deliver x ch msg d = (a, d')" by fastforce
  then show ?thesis
    using delivery_outcome [OF assms d] Deliver_about [of x ch msg d] by (simp add: attempt_for_def)
qed

text \<open>A channel to which a rule sends at once.\<close>

definition sent_at_once :: "alert_env \<Rightarrow> rule_config \<Rightarrow> message \<Rightarrow> channel \<Rightarrow> bool" where
  "sent_at_once v rule msg ch \<longleftrightarrow> rc_DigestMinutes rule \<le> 0 \<and> re_known v (ch_Type ch)
     \<and> (msg_Severity msg = ''critical'' \<or> \<not> IsInQuietHours (ax_time v (ch_Name ch)) ch)"

lemma raise_sends:
  assumes "rule_matches rule msg" and "\<not> cooling (ax_now v r) (rc_Cooldown rule) (cooldown_key r msg) (am_kv m)"
    and "distinct (rc_Channels rule)" and "c \<in> set (rc_Channels rule)"
    and ch: "find_channel (kv_channels (am_kv m)) c = Some ch" "sent_at_once v rule msg ch"
    and x: "x = re_deliver v r ch msg" "\<And>n. \<not> dv_done x n \<and> \<not> dv_wait_done x n"
  shows "\<exists>a. attempt_for x ch msg (am_delivery m) a \<and> log_of (am_delivery (raise_rule v msg (r, rule) m)) c
    = last_n (nat (deliveryLogSize (am_delivery m))) (log_of (am_delivery m) c @ [a])"
proof -
  obtain us vs where cs: "rc_Channels rule = us @ c # vs" using split_list [OF assms(4)] by blast
  then have o: "c \<notin> set us" "c \<notin> set vs" using assms(3) by auto
  let ?m1 = "fold (send_one v r rule msg) us m"
  let ?m2 = "send_one v r rule msg c ?m1"
  let ?a = "fst (Deliver x ch msg (am_delivery ?m1))"
  have n: "ch_Name ch = c" by (rule find_channel_name [OF ch(1)])
  have s1: "same_at r c m ?m1" by (rule sendToChannels_other [OF o(1)])
  have "may_send x ch msg (am_delivery ?m1) = may_send x ch msg (am_delivery m)"
    using sends_last [OF o(1)] n by (intro may_send_last) simp
  then have a: "attempt_for x ch msg (am_delivery m) ?a"
    using deliver_attempt [OF x(2), of ch msg "am_delivery ?m1"] by (simp add: attempt_for_def)
  have "am_delivery ?m2 = snd (Deliver x ch msg (am_delivery ?m1))"
    using ch n x(1) by (auto simp: send_one_def sent_at_once_def case_prod_unfold Let_def)
  then have "log_of (am_delivery ?m2) c = last_n (nat (deliveryLogSize (am_delivery m))) (log_of (am_delivery m) c @ [?a])"
    using Deliver_log [of x ch msg "am_delivery ?m1"] n s1 by (simp add: dlog.push_same same_at_def)
  moreover have "am_delivery (raise_rule v msg (r, rule) m) = am_delivery (fold (send_one v r rule msg) vs ?m2)"
    using assms(1,2) cs by (simp add: raise_rule_def sendToChannels_def set_cooldown_def Let_def)
  moreover have "same_at r c ?m2 (fold (send_one v r rule msg) vs ?m2)" by (rule sendToChannels_other [OF o(2)])
  ultimately show ?thesis using a by (auto simp: same_at_def)
qed

text \<open>
  C27: A matching alert is sent at once where its rule sends at once. When a rule that matches is not cooling
  down and lists no channel twice, then for each listed channel that is there, enabled and of a known type,
  with no digest asked for and either outside its quiet hours or for a critical alert, one attempt of this alert enters the
  channel's log; it is a success exactly if the alert is neither rate limited nor a duplicate there and one of three
  calls of the channel goes through. Channels that are not listed are untouched, and the cooldown
  starts, whether anything was delivered or not.
\<close>

theorem alert_reaches_channels:
  assumes "rule_matches rule msg" and "\<not> cooling (ax_now v r) (rc_Cooldown rule) (cooldown_key r msg) (am_kv m)"
    and "distinct (rc_Channels rule)" and "m' = raise_rule v msg (r, rule) m"
    and "\<And>ch n. \<not> dv_done (re_deliver v r ch msg) n \<and> \<not> dv_wait_done (re_deliver v r ch msg) n"
  shows "(\<forall>c \<in> set (rc_Channels rule). \<forall>ch. find_channel (kv_channels (am_kv m)) c = Some ch \<and> sent_at_once v rule msg ch \<longrightarrow>
      (\<exists>a. attempt_for (re_deliver v r ch msg) ch msg (am_delivery m) a
        \<and> log_of (am_delivery m') c = last_n (nat (deliveryLogSize (am_delivery m))) (log_of (am_delivery m) c @ [a])))
    \<and> (\<forall>c. c \<notin> set (rc_Channels rule) \<longrightarrow> same_at r c m m')
    \<and> (ax_stored v (cooldown_key r msg) \<longrightarrow>
        mget (kv_cooldowns (am_kv m')) (cooldown_key r msg) = Some (ax_now v r))"
  using raise_sends [OF assms(1-3) _ _ _ refl assms(5)] raise_reaches [OF assms(1-4)] assms(4) by simp

definition quiet_channel :: channel where
  "quiet_channel = mail_channel\<lparr>ch_Config := [(''quiet_hours_start'', ''22:00''), (''quiet_hours_end'', ''06:15'')]\<rparr>"

definition plain_rule :: rule_config where
  "plain_rule = \<lparr>rc_Enabled = True, rc_Severity = [], rc_SeverityOnly = [], rc_Module = [], rc_Category = [],
     rc_Device = [], rc_Zone = [], rc_Channels = [''ops''], rc_Cooldown = 600, rc_DigestMinutes = 0, rc_Escalation = None\<rparr>"

definition sample_alerts :: "channel list \<Rightarrow> (string, rule_config) gomap \<Rightarrow> alert_module" where
  "sample_alerts chs rs = \<lparr>am_engine = NewAlertEngine, am_delivery = NewDeliveryEngine 0, am_lastErr = [],
     am_kv = \<lparr>kv_digests = None, kv_escalations = None, kv_deferred = None, kv_maintenance = None,
       kv_channels = chs, kv_rules = rs, kv_legacy = [], kv_cooldowns = [], kv_acks = [], kv_resolved = []\<rparr>\<rparr>"

definition alert_at :: "int \<times> int \<Rightarrow> int \<Rightarrow> alert_env" where
  "alert_at hm nanos = \<lparr>re_channels = [], re_known = (\<lambda>_. True),
     re_deliver = (\<lambda>_ _ _. plain_env 100000 (\<lambda>_. (3, None))), re_nanos = (\<lambda>_ _. nanos),
     ax_now = (\<lambda>_. 100000), ax_clock = (\<lambda>_ _. 100000), ax_mode = 100000, ax_time = (\<lambda>_. hm),
     ax_nanos = nanos, ax_stored = (\<lambda>_. True)\<rparr>"

lemma quiet_at_night: "IsInQuietHours (23, 0) quiet_channel"
  by (simp add: IsInQuietHours_def isTimeInWindow_def config_of_def quiet_channel_def mget_def minute_of_def i64_def
      scan_hhmm_def scan_d_def is_space_def is_digit_def undec_def digit_val_def Let_def)

theorem alert_reaches_channels_witness:
  "let msg = sample_message\<lparr>msg_Severity := ''critical''\<rparr>;
       m' = raise_rule (alert_at (23, 0) 0) msg (''r'', plain_rule) (sample_alerts [quiet_channel] [(''r'', plain_rule)])
   in IsInQuietHours (23, 0) quiet_channel \<and> length (log_of (am_delivery m') ''ops'') = 1
     \<and> at_Success (hd (log_of (am_delivery m') ''ops''))"
proof -
  let ?msg = "sample_message\<lparr>msg_Severity := ''critical''\<rparr>"
  let ?m = "sample_alerts [quiet_channel] [(''r'', plain_rule)]" and ?v = "alert_at (23, 0) 0"
  let ?m' = "raise_rule ?v ?msg (''r'', plain_rule) ?m"
  have r: "rule_matches plain_rule ?msg" by (simp add: rule_matches_def plain_rule_def sample_message_def)
  have c: "\<not> cooling (ax_now ?v ''r'') (rc_Cooldown plain_rule) (cooldown_key ''r'' ?msg) (am_kv ?m)"
    by (simp add: cooling_def sample_alerts_def)
  have d: "distinct (rc_Channels plain_rule)" by (simp add: plain_rule_def)
  have f: "find_channel (kv_channels (am_kv ?m)) ''ops'' = Some quiet_channel"
    by (simp add: find_channel_def sample_alerts_def quiet_channel_def mail_channel_def)
  have e: "sent_at_once ?v plain_rule ?msg quiet_channel"
    by (simp add: sent_at_once_def plain_rule_def alert_at_def)
  have n: "\<And>ch n. \<not> dv_done (re_deliver ?v ''r'' ch ?msg) n \<and> \<not> dv_wait_done (re_deliver ?v ''r'' ch ?msg) n"
    by (simp add: alert_at_def plain_env_def)
  have "may_send (re_deliver ?v ''r'' quiet_channel ?msg) quiet_channel ?msg (am_delivery ?m)"
    by (simp add: may_send_def CheckRateLimit_def IsDuplicate_def config_of_def quiet_channel_def mail_channel_def
        sample_alerts_def alert_at_def plain_env_def mget_def last_send_def NewDeliveryEngine_def)
  moreover have "\<exists>n < 3. snd (dv_send (re_deliver ?v ''r'' quiet_channel ?msg) n) = None"
    by (intro exI [of _ 0]) (simp add: alert_at_def plain_env_def)
  moreover obtain a where "attempt_for (re_deliver ?v ''r'' quiet_channel ?msg) quiet_channel ?msg (am_delivery ?m) a"
    "log_of (am_delivery ?m') ''ops'' = last_n (nat (deliveryLogSize (am_delivery ?m))) (log_of (am_delivery ?m) ''ops'' @ [a])"
    using alert_reaches_channels [OF r c d refl n] f e by (auto simp: plain_rule_def)
  ultimately have "log_of (am_delivery ?m') ''ops'' = [a] \<and> at_Success a"
    by (simp add: attempt_for_def sample_alerts_def NewDeliveryEngine_def log_of_def mget_def)
  then show ?thesis using quiet_at_night by (simp add: Let_def)
qed

section \<open>Cooldown\<close>

lemma set_cooldown_key: "ax_stored v k \<Longrightarrow> mget (kv_cooldowns (am_kv (set_cooldown v k t m))) k = Some t"
  by (simp add: set_cooldown_def)

text \<open>
  A cooldown holds. If a rule lets an alert through, an alert of the same key does nothing under that
  rule until the cooldown, in whatever way the rule was changed in between, is over.
\<close>

theorem cooldown_holds:
  assumes "rule_matches rule msg" and "\<not> cooling (ax_now v r) (rc_Cooldown rule) (cooldown_key r msg) (am_kv m)"
    and "ax_stored v (cooldown_key r msg)" and "0 < ax_now v r"
    and "msg_AlertKey msg' = msg_AlertKey msg" and "ax_now v' r - ax_now v r < rc_Cooldown rule'"
  shows "raise_rule v' msg' (r, rule') (raise_rule v msg (r, rule) m) = raise_rule v msg (r, rule) m"
proof -
  have k: "cooldown_key r msg' = cooldown_key r msg" using assms(5) by (simp add: cooldown_key_def)
  have "mget (kv_cooldowns (am_kv (raise_rule v msg (r, rule) m))) (cooldown_key r msg) = Some (ax_now v r)"
    using assms(1-3) by (simp add: raise_rule_def set_cooldown_key Let_def)
  then have "cooling (ax_now v' r) (rc_Cooldown rule') (cooldown_key r msg') (am_kv (raise_rule v msg (r, rule) m))"
    using assms(4,6) k by (simp add: cooling_def)
  then show ?thesis by (subst raise_rule_def) simp
qed

theorem cooldown_holds_witness:
  "let m = raise_rule (alert_at (12, 0) 0) sample_message (''r'', plain_rule) (sample_alerts [] [])
   in raise_rule (alert_at (12, 0) 0) sample_message (''r'', plain_rule) m = m"
proof -
  let ?v = "alert_at (12, 0) 0"
  have r: "rule_matches plain_rule sample_message" by (simp add: rule_matches_def plain_rule_def sample_message_def)
  have c: "\<not> cooling (ax_now ?v ''r'') (rc_Cooldown plain_rule) (cooldown_key ''r'' sample_message) (am_kv (sample_alerts [] []))"
    by (simp add: cooling_def sample_alerts_def)
  show ?thesis
    using cooldown_holds [OF r c, of sample_message ?v plain_rule] by (simp add: alert_at_def plain_rule_def Let_def)
qed

lemma dec_int_inject: "dec_int a = dec_int b \<Longrightarrow> a = b"
proof -
  have "CHR ''-'' \<notin> set (dec n)" for n using dec_digits [of "CHR ''-''" n] by (auto simp: is_digit_def)
  then have m: "CHR ''-'' # xs \<noteq> dec n" for n xs by (metis list.set_intros(1))
  show "dec_int a = dec_int b \<Longrightarrow> a = b"
    using m m [THEN not_sym] by (auto simp: dec_int_def split: if_splits)
qed

text \<open>
  The cooldown of a notification never holds. The key of an alert the notifier makes contains the
  nanoseconds, so however often the same subject was notified before, at other times, it is not cooling
  down.
\<close>

theorem notifications_never_cool:
  assumes "n \<notin> set ts" and "kv_cooldowns (am_kv m) = []"
    and "m' = fold (\<lambda>(t, v). raise_rule v (notify_message t subject body severity) (r, rule)) (zip ts vs) m"
  shows "\<not> cooling now (rc_Cooldown rule) (cooldown_key r (notify_message n subject body severity)) (am_kv m')"
proof -
  let ?k = "\<lambda>t. cooldown_key r (notify_message t subject body severity)"
  have k: "?k t \<noteq> ?k n" if "t \<in> set ts" for t
    using assms(1) that dec_int_inject [of t n] by (auto simp: cooldown_key_def notify_message_def)
  have one: "mget (kv_cooldowns (am_kv (raise_rule v (notify_message t subject body severity) (r, rule) m))) (?k n)
      = mget (kv_cooldowns (am_kv m)) (?k n)" if "t \<in> set ts" for t v m
    using k [OF that] by (auto simp: raise_rule_def set_cooldown_def sendToChannels_def Let_def)
  have "mget (kv_cooldowns (am_kv (fold (\<lambda>(t, v). raise_rule v (notify_message t subject body severity) (r, rule)) ps m))) (?k n)
      = mget (kv_cooldowns (am_kv m)) (?k n)" if "set (map fst ps) \<subseteq> set ts" for ps m
    using that by (induction ps arbitrary: m) (auto simp: one split: prod.splits)
  from this [of "zip ts vs" m] have "mget (kv_cooldowns (am_kv m')) (?k n) = None"
    using assms(2,3) set_zip_leftD by (fastforce simp: image_subset_iff)
  then show ?thesis by (simp add: cooling_def)
qed

theorem notifications_never_cool_witness:
  "\<not> cooling 100000 (rc_Cooldown plain_rule) (cooldown_key ''r'' (notify_message 6 ''down'' [] ''high''))
     (am_kv (raise_rule (alert_at (12, 0) 5) (notify_message 5 ''down'' [] ''high'') (''r'', plain_rule) (sample_alerts [] [])))"
  using notifications_never_cool [of 6 "[5]" "sample_alerts [] []" _ "''down''" "[]" "''high''" "''r''" plain_rule
      "[alert_at (12, 0) 5]" 100000]
  by (simp add: sample_alerts_def)

section \<open>The module at work\<close>

datatype alert_op =
    DoNotify alert_env string string string
  | DoRaise alert_env message
  | DoFlush alert_env "nat \<Rightarrow> bool"
  | DoCheck alert_env
  | DoPersist "nat \<Rightarrow> bool"
  | DoMaintenance int bool int string
  | DoAck int string
  | DoResolve int string

fun alert_step :: "alert_op \<Rightarrow> alert_module \<Rightarrow> alert_module" where
  "alert_step (DoNotify v s b sev) m = fst (Notify v s b sev m)"
| "alert_step (DoRaise v msg) m = raiseAlert v msg m"
| "alert_step (DoFlush v ok) m = fst (flushDigests v ok m)"
| "alert_step (DoCheck v) m = fst (checkEscalations v m)"
| "alert_step (DoPersist ok) m = persistAlertEngineState ok m"
| "alert_step (DoMaintenance now en mins why) m = apiSetMaintenance now en mins why m"
| "alert_step (DoAck now k) m = (case apiAckAlert now k m of Some m' \<Rightarrow> m' | None \<Rightarrow> m)"
| "alert_step (DoResolve now k) m = (case apiResolveAlert now k m of Some m' \<Rightarrow> m' | None \<Rightarrow> m)"

definition later :: "string \<Rightarrow> alert_module \<Rightarrow> alert_module \<Rightarrow> bool" where
  "later c m m' \<longleftrightarrow> (\<exists>xs. deferred_of m' c = deferred_of m c @ xs)"

lemma later_refl: "later c m m"
  by (simp add: later_def)

lemma later_trans: "later c m1 m2 \<Longrightarrow> later c m2 m3 \<Longrightarrow> later c m1 m3"
  unfolding later_def by (metis append.assoc)

lemma later_fold: "(\<And>x m. later c m (f x m)) \<Longrightarrow> later c m (fold f xs m)"
  by (induction xs arbitrary: m) (auto intro: later_refl later_trans)

lemma later_same: "quietHoursDeferred (am_engine m') = quietHoursDeferred (am_engine m) \<Longrightarrow> later c m m'"
  by (simp add: later_def deferred_of_def)

lemma send_one_later: "later c m (send_one v r rule msg c' m)"
proof (cases "find_channel (kv_channels (am_kv m)) c'")
  case (Some ch)
  obtain a d where d: "Deliver (re_deliver v r ch msg) ch msg (am_delivery m) = (a, d)" by fastforce
  show ?thesis
    using Some d by (auto simp: send_one_def later_def deferred_of_def DeferAlert_def)
qed (simp add: send_one_def later_refl)

lemma raise_rule_later: "later c m (raise_rule v msg p m)"
proof -
  obtain r rule where p: "p = (r, rule)" by (cases p)
  have "later c m (sendToChannels v r rule msg m)"
    unfolding sendToChannels_def by (rule later_fold) (rule send_one_later)
  moreover have "quietHoursDeferred (am_engine (set_cooldown v k t m')) = quietHoursDeferred (am_engine m')" for k t m'
    by (simp add: set_cooldown_def)
  ultimately show ?thesis
    by (auto simp: raise_rule_def p later_refl later_def deferred_of_def Let_def)
qed

lemma raiseAlert_later: "later c m (raiseAlert v msg m)"
  using later_fold [of c "raise_rule v msg"] raise_rule_later
  by (auto simp: raiseAlert_def later_def deferred_of_def IncrementSuppressed_def)

lemma escalate_deferred: "quietHoursDeferred (fst (escalate v now k esc cs st0)) = quietHoursDeferred (fst st0)"
  by (induction v now k esc cs st0 rule: escalate.induct)
    (auto simp: mark_level_def change_state_def Let_def split: option.split prod.split)

lemma check_deferred: "quietHoursDeferred (fst (fold (check_one v now rules) ps st0)) = quietHoursDeferred (fst st0)"
  by (induction ps arbitrary: st0) (auto simp: check_one_def escalate_deferred split: option.split)

lemma legacy_engine: "am_engine (fst (fold (legacy_one v s b sev) ps mo)) = am_engine (fst mo)"
  by (induction ps arbitrary: mo) (auto simp: legacy_one_def set_cooldown_def Let_def split: prod.splits)

lemma alert_step_later: "later c m (alert_step op m)"
proof (cases op)
  case (DoNotify v s b sev)
  then show ?thesis
    using raiseAlert_later legacy_engine [of v s b sev _ "(m, [])"]
    by (auto simp: Notify_def Let_def later_refl intro!: later_same)
next
  case (DoFlush v ok)
  then show ?thesis
    by (auto simp: flushDigests_def FlushDigestQueues_def Let_def intro!: later_same split: prod.split)
next
  case (DoCheck v)
  have "quietHoursDeferred (am_engine (fst (checkEscalations v m))) = quietHoursDeferred (am_engine m)"
    using check_deferred [of "run_part v (am_kv m)" "ax_mode v" "kv_rules (am_kv m)" "escalationState (am_engine m)"
        "(am_engine m, am_delivery m, [])"]
    by (auto simp: checkEscalations_def CheckEscalations_def split: prod.split)
  then show ?thesis using DoCheck by (simp add: later_same)
qed (auto simp: raiseAlert_later persistAlertEngineState_def apiSetMaintenance_def apiAckAlert_def apiResolveAlert_def
    intro!: later_same)

text \<open>
  Alerts put off are never sent. Whatever happens to the module, the alerts deferred for a channel in
  its quiet hours stay in their list, in order, and the list only grows.
\<close>

theorem deferred_only_grow:
  "\<exists>xs. deferred_of (fold alert_step ops m) c = deferred_of m c @ xs"
  using later_fold [of c alert_step m ops] alert_step_later by (simp add: later_def)

text \<open>
  Switching maintenance mode through the API works neither as meant nor for long. While it is on, a
  notification is dropped whatever its severity, critical ones included; the engine is never told, and
  within minutes the periodic save of the engine's own state switches it off again.
\<close>

theorem maintenance_switch_lost:
  assumes "m1 = apiSetMaintenance now True minutes reason m" and "minutes \<le> 0"
    and "m2 = persistAlertEngineState (\<lambda>_. True) m1" and "\<not> maintenanceEnabled (am_engine m)"
  shows "Notify v subject body severity m1 = (m1, []) \<and> am_engine m1 = am_engine m
    \<and> \<not> mt_enabled (stored_maintenance (am_kv m2)) \<and> am_engine m2 = am_engine m"
  using assms
  by (simp add: apiSetMaintenance_def Notify_def stored_maintenance_def persistAlertEngineState_def SaveState_def Let_def)

theorem maintenance_switch_lost_witness:
  "\<not> mt_enabled (stored_maintenance (am_kv (persistAlertEngineState (\<lambda>_. True)
     (apiSetMaintenance 100000 True 0 ''upgrade'' (sample_alerts [] [])))))"
  using maintenance_switch_lost [OF refl _ refl, of 0 "sample_alerts [] []" undefined "[]" "[]" "[]" 100000 "''upgrade''"]
  by (simp add: sample_alerts_def NewAlertEngine_def)

text \<open>
  Acknowledging or resolving an alert through the API does not stop its escalation: the engine is
  unchanged, and the next check makes the attempts it would have made.
\<close>

theorem ack_changes_nothing:
  assumes "apiAckAlert now k m = Some m' \<or> apiResolveAlert now k m = Some m'"
  shows "am_engine m' = am_engine m \<and> snd (checkEscalations v m') = snd (checkEscalations v m)"
proof -
  have "run_part v (am_kv m') = run_part v (am_kv m)"
    using assms by (auto simp: run_part_def apiAckAlert_def apiResolveAlert_def split: if_splits)
  moreover have "kv_rules (am_kv m') = kv_rules (am_kv m)" "am_engine m' = am_engine m" "am_delivery m' = am_delivery m"
    using assms by (auto simp: apiAckAlert_def apiResolveAlert_def split: if_splits)
  ultimately show ?thesis by (simp add: checkEscalations_def split: prod.split)
qed

theorem ack_changes_nothing_witness:
  "am_engine (the (apiAckAlert 5 ''k'' (sample_alerts [] []))) = am_engine (sample_alerts [] [])"
proof -
  obtain m' where m: "apiAckAlert 5 ''k'' (sample_alerts [] []) = Some m'" by (simp add: apiAckAlert_def)
  then show ?thesis using ack_changes_nothing [OF disjI1 [OF m], of undefined] by simp
qed

section \<open>Escalations\<close>

text \<open>
  The life of the module: its operations, and starts of the program, which read what was last stored.
\<close>

datatype alert_life = Op alert_op | Restart int

fun life_step :: "alert_life \<Rightarrow> alert_module \<Rightarrow> alert_module" where
  "life_step (Op x) m = alert_step x m"
| "life_step (Restart n) m = \<lparr>am_engine = LoadState (am_kv m) NewAlertEngine, am_delivery = NewDeliveryEngine n,
     am_lastErr = [], am_kv = am_kv m\<rparr>"

text \<open>Nothing restarts before the tracked alerts were stored once: by the periodic save, whose first two writes succeed.\<close>

fun saved_before_restart :: "alert_life list \<Rightarrow> bool" where
  "saved_before_restart [] = True"
| "saved_before_restart (Restart n # xs) = False"
| "saved_before_restart (Op (DoPersist ok) # xs) \<longleftrightarrow> ok 0 \<and> ok 1 \<or> saved_before_restart xs"
| "saved_before_restart (Op x # xs) = saved_before_restart xs"

definition keeps_marks :: "string \<Rightarrow> string \<Rightarrow> int \<Rightarrow> alert_module \<Rightarrow> alert_module \<Rightarrow> bool" where
  "keeps_marks k r n m m' \<longleftrightarrow> kv_rules (am_kv m') = kv_rules (am_kv m)
     \<and> (marked k r n (am_engine m) \<longrightarrow> marked k r n (am_engine m')
         \<and> (stored_marked k r n (am_kv m) \<longrightarrow> stored_marked k r n (am_kv m')))"

lemma keeps_refl: "keeps_marks k r n m m"
  by (simp add: keeps_marks_def)

lemma keeps_trans: "keeps_marks k r n m1 m2 \<Longrightarrow> keeps_marks k r n m2 m3 \<Longrightarrow> keeps_marks k r n m1 m3"
  by (simp add: keeps_marks_def)

lemma keeps_fold: "(\<And>x m. keeps_marks k r n m (f x m)) \<Longrightarrow> keeps_marks k r n m (fold f xs m)"
proof (induction xs arbitrary: m)
  case (Cons x xs)
  then show ?case using keeps_trans [OF Cons.prems [of m x]] by simp
qed (simp add: keeps_refl)

lemma keeps_same:
  "escalationState (am_engine m') = escalationState (am_engine m) \<Longrightarrow> kv_escalations (am_kv m') = kv_escalations (am_kv m)
    \<Longrightarrow> kv_rules (am_kv m') = kv_rules (am_kv m) \<Longrightarrow> keeps_marks k r n m m'"
  using marked_cong [of "am_engine m'" "am_engine m"] stored_cong [of "am_kv m'" "am_kv m"] by (simp add: keeps_marks_def)

lemma engine_tracked [simp]:
  "escalationState (QueueForDigest now r c msg e) = escalationState e"
  "escalationState (DeferAlert now c msg e) = escalationState e"
  "escalationState (IncrementSuppressed e) = escalationState e"
  by (simp_all add: QueueForDigest_def push_item_def DeferAlert_def IncrementSuppressed_def Let_def)

lemma send_one_tracked [simp]:
  "escalationState (am_engine (send_one v r rule msg c m)) = escalationState (am_engine m)"
  by (auto simp: send_one_def Let_def split: option.split prod.split)

lemma sends_tracked [simp]:
  "escalationState (am_engine (sendToChannels v r rule msg m)) = escalationState (am_engine m)"
proof -
  have "escalationState (am_engine (fold (send_one v r rule msg) cs m)) = escalationState (am_engine m)" for cs
    by (induction cs arbitrary: m) simp_all
  then show ?thesis by (simp add: sendToChannels_def)
qed

lemma set_cooldown_more [simp]:
  "am_engine (set_cooldown v k t m) = am_engine m"
  "kv_escalations (am_kv (set_cooldown v k t m)) = kv_escalations (am_kv m)"
  "kv_rules (am_kv (set_cooldown v k t m)) = kv_rules (am_kv m)"
  by (simp_all add: set_cooldown_def)

lemma sendToChannels_kv [simp]: "am_kv (sendToChannels v r rule msg m) = am_kv m"
  by (simp add: sendToChannels_def)

lemma keeps_track: "keeps_marks k r n m (m\<lparr>am_engine := TrackForEscalation now r' msg (am_engine m)\<rparr>)"
  by (simp add: keeps_marks_def marked_track)

lemma raise_rule_keeps: "keeps_marks k r n m (raise_rule v msg p m)"
proof -
  obtain r' rule where p: "p = (r', rule)" by (cases p)
  let ?m2 = "set_cooldown v (cooldown_key r' msg) (ax_now v r') (sendToChannels v r' rule msg m)"
  have m2: "keeps_marks k r n m ?m2" by (rule keeps_same) simp_all
  show ?thesis
    using m2 keeps_trans [OF m2 keeps_track, of "ax_clock v r' []" r' msg] by (simp add: raise_rule_def p keeps_refl Let_def)
qed

lemma raiseAlert_keeps: "keeps_marks k r n m (raiseAlert v msg m)"
  using keeps_fold [of k r n "raise_rule v msg", OF raise_rule_keeps]
  by (auto simp: raiseAlert_def intro: keeps_same)

lemma legacy_kv: "kv_escalations (am_kv (fst (fold (legacy_one v s b sev) ps mo))) = kv_escalations (am_kv (fst mo))
    \<and> kv_rules (am_kv (fst (fold (legacy_one v s b sev) ps mo))) = kv_rules (am_kv (fst mo))"
  by (induction ps arbitrary: mo) (auto simp: legacy_one_def Let_def split: prod.splits)

lemma Save_rules [simp]: "kv_rules (snd (SaveState ok e s)) = kv_rules s"
  by (simp add: SaveState_def Let_def)

lemma keeps_save:
  assumes "escalationState e = escalationState (am_engine m)"
  shows "keeps_marks k r n m (m\<lparr>am_engine := e, am_delivery := d, am_kv := snd (SaveState ok e (am_kv m))\<rparr>)"
  using marked_cong [OF assms] stored_save [of k r n e "am_kv m" ok] by (simp add: keeps_marks_def)

lemma alert_step_keeps: "keeps_marks k r n m (alert_step op m)"
proof (cases op)
  case (DoNotify v s b sev)
  then show ?thesis
    using raiseAlert_keeps legacy_engine [of v s b sev _ "(m, [])"] legacy_kv [of v s b sev _ "(m, [])"]
    by (auto simp: Notify_def Let_def keeps_refl intro!: keeps_same)
next
  case (DoFlush v ok)
  let ?e = "(am_engine m)\<lparr>digestQueues := []\<rparr>"
  show ?thesis
    using keeps_save [of ?e m k r n] DoFlush
    by (auto simp: flushDigests_def FlushDigestQueues_def Let_def intro!: keeps_same split: prod.split)
next
  case (DoCheck v)
  then show ?thesis
    using marked_check [of k r n "am_engine m" "run_part v (am_kv m)" "ax_mode v" "kv_rules (am_kv m)" "am_delivery m"]
    by (auto simp: checkEscalations_def keeps_marks_def split: prod.split)
next
  case (DoPersist ok)
  then show ?thesis
    using keeps_save [of "am_engine m" m k r n ok "am_delivery m"] by (simp add: persistAlertEngineState_def)
qed (auto simp: raiseAlert_keeps apiSetMaintenance_def apiAckAlert_def apiResolveAlert_def intro!: keeps_same)

lemma persist_stores:
  assumes "marked k r n (am_engine m)" and "ok 0" and "ok 1"
  shows "stored_marked k r n (am_kv (alert_step (DoPersist ok) m))"
  using stored_save [OF assms(1), of "am_kv m" ok] assms(2,3) by (simp add: persistAlertEngineState_def)

lemma stored_life:
  assumes "marked k r n (am_engine m)" and "stored_marked k r n (am_kv m)"
  shows "marked k r n (am_engine (fold life_step xs m)) \<and> kv_rules (am_kv (fold life_step xs m)) = kv_rules (am_kv m)"
  using assms
proof (induction xs arbitrary: m)
  case (Cons x xs)
  have "marked k r n (am_engine (life_step x m)) \<and> stored_marked k r n (am_kv (life_step x m))
      \<and> kv_rules (am_kv (life_step x m)) = kv_rules (am_kv m)"
    using Cons.prems alert_step_keeps by (cases x) (auto simp: keeps_marks_def stored_marked_def)
  then show ?case using Cons.IH [of "life_step x m"] by simp
qed simp

lemma marked_life:
  assumes "marked k r n (am_engine m)" and "saved_before_restart xs"
  shows "marked k r n (am_engine (fold life_step xs m)) \<and> kv_rules (am_kv (fold life_step xs m)) = kv_rules (am_kv m)"
  using assms
proof (induction xs arbitrary: m rule: saved_before_restart.induct)
  case (3 ok xs)
  have k: "keeps_marks k r n m (life_step (Op (DoPersist ok)) m)"
    unfolding life_step.simps by (rule alert_step_keeps)
  then have m: "marked k r n (am_engine (life_step (Op (DoPersist ok)) m))"
    "kv_rules (am_kv (life_step (Op (DoPersist ok)) m)) = kv_rules (am_kv m)"
    using 3(2) by (simp_all add: keeps_marks_def)
  show ?case
  proof (cases "ok 0 \<and> ok 1")
    case True
    then have "stored_marked k r n (am_kv (life_step (Op (DoPersist ok)) m))" using persist_stores 3(2) by simp
    then show ?thesis using stored_life [OF m(1)] m(2) by simp
  next
    case False
    then show ?thesis using 3(1) [OF m(1)] 3(3) m(2) by (simp del: life_step.simps) blast
  qed
qed (use alert_step_keeps in \<open>simp_all add: keeps_marks_def del: alert_step.simps\<close>)

text \<open>
  C31: escalations go out when they are due, and once where that is asked. Every attempt of a check is about
  a tracked alert that is neither acknowledged nor resolved and at least as old as its rule's
  escalation says. If one attempt for an alert succeeded and its rule escalates only once, no later
  check makes any for that alert, whatever happens to the module in between while the rule stays as it is: alerts, notifications,
  other checks, digests, saves, and restarts too once the state was saved.
\<close>

theorem escalates_once:
  assumes "mkeys_ok (escalationState (am_engine m))" and "checkEscalations v m = (m1, out)" and "(k, a) \<in> set out"
  shows "(\<exists>s rule esc. mget (escalationState (am_engine m)) k = Some s \<and> \<not> es_Acknowledged s \<and> \<not> es_Resolved s
      \<and> mget (kv_rules (am_kv m)) (es_RuleID s) = Some rule \<and> rc_Escalation rule = Some esc
      \<and> ec_AfterMinutes esc \<le> go_div (ax_mode v - es_FirstSentAt s) 60
      \<and> (at_Success a \<and> ec_OnlyOnce esc \<longrightarrow>
           (\<forall>xs. saved_before_restart xs \<longrightarrow> (\<forall>v' a'. (k, a') \<notin> set (snd (checkEscalations v' (fold life_step xs m1)))))))"
proof -
  obtain e1 d1 where c: "CheckEscalations (run_part v (am_kv m)) (ax_mode v) (kv_rules (am_kv m)) (am_engine m) (am_delivery m)
      = (e1, d1, out)" and m1: "m1 = m\<lparr>am_engine := e1, am_delivery := d1\<rparr>"
    using assms(2) by (auto simp: checkEscalations_def split: prod.splits)
  note f = check_attempts [OF assms(1) c]
  obtain s esc where s: "mget (escalationState (am_engine m)) k = Some s"
    "due_escalation (ax_mode v) (kv_rules (am_kv m)) s = Some esc" "at_Success a \<longrightarrow> level_of e1 k (ec_AfterMinutes esc)"
    using f(1) [OF assms(3)] by blast
  obtain rule where r: "mget (kv_rules (am_kv m)) (es_RuleID s) = Some rule" "rc_Escalation rule = Some esc"
    "ec_AfterMinutes esc \<le> go_div (ax_mode v - es_FirstSentAt s) 60" "\<not> es_Acknowledged s" "\<not> es_Resolved s"
    using s(2) by (auto simp: due_escalation_def split: if_splits option.splits)
  have "(k, a') \<notin> set (snd (checkEscalations v' (fold life_step xs m1)))"
    if ok: "at_Success a" "ec_OnlyOnce esc" "saved_before_restart xs" for v' a' xs
  proof -
    let ?m2 = "fold life_step xs m1"
    have "marked k (es_RuleID s) (ec_AfterMinutes esc) (am_engine m1)"
      using f(2,3) s(1,3) ok(1) by (simp add: marked_def m1 rule_of_def)
    then have m2: "marked k (es_RuleID s) (ec_AfterMinutes esc) (am_engine ?m2)" "kv_rules (am_kv ?m2) = kv_rules (am_kv m)"
      using marked_life [OF _ ok(3)] by (simp_all add: m1)
    have "(k, a') \<notin> set (snd (snd (CheckEscalations (run_part v' (am_kv ?m2)) (ax_mode v') (kv_rules (am_kv ?m2))
        (am_engine ?m2) (am_delivery ?m2))))"
      using m2 r(1) by (intro check_silent [OF _ _ _ r(2) ok(2)]) (auto simp: marked_def)
    then show ?thesis by (simp add: checkEscalations_def case_prod_unfold Let_def)
  qed
  then show ?thesis using s(1) r by blast
qed

definition tracked_alerts :: alert_module where
  "tracked_alerts = (sample_alerts [mail_channel] once_rules)\<lparr>am_engine := TrackForEscalation 0 ''r'' sample_message NewAlertEngine\<rparr>"

theorem escalates_once_witness:
  "\<exists>m1 a. checkEscalations (alert_at (12, 0) 5) tracked_alerts = (m1, [(''k'', a)])
     \<and> (''k'', a) \<notin> set (snd (checkEscalations (alert_at (13, 0) 6)
          (life_step (Restart 0) (life_step (Op (DoPersist (\<lambda>_. True))) m1))))"
proof -
  let ?v = "alert_at (12, 0) 5" and ?e = "TrackForEscalation 0 ''r'' sample_message NewAlertEngine"
  define esc where "esc = \<lparr>ec_AfterMinutes = 15, ec_Channels = [''ops''], ec_OnlyOnce = True\<rparr>"
  define msg where "msg = escalation_message 5 ''k'' esc"
  obtain a d1 where d: "Deliver (plain_env 100000 (\<lambda>_. (3, None))) mail_channel msg (NewDeliveryEngine 0) = (a, d1)"
    by fastforce
  have a: "at_Success a" using delivers_first [of msg] d by simp
  define s where "s = \<lparr>es_AlertKey = ''k'', es_RuleID = ''r'', es_FirstSentAt = 0, es_LastSeenAt = 0,
    es_Acknowledged = False, es_AcknowledgedAt = 0, es_Resolved = False, es_ResolvedAt = 0, es_Levels = []\<rparr>"
  have e: "escalationState ?e = [(''k'', s)]"
    by (simp add: TrackForEscalation_def NewAlertEngine_def sample_message_def s_def mput_def)
  have due: "due_escalation 100000 once_rules s = Some esc"
    by (simp add: due_escalation_def s_def once_rules_def mget_def go_div_def esc_def)
  have c: "find_channel [mail_channel] ''ops'' = Some mail_channel"
    by (simp add: find_channel_def mail_channel_def)
  define m1 where "m1 = tracked_alerts\<lparr>am_engine := mark_level 100000 ''k'' esc ?e, am_delivery := d1\<rparr>"
  have m1: "checkEscalations ?v tracked_alerts = (m1, [(''k'', a)])"
    using due c d a by (simp add: checkEscalations_def CheckEscalations_def tracked_alerts_def sample_alerts_def e check_one_def
        run_part_def alert_at_def m1_def esc_def msg_def)
  have ok: "mkeys_ok (escalationState (am_engine tracked_alerts))" by (simp add: e mkeys_ok_def tracked_alerts_def)
  have t: "mget (escalationState (am_engine tracked_alerts)) ''k'' = Some s"
    "mget (kv_rules (am_kv tracked_alerts)) ''r'' = mget once_rules ''r''"
    by (simp_all add: e mget_def tracked_alerts_def sample_alerts_def)
  have o: "(''k'', a) \<in> set [(''k'', a)]" by simp
  obtain s' rule esc' where r: "mget (escalationState (am_engine tracked_alerts)) ''k'' = Some s'"
    "mget (kv_rules (am_kv tracked_alerts)) (es_RuleID s') = Some rule" "rc_Escalation rule = Some esc'"
    and q: "at_Success a \<and> ec_OnlyOnce esc' \<Longrightarrow> saved_before_restart xs
      \<Longrightarrow> (''k'', a') \<notin> set (snd (checkEscalations v' (fold life_step xs m1)))" for xs v' a'
    using escalates_once [OF ok m1 o] by blast
  have "ec_OnlyOnce esc'" using r t by (auto simp: s_def once_rules_def mget_def)
  then have "(''k'', a) \<notin> set (snd (checkEscalations (alert_at (13, 0) 6)
      (fold life_step [Op (DoPersist (\<lambda>_. True)), Restart 0] m1)))"
    using a by (intro q) simp_all
  then show ?thesis using m1 by (auto simp del: life_step.simps)
qed

section \<open>Digests of notifications\<close>

lemma queue_in_queues:
  assumes "queue_of e (r, c) \<noteq> []"
  shows "(r, c, queue_of e (r, c)) \<in> set (queues e)"
proof -
  obtain q m where m: "mget (digestQueues e) r = Some m" "mget m c = Some q" "queue_of e (r, c) = q"
    using assms by (auto simp: queue_of_def split: option.splits)
  then have "(r, m) \<in> set (digestQueues e)" "(c, q) \<in> set m" by (auto simp: mget_def dest: map_of_SomeD)
  then have "(r, c, q) \<in> set (concat (map (\<lambda>(r, m). map (\<lambda>(c, is). (r, c, is)) m) (digestQueues e)))"
    by force
  then show ?thesis using m(3) assms by (simp add: queues_def)
qed

lemma send_one_queue: "r' \<noteq> r \<Longrightarrow> queue_of (am_engine (send_one v r' rule msg c' m)) (r, c) = queue_of (am_engine m) (r, c)"
  by (auto simp: send_one_def Let_def split: option.split prod.split)

lemma sends_queue: "r' \<noteq> r \<Longrightarrow> queue_of (am_engine (fold (send_one v r' rule msg) cs m)) (r, c) = queue_of (am_engine m) (r, c)"
  by (induction cs arbitrary: m) (simp_all add: send_one_queue)

lemma raise_rule_queue:
  "r' \<noteq> r \<Longrightarrow> queue_of (am_engine (raise_rule v msg (r', rule) m)) (r, c) = queue_of (am_engine m) (r, c)"
  by (simp add: raise_rule_def sendToChannels_def set_cooldown_def sends_queue Let_def)

lemma raise_rules_queue:
  "r \<notin> fst ` set ps \<Longrightarrow> queue_of (am_engine (fold (raise_rule v msg) ps m)) (r, c) = queue_of (am_engine m) (r, c)"
  by (induction ps arbitrary: m) (auto simp: raise_rule_queue)

lemma raise_rule_channels [simp]: "kv_channels (am_kv (raise_rule v msg p m)) = kv_channels (am_kv m)"
  by (cases p) (simp add: raise_rule_def sendToChannels_def set_cooldown_def Let_def)

lemma raise_rules_channels [simp]: "kv_channels (am_kv (fold (raise_rule v msg) ps m)) = kv_channels (am_kv m)"
  by (induction ps arbitrary: m) simp_all

lemma raise_rule_cooldown:
  "r' \<noteq> r \<Longrightarrow> mget (kv_cooldowns (am_kv (raise_rule v msg (r', rule) m))) (cooldown_key r msg)
    = mget (kv_cooldowns (am_kv m)) (cooldown_key r msg)"
  by (auto simp: raise_rule_def sendToChannels_def set_cooldown_def cooldown_key_def Let_def)

lemma raise_rules_cooldown:
  "r \<notin> fst ` set ps \<Longrightarrow> mget (kv_cooldowns (am_kv (fold (raise_rule v msg) ps m))) (cooldown_key r msg)
    = mget (kv_cooldowns (am_kv m)) (cooldown_key r msg)"
  by (induction ps arbitrary: m) (auto simp: raise_rule_cooldown)

lemma notify_queued:
  assumes "(r, rule) \<in> set (kv_rules (am_kv m))" and "mkeys_ok (kv_rules (am_kv m))" and "rule_matches rule msg"
    and "\<not> cooling (ax_now v r) (rc_Cooldown rule) (cooldown_key r msg) (am_kv m)"
    and "distinct (rc_Channels rule)" and "c \<in> set (rc_Channels rule)" and "rc_DigestMinutes rule > 0"
    and "find_channel (kv_channels (am_kv m)) c = Some ch"
    and "m' = fold (raise_rule v msg) (kv_rules (am_kv m)) m"
  shows "item_of (ax_clock v r c) msg \<in> set (queue_of (am_engine m') (r, c)) \<and> kv_channels (am_kv m') = kv_channels (am_kv m)"
proof -
  obtain us vs where ps: "kv_rules (am_kv m) = us @ (r, rule) # vs" using split_list [OF assms(1)] by blast
  then have o: "r \<notin> fst ` set us" "r \<notin> fst ` set vs" using assms(2) by (auto simp: mkeys_ok_def)
  let ?m1 = "fold (raise_rule v msg) us m"
  let ?m2 = "raise_rule v msg (r, rule) ?m1"
  have "\<not> cooling (ax_now v r) (rc_Cooldown rule) (cooldown_key r msg) (am_kv ?m1)"
    using assms(4) by (simp add: cooling_def raise_rules_cooldown [OF o(1)])
  from raise_reaches [OF assms(3) this assms(5) refl] assms(6-8)
  have "queue_of (am_engine ?m2) (r, c) = last_n 500 (queue_of (am_engine ?m1) (r, c) @ [item_of (ax_clock v r c) msg])"
    by (auto simp: reaches_def)
  then have "item_of (ax_clock v r c) msg \<in> set (queue_of (am_engine ?m2) (r, c))"
    by (simp add: last_n_def)
  then show ?thesis using assms(9) ps raise_rules_queue [OF o(2)] by simp
qed

text \<open>
  A notification put into a digest loses all digests. If the notifier's alert matches a rule that
  bundles, not cooling down, for an enabled channel, the next flush panics, so the job fails and every
  queue is empty afterwards.
\<close>

theorem notified_digest_lost:
  assumes "m' = fst (Notify v subject body severity m)" and "msg = notify_message (ax_nanos v) subject body severity"
    and "\<not> mt_enabled (stored_maintenance (am_kv m))" and "\<not> maintenanceEnabled (am_engine m)"
    and "(r, rule) \<in> set (kv_rules (am_kv m))" and "mkeys_ok (kv_rules (am_kv m))" and "rule_matches rule msg"
    and "\<not> cooling (ax_now v r) (rc_Cooldown rule) (cooldown_key r msg) (am_kv m)"
    and "distinct (rc_Channels rule)" and "c \<in> set (rc_Channels rule)" and "rc_DigestMinutes rule > 0"
    and "find_channel (kv_channels (am_kv m)) c = Some ch"
  shows "\<not> snd (flushDigests v' ok m') \<and> digestQueues (am_engine (fst (flushDigests v' ok m'))) = []"
proof -
  have "kv_rules (am_kv m) \<noteq> []" using assms(5) by auto
  then have m': "m' = fold (raise_rule v msg) (kv_rules (am_kv m)) m"
    using assms(1-4) by (simp add: Notify_def raiseAlert_def IsInMaintenanceMode_def Let_def)
  note q = notify_queued [OF assms(5-12) m']
  then have "(r, c, queue_of (am_engine m') (r, c)) \<in> set (queues (am_engine m'))"
    by (intro queue_in_queues) auto
  moreover have "msg_Device (di_Message (item_of (ax_clock v r c) msg)) = None"
    by (simp add: item_of_def assms(2) notify_message_def)
  ultimately have "snd (snd (flush_loop (run_part v' (am_kv m')) (queues (am_engine m')) (am_delivery m') 0)) = False"
    using q assms(12) by (intro flush_loop_panics) (auto simp: run_part_def)
  then show ?thesis
    by (cases "flush_loop (run_part v' (am_kv m')) (queues (am_engine m')) (am_delivery m') 0")
      (simp add: flushDigests_def FlushDigestQueues_def Let_def)
qed

theorem notified_digest_lost_witness:
  "let m = sample_alerts [mail_channel] [(''r'', plain_rule\<lparr>rc_DigestMinutes := 5\<rparr>)]
   in \<not> snd (flushDigests (alert_at (12, 0) 9) (\<lambda>_. True) (fst (Notify (alert_at (12, 0) 7) ''down'' [] ''low'' m)))"
proof -
  let ?r = "plain_rule\<lparr>rc_DigestMinutes := 5\<rparr>" and ?v = "alert_at (12, 0) 7"
  let ?m = "sample_alerts [mail_channel] [(''r'', ?r)]"
  have "rule_matches ?r (notify_message (ax_nanos ?v) ''down'' [] ''low'')"
    by (simp add: rule_matches_def plain_rule_def notify_message_def)
  moreover have "\<not> cooling (ax_now ?v ''r'') (rc_Cooldown ?r) (cooldown_key ''r'' (notify_message (ax_nanos ?v) ''down'' [] ''low'')) (am_kv ?m)"
    by (simp add: cooling_def sample_alerts_def)
  moreover have "find_channel (kv_channels (am_kv ?m)) ''ops'' = Some mail_channel"
    by (simp add: find_channel_def sample_alerts_def mail_channel_def)
  ultimately show ?thesis
    using notified_digest_lost [OF refl refl, of ?m "''r''" ?r ?v "''down''" "[]" "''low''" "''ops''" mail_channel
        "alert_at (12, 0) 9" "\<lambda>_. True"]
    by (simp add: stored_maintenance_def sample_alerts_def NewAlertEngine_def plain_rule_def mkeys_ok_def Let_def)
qed

end
