(* ===== verification/RWLock.thy ===== *)
theory RWLock
  imports Main
begin

text \<open>
  The readers-writer lock of Go's \<^verbatim>\<open>sync\<close> package, under which the alert engine and the license
  module run. A writer first announces itself, which keeps new readers out, and enters when the
  readers inside have left. The theory has the two operations of
  \<^verbatim>\<open>internal/modules/alerting/engine.go\<close> and \<^verbatim>\<open>internal/modules/license/license.go\<close> that take it
  while they hold it, and shows that either can block for ever.
\<close>

section \<open>The lock\<close>

datatype lock_op = RLock | RUnlock | WLock | WUnlock

record rw_state =
  rd_count :: nat
  writer :: "nat option"
  inside :: bool
  progs :: "lock_op list list"

text \<open>Each thread is what it has still to do; \<open>writer\<close> is the one announced, \<open>inside\<close> whether it has entered.\<close>

inductive rw_step :: "rw_state \<Rightarrow> rw_state \<Rightarrow> bool" where
  read: "i < length (progs s) \<Longrightarrow> progs s ! i = RLock # p \<Longrightarrow> writer s = None \<Longrightarrow>
    rw_step s (s\<lparr>rd_count := Suc (rd_count s), progs := (progs s)[i := p]\<rparr>)"
| read_end: "i < length (progs s) \<Longrightarrow> progs s ! i = RUnlock # p \<Longrightarrow> rd_count s = Suc n \<Longrightarrow>
    rw_step s (s\<lparr>rd_count := n, progs := (progs s)[i := p]\<rparr>)"
| announce: "i < length (progs s) \<Longrightarrow> progs s ! i = WLock # p \<Longrightarrow> writer s = None \<Longrightarrow>
    rw_step s (s\<lparr>writer := Some i\<rparr>)"
| enter: "i < length (progs s) \<Longrightarrow> progs s ! i = WLock # p \<Longrightarrow> writer s = Some i \<Longrightarrow> \<not> inside s \<Longrightarrow> rd_count s = 0 \<Longrightarrow>
    rw_step s (s\<lparr>inside := True, progs := (progs s)[i := p]\<rparr>)"
| leave: "i < length (progs s) \<Longrightarrow> progs s ! i = WUnlock # p \<Longrightarrow> writer s = Some i \<Longrightarrow> inside s \<Longrightarrow>
    rw_step s (s\<lparr>writer := None, inside := False, progs := (progs s)[i := p]\<rparr>)"

inductive_cases rw_stepE: "rw_step s s'"

definition rw_start :: "lock_op list list \<Rightarrow> rw_state" where
  "rw_start ps = \<lparr>rd_count = 0, writer = None, inside = False, progs = ps\<rparr>"

definition finished :: "rw_state \<Rightarrow> bool" where
  "finished s \<longleftrightarrow> (\<forall>p \<in> set (progs s). p = [])"

section \<open>The programs\<close>

text \<open>
  How the operations lock that call one another while they hold the lock. The others, as
  \<^verbatim>\<open>QueueForDigest\<close>, \<^verbatim>\<open>SaveState\<close> and \<^verbatim>\<open>current\<close>, take it once around their work.
\<close>

definition reading :: "lock_op list" where "reading = [RLock, RUnlock]"
definition writing :: "lock_op list" where "writing = [WLock, WUnlock]"

text \<open>\<^verbatim>\<open>FlushDigestQueues\<close>: the queues are taken as a writer, then the state is saved inside a reader's section.\<close>

definition flush_locks :: "lock_op list" where
  "flush_locks = writing @ [RLock] @ reading @ [RUnlock]"

text \<open>The tier and the \<open>n\<close> limits are asked for inside the section of \<^verbatim>\<open>status\<close>.\<close>

definition status_locks :: "nat \<Rightarrow> lock_op list" where
  "status_locks n = [RLock] @ reading @ concat (replicate n reading) @ [RUnlock]"

section \<open>Nested sections block\<close>

abbreviation blocked :: "lock_op list \<Rightarrow> lock_op list \<Rightarrow> rw_state" where
  "blocked p q \<equiv> \<lparr>rd_count = 1, writer = Some 1, inside = False, progs = [RLock # p, WLock # q]\<rparr>"

lemma blocked_stuck: "\<not> rw_step (blocked p q) s'"
  by (auto elim!: rw_stepE simp: less_Suc_eq nth_Cons')

lemma nested_blocks: "rw_step\<^sup>*\<^sup>* (rw_start [RLock # RLock # p, WLock # q]) (blocked p q)"
proof -
  let ?s0 = "rw_start [RLock # RLock # p, WLock # q]"
  let ?s1 = "?s0\<lparr>rd_count := 1, progs := [RLock # p, WLock # q]\<rparr>"
  have "rw_step ?s0 ?s1" using rw_step.read [of 0 ?s0] by (simp add: rw_start_def)
  moreover have "rw_step ?s1 (blocked p q)" using rw_step.announce [of 1 ?s1] by (simp add: rw_start_def)
  ultimately show ?thesis by (meson converse_rtranclp_into_rtranclp rtranclp.rtrancl_refl)
qed

lemma write_first: "rw_step\<^sup>*\<^sup>* (rw_start [WLock # WUnlock # p, q]) (rw_start [p, q])"
proof -
  let ?s0 = "rw_start [WLock # WUnlock # p, q]"
  let ?s1 = "?s0\<lparr>writer := Some 0\<rparr>"
  let ?s2 = "?s1\<lparr>inside := True, progs := [WUnlock # p, q]\<rparr>"
  have "rw_step ?s0 ?s1" using rw_step.announce [of 0 ?s0] by (simp add: rw_start_def)
  moreover have "rw_step ?s1 ?s2" using rw_step.enter [of 0 ?s1] by (simp add: rw_start_def)
  moreover have "rw_step ?s2 (rw_start [p, q])" using rw_step.leave [of 0 ?s2] by (simp add: rw_start_def)
  ultimately show ?thesis by (meson converse_rtranclp_into_rtranclp rtranclp.rtrancl_refl)
qed

text \<open>
  A reader's section inside another can block for ever. Flushing the digests reads the lock and, holding it, saves the
  state, which reads it again; answering the license status does the same for the tier and every limit. If
  a writer, as \<^verbatim>\<open>QueueForDigest\<close> or a new license, announces itself in between, neither ever goes on: a state can be reached in which nobody is done
  and no step is possible.
\<close>

theorem nested_sections_block:
  "(\<exists>s. rw_step\<^sup>*\<^sup>* (rw_start [flush_locks, writing]) s \<and> \<not> finished s \<and> (\<forall>s'. \<not> rw_step s s'))
    \<and> (\<exists>s. rw_step\<^sup>*\<^sup>* (rw_start [status_locks n, writing]) s \<and> \<not> finished s \<and> (\<forall>s'. \<not> rw_step s s'))"
proof -
  have f: "flush_locks = WLock # WUnlock # RLock # RLock # [RUnlock, RUnlock]"
    "writing = WLock # [WUnlock]"
    "status_locks n = RLock # RLock # RUnlock # concat (replicate n reading) @ [RUnlock]"
    by (simp_all add: flush_locks_def status_locks_def reading_def writing_def)
  have "rw_step\<^sup>*\<^sup>* (rw_start [flush_locks, writing]) (blocked [RUnlock, RUnlock] [WUnlock])"
    unfolding f by (rule rtranclp_trans [OF write_first nested_blocks])
  moreover have "rw_step\<^sup>*\<^sup>* (rw_start [status_locks n, writing])
      (blocked (RUnlock # concat (replicate n reading) @ [RUnlock]) [WUnlock])"
    unfolding f by (rule nested_blocks)
  moreover have "\<not> finished (blocked p q)" for p q by (simp add: finished_def)
  ultimately show ?thesis using blocked_stuck by blast
qed

end
