(* ===== verification/GoRegexp.thy ===== *)
theory GoRegexp
  imports GoText
begin

text \<open>
  The part of Go's \<^verbatim>\<open>regexp\<close> package the program's validation uses: anchored patterns made
  of character classes, concatenation, alternatives and bounded or unbounded repetition.
  \<^verbatim>\<open>lang\<close> is the set of texts a pattern describes; \<^verbatim>\<open>ends\<close> runs the pattern on a text and
  returns what may be left of it, which is how \<^verbatim>\<open>MatchString\<close> of \<^verbatim>\<open>^...$\<close> is computed here;
  the two agree. The flag \<^verbatim>\<open>(?i)\<close> is \<^verbatim>\<open>fold_case\<close> on the text with the pattern in lower
  case: besides the ASCII letters, Go folds U+017F to s and U+212A to k.
\<close>

section \<open>Patterns\<close>

datatype re =
    Cls "(char \<times> char) list"
  | Cat re re
  | Alt re re
  | Rep nat nat re
  | Plus re

abbreviation Opt :: "re \<Rightarrow> re" where
  "Opt r \<equiv> Rep 0 1 r"

abbreviation Chr :: "char \<Rightarrow> re" where
  "Chr c \<equiv> Cls [(c, c)]"

definition in_class :: "(char \<times> char) list \<Rightarrow> char \<Rightarrow> bool" where
  "in_class rs c \<longleftrightarrow> list_ex (\<lambda>(a, b). (of_char a :: nat) \<le> of_char c \<and> (of_char c :: nat) \<le> of_char b) rs"

fun lit :: "string \<Rightarrow> re" where
  "lit [] = Rep 0 0 (Cls [])"
| "lit [c] = Chr c"
| "lit (c # s) = Cat (Chr c) (lit s)"

section \<open>The texts of a pattern\<close>

primrec pow :: "string set \<Rightarrow> nat \<Rightarrow> string set" where
  "pow A 0 = {[]}"
| "pow A (Suc n) = {u @ v | u v. u \<in> A \<and> v \<in> pow A n}"

primrec lang :: "re \<Rightarrow> string set" where
  "lang (Cls rs) = {[c] | c. in_class rs c}"
| "lang (Cat a b) = {u @ v | u v. u \<in> lang a \<and> v \<in> lang b}"
| "lang (Alt a b) = lang a \<union> lang b"
| "lang (Rep m n a) = {u. \<exists>k. m \<le> k \<and> k \<le> n \<and> u \<in> pow (lang a) k}"
| "lang (Plus a) = {u. \<exists>k. 1 \<le> k \<and> u \<in> pow (lang a) k}"

section \<open>Running a pattern\<close>

primrec exactly :: "(string \<Rightarrow> string list) \<Rightarrow> nat \<Rightarrow> string \<Rightarrow> string list" where
  "exactly f 0 s = [s]"
| "exactly f (Suc n) s = concat (map (exactly f n) (f s))"

primrec at_most :: "(string \<Rightarrow> string list) \<Rightarrow> nat \<Rightarrow> string \<Rightarrow> string list" where
  "at_most f 0 s = [s]"
| "at_most f (Suc n) s = s # concat (map (at_most f n) (f s))"

primrec ends :: "re \<Rightarrow> string \<Rightarrow> string list" where
  "ends (Cls rs) s = (case s of [] \<Rightarrow> [] | c # t \<Rightarrow> if in_class rs c then [t] else [])"
| "ends (Cat a b) s = concat (map (ends b) (ends a s))"
| "ends (Alt a b) s = ends a s @ ends b s"
| "ends (Rep m n a) s =
     (if m \<le> n then concat (map (at_most (ends a) (n - m)) (exactly (ends a) m s)) else [])"
| "ends (Plus a) s = concat (map (\<lambda>t. at_most (ends a) (length t) t) (ends a s))"

definition MatchString :: "re \<Rightarrow> string \<Rightarrow> bool" where
  "MatchString r s \<longleftrightarrow> list_ex (\<lambda>t. t = []) (ends r s)"

fun fold_case :: "string \<Rightarrow> string" where
  "fold_case (a # b # c # s) =
     (if of_char a = (197 :: nat) \<and> of_char b = (191 :: nat) then CHR ''s'' # fold_case (c # s)
      else if of_char a = (226 :: nat) \<and> of_char b = (132 :: nat) \<and> of_char c = (170 :: nat)
        then CHR ''k'' # fold_case s
      else to_lower_char a # fold_case (b # c # s))"
| "fold_case [a, b] =
     (if of_char a = (197 :: nat) \<and> of_char b = (191 :: nat) then ''s'' else [to_lower_char a, to_lower_char b])"
| "fold_case [a] = [to_lower_char a]"
| "fold_case [] = []"

section \<open>The run finds exactly the texts of the pattern\<close>

lemma pow_SucI: "u \<in> A \<Longrightarrow> v \<in> pow A n \<Longrightarrow> u @ v \<in> pow A (Suc n)"
  by auto

lemma pow_SucE:
  assumes "w \<in> pow A (Suc n)"
  obtains u v where "w = u @ v" "u \<in> A" "v \<in> pow A n"
  using assms by auto

declare pow.simps(2) [simp del]

lemma pow_add: "u \<in> pow A m \<Longrightarrow> v \<in> pow A n \<Longrightarrow> u @ v \<in> pow A (m + n)"
proof (induction m arbitrary: u)
  case (Suc m)
  then obtain x y where "u = x @ y" "x \<in> A" "y \<in> pow A m" by (blast elim: pow_SucE)
  with Suc show ?case using pow_SucI [of x A "y @ v" "m + n"] by simp
qed simp

lemma pow_split: "w \<in> pow A (m + n) \<Longrightarrow> \<exists>u v. w = u @ v \<and> u \<in> pow A m \<and> v \<in> pow A n"
proof (induction m arbitrary: w)
  case (Suc m)
  then obtain x y where w: "w = x @ y" "x \<in> A" "y \<in> pow A (m + n)" by (auto elim: pow_SucE)
  with Suc.IH obtain u v where "y = u @ v" "u \<in> pow A m" "v \<in> pow A n" by blast
  with w have "w = (x @ u) @ v" "x @ u \<in> pow A (Suc m)" "v \<in> pow A n"
    by (auto intro: pow_SucI)
  then show ?case by blast
qed simp

text \<open>A repetition that matched a text did so in no more rounds than the text has bytes.\<close>

lemma pow_short: "u \<in> pow A k \<Longrightarrow> \<exists>j \<le> length u. j \<le> k \<and> u \<in> pow A j"
proof (induction k arbitrary: u)
  case (Suc k)
  then obtain x y where u: "u = x @ y" "x \<in> A" "y \<in> pow A k" by (blast elim: pow_SucE)
  with Suc.IH obtain j where j: "j \<le> length y" "j \<le> k" "y \<in> pow A j" by blast
  show ?case
  proof (cases "x = []")
    case True
    with u j show ?thesis by auto
  next
    case False
    then have "Suc j \<le> length u" using u j by (cases x) auto
    moreover have "u \<in> pow A (Suc j)" using u j by (auto intro: pow_SucI)
    ultimately show ?thesis using j by (intro exI [of _ "Suc j"]) simp
  qed
qed simp

text \<open>
  A function on texts that runs the set A: what it leaves is what follows a text of A.
\<close>

definition runs :: "(string \<Rightarrow> string list) \<Rightarrow> string set \<Rightarrow> bool" where
  "runs f A \<longleftrightarrow> (\<forall>s t. t \<in> set (f s) \<longleftrightarrow> (\<exists>u. u \<in> A \<and> s = u @ t))"

lemma runsD: "runs f A \<Longrightarrow> t \<in> set (f s) \<Longrightarrow> \<exists>u. u \<in> A \<and> s = u @ t"
  by (simp add: runs_def)

lemma runsI: "runs f A \<Longrightarrow> u \<in> A \<Longrightarrow> t \<in> set (f (u @ t))"
  by (auto simp: runs_def)

lemma exactly_sound: "runs f A \<Longrightarrow> t \<in> set (exactly f n s) \<Longrightarrow> \<exists>u. u \<in> pow A n \<and> s = u @ t"
proof (induction n arbitrary: s)
  case (Suc n)
  then obtain x where x: "x \<in> set (f s)" "t \<in> set (exactly f n x)" by auto
  with Suc obtain u v where "u \<in> A" "s = u @ x" "v \<in> pow A n" "x = v @ t" using runsD by metis
  then show ?case by (intro exI [of _ "u @ v"]) (simp add: pow_SucI)
qed simp

lemma exactly_complete: "runs f A \<Longrightarrow> u \<in> pow A n \<Longrightarrow> t \<in> set (exactly f n (u @ t))"
proof (induction n arbitrary: u)
  case (Suc n)
  then obtain x y where u: "u = x @ y" "x \<in> A" "y \<in> pow A n" by (blast elim: pow_SucE)
  with Suc have "y @ t \<in> set (f (u @ t))" using runsI [of f A x "y @ t"] by simp
  with Suc u show ?case by (auto intro!: bexI [of _ "y @ t"])
qed simp

lemma at_most_sound: "runs f A \<Longrightarrow> t \<in> set (at_most f n s) \<Longrightarrow> \<exists>k u. k \<le> n \<and> u \<in> pow A k \<and> s = u @ t"
proof (induction n arbitrary: s)
  case (Suc n)
  show ?case
  proof (cases "t = s")
    case True
    then show ?thesis by (intro exI [of _ 0]) simp
  next
    case False
    with Suc.prems obtain x where x: "x \<in> set (f s)" "t \<in> set (at_most f n x)" by auto
    with Suc.prems Suc.IH obtain u k v where
      "u \<in> A" "s = u @ x" "k \<le> n" "v \<in> pow A k" "x = v @ t" using runsD by metis
    then show ?thesis by (intro exI [of _ "Suc k"] exI [of _ "u @ v"]) (simp add: pow_SucI)
  qed
qed simp

lemma at_most_complete: "runs f A \<Longrightarrow> k \<le> n \<Longrightarrow> u \<in> pow A k \<Longrightarrow> t \<in> set (at_most f n (u @ t))"
proof (induction n arbitrary: u k)
  case (Suc n)
  show ?case
  proof (cases k)
    case 0
    with Suc show ?thesis by simp
  next
    case (Suc j)
    with Suc.prems obtain x y where u: "u = x @ y" "x \<in> A" "y \<in> pow A j" by (blast elim: pow_SucE)
    with Suc.prems have "y @ t \<in> set (f (u @ t))" using runsI [of f A x "y @ t"] by simp
    moreover have "t \<in> set (at_most f n (y @ t))" by (rule Suc.IH) (use Suc.prems u Suc in auto)
    ultimately show ?thesis by auto
  qed
qed simp

lemma runs_Rep: "runs (ends a) (lang a) \<Longrightarrow> runs (ends (Rep m n a)) (lang (Rep m n a))"
proof (unfold runs_def [of "ends (Rep m n a)"], intro allI iffI)
  fix s t
  assume r: "runs (ends a) (lang a)"
  {
    assume "t \<in> set (ends (Rep m n a) s)"
    then obtain x where le: "m \<le> n" and x: "x \<in> set (exactly (ends a) m s)"
      and t: "t \<in> set (at_most (ends a) (n - m) x)"
      by (auto split: if_splits)
    obtain u where u: "u \<in> pow (lang a) m" "s = u @ x" using exactly_sound [OF r x] by blast
    obtain k v where v: "k \<le> n - m" "v \<in> pow (lang a) k" "x = v @ t"
      using at_most_sound [OF r t] by blast
    have "u @ v \<in> pow (lang a) (m + k)" by (rule pow_add [OF u(1) v(2)])
    moreover have "m \<le> m + k" "m + k \<le> n" using le v(1) by auto
    ultimately have "u @ v \<in> lang (Rep m n a)" by (simp only: lang.simps mem_Collect_eq) blast
    then show "\<exists>u. u \<in> lang (Rep m n a) \<and> s = u @ t" using u v by (intro exI [of _ "u @ v"]) simp
  next
    assume "\<exists>u. u \<in> lang (Rep m n a) \<and> s = u @ t"
    then obtain u k where k: "m \<le> k" "k \<le> n" and u: "u \<in> pow (lang a) k" "s = u @ t" by auto
    then obtain x y where xy: "u = x @ y" "x \<in> pow (lang a) m" "y \<in> pow (lang a) (k - m)"
      using pow_split [of u "lang a" m "k - m"] by auto
    have "y @ t \<in> set (exactly (ends a) m (x @ y @ t))" by (rule exactly_complete [OF r xy(2)])
    moreover have "t \<in> set (at_most (ends a) (n - m) (y @ t))"
      by (rule at_most_complete [OF r _ xy(3)]) (use k in simp)
    ultimately show "t \<in> set (ends (Rep m n a) s)" using k u xy by auto
  }
qed

lemma runs_Plus: "runs (ends a) (lang a) \<Longrightarrow> runs (ends (Plus a)) (lang (Plus a))"
proof (unfold runs_def [of "ends (Plus a)"], intro allI iffI)
  fix s t
  assume r: "runs (ends a) (lang a)"
  {
    assume "t \<in> set (ends (Plus a) s)"
    then obtain x where x: "x \<in> set (ends a s)" and t: "t \<in> set (at_most (ends a) (length x) x)" by auto
    obtain u where u: "u \<in> lang a" "s = u @ x" using runsD [OF r x] by blast
    obtain k v where v: "v \<in> pow (lang a) k" "x = v @ t" using at_most_sound [OF r t] by blast
    have "u @ v \<in> pow (lang a) (Suc k)" by (rule pow_SucI [OF u(1) v(1)])
    moreover have "1 \<le> Suc k" by simp
    ultimately have "u @ v \<in> lang (Plus a)" by (simp only: lang.simps mem_Collect_eq) blast
    then show "\<exists>u. u \<in> lang (Plus a) \<and> s = u @ t" using u v by (intro exI [of _ "u @ v"]) simp
  next
    assume "\<exists>u. u \<in> lang (Plus a) \<and> s = u @ t"
    then obtain u k where k: "1 \<le> k" and u: "u \<in> pow (lang a) k" "s = u @ t" by auto
    then obtain j where "k = Suc j" by (cases k) auto
    then obtain x y where xy: "u = x @ y" "x \<in> lang a" "y \<in> pow (lang a) j"
      using u by (blast elim: pow_SucE)
    then obtain i where i: "i \<le> length y" "y \<in> pow (lang a) i" using pow_short by blast
    have "y @ t \<in> set (ends a s)" using runsI [OF r xy(2)] u xy by simp
    moreover have "t \<in> set (at_most (ends a) (length (y @ t)) (y @ t))"
      by (rule at_most_complete [OF r _ i(2)]) (use i in simp)
    ultimately show "t \<in> set (ends (Plus a) s)" by (simp only: ends.simps) (auto simp del: length_append)
  }
qed

lemma runs_lang: "runs (ends r) (lang r)"
proof (induction r)
  case (Cls rs)
  show ?case by (auto simp: runs_def split: list.splits if_splits)
next
  case (Cat a b)
  show ?case unfolding runs_def
  proof (intro allI iffI)
    fix s t
    assume "t \<in> set (ends (Cat a b) s)"
    then obtain x where "x \<in> set (ends a s)" "t \<in> set (ends b x)" by auto
    then obtain u v where "u \<in> lang a" "s = u @ x" "v \<in> lang b" "x = v @ t"
      using Cat runsD by metis
    then show "\<exists>u. u \<in> lang (Cat a b) \<and> s = u @ t" by (intro exI [of _ "u @ v"]) auto
  next
    fix s t
    assume "\<exists>u. u \<in> lang (Cat a b) \<and> s = u @ t"
    then obtain u v where "u \<in> lang a" "v \<in> lang b" "s = u @ v @ t" by auto
    then show "t \<in> set (ends (Cat a b) s)"
      using runsI [OF Cat.IH(1), of u "v @ t"] runsI [OF Cat.IH(2), of v t] by auto
  qed
next
  case (Alt a b)
  then show ?case by (auto simp: runs_def)
next
  case (Rep m n a)
  then show ?case by (rule runs_Rep)
next
  case (Plus a)
  then show ?case by (rule runs_Plus)
qed

lemma ends_lang: "t \<in> set (ends r s) \<longleftrightarrow> (\<exists>u. u \<in> lang r \<and> s = u @ t)"
  using runs_lang [of r] by (simp add: runs_def)

lemma MatchString_lang: "MatchString r s \<longleftrightarrow> s \<in> lang r"
  by (simp add: MatchString_def list_ex_iff ends_lang)

section \<open>Lengths and characters of matched texts\<close>

fun classes :: "re \<Rightarrow> (char \<times> char) list" where
  "classes (Cls rs) = rs"
| "classes (Cat a b) = classes a @ classes b"
| "classes (Alt a b) = classes a @ classes b"
| "classes (Rep m n a) = classes a"
| "classes (Plus a) = classes a"

lemma in_class_append [simp]: "in_class (xs @ ys) c \<longleftrightarrow> in_class xs c \<or> in_class ys c"
  by (simp add: in_class_def)

lemma pow_chars: "u \<in> pow A k \<Longrightarrow> \<forall>u \<in> A. \<forall>c \<in> set u. P c \<Longrightarrow> c \<in> set u \<Longrightarrow> P c"
proof (induction k arbitrary: u)
  case (Suc k)
  then obtain x y where "u = x @ y" "x \<in> A" "y \<in> pow A k" by (blast elim: pow_SucE)
  with Suc show ?case by auto
qed simp

lemma lang_chars: "u \<in> lang r \<Longrightarrow> c \<in> set u \<Longrightarrow> in_class (classes r) c"
proof (induction r arbitrary: u c)
  case (Rep m n r)
  then obtain k where "u \<in> pow (lang r) k" by auto
  with Rep show ?case using pow_chars [of u "lang r" k "in_class (classes r)" c] by simp
next
  case (Plus r)
  then obtain k where "u \<in> pow (lang r) k" by auto
  with Plus show ?case using pow_chars [of u "lang r" k "in_class (classes r)" c] by simp
qed auto

lemma pow_class_iff: "u \<in> pow {[c] | c. in_class rs c} k \<longleftrightarrow> length u = k \<and> (\<forall>c \<in> set u. in_class rs c)"
proof (induction k arbitrary: u)
  case (Suc k)
  show ?case
  proof
    assume "u \<in> pow {[c] | c. in_class rs c} (Suc k)"
    then obtain c v where "u = [c] @ v" "in_class rs c" "v \<in> pow {[c] | c. in_class rs c} k"
      by (auto elim: pow_SucE)
    with Suc show "length u = Suc k \<and> (\<forall>c \<in> set u. in_class rs c)" by simp
  next
    assume "length u = Suc k \<and> (\<forall>c \<in> set u. in_class rs c)"
    then obtain c v where u: "u = [c] @ v" "in_class rs c" "length v = k" "\<forall>c \<in> set v. in_class rs c"
      by (auto simp: length_Suc_conv)
    then have "[c] @ v \<in> pow {[c] | c. in_class rs c} (Suc k)"
      by (intro pow_SucI) (auto simp: Suc)
    with u show "u \<in> pow {[c] | c. in_class rs c} (Suc k)" by simp
  qed
qed auto

lemma lang_Rep_Cls:
  "u \<in> lang (Rep m n (Cls rs)) \<longleftrightarrow> m \<le> length u \<and> length u \<le> n \<and> (\<forall>c \<in> set u. in_class rs c)"
  by (auto simp: pow_class_iff)

lemma pow_1 [simp]: "pow A (Suc 0) = A"
  by (simp add: pow.simps)

lemma lang_Opt: "lang (Opt r) = insert [] (lang r)" "lang (Rep 0 (Suc 0) r) = insert [] (lang r)"
  by (auto simp: le_Suc_eq)

lemma fold_case_lower: "list_all (\<lambda>c. (of_char c :: nat) < 128) s \<Longrightarrow> fold_case s = to_lower s"
  by (induction s rule: fold_case.induct) (auto simp: to_lower_def)

end
