(* ===== verification/NetText.thy ===== *)
theory NetText
  imports Net
begin

text \<open>
  Go's address texts and their parsers are inverse to each other: \<^verbatim>\<open>ParseIP\<close> of
  \<^verbatim>\<open>IP.String\<close> is the address and \<^verbatim>\<open>ParseCIDR\<close> of \<^verbatim>\<open>IPNet.String\<close> the network, for both
  families and with the longest run of zero groups left out.
\<close>

section \<open>Texts of groups\<close>

lemma hex_val_hex_char: "d < 16 \<Longrightarrow> hex_val (hex_char d) = Some d"
  by (auto simp: hex_val_def hex_char_def Let_def)

lemma is_hex_hex_char [simp]: "d < 16 \<Longrightarrow> is_hex (hex_char d)"
  by (simp add: is_hex_def hex_val_hex_char)

lemma hex_is_hex: "\<forall>c \<in> set (hex n). is_hex c"
proof (induction n rule: hex.induct)
  case (1 n)
  then show ?case by (subst hex.simps) auto
qed

lemma unhex_append: "unhex (s @ [c]) = 16 * unhex s + the (hex_val c)"
  by (simp add: unhex_def)

lemma unhex_hex [simp]: "unhex (hex n) = n"
proof (induction n rule: hex.induct)
  case (1 n)
  then show ?case
    by (subst hex.simps) (auto simp: unhex_append hex_val_hex_char, simp add: unhex_def hex_val_hex_char)
qed

lemma length_hex: "n < 16 ^ k \<Longrightarrow> 0 < k \<Longrightarrow> length (hex n) \<le> k"
proof (induction k arbitrary: n)
  case (Suc k)
  show ?case
  proof (cases "n < 16")
    case True
    then show ?thesis by (subst hex.simps) simp
  next
    case False
    with Suc.prems have "n div 16 < 16 ^ k" "0 < k" by (auto intro: gr0I)
    then have "length (hex (n div 16)) \<le> k" using Suc.IH by blast
    with False show ?thesis by (subst hex.simps) simp
  qed
qed simp

lemma not_hex_sep [simp]: "\<not> is_hex (CHR '':'')" "\<not> is_hex (CHR ''/'')" "\<not> is_hex (CHR ''%'')" "\<not> is_hex (CHR ''.'')"
  by (simp_all add: is_hex_def hex_val_def Let_def)

lemma hex_span_end [simp]: "takeWhile is_hex (hex n) = hex n" "dropWhile is_hex (hex n) = []"
  using hex_is_hex [of n] by (auto simp: takeWhile_eq_all_conv)

lemma hex_span:
  assumes "rest = [] \<or> \<not> is_hex (hd rest)"
  shows "takeWhile is_hex (hex n @ rest) = hex n" "dropWhile is_hex (hex n @ rest) = rest"
  using assms hex_is_hex [of n]
  by (cases rest; simp add: takeWhile_append2 dropWhile_append2 takeWhile_eq_all_conv)+

section \<open>The loop reads the groups back\<close>

definition group_text :: "nat list \<Rightarrow> string" where
  "group_text gs = join_with '':'' (map hex gs)"

abbreviation group_bytes :: "nat list \<Rightarrow> bytes" where
  "group_bytes gs \<equiv> concat (map chunk16 gs)"

lemma length_chunk16 [simp]: "length (chunk16 n) = 2"
  by (simp add: chunk16_def)

lemma length_group_bytes [simp]: "length (group_bytes gs) = 2 * length gs"
  by (induction gs) simp_all

lemma group_text_Nil [simp]: "group_text [] = []"
  by (simp add: group_text_def)

lemma group_text_single [simp]: "group_text [g] = hex g"
  by (simp add: group_text_def)

lemma group_text_Cons: "gs \<noteq> [] \<Longrightarrow> group_text (g # gs) = hex g @ CHR '':'' # group_text gs"
  by (cases gs) (simp_all add: group_text_def)

lemma hex_hd: "\<exists>c t. hex n = c # t \<and> is_hex c"
  using hex_is_hex [of n] hex_nonempty [of n] by (cases "hex n") auto

lemma group_text_hd:
  assumes "gs \<noteq> []"
  shows "\<exists>c t. group_text gs = c # t \<and> c \<noteq> CHR '':''"
proof -
  obtain g hs where gs: "gs = g # hs" using assms by (cases gs) auto
  obtain c t where c: "hex g = c # t" "is_hex c" using hex_hd by blast
  then have "c \<noteq> CHR '':''" by auto
  with gs c show ?thesis by (cases "hs = []") (auto simp: group_text_Cons)
qed

lemma parse6_last:
  assumes "length acc < 16" and "g < 65536"
  shows "parse6_loop (hex g) acc ell = Some ([], acc @ chunk16 g, ell)"
  using assms length_hex [of g 4]
  by (subst parse6_loop.simps) (simp add: Let_def)

lemma parse6_group:
  assumes "length acc < 16" and "g < 65536" and "t \<noteq> []" and "hd t \<noteq> CHR '':''"
  shows "parse6_loop (hex g @ CHR '':'' # t) acc ell = parse6_loop t (acc @ chunk16 g) ell"
  using assms hex_span [of "CHR '':'' # t" g] length_hex [of g 4]
  by (subst parse6_loop.simps) (cases t; simp)

lemma parse6_ellipsis:
  assumes "length acc < 16" and "g < 65536"
  shows "parse6_loop (hex g @ ''::'' @ t) acc None =
    (if t = [] then Some ([], acc @ chunk16 g, Some (length acc + 2))
     else parse6_loop t (acc @ chunk16 g) (Some (length acc + 2)))"
  using assms hex_span [of "''::'' @ t" g] length_hex [of g 4]
  by (subst parse6_loop.simps) simp

lemma parse6_groups:
  assumes "gs \<noteq> []" and "\<forall>g \<in> set gs. g < 65536" and "length acc + 2 * length gs \<le> 16"
  shows "parse6_loop (group_text gs) acc ell = Some ([], acc @ group_bytes gs, ell)"
  using assms
proof (induction gs arbitrary: acc)
  case (Cons g gs)
  show ?case
  proof (cases "gs = []")
    case True
    with Cons.prems show ?thesis by (simp add: parse6_last)
  next
    case False
    then have "group_text gs \<noteq> []" "hd (group_text gs) \<noteq> CHR '':''"
      using group_text_hd [of gs] by auto
    with False Cons show ?thesis by (simp add: group_text_Cons parse6_group)
  qed
qed simp

lemma parse6_groups_ellipsis:
  assumes "gs \<noteq> []" and "\<forall>g \<in> set gs. g < 65536" and "\<forall>g \<in> set hs. g < 65536"
    and "length acc + 2 * length gs + 2 * length hs \<le> 16"
  shows "parse6_loop (group_text gs @ ''::'' @ group_text hs) acc None =
    Some ([], acc @ group_bytes gs @ group_bytes hs, Some (length acc + 2 * length gs))"
  using assms
proof (induction gs arbitrary: acc)
  case (Cons g gs)
  show ?case
  proof (cases "gs = []")
    case True
    have "hs \<noteq> [] \<Longrightarrow> group_text hs \<noteq> []" using group_text_hd [of hs] by auto
    with Cons.prems True show ?thesis
      using parse6_ellipsis [of acc g "group_text hs"] parse6_groups [of hs "acc @ chunk16 g"]
      by (cases "hs = []") simp_all
  next
    case False
    then have "hd (group_text gs @ ''::'' @ group_text hs) \<noteq> CHR '':''"
      using group_text_hd [of gs] by auto
    with False Cons show ?thesis by (simp add: group_text_Cons parse6_group)
  qed
qed simp

section \<open>The run of zero groups\<close>

lemma zero_run_zeros: "take (zero_run g i) (drop i g) = replicate (zero_run g i) 0"
  unfolding zero_run_def
  by (metis (mono_tags, lifting) replicate_length_same set_takeWhileD takeWhile_eq_take)

lemma zero_run_le: "i \<le> length g \<Longrightarrow> i + zero_run g i \<le> length g"
  unfolding zero_run_def using length_takeWhile_le [of "\<lambda>x. x = 0" "drop i g"] by simp

definition run_ok :: "nat list \<Rightarrow> nat \<times> nat \<Rightarrow> bool" where
  "run_ok g r \<longleftrightarrow> (case r of (s, l) \<Rightarrow>
     l = 0 \<or> (2 \<le> l \<and> s + l \<le> length g \<and> take l (drop s g) = replicate l 0))"

lemma best_run_ok: "run_ok g (best_run g)"
proof -
  have "run_ok g (fold (\<lambda>i (s, l). let r = zero_run g i in if 2 \<le> r \<and> l < r then (i, r) else (s, l)) is p)"
    if "\<forall>i \<in> set is. i < length g" and "run_ok g p" for "is" p
    using that
  proof (induction "is" arbitrary: p)
    case (Cons i xs)
    obtain s l where p: "p = (s, l)" by (cases p)
    have "run_ok g (let r = zero_run g i in if 2 \<le> r \<and> l < r then (i, r) else (s, l))"
      using Cons.prems p zero_run_le [of i g] zero_run_zeros [of g i] by (simp add: run_ok_def Let_def)
    with Cons p show ?case by simp
  qed simp
  then show ?thesis unfolding best_run_def by (simp add: run_ok_def)
qed

section \<open>Round trips\<close>

lemma groups16_bound: "g \<in> set (groups16 b) \<Longrightarrow> g < 65536"
proof (induction b rule: groups16.induct)
  case (1 a b r)
  have "unat a * 256 + unat b < 65536" using unat_u8_less [of a] unat_u8_less [of b] by linarith
  with 1 show ?case by auto
qed simp_all

lemma chunk16_group: "chunk16 (unat (a :: u8) * 256 + unat (b :: u8)) = [a, b]"
proof -
  have "unat (word_of_nat (unat a * 256 + unat b) :: u8) = (unat a * 256 + unat b) mod 256"
    by (simp only: unat_of_nat) simp
  then have "(word_of_nat (unat a * 256 + unat b) :: u8) = b"
    by (simp only: word_unat_eq_iff) simp
  moreover have "(unat a * 256 + unat b) div 256 = unat a" using unat_u8_less [of b] by simp
  ultimately show ?thesis by (simp add: chunk16_def)
qed

lemma group_bytes_groups16: "even (length b) \<Longrightarrow> group_bytes (groups16 b) = b"
  by (induction b rule: groups16.induct) (simp_all add: chunk16_group)

lemma length_groups16: "length (groups16 b) = length b div 2"
  by (induction b rule: groups16.induct) simp_all

lemma chunk16_zero: "group_bytes (replicate l 0) = replicate (2 * l) 0"
  by (induction l) (simp_all add: chunk16_def)

lemma group_text_chars: "c \<in> set (group_text gs) \<Longrightarrow> is_hex c \<or> c = CHR '':''"
proof (induction gs)
  case (Cons g gs)
  then show ?case using hex_is_hex [of g] by (cases "gs = []") (auto simp: group_text_Cons)
qed simp

lemma ip6_string_chars: "c \<in> set (ip6_string b) \<Longrightarrow> is_hex c \<or> c = CHR '':''"
  by (auto simp: ip6_string_def Let_def group_text_def [symmetric] split: prod.splits if_splits
      dest: group_text_chars)

lemma group_text_no_ellipsis: "gs \<noteq> [] \<Longrightarrow> \<not> has_prefix (group_text gs @ t) ''::''"
  using group_text_hd [of gs] by (auto simp: has_prefix_def)

lemma parse_ip6_string:
  assumes "length b = 16"
  shows "parse_ip6 (ip6_string b) = Some b"
proof -
  define g where "g = groups16 b"
  have g: "length g = 8" "\<forall>x \<in> set g. x < 65536" "group_bytes g = b"
    using assms groups16_bound [of _ b] by (auto simp: g_def length_groups16 group_bytes_groups16)
  have pc: "CHR ''%'' \<notin> set (ip6_string b)" using ip6_string_chars [of "CHR ''%''" b] by auto
  obtain s l where sl: "best_run g = (s, l)" by (cases "best_run g")
  show ?thesis
  proof (cases "l = 0")
    case True
    then have t: "ip6_string b = group_text g" using sl by (simp add: ip6_string_def g_def [symmetric] Let_def group_text_def)
    have "g \<noteq> []" using g(1) by auto
    then show ?thesis
      using pc g parse6_groups [of g "[]" None] group_text_no_ellipsis [of g "[]"]
      by (simp add: parse_ip6_def t parse6_finish_def assms)
  next
    case False
    define pre post where "pre = take s g" and "post = drop (s + l) g"
    have r: "2 \<le> l" "s + l \<le> 8" "take l (drop s g) = replicate l 0"
      using best_run_ok [of g] sl False g(1) by (auto simp: run_ok_def)
    have split: "g = pre @ replicate l 0 @ post"
      unfolding pre_def post_def r(3) [symmetric]
      by (metis add.commute append_take_drop_id drop_drop)
    have t: "ip6_string b = group_text pre @ ''::'' @ group_text post"
      using sl False by (simp add: ip6_string_def g_def [symmetric] Let_def group_text_def pre_def post_def)
    have len: "length pre = s" "length post = 8 - (s + l)" using r g(1) by (auto simp: pre_def post_def)
    have small: "\<forall>x \<in> set pre. x < 65536" "\<forall>x \<in> set post. x < 65536" using g(2) split by auto
    have b: "b = group_bytes pre @ replicate (2 * l) 0 @ group_bytes post"
      using g(3) by (subst (asm) split) (simp only: map_append concat_append chunk16_zero)
    have fin: "parse6_finish ([], group_bytes pre @ group_bytes post, Some (2 * s)) = Some b"
    proof -
      have "16 - length (group_bytes pre @ group_bytes post) = 2 * l" using len r by simp
      moreover have "length (group_bytes pre @ group_bytes post) < 16" using len r by simp
      ultimately show ?thesis using len b by (simp add: parse6_finish_def)
    qed
    show ?thesis
    proof (cases "pre = []")
      case True
      then have s: "s = 0" using len by simp
      show ?thesis
      proof (cases "post = []")
        case True
        then have "b = replicate 16 0" using b s len \<open>pre = []\<close> r by simp
        moreover have "ip6_string b = ''::''" using True \<open>pre = []\<close> by (simp add: t)
        ultimately show ?thesis by (simp add: parse_ip6_def has_prefix_def)
      next
        case False
        then have "group_text post \<noteq> []" using group_text_hd [of post] by auto
        with False True pc fin small len s show ?thesis
          using parse6_groups [of post "[]" "Some 0"]
          by (simp add: parse_ip6_def t has_prefix_def)
      qed
    next
      case False
      then show ?thesis
        using pc fin small len r parse6_groups_ellipsis [of pre post "[]"]
          group_text_no_ellipsis [of pre "''::'' @ group_text post"]
        by (simp add: parse_ip6_def t)
    qed
  qed
qed

lemma hd_dec: "0 < n \<Longrightarrow> hd (dec n) \<noteq> CHR ''0''"
proof (induction n rule: dec.induct)
  case (1 n)
  show ?case
  proof (cases "n < 10")
    case True
    then have "hd (dec n) = digit_char n" by (subst dec.simps) simp
    moreover have "digit_char n \<noteq> CHR ''0''"
      using digit_val_char [OF True] 1 by (auto simp: digit_val_def)
    ultimately show ?thesis by simp
  next
    case False
    with 1 show ?thesis by (subst dec.simps) simp
  qed
qed

lemma parse_octet_dec [simp]: "parse_octet (dec (unat (b :: u8))) = Some b"
proof -
  have "list_all is_digit (dec (unat b))" using dec_digits by (auto simp: list_all_iff)
  moreover have "length (dec (unat b)) = 1 \<or> hd (dec (unat b)) \<noteq> CHR ''0''"
    using hd_dec [of "unat b"] by (cases "unat b = 0") (simp_all add: dec.simps)
  moreover have "unat b \<le> 255" using unat_u8_less [of b] by linarith
  ultimately show ?thesis by (simp add: parse_octet_def)
qed

lemma parse_ip4_string:
  assumes "length b = 4"
  shows "parse_ip4 (ip4_string b) = Some b"
proof -
  obtain b0 b1 b2 b3 where b: "b = [b0, b1, b2, b3]"
    using assms by (auto simp: length_Suc_conv numeral_eq_Suc)
  show ?thesis by (simp add: b parse_ip4_def ip4_string_def split_on_append split_on_no_sep)
qed

text \<open>The scan for the first separator decides the family.\<close>

lemma dec_no_sep: "c \<in> set (dec n) \<Longrightarrow> c \<notin> {CHR ''.'', CHR '':'', CHR ''%''}"
  using dec_digits [of c n] by (auto simp: is_digit_def)

lemma family_ip4:
  assumes "length b = 4"
  shows "\<exists>r. dropWhile (\<lambda>c. c \<notin> {CHR ''.'', CHR '':'', CHR ''%''}) (ip4_string b @ t) = CHR ''.'' # r"
proof -
  obtain x y z where b: "b = x # y # z"
    using assms by (auto simp: length_Suc_conv numeral_eq_Suc)
  have "ip4_string b @ t = dec (unat x) @ CHR ''.'' # join_with ''.'' (map (\<lambda>x. dec (unat x)) (y # z)) @ t"
    by (simp add: b ip4_string_def)
  then show ?thesis using dec_no_sep by (simp add: dropWhile_append2)
qed

lemma group_text_two:
  assumes "2 \<le> length gs"
  shows "\<exists>r. dropWhile (\<lambda>c. c \<notin> {CHR ''.'', CHR '':'', CHR ''%''}) (group_text gs @ t) = CHR '':'' # r"
proof -
  obtain g hs where gs: "gs = g # hs" "hs \<noteq> []" using assms by (cases gs; cases "tl gs") auto
  have "c \<notin> {CHR ''.'', CHR '':'', CHR ''%''}" if "c \<in> set (hex g)" for c
    using that hex_is_hex [of g] by auto
  then show ?thesis by (simp add: gs group_text_Cons dropWhile_append2)
qed

lemma family_ellipsis:
  "\<exists>r. dropWhile (\<lambda>c. c \<notin> {CHR ''.'', CHR '':'', CHR ''%''}) (group_text gs @ ''::'' @ t) = CHR '':'' # r"
proof (cases "2 \<le> length gs")
  case True
  then show ?thesis by (rule group_text_two)
next
  case False
  have "c \<notin> {CHR ''.'', CHR '':'', CHR ''%''}" if "c \<in> set (hex g)" for c g
    using that hex_is_hex [of g] by auto
  with False show ?thesis by (cases gs; cases "tl gs") (simp_all add: dropWhile_append2)
qed

lemma family_ip6:
  assumes "length b = 16"
  shows "\<exists>r. dropWhile (\<lambda>c. c \<notin> {CHR ''.'', CHR '':'', CHR ''%''}) (ip6_string b @ t) = CHR '':'' # r"
proof -
  define g where "g = groups16 b"
  obtain s l where sl: "best_run g = (s, l)" by (cases "best_run g")
  have "2 \<le> length g" using assms by (simp add: g_def length_groups16)
  then show ?thesis
    using sl group_text_two [of g t] family_ellipsis [of "take s g" "group_text (drop (s + l) g) @ t"]
    by (simp add: ip6_string_def g_def [symmetric] Let_def group_text_def [symmetric])
qed

lemma parse_addr_ip4_string: "length b = 4 \<Longrightarrow> parse_addr (ip4_string b) = Some b"
  using family_ip4 [of b "[]"] parse_ip4_string [of b] by (auto simp: parse_addr_def)

lemma parse_addr_ip6_string: "length b = 16 \<Longrightarrow> parse_addr (ip6_string b) = Some b"
  using family_ip6 [of b "[]"] parse_ip6_string [of b] by (auto simp: parse_addr_def)

text \<open>\<^verbatim>\<open>ParseIP\<close> of \<^verbatim>\<open>IP.String\<close> is the address, in its 16-byte form.\<close>

lemma is_mapped4_to4: "length b = 16 \<Longrightarrow> is_mapped4 b \<longleftrightarrow> to4 b \<noteq> None"
  by (simp add: is_mapped4_def to4_def v4_prefix_def numeral_eq_Suc)

lemma parse_ip_ip_string:
  assumes "length b = 4 \<or> length b = 16"
  shows "parse_ip (ip_string b) = Some (as16 b)"
proof (cases "length b = 4")
  case True
  then have "b \<noteq> []" by auto
  with True show ?thesis by (simp add: ip_string_def parse_ip_def parse_addr_ip4_string)
next
  case False
  with assms have l: "length b = 16" and ne: "b \<noteq> []" by auto
  show ?thesis
  proof (cases "is_mapped4 b")
    case True
    then have "b = v4_prefix @ drop 12 b" using l
      by (metis append_take_drop_id is_mapped4_to4 to4_def option.distinct(1) False)
    moreover have "length (drop 12 b) = 4" using l by simp
    ultimately show ?thesis using True l ne False
      by (simp add: ip_string_def parse_ip_def parse_addr_ip4_string as16_def)
  next
    case no: False
    with l ne False show ?thesis by (simp add: ip_string_def parse_ip_def parse_addr_ip6_string as16_def)
  qed
qed

section \<open>Networks\<close>

declare cidr_mask_numeral [simp del]

text \<open>
  \<^verbatim>\<open>IPNet.String\<close> of a network that \<^verbatim>\<open>ParseCIDR\<close> returned (its mask is a run of ones):
  the address, in four bytes where it has that form, and the length of the mask.
\<close>

definition mask_len :: "bytes \<Rightarrow> nat" where
  "mask_len m = length (takeWhile id (addr_bits m))"

definition ipnet_string :: "ipnet \<Rightarrow> string" where
  "ipnet_string n =
     (let (ip, m) = (case to4 (net_ip n) of
          Some v \<Rightarrow> (v, if length (net_mask n) = 16 then drop 12 (net_mask n) else net_mask n)
        | None \<Rightarrow> (net_ip n, net_mask n))
      in ip_string ip @ ''/'' @ dec (mask_len m))"

text \<open>The network of an address and a prefix length, and its text.\<close>

definition cidr_net :: "bytes \<Rightarrow> nat \<Rightarrow> ipnet" where
  "cidr_net a n = \<lparr>net_ip = and_bytes a (cidr_mask n (length a)), net_mask = cidr_mask n (length a)\<rparr>"

lemma cidr_mask_0: "cidr_mask 0 n = replicate n 0"
  by (induction n) (simp_all add: byte_255)

lemma byte_mask_bits: "p < 8 \<Longrightarrow> byte_bits (NOT (drop_bit p 255)) = replicate p True @ replicate (8 - p) False"
proof (rule nth_equalityI)
  assume p: "p < 8"
  then show "length (byte_bits (NOT (drop_bit p 255))) = length (replicate p True @ replicate (8 - p) False)" by simp
  fix i
  assume "i < length (byte_bits (NOT (drop_bit p 255)))"
  then have i: "i < 8" by simp
  then have "byte_bits x ! i = bit x (7 - i)" for x
    unfolding less_8_cases by (elim insertE emptyE) (simp_all add: byte_bits_def)
  then have "byte_bits (NOT (drop_bit p 255)) ! i \<longleftrightarrow> 8 - p \<le> 7 - i"
    using p i by (simp add: byte_mask_bit)
  with p i show "byte_bits (NOT (drop_bit p 255)) ! i = (replicate p True @ replicate (8 - p) False) ! i"
    by (auto simp: nth_append)
qed

lemma mask_len_zeros [simp]: "mask_len (replicate n 0) = 0"
  by (cases n) (simp_all add: mask_len_def addr_bits_def byte_bits_def)

lemma mask_len_cidr_mask [simp]: "p \<le> 8 * n \<Longrightarrow> mask_len (cidr_mask p n) = p"
proof (induction n arbitrary: p)
  case 0
  then show ?case by (simp add: mask_len_def addr_bits_def)
next
  case (Suc n)
  show ?case
  proof (cases "8 \<le> p")
    case True
    have "byte_bits 255 = replicate 8 True" by (simp add: byte_bits_def numeral_eq_Suc byte_255)
    then have "mask_len (cidr_mask p (Suc n)) = 8 + mask_len (cidr_mask (p - 8) n)"
      using True by (simp add: mask_len_def addr_bits_Cons numeral_eq_Suc)
    with True Suc show ?thesis by simp
  next
    case False
    then have "replicate (8 - p) False = False # replicate (7 - p) False"
      by (cases "8 - p") auto
    moreover have "takeWhile id (replicate p True @ False # r) = replicate p True" for r
      by (induction p) simp_all
    ultimately have "takeWhile id (byte_bits (NOT (drop_bit p 255)) @ addr_bits (cidr_mask 0 n)) = replicate p True"
      using False by (simp add: byte_mask_bits)
    with False show ?thesis by (simp add: mask_len_def addr_bits_Cons)
  qed
qed

lemma cidr_mask_full_byte:
  assumes "i < n" and "cidr_mask p n ! i = 255"
  shows "8 * Suc i \<le> p"
  using assms
proof (induction n arbitrary: p i)
  case (Suc n)
  show ?case
  proof (cases "8 \<le> p")
    case True
    show ?thesis
    proof (cases i)
      case 0
      with True show ?thesis by simp
    next
      case (Suc j)
      with True Suc.IH [of j "p - 8"] Suc.prems show ?thesis by simp
    qed
  next
    case False
    then have "\<not> bit (NOT (drop_bit p 255) :: u8) 0" using byte_mask_bit [of 0 p] by simp
    then have "NOT (drop_bit p 255) \<noteq> (255 :: u8)" by (metis bit_minus_1_iff byte_255 possible_bit_0)
    then obtain j where "i = Suc j" using False Suc.prems by (cases i) auto
    then have "(0 :: u8) = 255" using False Suc.prems by (simp add: cidr_mask_0)
    then show ?thesis by simp
  qed
qed simp

lemma drop_cidr_mask: "8 * k \<le> p \<Longrightarrow> k \<le> n \<Longrightarrow> drop k (cidr_mask p n) = cidr_mask (p - 8 * k) (n - k)"
proof (induction k arbitrary: p n)
  case (Suc k)
  then obtain m where "n = Suc m" by (cases n) auto
  with Suc show ?case by (simp add: algebra_simps diff_diff_eq)
qed simp

lemma cidr_mask_all: "cidr_mask (8 * n) n = replicate n 255"
  by (induction n) simp_all

lemma and_bytes_all: "length a = n \<Longrightarrow> and_bytes a (replicate n 255) = a"
  by (induction a arbitrary: n) (auto simp: byte_255)

text \<open>Texts of networks: an address with no bits past the prefix.\<close>

definition net_text :: "bytes \<Rightarrow> nat \<Rightarrow> string" where
  "net_text a n = ip_string a @ ''/'' @ dec n"

definition net_addr :: "bytes \<Rightarrow> nat \<Rightarrow> bool" where
  "net_addr a n \<longleftrightarrow> (length a = 4 \<or> length a = 16 \<and> to4 a = None) \<and> n \<le> 8 * length a \<and>
     and_bytes a (cidr_mask n (length a)) = a"

definition is_net_text :: "string \<Rightarrow> bool" where
  "is_net_text s \<longleftrightarrow> (\<exists>a n. net_addr a n \<and> s = net_text a n)"

lemma length_to4: "to4 b = Some v \<Longrightarrow> length v = 4"
  by (auto simp: to4_def split: if_splits)

lemma ip_string_to4:
  assumes "to4 b = Some v"
  shows "ip_string b = ip_string v"
proof (cases "length b = 4")
  case True
  with assms show ?thesis by (simp add: to4_def)
next
  case False
  with assms have "length b = 16" "v = drop 12 b" "is_mapped4 b"
    using is_mapped4_to4 [of b] by (auto simp: to4_def split: if_splits)
  moreover from this have "length v = 4" "v \<noteq> []" "b \<noteq> []" by auto
  ultimately show ?thesis by (simp add: ip_string_def)
qed

lemma length_parse_ip4: "parse_ip4 s = Some b \<Longrightarrow> length b = 4"
  by (auto simp: parse_ip4_def split: list.splits option.splits)

text \<open>One turn of the loop: it stops, or goes on with a proper suffix of the text.\<close>

lemma parse6_step:
  assumes "parse6_loop s acc ell = Some r" and "length acc < 16"
  obtains (last) acc' ell' where "r = ([], acc', ell')" "length acc' = length acc + 2"
      "set s \<subseteq> Collect is_hex \<union> {CHR '':''}"
    | (quad) b where "r = ([], acc @ b, ell)" "parse_ip4 s = Some b" "length acc + 4 \<le> 16"
    | (more) t acc' ell' where "parse6_loop t acc' ell' = Some r" "length acc' = length acc + 2"
      "length t < length s" "set s \<subseteq> Collect is_hex \<union> {CHR '':''} \<union> set t"
proof -
  define ds rest where "ds = takeWhile is_hex s" and "rest = dropWhile is_hex s"
  have s: "s = ds @ rest" by (simp add: ds_def rest_def)
  have sub: "set ds \<subseteq> Collect is_hex" by (auto simp: ds_def dest: set_takeWhileD)
  have eq: "(if ds = [] \<or> 4 < length ds then None
        else (case rest of
          [] \<Rightarrow> Some ([], acc @ chunk16 (unhex ds), ell)
        | c # r \<Rightarrow>
            if c = CHR ''.'' then
              (if (ell = None \<and> length acc \<noteq> 12) \<or> length acc + 4 > 16 then None
               else (case parse_ip4 s of None \<Rightarrow> None | Some b \<Rightarrow> Some ([], acc @ b, ell)))
            else if c \<noteq> CHR '':'' then None
            else (case r of
              [] \<Rightarrow> None
            | c2 # r2 \<Rightarrow>
                if c2 = CHR '':'' then
                  (if ell \<noteq> None then None
                   else if r2 = [] then Some ([], acc @ chunk16 (unhex ds), Some (length (acc @ chunk16 (unhex ds))))
                   else parse6_loop r2 (acc @ chunk16 (unhex ds)) (Some (length (acc @ chunk16 (unhex ds)))))
                else parse6_loop r (acc @ chunk16 (unhex ds)) ell))) = Some r"
    using assms unfolding ds_def rest_def
    by (subst (asm) parse6_loop.simps) (simp only: Let_def not_le [symmetric] if_False)
  have ne: "ds \<noteq> []" using eq by (auto split: if_splits)
  show thesis
  proof (cases rest)
    case Nil
    with eq ne show thesis using s sub by (intro last) (auto split: if_splits)
  next
    case (Cons c u)
    show thesis
    proof (cases "c = CHR ''.''")
      case True
      with eq Cons obtain b where "r = ([], acc @ b, ell)" "parse_ip4 s = Some b" "length acc + 4 \<le> 16"
        by (auto split: if_splits option.splits)
      then show thesis by (rule quad)
    next
      case False
      with eq Cons have c: "c = CHR '':''" by (auto split: if_splits)
      with eq Cons ne obtain c2 r2 where u: "u = c2 # r2" by (cases u) (auto split: if_splits)
      show thesis
      proof (cases "c2 = CHR '':''")
        case colon: True
        show thesis
        proof (cases "r2 = []")
          case True
          with eq Cons c u colon s sub show thesis by (intro last) (auto split: if_splits)
        next
          case False
          with eq Cons c u colon s sub show thesis by (intro more [of r2]) (auto split: if_splits)
        qed
      next
        case False
        with eq Cons c u s sub show thesis by (intro more [of u]) (auto split: if_splits)
      qed
    qed
  qed
qed

lemma parse6_loop_full: "16 \<le> length acc \<Longrightarrow> parse6_loop s acc ell = Some (s, acc, ell)"
  by (subst parse6_loop.simps) simp

lemma length_parse6_loop:
  "parse6_loop s acc ell = Some (t, acc', ell') \<Longrightarrow> length acc \<le> 16 \<Longrightarrow> even (length acc) \<Longrightarrow>
   length acc' \<le> 16"
proof (induction "length s" arbitrary: s acc ell rule: less_induct)
  case less
  show ?case
  proof (cases "length acc < 16")
    case False
    with less.prems show ?thesis by (simp add: parse6_loop_full)
  next
    case True
    with less.prems(3) have l: "length acc + 2 \<le> 16" by presburger
    from less.prems(1) True show ?thesis
    proof (cases rule: parse6_step)
      case (more t' a e)
      show ?thesis by (rule less.hyps [OF more(3,1)]) (use more l less.prems in auto)
    qed (use l length_parse_ip4 in auto)
  qed
qed

lemma length_parse_addr:
  assumes "parse_addr s = Some b"
  shows "length b = 4 \<or> length b = 16"
proof -
  have fin: "length c = 16" if "parse6_finish (t, acc, ell) = Some c" "length acc \<le> 16" for t acc ell c
    using that by (auto simp: parse6_finish_def split: if_splits option.splits)
  have "length c = 16" if "parse_ip6 s = Some c" for c
    using that fin length_parse6_loop [of _ "[]"]
    by (fastforce simp: parse_ip6_def bind_eq_Some_conv split: if_splits)
  then show ?thesis
    using assms by (auto simp: parse_addr_def length_parse_ip4 split: list.splits if_splits)
qed

lemma split_on_chars: "x \<in> set s \<Longrightarrow> x \<noteq> c \<Longrightarrow> \<exists>p \<in> set (split_on c s). x \<in> set p"
proof (induction c s rule: split_on.induct)
  case (2 c d s)
  then show ?case by (cases "split_on c s") auto
qed simp

lemma parse_ip4_digits:
  assumes "parse_ip4 s = Some b" and "x \<in> set s" and "x \<noteq> CHR ''.''"
  shows "is_digit x"
proof -
  obtain p where p: "p \<in> set (split_on (CHR ''.'') s)" "x \<in> set p"
    using split_on_chars assms(2,3) by blast
  have "\<forall>q \<in> set (split_on (CHR ''.'') s). parse_octet q \<noteq> None"
    using assms(1) by (auto simp: parse_ip4_def split: list.splits option.splits)
  with p have "list_all is_digit p" by (auto simp: parse_octet_def split: if_splits)
  with p show ?thesis by (simp add: list_all_iff)
qed

lemma parse_ip4_slash: "parse_ip4 s = Some b \<Longrightarrow> CHR ''/'' \<notin> set s"
  using parse_ip4_digits [of s b "CHR ''/''"] by auto

lemma parse6_loop_slash:
  "parse6_loop s acc ell = Some (t, acc', ell') \<Longrightarrow> CHR ''/'' \<in> set s \<Longrightarrow> CHR ''/'' \<in> set t"
proof (induction "length s" arbitrary: s acc ell rule: less_induct)
  case less
  show ?case
  proof (cases "length acc < 16")
    case False
    with less.prems show ?thesis by (simp add: parse6_loop_full)
  next
    case True
    from less.prems(1) True show ?thesis
    proof (cases rule: parse6_step)
      case (last a e)
      then have False using less.prems(2) by auto
      then show ?thesis ..
    next
      case (quad b)
      then have False using less.prems(2) parse_ip4_slash by auto
      then show ?thesis ..
    next
      case (more t' a e)
      then have "CHR ''/'' \<in> set t'" using less.prems(2) by auto
      then show ?thesis by (rule less.hyps [OF more(3,1)])
    qed
  qed
qed

lemma parse_addr_slash: "CHR ''/'' \<in> set s \<Longrightarrow> parse_addr s = None"
proof (rule ccontr)
  assume sl: "CHR ''/'' \<in> set s" and "parse_addr s \<noteq> None"
  then obtain b where b: "parse_addr s = Some b" by blast
  have fin: "parse6_finish (t, acc, ell) = None" if "CHR ''/'' \<in> set t" for t acc ell
    using that by (auto simp: parse6_finish_def)
  have "parse_ip6 s = None"
  proof (cases "has_prefix s ''::''")
    case True
    then have "take 2 s = ''::''" by (simp add: has_prefix_def numeral_2_eq_2)
    then have "s = ''::'' @ drop 2 s" by (metis append_take_drop_id)
    then have "CHR ''/'' \<in> set (''::'' @ drop 2 s)" using sl by simp
    then have "CHR ''/'' \<in> set (drop 2 s)" by simp
    then have "Option.bind (parse6_loop (drop 2 s) [] (Some 0)) parse6_finish = None"
      using parse6_loop_slash [of "drop 2 s"] fin
      by (cases "parse6_loop (drop 2 s) [] (Some 0)") auto
    moreover have "length s \<noteq> 2" using \<open>CHR ''/'' \<in> set (drop 2 s)\<close> by auto
    ultimately show ?thesis by (simp add: parse_ip6_def True)
  next
    case False
    have "Option.bind (parse6_loop s [] None) parse6_finish = None"
      using parse6_loop_slash [OF _ sl] fin by (cases "parse6_loop s [] None") auto
    with False show ?thesis by (simp add: parse_ip6_def)
  qed
  with b sl parse_ip4_slash show False by (auto simp: parse_addr_def split: list.splits if_splits)
qed

section \<open>The text of a network is parsed back\<close>

lemma parse_net_text:
  assumes "net_addr a n"
  shows "parse_addr (net_text a n) = None"
    and "parse_cidr (net_text a n) = Some (as16 a, \<lparr>net_ip = a, net_mask = cidr_mask n (length a)\<rparr>)"
proof -
  show "parse_addr (net_text a n) = None" by (rule parse_addr_slash) (simp add: net_text_def)
  have l: "length a = 4 \<or> length a = 16 \<and> to4 a = None" "n \<le> 8 * length a"
    "and_bytes a (cidr_mask n (length a)) = a"
    using assms by (auto simp: net_addr_def)
  have "a \<noteq> []" using l by auto
  then have t: "parse_addr (ip_string a) = Some a"
    using l is_mapped4_to4 [of a]
    by (auto simp: ip_string_def parse_addr_ip4_string parse_addr_ip6_string)
  then have "CHR ''/'' \<notin> set (ip_string a)" using parse_addr_slash by force
  then have i: "index_of (CHR ''/'') (net_text a n) = Some (length (ip_string a))"
    by (simp add: index_of_def net_text_def Let_def takeWhile_before)
  have d: "list_all is_digit (dec n)" using dec_digits by (auto simp: list_all_iff)
  show "parse_cidr (net_text a n) = Some (as16 a, \<lparr>net_ip = a, net_mask = cidr_mask n (length a)\<rparr>)"
    using i t d l by (simp add: parse_cidr_def net_text_def Let_def)
qed

lemma ipnet_string_net:
  assumes "net_addr a n"
  shows "ipnet_string \<lparr>net_ip = a, net_mask = cidr_mask n (length a)\<rparr> = net_text a n"
proof (cases "length a = 4")
  case True
  then have "to4 a = Some a" by (simp add: to4_def)
  with assms True show ?thesis
    by (simp add: net_addr_def ipnet_string_def net_text_def Let_def)
next
  case False
  with assms have "length a = 16" "to4 a = None" "n \<le> 8 * 16" by (auto simp: net_addr_def)
  then show ?thesis by (simp add: ipnet_string_def net_text_def Let_def)
qed

lemma cidr_mask_whole: "cidr_mask 32 4 = replicate 4 255" "cidr_mask 128 16 = replicate 16 255"
  using cidr_mask_all [of 4] cidr_mask_all [of 16] by (simp_all)

lemma net_addr_single: "length a = 4 \<Longrightarrow> net_addr a 32" "length a = 16 \<Longrightarrow> to4 a = None \<Longrightarrow> net_addr a 128"
  using and_bytes_all [of a 4] and_bytes_all [of a 16]
  by (simp_all add: net_addr_def cidr_mask_whole)

lemma and_bytes_nth: "i < length a \<Longrightarrow> i < length m \<Longrightarrow> and_bytes a m ! i = a ! i AND m ! i"
  by (simp add: and_bytes_def)

lemma masked_mapped:
  assumes a: "length a = 16" and n: "n \<le> 128" and v: "to4 (and_bytes a (cidr_mask n 16)) = Some v"
  shows "96 \<le> n \<and> v = and_bytes (drop 12 a) (cidr_mask (n - 96) 4)"
proof -
  define m where "m = cidr_mask n 16"
  have lm: "length m = 16" by (simp add: m_def)
  have t: "take 12 (and_bytes a m) = v4_prefix" "v = drop 12 (and_bytes a m)"
  proof -
    have "length (and_bytes a m) = 16" using a lm by simp
    then have "(if take 12 (and_bytes a m) = v4_prefix then Some (drop 12 (and_bytes a m)) else None) = Some v"
      using v unfolding m_def [symmetric] to4_def by simp
    then show "take 12 (and_bytes a m) = v4_prefix" "v = drop 12 (and_bytes a m)"
      by (metis option.distinct(1), metis option.distinct(1) option.inject)
  qed
  have "take 12 (and_bytes a m) ! 11 = v4_prefix ! 11" by (simp only: t(1))
  then have "and_bytes a m ! 11 = v4_prefix ! 11" by simp
  then have "a ! 11 AND m ! 11 = (- 1 :: u8)" using a lm by (simp add: and_bytes_nth v4_prefix_def byte_255)
  then have "m ! 11 = 255" by (metis and_eq_minus_1_iff byte_255)
  then have n96: "96 \<le> n" using cidr_mask_full_byte [of 11 16 n] by (simp add: m_def)
  have "drop 12 m = cidr_mask (n - 96) 4"
    using drop_cidr_mask [of 12 n 16] n96 by (simp add: m_def)
  then have "v = and_bytes (drop 12 a) (cidr_mask (n - 96) 4)"
    using t(2) by (simp add: and_bytes_def drop_zip drop_map)
  with n96 show ?thesis by simp
qed

lemma parse_cidr_text:
  assumes "parse_cidr s = Some (x, net)"
  shows "is_net_text (ipnet_string net)"
proof -
  obtain i a where p: "parse_addr (take i s) = Some a" "undec (drop (Suc i) s) \<le> 8 * length a"
      "net = cidr_net a (undec (drop (Suc i) s))"
    using assms by (auto simp: parse_cidr_def cidr_net_def Let_def split: option.splits if_splits)
  define n where "n = undec (drop (Suc i) s)"
  have a: "length a = 4 \<or> length a = 16" and n: "n \<le> 8 * length a" and net: "net = cidr_net a n"
    using p length_parse_addr [OF p(1)] by (auto simp: n_def)
  define b where "b = and_bytes a (cidr_mask n (length a))"
  have idem: "and_bytes b (cidr_mask n (length a)) = b" by (simp add: b_def and_bytes_idem)
  have lb: "length b = length a" by (simp add: b_def)
  show ?thesis
  proof (cases "length a = 16 \<and> to4 b \<noteq> None")
    case False
    then have "net_addr b n" using a n idem lb by (auto simp: net_addr_def)
    moreover have "net = \<lparr>net_ip = b, net_mask = cidr_mask n (length b)\<rparr>"
      using net lb by (simp add: cidr_net_def b_def)
    ultimately show ?thesis using ipnet_string_net [of b n] unfolding is_net_text_def by blast
  next
    case True
    then obtain v where v: "to4 b = Some v" and l: "length a = 16" by blast
    then have m: "96 \<le> n" "v = and_bytes (drop 12 a) (cidr_mask (n - 96) 4)"
      using masked_mapped [of a n v] n by (auto simp: b_def)
    have lv: "length v = 4" using v by (rule length_to4)
    have dm: "drop 12 (cidr_mask n 16) = cidr_mask (n - 96) 4"
      using drop_cidr_mask [of 12 n 16] m by (simp)
    have "net_addr v (n - 96)"
      using lv n l m and_bytes_idem [of "drop 12 a" "cidr_mask (n - 96) 4"]
      by (simp add: net_addr_def)
    moreover have "ipnet_string net = net_text v (n - 96)"
      using net v l dm n m
      by (simp add: cidr_net_def ipnet_string_def b_def Let_def net_text_def)
    ultimately show ?thesis unfolding is_net_text_def by blast
  qed
qed

lemma address_text:
  assumes "parse_ip s = Some ip"
  shows "if to4 ip \<noteq> None then is_net_text (ip_string ip @ ''/32'') else is_net_text (ip_string ip @ ''/128'')"
proof -
  have l: "length ip = 16"
    using assms length_parse_addr [of s] by (auto simp: parse_ip_def as16_def v4_prefix_def)
  have d: "dec 32 = ''32''" "dec 128 = ''128''" by code_simp+
  show ?thesis
  proof (cases "to4 ip")
    case None
    then show ?thesis using net_addr_single(2) [OF l None] d(2)
      by (auto simp: is_net_text_def net_text_def intro!: exI [of _ ip] exI [of _ 128])
  next
    case (Some v)
    then have "net_addr v 32" "ip_string ip = ip_string v"
      using net_addr_single(1) length_to4 ip_string_to4 by auto
    then show ?thesis using Some d(1)
      by (auto simp: is_net_text_def net_text_def intro!: exI [of _ v] exI [of _ 32])
  qed
qed

declare cidr_mask_numeral [simp]

end
