(* ===== verification/Edits.thy ===== *)
theory Edits
  imports Prelude
begin

text \<open>
  Checks that edit a document in place and stop at the first error. An edit takes the value and
  returns it as far as it was changed, with the error that stopped it: what the code has written
  before it returned the error stays written.
\<close>

type_synonym ('a, 'e) edit = "'a \<Rightarrow> 'a \<times> 'e option"

definition guard :: "('a \<Rightarrow> bool) \<Rightarrow> ('a \<Rightarrow> 'e) \<Rightarrow> ('a, 'e) edit" where
  "guard bad e x = (x, if bad x then Some (e x) else None)"

definition always :: "('a \<Rightarrow> 'a) \<Rightarrow> ('a, 'e) edit" where
  "always f x = (f x, None)"

definition andThen :: "('a, 'e) edit \<Rightarrow> ('a, 'e) edit \<Rightarrow> ('a, 'e) edit" where
  "andThen f g x = (case f x of (y, Some e) \<Rightarrow> (y, Some e) | (y, None) \<Rightarrow> g y)"

fun in_order :: "('a, 'e) edit list \<Rightarrow> ('a, 'e) edit" where
  "in_order [] x = (x, None)"
| "in_order (f # fs) x = andThen f (in_order fs) x"

fun each :: "('a, 'e) edit \<Rightarrow> ('a list, 'e) edit" where
  "each f [] = ([], None)"
| "each f (x # xs) =
     (case f x of
        (y, Some e) \<Rightarrow> (y # xs, Some e)
      | (y, None) \<Rightarrow> (let (ys, r) = each f xs in (y # ys, r)))"

definition field :: "('r \<Rightarrow> 'a) \<Rightarrow> (('a \<Rightarrow> 'a) \<Rightarrow> 'r \<Rightarrow> 'r) \<Rightarrow> ('a, 'e) edit \<Rightarrow> ('r, 'e) edit" where
  "field get upd f r = (let (y, e) = f (get r) in (upd (\<lambda>_. y) r, e))"

text \<open>One element of a list that is only checked.\<close>

definition must :: "('a \<Rightarrow> bool) \<Rightarrow> ('a \<Rightarrow> 'e) \<Rightarrow> ('a, 'e) edit" where
  "must ok e = guard (\<lambda>x. \<not> ok x) e"

text \<open>A function that normalises a value or refuses it, as an edit.\<close>

definition edit_of :: "('a \<Rightarrow> 'x + 'a) \<Rightarrow> ('x \<Rightarrow> 'e) \<Rightarrow> ('a, 'e) edit" where
  "edit_of norm err x = (case norm x of Inl e \<Rightarrow> (x, Some (err e)) | Inr y \<Rightarrow> (y, None))"

section \<open>When an edit succeeds\<close>

named_theorems edit_ok

lemma guard_ok [edit_ok]: "guard bad e x = (y, None) \<longleftrightarrow> \<not> bad x \<and> y = x"
  by (auto simp: guard_def)

lemma always_ok [edit_ok]: "always f x = (y, None) \<longleftrightarrow> y = f x"
  by (auto simp: always_def)

lemma andThen_ok [edit_ok]: "andThen f g x = (y, None) \<longleftrightarrow> (\<exists>z. f x = (z, None) \<and> g z = (y, None))"
  by (auto simp: andThen_def split: prod.splits option.splits)

lemma in_order_ok [edit_ok]:
  "in_order [] x = (y, None) \<longleftrightarrow> y = x"
  "in_order (f # fs) x = (y, None) \<longleftrightarrow> (\<exists>z. f x = (z, None) \<and> in_order fs z = (y, None))"
  by (auto simp: andThen_ok)

lemma each_ok: "each f xs = (ys, None) \<longleftrightarrow> list_all2 (\<lambda>x y. f x = (y, None)) xs ys"
proof (induction xs arbitrary: ys)
  case (Cons x xs)
  show ?case
    by (cases ys) (auto simp: Cons.IH [symmetric] split: prod.splits option.splits)
qed auto

lemma field_ok [edit_ok]:
  "field get upd f r = (s, None) \<longleftrightarrow> (\<exists>y. f (get r) = (y, None) \<and> s = upd (\<lambda>_. y) r)"
  by (auto simp: field_def split: prod.splits)

lemma edit_of_ok [edit_ok]: "edit_of norm err x = (y, None) \<longleftrightarrow> norm x = Inr y"
  by (auto simp: edit_of_def split: sum.splits)

lemma each_must_ok [edit_ok]: "each (must ok e) xs = (ys, None) \<longleftrightarrow> ys = xs \<and> (\<forall>x \<in> set xs. ok x)"
proof -
  have "list_all2 (\<lambda>x y. \<not> \<not> ok x \<and> y = x) xs ys \<longleftrightarrow> ys = xs \<and> (\<forall>x \<in> set xs. ok x)"
    by (induction xs arbitrary: ys) (auto simp: list_all2_Cons1)
  then show ?thesis by (simp add: each_ok must_def guard_ok)
qed

section \<open>When an edit changes nothing\<close>

named_theorems edit_id

lemma guard_id [edit_id]: "\<not> bad x \<Longrightarrow> guard bad e x = (x, None)"
  by (simp add: guard_def)

lemma always_id [edit_id]: "f x = x \<Longrightarrow> always f x = (x, None)"
  by (simp add: always_def)

lemma in_order_id: "\<forall>f \<in> set fs. f x = (x, None) \<Longrightarrow> in_order fs x = (x, None)"
  by (induction fs) (simp_all add: andThen_def)

lemma each_id: "\<forall>x \<in> set xs. f x = (x, None) \<Longrightarrow> each f xs = (xs, None)"
  by (induction xs) simp_all

lemma each_must_id [edit_id]: "\<forall>x \<in> set xs. ok x \<Longrightarrow> each (must ok e) xs = (xs, None)"
  by (rule each_id) (simp add: must_def guard_def)

lemma field_id [edit_id]: "f (get r) = (get r, None) \<Longrightarrow> upd (\<lambda>_. get r) r = r \<Longrightarrow> field get upd f r = (r, None)"
  by (simp add: field_def)

section \<open>Normalisers\<close>

text \<open>
  What the callers of a normaliser rely on: a value it returns is well formed. One that leaves
  well-formed values alone can be run again over its own result.
\<close>

locale normaliser =
  fixes norm :: "'a \<Rightarrow> 'x + 'a" and good :: "'a \<Rightarrow> bool"
  assumes norm_good: "norm x = Inr y \<Longrightarrow> good y"
begin

lemma each_good:
  assumes "each (edit_of norm err) xs = (ys, None)"
  shows "\<forall>y \<in> set ys. good y" and "length ys = length xs"
proof -
  have r: "list_all2 (\<lambda>x y. norm x = Inr y) xs ys" using assms by (simp add: edit_ok each_ok)
  then show "\<forall>y \<in> set ys. good y" by (induction rule: list_all2_induct) (auto dest: norm_good)
  show "length ys = length xs" using list_all2_lengthD [OF r] by simp
qed

end

locale stable_normaliser = normaliser +
  assumes norm_fixed: "good x \<Longrightarrow> norm x = Inr x"
begin

lemma each_fixed: "\<forall>x \<in> set xs. good x \<Longrightarrow> each (edit_of norm err) xs = (xs, None)"
  by (induction xs) (simp_all add: edit_of_def norm_fixed)

lemma norm_idem: "norm x = Inr y \<Longrightarrow> norm y = Inr y"
  by (rule norm_fixed [OF norm_good])

lemma each_again: "each (edit_of norm err) xs = (ys, None) \<Longrightarrow> each (edit_of norm err) ys = (ys, None)"
  using each_fixed each_good(1) by blast

end

end
