(* ===== verification/PolicyDoc.thy ===== *)
theory PolicyDoc
  imports GoRegexp NetText Edits
begin

text \<open>
  \<^verbatim>\<open>internal/core/policy.go\<close>: the policy document every provider compiles from, the capabilities
  a policy needs, its validation, the schedules and the addresses a policy applies to. Maps are
  association lists in the order the loops meet their keys; every statement holds for any order.
  The patterns are transcribed into \<^verbatim>\<open>GoRegexp\<close>. Text is ASCII, as elsewhere.
\<close>

section \<open>The document\<close>

record group =
  g_description :: string
  g_members :: "string list"

record window =
  w_days :: "string list"
  w_from :: string
  w_to :: string

record schedule =
  s_description :: string
  s_windows :: "window list"

record match =
  m_all :: bool
  m_groups :: "string list"
  m_members :: "string list"
  m_even_excluded :: bool

record deny =
  d_apps :: "string list"
  d_app_categories :: "string list"
  d_categories :: "string list"
  d_domains :: "string list"
  d_tlds :: "string list"
  d_countries :: "string list"
  d_countries_except :: "string list"
  d_ports :: "string list"
  d_internet :: bool

record allow =
  a_apps :: "string list"
  a_domains :: "string list"

record tls_opt =
  t_inspect :: bool
  t_bypass :: "string list"

record policy =
  p_name :: string
  p_description :: string
  p_enabled :: bool
  p_action :: string
  p_match :: match
  p_schedule :: string
  p_deny :: deny
  p_allow :: allow
  p_tls :: tls_opt
  p_safe_search :: bool
  p_youtube :: string

record exclusions =
  x_hosts :: "string list"
  x_domains :: "string list"

record options =
  o_block_page :: string
  o_dns_block_mode :: string

record policy_doc =
  pd_version :: int
  pd_groups :: "(string, group) gomap"
  pd_schedules :: "(string, schedule) gomap"
  pd_policies :: "policy list"
  pd_exclusions :: exclusions
  pd_options :: options

section \<open>What a policy needs\<close>

definition CapAppBlock :: string where "CapAppBlock = ''app.block''"
definition CapDNSBlock :: string where "CapDNSBlock = ''dns.block''"
definition CapWebBlock :: string where "CapWebBlock = ''web.block''"
definition CapNetBlock :: string where "CapNetBlock = ''net.block''"
definition CapTLSInspect :: string where "CapTLSInspect = ''tls.inspect''"

definition required :: "policy \<Rightarrow> string list" where
  "required p =
     (let d = p_deny p in
        (if d_apps d \<noteq> [] \<or> d_app_categories d \<noteq> [] then [CapAppBlock] else [])
      @ (if d_categories d \<noteq> [] \<or> d_domains d \<noteq> [] \<or> d_tlds d \<noteq> [] then [CapDNSBlock, CapWebBlock] else [])
      @ (if d_countries d \<noteq> [] \<or> d_countries_except d \<noteq> [] \<or> d_ports d \<noteq> [] \<or> d_internet d
         then [CapNetBlock] else [])
      @ (if t_inspect (p_tls p) then [CapTLSInspect] else [])
      @ (if p_safe_search p \<or> p_youtube p \<noteq> [] then [CapDNSBlock] else []))"

definition Requirements :: "policy \<Rightarrow> string list" where
  "Requirements p = sort (remdups (required p))"

section \<open>Patterns\<close>

definition lower_digit_us :: "(char \<times> char) list" where
  "lower_digit_us = [(CHR ''a'', CHR ''z''), (CHR ''0'', CHR ''9''), (CHR ''_'', CHR ''_'')]"

definition label_re :: re where
  "label_re = Cat (Cls lower_digit_us)
     (Opt (Cat (Rep 0 61 (Cls (lower_digit_us @ [(CHR ''-'', CHR ''-'')]))) (Cls lower_digit_us)))"

definition tldRe :: re where
  "tldRe = Rep 2 63 (Cls [(CHR ''a'', CHR ''z''), (CHR ''0'', CHR ''9''), (CHR ''-'', CHR ''-'')])"

definition labels_re :: re where
  "labels_re = Cat (Plus (Cat label_re (Chr CHR ''.''))) tldRe"

definition domainRe :: re where
  "domainRe = Cat (Opt (lit ''*.'')) labels_re"

definition alnum :: "(char \<times> char) list" where
  "alnum = [(CHR ''A'', CHR ''Z''), (CHR ''a'', CHR ''z''), (CHR ''0'', CHR ''9'')]"

definition nameRe :: re where
  "nameRe = Cat (Cls alnum)
     (Rep 0 63 (Cls (alnum @ [(CHR '' '', CHR '' ''), (CHR ''.'', CHR ''.''), (CHR ''_'', CHR ''_''), (CHR ''-'', CHR ''-'')])))"

definition hex_pair :: re where
  "hex_pair = Rep 2 2 (Cls [(CHR ''0'', CHR ''9''), (CHR ''a'', CHR ''f'')])"

definition macRe :: re where
  "macRe = Cat (Rep 5 5 (Cat hex_pair (Chr CHR '':''))) hex_pair"

definition digit_re :: re where
  "digit_re = Cls [(CHR ''0'', CHR ''9'')]"

definition timeRe :: re where
  "timeRe = Cat (Alt (Cat (Cls [(CHR ''0'', CHR ''1'')]) digit_re)
                     (Cat (Chr CHR ''2'') (Cls [(CHR ''0'', CHR ''3'')])))
            (Cat (Chr CHR '':'') (Cat (Cls [(CHR ''0'', CHR ''5'')]) digit_re))"

definition portRe :: re where
  "portRe = Cat (Alt (lit ''tcp'') (Alt (lit ''udp'') (lit ''any'')))
            (Cat (Chr CHR ''/'') (Cat (Rep 1 5 digit_re)
              (Opt (Cat (Chr CHR ''-'') (Rep 1 5 digit_re)))))"

definition ccRe :: re where
  "ccRe = Rep 2 2 (Cls [(CHR ''A'', CHR ''Z'')])"

section \<open>Domains and members\<close>

definition NormalizeDomain :: "string \<Rightarrow> string + string" where
  "NormalizeDomain s0 =
     (let s = to_lower (trim_space (trim_suffix s0 ''.'')) in
      if \<not> MatchString domainRe (fold_case s) then Inl s else Inr (trim_prefix s ''*.''))"

datatype member_error = NotMAC string | NotReference string | NotMember string

definition ValidateMember :: "string \<Rightarrow> member_error + string" where
  "ValidateMember m0 =
     (let m = trim_space m0 in
      if m = ''all'' then Inr m
      else if has_prefix m ''mac:'' then
        (if \<not> MatchString macRe (fold_case (drop 4 m)) then Inl (NotMAC m)
         else Inr (''mac:'' @ to_lower (drop 4 m)))
      else if has_prefix m ''zone:'' \<or> has_prefix m ''device:'' \<or> has_prefix m ''user:'' \<or> has_prefix m ''usergroup:'' then
        (if length m < 6 \<or> 100 < length m then Inl (NotReference m) else Inr m)
      else (case parse_ip m of
          Some ip \<Rightarrow>
            if to4 ip \<noteq> None then Inr (ip_string ip @ ''/32'') else Inr (ip_string ip @ ''/128'')
        | None \<Rightarrow>
            (case parse_cidr m of
               Some (_, n) \<Rightarrow> Inr (ipnet_string n)
             | None \<Rightarrow> Inl (NotMember m))))"

definition NormalizeDay :: "string \<Rightarrow> string + string" where
  "NormalizeDay day =
     (let d = to_lower (take 3 day) in
      if \<not> contains ''mon tue wed thu fri sat sun'' d \<or> length d \<noteq> 3 then Inl day else Inr d)"

definition NormalizeTLD :: "string \<Rightarrow> string + string" where
  "NormalizeTLD t0 =
     (let t = to_lower (trim_prefix (trim_space t0) ''.'') in
      if \<not> MatchString tldRe (fold_case t) then Inl t else Inr t)"

definition NormalizeCountry :: "string \<Rightarrow> string + string" where
  "NormalizeCountry c0 =
     (let c = to_upper (trim_space c0) in if \<not> MatchString ccRe c then Inl c else Inr c)"

section \<open>Validation\<close>

datatype policy_error =
    BadVersion int
  | GroupName string | GroupEmpty string | GroupMember string member_error
  | ScheduleName string | ScheduleEmpty string | WindowTimes string nat | UnknownDay string string
  | PolicyName nat string | DuplicatePolicy string | BadAction string | MatchesNobody string
  | UnknownGroup string string | PolicyMember string member_error | UnknownSchedule string string
  | PolicyDomain string string | NotTLD string string | NotCountry string string | BothCountries string
  | BadPort string string | BadYouTube string | NothingDenied string
  | ExcludedHost member_error | ExcludedDomain string | BadBlockMode

definition check_group :: "string \<times> group \<Rightarrow> (string \<times> group) \<times> policy_error option" where
  "check_group =
     in_order
       [guard (\<lambda>(name, g). \<not> MatchString nameRe name) (\<lambda>(name, g). GroupName name),
        guard (\<lambda>(name, g). g_members g = []) (\<lambda>(name, g). GroupEmpty name),
        (\<lambda>(name, g). field snd (\<lambda>f (n, g). (n, f g))
           (field g_members g_members_update (each (edit_of ValidateMember (GroupMember name)))) (name, g))]"

definition check_window :: "string \<Rightarrow> nat \<Rightarrow> window \<Rightarrow> window \<times> policy_error option" where
  "check_window name i =
     in_order
       [guard (\<lambda>w. \<not> MatchString timeRe (w_from w) \<or> \<not> MatchString timeRe (w_to w)) (\<lambda>_. WindowTimes name (i + 1)),
        field w_days w_days_update (each (edit_of NormalizeDay (UnknownDay name)))]"

fun check_windows :: "string \<Rightarrow> nat \<Rightarrow> window list \<Rightarrow> window list \<times> policy_error option" where
  "check_windows name i [] = ([], None)"
| "check_windows name i (w # ws) =
     (case check_window name i w of
        (v, Some e) \<Rightarrow> (v # ws, Some e)
      | (v, None) \<Rightarrow> (let (vs, r) = check_windows name (Suc i) ws in (v # vs, r)))"

definition check_schedule :: "string \<times> schedule \<Rightarrow> (string \<times> schedule) \<times> policy_error option" where
  "check_schedule =
     in_order
       [guard (\<lambda>(name, s). \<not> MatchString nameRe name) (\<lambda>(name, s). ScheduleName name),
        guard (\<lambda>(name, s). s_windows s = []) (\<lambda>(name, s). ScheduleEmpty name),
        (\<lambda>(name, s). field snd (\<lambda>f (n, s). (n, f s))
           (field s_windows s_windows_update (check_windows name 0)) (name, s))]"

definition deny_lists :: "string \<Rightarrow> (deny, policy_error) edit" where
  "deny_lists name =
     in_order
       [field d_tlds d_tlds_update (each (edit_of NormalizeTLD (NotTLD name))),
        field d_countries d_countries_update (each (edit_of NormalizeCountry (NotCountry name))),
        field d_countries_except d_countries_except_update (each (edit_of NormalizeCountry (NotCountry name))),
        guard (\<lambda>d. d_countries d \<noteq> [] \<and> d_countries_except d \<noteq> []) (\<lambda>_. BothCountries name),
        field d_ports d_ports_update (each (must (\<lambda>pt. MatchString portRe (to_lower pt)) (BadPort name)))]"

definition check_match :: "policy_doc \<Rightarrow> string \<Rightarrow> (match, policy_error) edit" where
  "check_match d name =
     in_order
       [guard (\<lambda>m. \<not> m_all m \<and> m_groups m = [] \<and> m_members m = []) (\<lambda>_. MatchesNobody name),
        field m_groups m_groups_update (each (must (\<lambda>g. g \<in> mkeys (pd_groups d)) (UnknownGroup name))),
        field m_members m_members_update (each (edit_of ValidateMember (PolicyMember name)))]"

definition default_action :: "policy \<Rightarrow> policy" where
  "default_action p = (if p_action p = [] then p\<lparr>p_action := ''block''\<rparr> else p)"

definition check_policy :: "policy_doc \<Rightarrow> nat \<Rightarrow> string list \<Rightarrow> policy \<Rightarrow> policy \<times> policy_error option" where
  "check_policy d i seen p0 =
     (let name = p_name p0 in
      in_order
       [guard (\<lambda>p. \<not> MatchString nameRe name) (\<lambda>_. PolicyName (i + 1) name),
        guard (\<lambda>p. name \<in> set seen) (\<lambda>_. DuplicatePolicy name),
        always default_action,
        guard (\<lambda>p. p_action p \<noteq> ''block'' \<and> p_action p \<noteq> ''monitor'') (\<lambda>_. BadAction name),
        field p_match p_match_update (check_match d name),
        guard (\<lambda>p. p_schedule p \<noteq> [] \<and> p_schedule p \<notin> mkeys (pd_schedules d))
          (\<lambda>p. UnknownSchedule name (p_schedule p)),
        field p_deny p_deny_update (field d_domains d_domains_update (each (edit_of NormalizeDomain (PolicyDomain name)))),
        field p_allow p_allow_update (field a_domains a_domains_update (each (edit_of NormalizeDomain (PolicyDomain name)))),
        field p_tls p_tls_update (field t_bypass t_bypass_update (each (edit_of NormalizeDomain (PolicyDomain name)))),
        field p_deny p_deny_update (deny_lists name),
        guard (\<lambda>p. p_youtube p \<noteq> [] \<and> p_youtube p \<noteq> ''moderate'' \<and> p_youtube p \<noteq> ''strict'') (\<lambda>_. BadYouTube name),
        guard (\<lambda>p. Requirements p = []) (\<lambda>_. NothingDenied name)] p0)"

fun check_policies :: "policy_doc \<Rightarrow> nat \<Rightarrow> string list \<Rightarrow> policy list \<Rightarrow> policy list \<times> policy_error option" where
  "check_policies d i seen [] = ([], None)"
| "check_policies d i seen (p # ps) =
     (case check_policy d i seen p of
        (q, Some e) \<Rightarrow> (q # ps, Some e)
      | (q, None) \<Rightarrow> (let (qs, r) = check_policies d (Suc i) (p_name p # seen) ps in (q # qs, r)))"

definition default_version :: "policy_doc \<Rightarrow> policy_doc" where
  "default_version d = (if pd_version d = 0 then d\<lparr>pd_version := 1\<rparr> else d)"

definition Validate :: "policy_doc \<Rightarrow> policy_doc \<times> policy_error option" where
  "Validate =
     in_order
       [always default_version,
        guard (\<lambda>d. pd_version d \<noteq> 1) (\<lambda>d. BadVersion (pd_version d)),
        field pd_groups pd_groups_update (each check_group),
        field pd_schedules pd_schedules_update (each check_schedule),
        (\<lambda>d. field pd_policies pd_policies_update (check_policies d 0 []) d),
        field pd_exclusions pd_exclusions_update
          (field x_hosts x_hosts_update (each (edit_of ValidateMember ExcludedHost))),
        field pd_exclusions pd_exclusions_update
          (field x_domains x_domains_update (each (edit_of NormalizeDomain ExcludedDomain))),
        guard (\<lambda>d. o_dns_block_mode (pd_options d) \<notin> {[], ''refused'', ''nxdomain'', ''null''}) (\<lambda>_. BadBlockMode)]"

end
