(* ===== verification/PolicyText.thy ===== *)
theory PolicyText
  imports PolicyDoc
begin

text \<open>
  What a validated document's texts look like: a reading of each pattern without regular
  expressions, and the normalisers of \<^verbatim>\<open>policy.go\<close> as instances of the interface in
  \<^verbatim>\<open>Edits\<close>: what they return is well formed, and they return well-formed text unchanged.
\<close>

section \<open>Case folding\<close>

lemma to_lower_char_idem [simp]: "to_lower_char (to_lower_char c) = to_lower_char c"
  by (auto simp: to_lower_char_def Let_def)

lemma ascii_fold_Cons:
  assumes "of_char c < (128 :: nat)"
  shows "fold_case (c # s) = to_lower_char c # fold_case s"
proof (cases s)
  case (Cons a t)
  with assms show ?thesis by (cases t) auto
qed simp

lemma ascii_fold_snoc:
  assumes "of_char c < (128 :: nat)"
  shows "fold_case (s @ [c]) = fold_case s @ [to_lower_char c]"
  using assms by (induction s rule: fold_case.induct) (auto simp: ascii_fold_Cons)

lemma ascii_in_fold: "x \<in> set s \<Longrightarrow> of_char x < (128 :: nat) \<Longrightarrow> to_lower_char x \<in> set (fold_case s)"
  by (induction s rule: fold_case.induct) (auto split: if_splits)

lemma plain_fold:
  "CHR ''s'' \<notin> set (fold_case x) \<Longrightarrow> CHR ''k'' \<notin> set (fold_case x) \<Longrightarrow> fold_case x = to_lower x"
  by (induction x rule: fold_case.induct) (auto simp: to_lower_def split: if_splits)

lemma no_space_trim: "(\<And>c. c \<in> set s \<Longrightarrow> \<not> is_space c) \<Longrightarrow> trim_space s = s"
  by (rule trim_space_fixed) (cases "s = []", auto)

lemma is_space_ascii: "is_space c \<Longrightarrow> of_char c < (128 :: nat) \<and> to_lower_char c = c"
  by (auto simp: is_space_def to_lower_char_def Let_def)

text \<open>Texts whose folded form has no space in its pattern have no space.\<close>

lemma fold_no_space:
  assumes "\<And>c. c \<in> set (fold_case s) \<Longrightarrow> \<not> is_space c"
  shows "trim_space s = s"
proof (rule no_space_trim)
  fix c
  assume "c \<in> set s"
  then show "\<not> is_space c"
    using assms ascii_in_fold [of c s] is_space_ascii [of c] by (cases "is_space c") auto
qed

section \<open>Domains\<close>

definition label_char :: "char \<Rightarrow> bool" where
  "label_char c \<longleftrightarrow> in_class (lower_digit_us @ [(CHR ''-'', CHR ''-'')]) c"

definition host_label :: "string \<Rightarrow> bool" where
  "host_label l \<longleftrightarrow> 1 \<le> length l \<and> length l \<le> 63 \<and> (\<forall>c \<in> set l. label_char c) \<and>
     hd l \<noteq> CHR ''-'' \<and> last l \<noteq> CHR ''-''"

definition top_label :: "string \<Rightarrow> bool" where
  "top_label l \<longleftrightarrow> 2 \<le> length l \<and> length l \<le> 63 \<and> (\<forall>c \<in> set l. label_char c \<and> c \<noteq> CHR ''_'')"

definition host_name :: "string \<Rightarrow> bool" where
  "host_name s \<longleftrightarrow> (let ls = split_on (CHR ''.'') s in
     2 \<le> length ls \<and> (\<forall>l \<in> set (butlast ls). host_label l) \<and> top_label (last ls))"

lemma in_class_simps [simp]:
  "in_class [] c \<longleftrightarrow> False"
  "in_class ((a, b) # rs) c \<longleftrightarrow> ((of_char a :: nat) \<le> of_char c \<and> (of_char c :: nat) \<le> of_char b) \<or> in_class rs c"
  by (simp_all add: in_class_def)

lemma chr_eq: "(of_char a :: nat) \<le> of_char c \<and> (of_char c :: nat) \<le> of_char a \<longleftrightarrow> c = a"
  by (metis of_char_eq_iff order_antisym order_refl)

lemma of_char_is:
  "of_char c = (45 :: nat) \<longleftrightarrow> c = CHR ''-''"
  "of_char c = (46 :: nat) \<longleftrightarrow> c = CHR ''.''"
  "of_char c = (58 :: nat) \<longleftrightarrow> c = CHR '':''"
  "of_char c = (95 :: nat) \<longleftrightarrow> c = CHR ''_''"
  using of_char_eq_iff [of c "CHR ''-''", where ?'a = nat] of_char_eq_iff [of c "CHR ''.''", where ?'a = nat]
    of_char_eq_iff [of c "CHR '':''", where ?'a = nat] of_char_eq_iff [of c "CHR ''_''", where ?'a = nat]
  by simp_all

lemma lang_Chr [simp]: "lang (Chr c) = {[c]}"
  by (auto simp: chr_eq)

lemma not_dash: "in_class lower_digit_us c \<longleftrightarrow> label_char c \<and> c \<noteq> CHR ''-''"
  by (auto simp: label_char_def lower_digit_us_def of_char_is)

lemma label_char_not_dot: "label_char c \<Longrightarrow> c \<noteq> CHR ''.'' \<and> c \<noteq> CHR ''*'' \<and> \<not> is_space c"
  by (auto simp: label_char_def lower_digit_us_def is_space_def Let_def)

definition label_tail :: re where
  "label_tail = Cat (Rep 0 61 (Cls (lower_digit_us @ [(CHR ''-'', CHR ''-'')]))) (Cls lower_digit_us)"

lemma lang_label_re:
  "u \<in> lang label_re \<longleftrightarrow>
     (\<exists>c v. u = c # v \<and> in_class lower_digit_us c \<and> (v = [] \<or> v \<in> lang label_tail))"
proof -
  have "label_re = Cat (Cls lower_digit_us) (Opt label_tail)" by (simp add: label_re_def label_tail_def)
  then have h: "lang label_re = {u @ v | u v. u \<in> {[c] | c. in_class lower_digit_us c} \<and> v \<in> insert [] (lang label_tail)}"
    unfolding lang_Opt(1) [symmetric] lang.simps(1,2) [symmetric] by (rule arg_cong [of _ _ lang])
  show ?thesis
  proof
    assume "u \<in> lang label_re"
    then show "\<exists>c v. u = c # v \<and> in_class lower_digit_us c \<and> (v = [] \<or> v \<in> lang label_tail)"
      unfolding h by auto
  next
    assume "\<exists>c v. u = c # v \<and> in_class lower_digit_us c \<and> (v = [] \<or> v \<in> lang label_tail)"
    then obtain c v where "u = [c] @ v" "in_class lower_digit_us c" "v \<in> insert [] (lang label_tail)" by auto
    then show "u \<in> lang label_re" unfolding h by blast
  qed
qed

lemma lang_label_tail:
  "v \<in> lang label_tail \<longleftrightarrow>
     (\<exists>m d. v = m @ [d] \<and> in_class lower_digit_us d \<and> length m \<le> 61 \<and> (\<forall>c \<in> set m. label_char c))"
  unfolding label_tail_def lang.simps(2) mem_Collect_eq lang_Rep_Cls label_char_def by auto

lemma lang_label: "u \<in> lang label_re \<longleftrightarrow> host_label u"
proof
  assume "u \<in> lang label_re"
  then obtain c v where u: "u = c # v" "in_class lower_digit_us c" and v: "v = [] \<or> v \<in> lang label_tail"
    unfolding lang_label_re by blast
  show "host_label u"
  proof (cases "v = []")
    case True
    with u show ?thesis by (simp add: host_label_def not_dash)
  next
    case False
    with v obtain m d where "v = m @ [d]" "in_class lower_digit_us d" "length m \<le> 61" "\<forall>c \<in> set m. label_char c"
      unfolding lang_label_tail by blast
    with u show ?thesis by (auto simp: host_label_def not_dash)
  qed
next
  assume h: "host_label u"
  then obtain c v where u: "u = c # v" by (cases u) (auto simp: host_label_def)
  with h have c: "in_class lower_digit_us c" by (simp add: host_label_def not_dash)
  have "v = [] \<or> v \<in> lang label_tail"
  proof (cases v rule: rev_cases)
    case (snoc m d)
    with h u have "in_class lower_digit_us d" "length m \<le> 61" "\<forall>c \<in> set m. label_char c"
      by (auto simp: host_label_def not_dash)
    with snoc show ?thesis unfolding lang_label_tail by blast
  qed simp
  with u c show "u \<in> lang label_re" unfolding lang_label_re by blast
qed

lemma lang_tld: "u \<in> lang tldRe \<longleftrightarrow> top_label u"
proof -
  have "in_class [(CHR ''a'', CHR ''z''), (CHR ''0'', CHR ''9''), (CHR ''-'', CHR ''-'')] c \<longleftrightarrow>
      label_char c \<and> c \<noteq> CHR ''_''" for c
    by (auto simp: label_char_def lower_digit_us_def of_char_is)
  then show ?thesis unfolding tldRe_def lang_Rep_Cls top_label_def by blast
qed

lemma host_label_no_dot: "host_label l \<Longrightarrow> CHR ''.'' \<notin> set l"
  using label_char_not_dot by (auto simp: host_label_def)

lemma top_label_no_dot: "top_label l \<Longrightarrow> CHR ''.'' \<notin> set l"
  using label_char_not_dot by (auto simp: top_label_def)

lemma lang_ended: "v \<in> lang (Cat r (Chr c)) \<longleftrightarrow> (\<exists>l. l \<in> lang r \<and> v = l @ [c])"
  unfolding lang.simps(2) lang_Chr by auto

lemma pow_parts:
  "u \<in> pow (lang (Cat r (Chr c))) k \<longleftrightarrow> (\<exists>ls. length ls = k \<and> (\<forall>l \<in> set ls. l \<in> lang r) \<and> u = ended c ls)"
proof (induction k arbitrary: u)
  case (Suc k)
  show ?case
  proof
    assume "u \<in> pow (lang (Cat r (Chr c))) (Suc k)"
    then obtain v w where "u = v @ w" "v \<in> lang (Cat r (Chr c))" "w \<in> pow (lang (Cat r (Chr c))) k"
      by (blast elim: pow_SucE)
    then obtain l ls where "u = (l @ [c]) @ ended c ls" "l \<in> lang r" "length ls = k" "\<forall>l \<in> set ls. l \<in> lang r"
      unfolding lang_ended Suc by blast
    then show "\<exists>ls. length ls = Suc k \<and> (\<forall>l \<in> set ls. l \<in> lang r) \<and> u = ended c ls"
      by (intro exI [of _ "l # ls"]) simp
  next
    assume "\<exists>ls. length ls = Suc k \<and> (\<forall>l \<in> set ls. l \<in> lang r) \<and> u = ended c ls"
    then obtain l ls where "length ls = k" "l \<in> lang r" "\<forall>l \<in> set ls. l \<in> lang r" "u = (l @ [c]) @ ended c ls"
      by (auto simp: length_Suc_conv)
    then show "u \<in> pow (lang (Cat r (Chr c))) (Suc k)"
      using lang_ended [of "l @ [c]" r c] Suc [of "ended c ls"] pow_SucI by metis
  qed
qed simp

lemma join_split: "\<exists>ls t. split_on c s = ls @ [t] \<and> s = ended c ls @ t"
proof (induction s)
  case (Cons x s)
  then obtain ls t where i: "split_on c s = ls @ [t]" "s = concat (map (\<lambda>l. l @ [c]) ls) @ t" by blast
  show ?case
  proof (cases "x = c")
    case True
    with i show ?thesis by (intro exI [of _ "[] # ls"] exI [of _ t]) simp
  next
    case False
    show ?thesis
    proof (cases ls)
      case Nil
      with i False show ?thesis by (intro exI [of _ "[]"] exI [of _ "x # t"]) simp
    next
      case (Cons l ls')
      with i False show ?thesis by (intro exI [of _ "(x # l) # ls'"] exI [of _ t]) simp
    qed
  qed
qed simp

lemma lang_labels: "s \<in> lang labels_re \<longleftrightarrow> host_name s"
proof
  assume "s \<in> lang labels_re"
  then obtain u t k where s: "s = u @ t" "1 \<le> k" "u \<in> pow (lang (Cat label_re (Chr CHR ''.''))) k" "t \<in> lang tldRe"
    by (auto simp: labels_re_def simp del: lang.simps(2) simp: lang.simps(2) [of "Plus _" tldRe])
  then obtain ls where ls: "length ls = k" "\<forall>l \<in> set ls. host_label l" "u = ended (CHR ''.'') ls"
    unfolding pow_parts lang_label by blast
  have "split_on (CHR ''.'') s = ls @ [t]"
    unfolding s(1) ls(3) using ls s host_label_no_dot top_label_no_dot lang_tld by (intro split_ended) auto
  with ls s show "host_name s" by (simp add: host_name_def lang_tld)
next
  assume h: "host_name s"
  obtain ls t where sp: "split_on (CHR ''.'') s = ls @ [t]" "s = ended (CHR ''.'') ls @ t"
    using join_split [of "CHR ''.''" s] by auto
  with h have "1 \<le> length ls" "\<forall>l \<in> set ls. host_label l" "top_label t" by (auto simp: host_name_def)
  then have "ended (CHR ''.'') ls \<in> lang (Plus (Cat label_re (Chr CHR ''.'')))" "t \<in> lang tldRe"
    using pow_parts [of "ended (CHR ''.'') ls" label_re "CHR ''.''" "length ls"]
    by (auto simp: lang_tld lang_label simp del: lang.simps(2))
  then show "s \<in> lang labels_re" unfolding sp(2) labels_re_def lang.simps(2) by blast
qed

lemma host_name_parts:
  assumes "host_name s"
  obtains ls t where "s = ended (CHR ''.'') ls @ t" "\<forall>l \<in> set ls. host_label l" "top_label t"
proof -
  obtain ls t where sp: "split_on (CHR ''.'') s = ls @ [t]" "s = ended (CHR ''.'') ls @ t"
    using join_split [of "CHR ''.''" s] by auto
  have "\<forall>l \<in> set ls. host_label l" "top_label t" using assms by (auto simp: host_name_def sp(1))
  with that sp(2) show thesis by blast
qed

lemma host_name_chars:
  assumes "host_name s" and "c \<in> set s"
  shows "label_char c \<or> c = CHR ''.''"
proof -
  obtain ls t where s: "s = ended (CHR ''.'') ls @ t" "\<forall>l \<in> set ls. host_label l" "top_label t"
    using host_name_parts [OF assms(1)] by blast
  have "c \<in> set (ended (CHR ''.'') ls) \<Longrightarrow> (\<exists>l \<in> set ls. c \<in> set l) \<or> c = CHR ''.''"
    by (induction ls) auto
  with assms(2) s show ?thesis by (auto simp: host_label_def top_label_def)
qed

lemma host_name_last:
  assumes "host_name s"
  shows "s \<noteq> []" and "last s \<noteq> CHR ''.''"
proof -
  obtain ls t where s: "s = ended (CHR ''.'') ls @ t" "\<forall>l \<in> set ls. host_label l" and t: "top_label t"
    by (rule host_name_parts [OF assms])
  have ne: "t \<noteq> []" using t unfolding top_label_def by fastforce
  from ne show "s \<noteq> []" unfolding s(1) by simp
  have "last s = last t" unfolding s(1) by (rule last_appendR [OF ne])
  moreover have "last t \<in> set t" by (rule last_in_set [OF ne])
  ultimately show "last s \<noteq> CHR ''.''" using top_label_no_dot [OF t] by (intro notI) simp
qed

section \<open>The normalisers\<close>

definition domain_ok :: "string \<Rightarrow> bool" where
  "domain_ok s \<longleftrightarrow> to_lower s = s \<and> host_name (fold_case s)"

definition tld_ok :: "string \<Rightarrow> bool" where
  "tld_ok s \<longleftrightarrow> to_lower s = s \<and> top_label (fold_case s)"

definition country_ok :: "string \<Rightarrow> bool" where
  "country_ok s \<longleftrightarrow> length s = 2 \<and> (\<forall>c \<in> set s. in_class [(CHR ''A'', CHR ''Z'')] c)"

definition day_ok :: "string \<Rightarrow> bool" where
  "day_ok s \<longleftrightarrow> length s = 3 \<and> contains ''mon tue wed thu fri sat sun'' s"

lemma fold_dot_last:
  assumes "fold_case s \<noteq> []" and "last (fold_case s) \<noteq> CHR ''.''"
  shows "trim_suffix s ''.'' = s"
proof (cases s rule: rev_cases)
  case (snoc t c)
  then have "c \<noteq> CHR ''.''"
    using assms(2) ascii_fold_snoc [of "CHR ''.''" t] by (auto simp: to_lower_char_def)
  then show ?thesis using snoc by (simp add: trim_suffix_def has_suffix_def has_prefix_def)
qed (use assms in simp)

lemma star_dot: "has_prefix s ''*.'' \<longleftrightarrow> (\<exists>t. s = ''*.'' @ t)"
  by (cases s; cases "tl s") (auto simp: has_prefix_def)

lemma lang_star_dot: "lang (lit ''*.'') = {''*.''}"
  unfolding lit.simps lang.simps(2) lang_Chr by auto

lemma lang_domain: "s \<in> lang domainRe \<longleftrightarrow> host_name s \<or> (\<exists>t. s = ''*.'' @ t \<and> host_name t)"
proof -
  have "s \<in> lang domainRe \<longleftrightarrow> (\<exists>u v. s = u @ v \<and> (u = [] \<or> u = ''*.'') \<and> host_name v)"
    unfolding domainRe_def lang.simps(2) lang_Opt lang_star_dot mem_Collect_eq lang_labels by simp
  then show ?thesis by (metis append_Nil)
qed

lemma fold_case_Cons_inv:
  assumes "fold_case t = c # u" and "c \<noteq> CHR ''s''" and "c \<noteq> CHR ''k''"
  obtains a t' where "t = a # t'" "to_lower_char a = c" "fold_case t' = u"
  using assms by (cases t rule: fold_case.cases) (auto split: if_splits)

lemma lower_sym: "to_lower_char a = CHR ''*'' \<Longrightarrow> a = CHR ''*''" "to_lower_char a = CHR ''.'' \<Longrightarrow> a = CHR ''.''"
proof -
  have "of_char (char_of (n + 32)) = n + 32" if "n \<le> 90" for n :: nat using that by simp
  then show "to_lower_char a = CHR ''*'' \<Longrightarrow> a = CHR ''*''" "to_lower_char a = CHR ''.'' \<Longrightarrow> a = CHR ''.''"
    by (auto simp: to_lower_char_def Let_def dest!: arg_cong [of _ _ "of_char :: char \<Rightarrow> nat"] split: if_splits)
qed

lemma fold_star_dot:
  assumes "fold_case t = ''*.'' @ u"
  shows "\<exists>v. t = ''*.'' @ v \<and> fold_case v = u"
proof -
  obtain a t1 where t: "t = a # t1" "to_lower_char a = CHR ''*''" "fold_case t1 = CHR ''.'' # u"
    using assms fold_case_Cons_inv [of t "CHR ''*''" "CHR ''.'' # u"] by auto
  obtain b t2 where u: "t1 = b # t2" "to_lower_char b = CHR ''.''" "fold_case t2 = u"
    using fold_case_Cons_inv [OF t(3)] by auto
  show ?thesis using t u lower_sym by auto
qed

lemma domain_normal: "NormalizeDomain s = Inr r \<Longrightarrow> domain_ok r"
proof -
  define t where "t = to_lower (trim_space (trim_suffix s ''.''))"
  assume "NormalizeDomain s = Inr r"
  then have t: "fold_case t \<in> lang domainRe" and r: "r = trim_prefix t ''*.''"
    by (auto simp: NormalizeDomain_def t_def [symmetric] Let_def MatchString_lang split: if_splits)
  have low: "to_lower t = t" by (simp add: t_def)
  show ?thesis
  proof (cases "has_prefix t ''*.''")
    case True
    then obtain u where u: "t = ''*.'' @ u" unfolding star_dot by blast
    then have f: "fold_case t = ''*.'' @ fold_case u" by (simp add: ascii_fold_Cons to_lower_char_def)
    have "host_name (fold_case u)"
      using t f host_name_chars [of "fold_case t" "CHR ''*''"] label_char_not_dot
      unfolding lang_domain by auto
    moreover have "r = u" using r True u by (simp add: trim_prefix_def)
    ultimately show ?thesis using low u by (simp add: domain_ok_def to_lower_def)
  next
    case False
    have "host_name (fold_case t)"
    proof (rule ccontr)
      assume "\<not> host_name (fold_case t)"
      then obtain u where "fold_case t = ''*.'' @ u" using t unfolding lang_domain by blast
      then have "has_prefix t ''*.''" unfolding star_dot using fold_star_dot by blast
      with False show False ..
    qed
    moreover have "r = t" using r False by (simp add: trim_prefix_def)
    ultimately show ?thesis using low by (simp add: domain_ok_def)
  qed
qed

lemma domain_stable:
  assumes "domain_ok r"
  shows "NormalizeDomain r = Inr r"
proof -
  have low: "to_lower r = r" and h: "host_name (fold_case r)" using assms by (simp_all add: domain_ok_def)
  have "c \<in> set (fold_case r) \<Longrightarrow> \<not> is_space c" for c
    using host_name_chars [OF h, of c] label_char_not_dot [of c] by (auto simp: is_space_def)
  then have sp: "trim_space r = r" by (rule fold_no_space)
  have suf: "trim_suffix r ''.'' = r" by (rule fold_dot_last) (use host_name_last [OF h] in auto)
  have "\<not> has_prefix r ''*.''"
  proof
    assume "has_prefix r ''*.''"
    then obtain t where "r = ''*.'' @ t" unfolding star_dot by blast
    then have "CHR ''*'' \<in> set (fold_case r)" by (simp add: ascii_fold_Cons to_lower_char_def)
    with host_name_chars [OF h] label_char_not_dot show False by auto
  qed
  then have "trim_prefix r ''*.'' = r" by (simp add: trim_prefix_def)
  then show ?thesis
    using low sp suf h by (simp add: NormalizeDomain_def MatchString_lang lang_domain Let_def)
qed

interpretation domains: stable_normaliser NormalizeDomain domain_ok
  by unfold_locales (rule domain_normal, assumption, rule domain_stable, assumption)

lemma tld_normal: "NormalizeTLD s = Inr r \<Longrightarrow> tld_ok r"
  by (auto simp: NormalizeTLD_def tld_ok_def Let_def MatchString_lang lang_tld split: if_splits)

lemma tld_stable:
  assumes "tld_ok r"
  shows "NormalizeTLD r = Inr r"
proof -
  have low: "to_lower r = r" and h: "top_label (fold_case r)" using assms by (simp_all add: tld_ok_def)
  have c: "c \<in> set (fold_case r) \<Longrightarrow> \<not> is_space c \<and> c \<noteq> CHR ''.''" for c
    using h label_char_not_dot [of c] by (auto simp: top_label_def)
  then have sp: "trim_space r = r" using fold_no_space by blast
  have "CHR ''.'' \<notin> set r"
    using c ascii_in_fold [of "CHR ''.''" r] by (auto simp: to_lower_char_def)
  then have "trim_prefix r ''.'' = r" by (cases r) (auto simp: trim_prefix_def has_prefix_def)
  with low sp h show ?thesis by (simp add: NormalizeTLD_def MatchString_lang lang_tld Let_def)
qed

interpretation tlds: stable_normaliser NormalizeTLD tld_ok
  by unfold_locales (rule tld_normal, assumption, rule tld_stable, assumption)

lemma lang_cc: "s \<in> lang ccRe \<longleftrightarrow> country_ok s"
  unfolding ccRe_def lang_Rep_Cls country_ok_def by auto

lemma country_normal: "NormalizeCountry s = Inr r \<Longrightarrow> country_ok r"
  by (auto simp: NormalizeCountry_def Let_def MatchString_lang lang_cc split: if_splits)

lemma country_stable:
  assumes "country_ok r"
  shows "NormalizeCountry r = Inr r"
proof -
  have c: "c \<in> set r \<Longrightarrow> \<not> is_space c \<and> to_upper_char c = c" for c
    using assms by (auto simp: country_ok_def is_space_def to_upper_char_def Let_def)
  then have "trim_space r = r" "to_upper r = r"
    using no_space_trim [of r] by (auto simp: to_upper_def map_idI)
  with assms show ?thesis by (simp add: NormalizeCountry_def MatchString_lang lang_cc Let_def)
qed

interpretation countries: stable_normaliser NormalizeCountry country_ok
  by unfold_locales (rule country_normal, assumption, rule country_stable, assumption)

lemma contains_chars: "contains s p \<Longrightarrow> c \<in> set p \<Longrightarrow> c \<in> set s"
proof (induction s p rule: contains.induct)
  case (2 x s p)
  show ?case
  proof (cases "has_prefix (x # s) p")
    case True
    then have "set p \<subseteq> set (x # s)" unfolding has_prefix_def by (metis set_take_subset)
    with 2 show ?thesis by blast
  next
    case False
    with 2 show ?thesis by auto
  qed
qed simp

lemma week_lower: "c \<in> set ''mon tue wed thu fri sat sun'' \<Longrightarrow> to_lower_char c = c"
  by (auto simp: to_lower_char_def Let_def)

lemma day_normal: "NormalizeDay s = Inr r \<Longrightarrow> day_ok r"
  by (auto simp: NormalizeDay_def day_ok_def Let_def split: if_splits)

lemma day_stable:
  assumes "day_ok r"
  shows "NormalizeDay r = Inr r"
proof -
  have "take 3 r = r" using assms by (simp add: day_ok_def)
  moreover have "to_lower r = r"
    using assms contains_chars [of "''mon tue wed thu fri sat sun''" r] week_lower
    unfolding to_lower_def day_ok_def by (intro map_idI) blast
  ultimately show ?thesis using assms by (simp add: NormalizeDay_def day_ok_def)
qed

interpretation days: stable_normaliser NormalizeDay day_ok
  by unfold_locales (rule day_normal, assumption, rule day_stable, assumption)

end
