(* ===== verification/PolicyValid.thy ===== *)
theory PolicyValid
  imports PolicyText
begin

text \<open>
  \<^verbatim>\<open>PolicyDoc.Validate\<close>: a document that passes is well formed, and a well-formed document
  passes unchanged, so validation of a stored document is idempotent.
\<close>

section \<open>Members\<close>

lemma prefix_hd: "has_prefix m p \<Longrightarrow> p \<noteq> [] \<Longrightarrow> m \<noteq> [] \<and> hd m = hd p"
  by (cases p; cases m) (auto simp: has_prefix_def)

lemma reference_hd:
  assumes "has_prefix m ''zone:'' \<or> has_prefix m ''device:'' \<or> has_prefix m ''user:'' \<or> has_prefix m ''usergroup:''"
  shows "m \<noteq> ''all''" and "\<not> has_prefix m ''mac:''"
  using assms prefix_hd [of m "''mac:''"] prefix_hd [of m "''zone:''"] prefix_hd [of m "''device:''"]
    prefix_hd [of m "''user:''"] prefix_hd [of m "''usergroup:''"] by auto

lemma is_space_no_address: "is_space c \<Longrightarrow> \<not> (is_hex c \<or> c \<in> {CHR '':'', CHR ''.'', CHR ''/''})"
  by (auto simp: is_space_def is_hex_def hex_val_def Let_def)

lemma not_hex_letters: "\<not> is_hex (CHR ''m'')" "\<not> is_hex (CHR ''z'')" "\<not> is_hex (CHR ''v'')" "\<not> is_hex (CHR ''u'')"
    "\<not> is_hex (CHR ''l'')" "\<not> is_hex (CHR ''s'')" "\<not> is_hex (CHR ''k'')"
  by (simp_all add: is_hex_def hex_val_def Let_def)

definition mac_ok :: "string \<Rightarrow> bool" where
  "mac_ok h \<longleftrightarrow> (let ps = split_on (CHR '':'') h in
     length ps = 6 \<and>
     (\<forall>p \<in> set ps. length p = 2 \<and> (\<forall>c \<in> set p. in_class [(CHR ''0'', CHR ''9''), (CHR ''a'', CHR ''f'')] c)))"

definition reference_ok :: "string \<Rightarrow> bool" where
  "reference_ok m \<longleftrightarrow>
     (has_prefix m ''zone:'' \<or> has_prefix m ''device:'' \<or> has_prefix m ''user:'' \<or> has_prefix m ''usergroup:'') \<and>
     6 \<le> length m \<and> length m \<le> 100 \<and> trim_space m = m"

definition member_ok :: "string \<Rightarrow> bool" where
  "member_ok m \<longleftrightarrow> m = ''all'' \<or> (\<exists>h. m = ''mac:'' @ h \<and> mac_ok h) \<or> reference_ok m \<or> is_net_text m"

lemma lang_pair: "p \<in> lang hex_pair \<longleftrightarrow>
    length p = 2 \<and> (\<forall>c \<in> set p. in_class [(CHR ''0'', CHR ''9''), (CHR ''a'', CHR ''f'')] c)"
  unfolding hex_pair_def lang_Rep_Cls by auto

lemma pair_no_colon: "p \<in> lang hex_pair \<Longrightarrow> CHR '':'' \<notin> set p"
  unfolding lang_pair by auto

lemma lang_Rep_same: "lang (Rep n n r) = pow (lang r) n"
  by (auto simp: antisym)

lemma lang_mac: "h \<in> lang macRe \<longleftrightarrow> mac_ok h"
proof
  assume "h \<in> lang macRe"
  then obtain u t where h: "h = u @ t" "u \<in> pow (lang (Cat hex_pair (Chr CHR '':''))) 5" "t \<in> lang hex_pair"
    unfolding macRe_def lang.simps(2) [of "Rep _ _ _"] lang_Rep_same by blast
  then obtain ls where ls: "length ls = 5" "\<forall>l \<in> set ls. l \<in> lang hex_pair" "u = ended (CHR '':'') ls"
    unfolding pow_parts by blast
  have "split_on (CHR '':'') h = ls @ [t]"
    unfolding h(1) ls(3) using ls h pair_no_colon by (intro split_ended) auto
  moreover have "\<forall>p \<in> set (ls @ [t]). p \<in> lang hex_pair" using ls h by auto
  ultimately show "mac_ok h" using ls(1) unfolding mac_ok_def lang_pair Let_def by simp
next
  assume m: "mac_ok h"
  obtain ls t where sp: "split_on (CHR '':'') h = ls @ [t]" "h = ended (CHR '':'') ls @ t"
    using join_split [of "CHR '':''" h] by auto
  with m have ls: "length ls = 5" "\<forall>l \<in> set ls. l \<in> lang hex_pair" "t \<in> lang hex_pair"
    by (auto simp: mac_ok_def lang_pair)
  then have "ended (CHR '':'') ls \<in> pow (lang (Cat hex_pair (Chr CHR '':''))) 5" unfolding pow_parts by blast
  with ls show "h \<in> lang macRe" unfolding sp(2) macRe_def lang.simps(2) [of "Rep _ _ _"] lang_Rep_same by blast
qed

lemma mac_chars:
  assumes "mac_ok h" and "c \<in> set h"
  shows "is_hex c \<or> c = CHR '':''" and "to_lower_char c = c" and "of_char c < (128 :: nat)"
proof -
  obtain p where "c = CHR '':'' \<or> (p \<in> set (split_on (CHR '':'') h) \<and> c \<in> set p)"
    using split_on_chars [OF assms(2), of "CHR '':''"] by blast
  then have c: "c = CHR '':'' \<or> in_class [(CHR ''0'', CHR ''9''), (CHR ''a'', CHR ''f'')] c"
    using assms(1) by (auto simp: mac_ok_def Let_def)
  then show "is_hex c \<or> c = CHR '':''" by (auto simp: is_hex_def hex_val_def Let_def)
  show "to_lower_char c = c" "of_char c < (128 :: nat)" using c by (auto simp: to_lower_char_def Let_def)
qed

lemma mac_fold: "mac_ok h \<Longrightarrow> fold_case h = h \<and> to_lower h = h"
  using fold_case_lower [of h] mac_chars [of h] by (auto simp: list_all_iff to_lower_def map_idI)

text \<open>The text of a network has none of the characters the other members begin with.\<close>

lemma digit_is_hex: "is_digit c \<Longrightarrow> is_hex c"
  by (auto simp: is_digit_def is_hex_def hex_val_def Let_def)

lemma join_with_chars: "c \<in> set (join_with sep xs) \<Longrightarrow> c \<in> set sep \<or> (\<exists>x \<in> set xs. c \<in> set x)"
  by (induction sep xs rule: join_with.induct) auto

lemma ip_string_chars:
  assumes "length a = 4 \<or> length a = 16" and "c \<in> set (ip_string a)"
  shows "is_hex c \<or> c = CHR '':'' \<or> c = CHR ''.''"
proof -
  have four: "is_hex c \<or> c = CHR ''.''" if "c \<in> set (ip4_string b)" for b
    using that join_with_chars [of c "''.''"] dec_digits digit_is_hex by (fastforce simp: ip4_string_def)
  have "a \<noteq> []" using assms(1) by auto
  with assms four ip6_string_chars [of c a] show ?thesis by (auto simp: ip_string_def split: if_splits)
qed

lemma net_text_chars:
  assumes "is_net_text m" and "c \<in> set m"
  shows "is_hex c \<or> c \<in> {CHR '':'', CHR ''.'', CHR ''/''}"
proof -
  obtain a n where "net_addr a n" "m = net_text a n" using assms(1) by (auto simp: is_net_text_def)
  with assms(2) show ?thesis
    using ip_string_chars [of a c] dec_digits [of c n] digit_is_hex
    by (auto simp: net_text_def net_addr_def)
qed

lemma not_net_char:
  "\<not> (is_hex c \<or> c \<in> {CHR '':'', CHR ''.'', CHR ''/''}) \<Longrightarrow> is_net_text m \<Longrightarrow> c \<notin> set m"
  using net_text_chars by blast

lemma prefix_chars: "has_prefix m p \<Longrightarrow> set p \<subseteq> set m"
  unfolding has_prefix_def by (metis set_take_subset)

lemma net_text_no_prefix:
  assumes "is_net_text m"
  shows "m \<noteq> ''all''" "\<not> has_prefix m ''mac:''" "\<not> has_prefix m ''zone:''" "\<not> has_prefix m ''device:''"
    "\<not> has_prefix m ''user:''" "\<not> has_prefix m ''usergroup:''" "trim_space m = m"
proof -
  have n: "CHR ''m'' \<notin> set m" "CHR ''z'' \<notin> set m" "CHR ''v'' \<notin> set m" "CHR ''u'' \<notin> set m" "CHR ''l'' \<notin> set m"
    using not_net_char [OF _ assms] not_hex_letters by auto
  then show "m \<noteq> ''all''" "\<not> has_prefix m ''mac:''" "\<not> has_prefix m ''zone:''" "\<not> has_prefix m ''device:''"
    "\<not> has_prefix m ''user:''" "\<not> has_prefix m ''usergroup:''"
    using prefix_chars [of m] by fastforce+
  show "trim_space m = m"
  proof (rule no_space_trim)
    fix c
    assume "c \<in> set m"
    then show "\<not> is_space c"
      using net_text_chars [OF assms] is_space_no_address [of c] by blast
  qed
qed

lemma member_normal: "ValidateMember m = Inr r \<Longrightarrow> member_ok r"
proof -
  assume v: "ValidateMember m = Inr r"
  define t where "t = trim_space m"
  have tt: "trim_space t = t" by (simp add: t_def)
  consider "t = ''all''" | "has_prefix t ''mac:''"
    | "has_prefix t ''zone:'' \<or> has_prefix t ''device:'' \<or> has_prefix t ''user:'' \<or> has_prefix t ''usergroup:''"
    | "t \<noteq> ''all''" "\<not> has_prefix t ''mac:''"
      "\<not> (has_prefix t ''zone:'' \<or> has_prefix t ''device:'' \<or> has_prefix t ''user:'' \<or> has_prefix t ''usergroup:'')"
    by blast
  then show ?thesis
  proof cases
    case 1
    with v show ?thesis by (simp add: ValidateMember_def t_def [symmetric] member_ok_def)
  next
    case 2
    then have "t \<noteq> ''all''" by (auto simp: has_prefix_def)
    with 2 v have f: "fold_case (drop 4 t) \<in> lang macRe" and r: "r = ''mac:'' @ to_lower (drop 4 t)"
      by (auto simp: ValidateMember_def t_def [symmetric] Let_def MatchString_lang split: if_splits)
    then have "mac_ok (fold_case (drop 4 t))" by (simp add: lang_mac)
    moreover from this have "fold_case (drop 4 t) = to_lower (drop 4 t)"
      using mac_chars(1) not_hex_letters by (intro plain_fold) fastforce+
    ultimately show ?thesis using r by (simp add: member_ok_def)
  next
    case 3
    then have "t \<noteq> ''all''" "\<not> has_prefix t ''mac:''" using reference_hd by blast+
    with 3 v tt show ?thesis
      by (auto simp: ValidateMember_def t_def [symmetric] Let_def member_ok_def reference_ok_def split: if_splits)
  next
    case 4
    with v have c: "(case parse_ip t of
          Some ip \<Rightarrow> if to4 ip \<noteq> None then Inr (ip_string ip @ ''/32'') else Inr (ip_string ip @ ''/128'')
        | None \<Rightarrow> (case parse_cidr t of Some (_, n) \<Rightarrow> Inr (ipnet_string n) | None \<Rightarrow> Inl (NotMember t))) = Inr r"
      by (simp add: ValidateMember_def t_def [symmetric] Let_def)
    have "is_net_text r"
    proof (cases "parse_ip t")
      case None
      with c show ?thesis by (auto split: option.splits dest: parse_cidr_text)
    next
      case (Some ip)
      with c address_text [OF Some] show ?thesis by (auto split: if_splits)
    qed
    then show ?thesis by (simp add: member_ok_def)
  qed
qed

lemma member_stable:
  assumes "member_ok m"
  shows "ValidateMember m = Inr m"
  using assms unfolding member_ok_def
proof (elim disjE exE conjE)
  assume "m = ''all''"
  moreover have "trim_space ''all'' = ''all''" by (rule no_space_trim) (auto simp: is_space_def)
  ultimately show ?thesis by (simp add: ValidateMember_def)
next
  fix h
  assume m: "m = ''mac:'' @ h" and h: "mac_ok h"
  have "\<not> is_space c" if "c \<in> set h" for c
    using mac_chars(1) [OF h that] is_space_no_address [of c] by blast
  moreover have "c \<in> set ''mac:'' \<Longrightarrow> \<not> is_space c" for c by (auto simp: is_space_def)
  ultimately have "trim_space m = m" unfolding m by (intro no_space_trim) auto
  then show ?thesis
    using m mac_fold [OF h] h by (simp add: ValidateMember_def has_prefix_def MatchString_lang lang_mac)
next
  assume r: "reference_ok m"
  then have "m \<noteq> ''all''" "\<not> has_prefix m ''mac:''"
    unfolding reference_ok_def using reference_hd by blast+
  with r show ?thesis by (auto simp: ValidateMember_def reference_ok_def)
next
  assume n: "is_net_text m"
  then obtain a k where a: "net_addr a k" "m = net_text a k" by (auto simp: is_net_text_def)
  then show ?thesis
    using net_text_no_prefix [OF n] parse_net_text [OF a(1)] ipnet_string_net [OF a(1)]
    by (simp add: ValidateMember_def parse_ip_def Let_def)
qed

interpretation members: stable_normaliser ValidateMember member_ok
  by unfold_locales (rule member_normal, assumption, rule member_stable, assumption)

section \<open>Times\<close>

definition two_digits :: "nat \<Rightarrow> string" where
  "two_digits n = [digit_char (n div 10), digit_char (n mod 10)]"

definition hhmm :: "nat \<Rightarrow> nat \<Rightarrow> string" where
  "hhmm h m = two_digits h @ '':'' @ two_digits m"

definition time_ok :: "string \<Rightarrow> bool" where
  "time_ok s \<longleftrightarrow> (\<exists>h < 24. \<exists>m < 60. s = hhmm h m)"

lemma digit_range:
  assumes "k \<le> 9"
  shows "(48 :: nat) \<le> of_char c \<and> of_char c \<le> 48 + k \<longleftrightarrow> (\<exists>d \<le> k. c = digit_char d)"
proof
  assume "(48 :: nat) \<le> of_char c \<and> of_char c \<le> 48 + k"
  then show "\<exists>d \<le> k. c = digit_char d"
    by (intro exI [of _ "of_char c - 48"]) (auto simp: digit_char_def)
next
  assume "\<exists>d \<le> k. c = digit_char d"
  with assms show "(48 :: nat) \<le> of_char c \<and> of_char c \<le> 48 + k" by (auto simp: digit_char_def)
qed

lemma lang_Cls_Cat:
  "w \<in> lang (Cat (Cls rs) r) \<longleftrightarrow> (\<exists>c v. w = c # v \<and> in_class rs c \<and> v \<in> lang r)"
proof
  assume "\<exists>c v. w = c # v \<and> in_class rs c \<and> v \<in> lang r"
  then obtain c v where "w = [c] @ v" "[c] \<in> lang (Cls rs)" "v \<in> lang r" by auto
  then show "w \<in> lang (Cat (Cls rs) r)" unfolding lang.simps(2) by blast
qed auto

lemma lang_Cat_assoc: "lang (Cat (Cat a b) r) = lang (Cat a (Cat b r))"
  by auto (metis append.assoc)+

lemma lang_Alt_Cat: "lang (Cat (Alt a b) r) = lang (Cat a r) \<union> lang (Cat b r)"
  by auto

lemma lang_one: "w \<in> lang (Cls rs) \<longleftrightarrow> (\<exists>c. w = [c] \<and> in_class rs c)"
  by auto

lemma lang_time_chars: "s \<in> lang timeRe \<longleftrightarrow>
    (\<exists>a b c d. s = [a, b, CHR '':'', c, d] \<and>
      ((in_class [(CHR ''0'', CHR ''1'')] a \<and> in_class [(CHR ''0'', CHR ''9'')] b) \<or>
       (in_class [(CHR ''2'', CHR ''2'')] a \<and> in_class [(CHR ''0'', CHR ''3'')] b)) \<and>
      in_class [(CHR ''0'', CHR ''5'')] c \<and> in_class [(CHR ''0'', CHR ''9'')] d)"
proof -
  have colon: "in_class [(CHR '':'', CHR '':'')] c \<longleftrightarrow> c = CHR '':''" for c
    by (auto simp: of_char_is)
  show ?thesis
    unfolding timeRe_def digit_re_def lang_Alt_Cat Un_iff lang_Cat_assoc lang_Cls_Cat lang_one colon by (auto simp del: in_class_simps)
qed

lemma lang_time: "s \<in> lang timeRe \<longleftrightarrow> (\<exists>h < 24. \<exists>m < 60. s = hhmm h m)"
proof -
  have d: "in_class [(CHR ''0'', CHR ''1'')] c \<longleftrightarrow> (\<exists>d \<le> 1. c = digit_char d)"
    "in_class [(CHR ''0'', CHR ''3'')] c \<longleftrightarrow> (\<exists>d \<le> 3. c = digit_char d)"
    "in_class [(CHR ''0'', CHR ''5'')] c \<longleftrightarrow> (\<exists>d \<le> 5. c = digit_char d)"
    "in_class [(CHR ''0'', CHR ''9'')] c \<longleftrightarrow> (\<exists>d \<le> 9. c = digit_char d)" for c
    using digit_range [of 1 c] digit_range [of 3 c] digit_range [of 5 c] digit_range [of 9 c] by simp_all
  have two: "in_class [(CHR ''2'', CHR ''2'')] c \<longleftrightarrow> c = digit_char 2" for c
  proof -
    have "CHR ''2'' = digit_char 2" by code_simp
    moreover have "in_class [(CHR ''2'', CHR ''2'')] c \<longleftrightarrow> c = CHR ''2''"
      using chr_eq [of "CHR ''2''" c] by simp
    ultimately show ?thesis by simp
  qed
  show ?thesis
  proof
    assume "s \<in> lang timeRe"
    then obtain a b m1 m2 where s: "s = [digit_char a, digit_char b, CHR '':'', digit_char m1, digit_char m2]"
      and ab: "(a \<le> 1 \<and> b \<le> 9) \<or> (a = 2 \<and> b \<le> 3)" and m: "m1 \<le> 5" "m2 \<le> 9"
      unfolding lang_time_chars d two by blast
    have "s = hhmm (10 * a + b) (10 * m1 + m2)" using s ab m by (auto simp: hhmm_def two_digits_def)
    moreover have "10 * a + b < 24" "10 * m1 + m2 < 60" using ab m by auto
    ultimately show "\<exists>h < 24. \<exists>m < 60. s = hhmm h m" by blast
  next
    assume "\<exists>h < 24. \<exists>m < 60. s = hhmm h m"
    then obtain h m where hm: "h < 24" "m < 60" "s = hhmm h m" by blast
    have s: "s = [digit_char (h div 10), digit_char (h mod 10), CHR '':'', digit_char (m div 10), digit_char (m mod 10)]"
      using hm(3) by (simp add: hhmm_def two_digits_def)
    have "(h div 10 \<le> 1 \<and> h mod 10 \<le> 9) \<or> (h div 10 = 2 \<and> h mod 10 \<le> 3)" "m div 10 \<le> 5" "m mod 10 \<le> 9"
      using hm(1,2) by presburger+
    then show "s \<in> lang timeRe" unfolding s lang_time_chars d two by auto
  qed
qed

section \<open>Well-formed documents\<close>

definition wf_group :: "string \<times> group \<Rightarrow> bool" where
  "wf_group e \<longleftrightarrow> MatchString nameRe (fst e) \<and> g_members (snd e) \<noteq> [] \<and>
     (\<forall>m \<in> set (g_members (snd e)). member_ok m)"

definition wf_window :: "window \<Rightarrow> bool" where
  "wf_window w \<longleftrightarrow> time_ok (w_from w) \<and> time_ok (w_to w) \<and> (\<forall>d \<in> set (w_days w). day_ok d)"

definition wf_schedule :: "string \<times> schedule \<Rightarrow> bool" where
  "wf_schedule e \<longleftrightarrow> MatchString nameRe (fst e) \<and> s_windows (snd e) \<noteq> [] \<and>
     (\<forall>w \<in> set (s_windows (snd e)). wf_window w)"

definition wf_match :: "policy_doc \<Rightarrow> match \<Rightarrow> bool" where
  "wf_match d m \<longleftrightarrow> (m_all m \<or> m_groups m \<noteq> [] \<or> m_members m \<noteq> []) \<and>
     (\<forall>g \<in> set (m_groups m). g \<in> mkeys (pd_groups d)) \<and> (\<forall>x \<in> set (m_members m). member_ok x)"

definition wf_deny :: "deny \<Rightarrow> bool" where
  "wf_deny x \<longleftrightarrow> (\<forall>s \<in> set (d_domains x). domain_ok s) \<and> (\<forall>t \<in> set (d_tlds x). tld_ok t) \<and>
     (\<forall>c \<in> set (d_countries x). country_ok c) \<and> (\<forall>c \<in> set (d_countries_except x). country_ok c) \<and>
     (d_countries x = [] \<or> d_countries_except x = []) \<and>
     (\<forall>p \<in> set (d_ports x). MatchString portRe (to_lower p))"

definition wf_policy :: "policy_doc \<Rightarrow> policy \<Rightarrow> bool" where
  "wf_policy d p \<longleftrightarrow> MatchString nameRe (p_name p) \<and> p_action p \<in> {''block'', ''monitor''} \<and>
     wf_match d (p_match p) \<and> (p_schedule p = [] \<or> p_schedule p \<in> mkeys (pd_schedules d)) \<and>
     wf_deny (p_deny p) \<and> (\<forall>s \<in> set (a_domains (p_allow p)). domain_ok s) \<and>
     (\<forall>s \<in> set (t_bypass (p_tls p)). domain_ok s) \<and>
     p_youtube p \<in> {[], ''moderate'', ''strict''} \<and> Requirements p \<noteq> []"

definition wf_doc :: "policy_doc \<Rightarrow> bool" where
  "wf_doc d \<longleftrightarrow> pd_version d = 1 \<and> (\<forall>e \<in> set (pd_groups d). wf_group e) \<and>
     (\<forall>e \<in> set (pd_schedules d). wf_schedule e) \<and>
     distinct (map p_name (pd_policies d)) \<and> (\<forall>p \<in> set (pd_policies d). wf_policy d p) \<and>
     (\<forall>m \<in> set (x_hosts (pd_exclusions d)). member_ok m) \<and>
     (\<forall>s \<in> set (x_domains (pd_exclusions d)). domain_ok s) \<and>
     o_dns_block_mode (pd_options d) \<in> {[], ''refused'', ''nxdomain'', ''null''}"

section \<open>What passes is well formed\<close>

lemma each_all:
  assumes "each f xs = (ys, None)" and "\<And>x y. f x = (y, None) \<Longrightarrow> P y"
  shows "\<forall>y \<in> set ys. P y"
proof -
  have "list_all2 (\<lambda>x y. f x = (y, None)) xs ys" using assms(1) by (simp add: each_ok)
  then show ?thesis by (induction rule: list_all2_induct) (auto dest: assms(2))
qed

lemma each_keys:
  assumes "each f xs = (ys, None)" and "\<And>x y. f x = (y, None) \<Longrightarrow> k y = k x"
  shows "map k ys = map k xs"
proof -
  have "list_all2 (\<lambda>x y. f x = (y, None)) xs ys" using assms(1) by (simp add: each_ok)
  then show ?thesis by (induction rule: list_all2_induct) (auto dest: assms(2))
qed

lemma check_group_wf: "check_group e = (e', None) \<Longrightarrow> wf_group e' \<and> fst e' = fst e"
  using members.each_good(2) members.each_good(1)
  by (fastforce simp: check_group_def edit_ok wf_group_def split: prod.splits)

lemma check_window_wf: "check_window n i w = (w', None) \<Longrightarrow> wf_window w'"
  by (auto simp: check_window_def edit_ok wf_window_def MatchString_lang lang_time time_ok_def [symmetric] dest: days.each_good(1))

lemma check_windows_wf: "check_windows n i ws = (vs, None) \<Longrightarrow> (\<forall>v \<in> set vs. wf_window v) \<and> length vs = length ws"
proof (induction n i ws arbitrary: vs rule: check_windows.induct)
  case (2 n i w ws)
  then show ?case by (auto dest: check_window_wf split: prod.splits option.splits)
qed simp

lemma check_schedule_wf: "check_schedule e = (e', None) \<Longrightarrow> wf_schedule e' \<and> fst e' = fst e"
  using check_windows_wf
  by (fastforce simp: check_schedule_def edit_ok wf_schedule_def split: prod.splits)

lemma deny_lists_wf:
  "deny_lists n x = (y, None) \<Longrightarrow> \<forall>s \<in> set (d_domains x). domain_ok s \<Longrightarrow> wf_deny y"
  by (auto simp: deny_lists_def edit_ok wf_deny_def dest: tlds.each_good(1) countries.each_good(1))

lemma default_action_fields [simp]:
  "p_name (default_action p) = p_name p" "p_match (default_action p) = p_match p"
  "p_schedule (default_action p) = p_schedule p" "p_deny (default_action p) = p_deny p"
  "p_allow (default_action p) = p_allow p" "p_tls (default_action p) = p_tls p"
  "p_youtube (default_action p) = p_youtube p" "p_safe_search (default_action p) = p_safe_search p"
  by (simp_all add: default_action_def)

lemma check_match_wf: "check_match d n m = (m', None) \<Longrightarrow> wf_match d m'"
  by (auto simp: check_match_def edit_ok wf_match_def dest: members.each_good)

lemma check_policy_steps:
  assumes "check_policy d i seen p = (q, None)"
  obtains m xs ys zs dn where
    "MatchString nameRe (p_name p)" "p_name p \<notin> set seen"
    "p_action (default_action p) = ''block'' \<or> p_action (default_action p) = ''monitor''"
    "check_match d (p_name p) (p_match p) = (m, None)"
    "p_schedule p = [] \<or> p_schedule p \<in> mkeys (pd_schedules d)"
    "each (edit_of NormalizeDomain (PolicyDomain (p_name p))) (d_domains (p_deny p)) = (xs, None)"
    "each (edit_of NormalizeDomain (PolicyDomain (p_name p))) (a_domains (p_allow p)) = (ys, None)"
    "each (edit_of NormalizeDomain (PolicyDomain (p_name p))) (t_bypass (p_tls p)) = (zs, None)"
    "deny_lists (p_name p) ((p_deny p)\<lparr>d_domains := xs\<rparr>) = (dn, None)"
    "p_youtube p \<in> {[], ''moderate'', ''strict''}" "Requirements q \<noteq> []"
    "q = (default_action p)\<lparr>p_match := m, p_allow := (p_allow p)\<lparr>a_domains := ys\<rparr>,
       p_tls := (p_tls p)\<lparr>t_bypass := zs\<rparr>, p_deny := dn\<rparr>"
  using assms unfolding check_policy_def Let_def
  by (clarsimp simp: edit_ok)

lemma check_policy_wf:
  assumes "check_policy d i seen p = (q, None)"
  shows "wf_policy d q" and "p_name q = p_name p" and "p_name p \<notin> set seen"
proof -
  from assms obtain m xs ys zs dn where
    g: "MatchString nameRe (p_name p)" "p_name p \<notin> set seen"
      "p_action (default_action p) = ''block'' \<or> p_action (default_action p) = ''monitor''"
      "p_schedule p = [] \<or> p_schedule p \<in> mkeys (pd_schedules d)"
      "p_youtube p \<in> {[], ''moderate'', ''strict''}" "Requirements q \<noteq> []"
    and e: "check_match d (p_name p) (p_match p) = (m, None)"
      "each (edit_of NormalizeDomain (PolicyDomain (p_name p))) (d_domains (p_deny p)) = (xs, None)"
      "each (edit_of NormalizeDomain (PolicyDomain (p_name p))) (a_domains (p_allow p)) = (ys, None)"
      "each (edit_of NormalizeDomain (PolicyDomain (p_name p))) (t_bypass (p_tls p)) = (zs, None)"
      "deny_lists (p_name p) ((p_deny p)\<lparr>d_domains := xs\<rparr>) = (dn, None)"
    and q: "q = (default_action p)\<lparr>p_match := m, p_allow := (p_allow p)\<lparr>a_domains := ys\<rparr>,
       p_tls := (p_tls p)\<lparr>t_bypass := zs\<rparr>, p_deny := dn\<rparr>"
    by (rule check_policy_steps)
  have "wf_deny dn" using deny_lists_wf [OF e(5)] domains.each_good(1) [OF e(2)] by simp
  then show "wf_policy d q"
    using g check_match_wf [OF e(1)] domains.each_good(1) [OF e(3)] domains.each_good(1) [OF e(4)]
    by (simp add: wf_policy_def q)
  show "p_name q = p_name p" and "p_name p \<notin> set seen" using g q by simp_all
qed

lemma check_policies_wf:
  "check_policies d i seen ps = (qs, None) \<Longrightarrow>
     (\<forall>q \<in> set qs. wf_policy d q \<and> p_name q \<notin> set seen) \<and> distinct (map p_name qs)"
proof (induction d i seen ps arbitrary: qs rule: check_policies.induct)
  case (2 d i seen p ps)
  then obtain q rs where q: "check_policy d i seen p = (q, None)"
    and r: "check_policies d (Suc i) (p_name p # seen) ps = (rs, None)" and qs: "qs = q # rs"
    by (auto split: prod.splits option.splits)
  from 2(1) [OF q [symmetric] refl r] check_policy_wf [OF q] show ?case by (auto simp: qs)
qed simp

text \<open>A policy only asks the document for its keys.\<close>

lemma wf_policy_keys:
  assumes "mkeys (pd_groups d) = mkeys (pd_groups d')" and "mkeys (pd_schedules d) = mkeys (pd_schedules d')"
  shows "wf_policy d p = wf_policy d' p"
  using assms by (simp add: wf_policy_def wf_match_def)

lemma validate_steps:
  assumes "Validate d = (d', None)"
  obtains gs ss ps hs xs where
    "pd_version d = 0 \<or> pd_version d = 1"
    "each check_group (pd_groups d) = (gs, None)"
    "each check_schedule (pd_schedules d) = (ss, None)"
    "check_policies (d\<lparr>pd_version := 1, pd_groups := gs, pd_schedules := ss\<rparr>) 0 [] (pd_policies d) = (ps, None)"
    "each (edit_of ValidateMember ExcludedHost) (x_hosts (pd_exclusions d)) = (hs, None)"
    "each (edit_of NormalizeDomain ExcludedDomain) (x_domains (pd_exclusions d)) = (xs, None)"
    "o_dns_block_mode (pd_options d) \<in> {[], ''refused'', ''nxdomain'', ''null''}"
    "d' = d\<lparr>pd_version := 1, pd_groups := gs, pd_schedules := ss, pd_policies := ps,
       pd_exclusions := (pd_exclusions d)\<lparr>x_hosts := hs, x_domains := xs\<rparr>\<rparr>"
proof -
  have v: "pd_version (default_version d) = 1 \<Longrightarrow> default_version d = d\<lparr>pd_version := 1\<rparr>"
    by (auto simp: default_version_def)
  have "pd_version (default_version d) = 1"
    using assms unfolding Validate_def by (clarsimp simp: edit_ok)
  then have "pd_version d = 0 \<or> pd_version d = 1" and "default_version d = d\<lparr>pd_version := 1\<rparr>"
    using v by (auto simp: default_version_def split: if_splits)
  then show thesis
    using assms that unfolding Validate_def by (clarsimp simp: edit_ok)
qed

lemma Validate_good:
  assumes "Validate d = (d', None)"
  shows "wf_doc d'"
proof -
  from assms obtain gs ss ps hs xs where
    e: "pd_version d = 0 \<or> pd_version d = 1"
      "each check_group (pd_groups d) = (gs, None)"
      "each check_schedule (pd_schedules d) = (ss, None)"
      "check_policies (d\<lparr>pd_version := 1, pd_groups := gs, pd_schedules := ss\<rparr>) 0 [] (pd_policies d) = (ps, None)"
      "each (edit_of ValidateMember ExcludedHost) (x_hosts (pd_exclusions d)) = (hs, None)"
      "each (edit_of NormalizeDomain ExcludedDomain) (x_domains (pd_exclusions d)) = (xs, None)"
      "o_dns_block_mode (pd_options d) \<in> {[], ''refused'', ''nxdomain'', ''null''}"
    and d': "d' = d\<lparr>pd_version := 1, pd_groups := gs, pd_schedules := ss, pd_policies := ps,
       pd_exclusions := (pd_exclusions d)\<lparr>x_hosts := hs, x_domains := xs\<rparr>\<rparr>"
    by (rule validate_steps)
  have "\<forall>e \<in> set gs. wf_group e" by (rule each_all [OF e(2)]) (simp add: check_group_wf)
  moreover have "\<forall>e \<in> set ss. wf_schedule e" by (rule each_all [OF e(3)]) (simp add: check_schedule_wf)
  moreover have "\<forall>p \<in> set ps. wf_policy d' p"
    using check_policies_wf [OF e(4)] wf_policy_keys [of d' "d\<lparr>pd_version := 1, pd_groups := gs, pd_schedules := ss\<rparr>"]
    by (simp add: d')
  ultimately show ?thesis
    using check_policies_wf [OF e(4)] members.each_good(1) [OF e(5)] domains.each_good(1) [OF e(6)] e(7)
    by (simp add: wf_doc_def d')
qed

section \<open>What is well formed passes unchanged\<close>

lemma check_group_id: "wf_group e \<Longrightarrow> check_group e = (e, None)"
  unfolding check_group_def wf_group_def
  by (cases e, intro in_order_id) (auto simp: edit_id members.each_fixed)

lemma check_window_id: "wf_window w \<Longrightarrow> check_window n i w = (w, None)"
  unfolding check_window_def wf_window_def
  by (intro in_order_id)
    (auto simp: edit_id days.each_fixed MatchString_lang lang_time time_ok_def [symmetric])

lemma check_windows_id: "\<forall>w \<in> set ws. wf_window w \<Longrightarrow> check_windows n i ws = (ws, None)"
  by (induction ws arbitrary: i) (simp_all add: check_window_id)

lemma check_schedule_id: "wf_schedule e \<Longrightarrow> check_schedule e = (e, None)"
  unfolding check_schedule_def wf_schedule_def
  by (cases e, intro in_order_id) (auto simp: edit_id check_windows_id)

lemma check_match_id: "wf_match d m \<Longrightarrow> check_match d n m = (m, None)"
  unfolding check_match_def wf_match_def
  by (intro in_order_id) (auto simp: edit_id members.each_fixed)

lemma deny_lists_id: "wf_deny x \<Longrightarrow> deny_lists n x = (x, None)"
  unfolding deny_lists_def wf_deny_def
  by (intro in_order_id) (auto simp: edit_id tlds.each_fixed countries.each_fixed)

lemma check_policy_id:
  assumes "wf_policy d p" and "p_name p \<notin> set seen"
  shows "check_policy d i seen p = (p, None)"
proof -
  have "default_action p = p" using assms by (auto simp: default_action_def wf_policy_def)
  with assms show ?thesis
    unfolding check_policy_def Let_def wf_policy_def
    by (intro in_order_id)
      (auto simp: edit_id check_match_id deny_lists_id domains.each_fixed wf_deny_def)
qed

lemma check_policies_id:
  assumes "\<forall>p \<in> set ps. wf_policy d p" and "distinct (map p_name ps)" and "\<forall>p \<in> set ps. p_name p \<notin> set seen"
  shows "check_policies d i seen ps = (ps, None)"
  using assms
proof (induction ps arbitrary: i seen)
  case (Cons p ps)
  then have "check_policies d (Suc i) (p_name p # seen) ps = (ps, None)"
    by (intro Cons.IH) (auto simp: image_iff)
  with Cons.prems show ?case by (simp add: check_policy_id)
qed simp

lemma Validate_id:
  assumes "wf_doc d"
  shows "Validate d = (d, None)"
proof -
  have "default_version d = d" using assms by (simp add: default_version_def wf_doc_def)
  with assms show ?thesis
    unfolding Validate_def wf_doc_def
    by (intro in_order_id)
      (auto simp: edit_id each_id check_group_id check_schedule_id check_policies_id members.each_fixed domains.each_fixed)
qed

end
