(* ===== verification/PolicyApply.thy ===== *)
theory PolicyApply
  imports PolicyValid
begin

text \<open>
  What the compilers ask of a validated document: which schedules are in effect, which networks a
  policy applies to and which are excluded. \<^verbatim>\<open>Active\<close> compares clock texts; on validated
  windows it computes the minutes of the week the windows cover.
\<close>

section \<open>Schedules\<close>

text \<open>The local time as the code reads it: \<^verbatim>\<open>Weekday()\<close> (0 is Sunday), hour and minute.\<close>

record clock =
  ck_weekday :: nat
  ck_hour :: nat
  ck_minute :: nat

definition clock_ok :: "clock \<Rightarrow> bool" where
  "clock_ok c \<longleftrightarrow> ck_weekday c < 7 \<and> ck_hour c < 24 \<and> ck_minute c < 60"

definition weekday_name :: "nat \<Rightarrow> string" where
  "weekday_name n =
     [''Sunday'', ''Monday'', ''Tuesday'', ''Wednesday'', ''Thursday'', ''Friday'', ''Saturday''] ! (n mod 7)"

definition day_name :: "nat \<Rightarrow> string" where
  "day_name n = to_lower (take 3 (weekday_name n))"

definition dayIn :: "string list \<Rightarrow> string \<Rightarrow> bool" where
  "dayIn ds d \<longleftrightarrow> ds = [] \<or> list_ex (\<lambda>x. x = d) ds"

definition window_active :: "string \<Rightarrow> string \<Rightarrow> string \<Rightarrow> window \<Rightarrow> bool" where
  "window_active today yday hm w =
     (let spans = w_to w \<le> w_from w in
      if \<not> spans then dayIn (w_days w) today \<and> w_from w \<le> hm \<and> hm < w_to w
      else (dayIn (w_days w) today \<and> w_from w \<le> hm) \<or> (dayIn (w_days w) yday \<and> hm < w_to w))"

definition Active :: "policy_doc \<Rightarrow> string \<Rightarrow> clock \<Rightarrow> bool" where
  "Active d name t =
     (if name = [] then True
      else case mget (pd_schedules d) name of
        None \<Rightarrow> False
      | Some s \<Rightarrow>
          (let today = day_name (ck_weekday t); yday = day_name (ck_weekday t + 6);
               hm = hhmm (ck_hour t) (ck_minute t)
           in list_ex (window_active today yday hm) (s_windows s)))"

section \<open>The week a schedule describes\<close>

text \<open>
  A window begins on each of its days at a minute and lasts until its end, at most a day
  later; one that ends when it begins lasts a whole day. A schedule is in effect in the minutes of
  the week some window covers.
\<close>

definition window_length :: "nat \<Rightarrow> nat \<Rightarrow> nat" where
  "window_length f t = (if f < t then t - f else t + 1440 - f)"

definition week_minute :: "nat \<Rightarrow> nat \<Rightarrow> nat" where
  "week_minute wd m = wd * 1440 + m"

definition covered :: "nat \<Rightarrow> nat \<Rightarrow> string list \<Rightarrow> nat \<Rightarrow> bool" where
  "covered f t ds now \<longleftrightarrow>
     (\<exists>D < 7. dayIn ds (day_name D) \<and> (now + 10080 - week_minute D f) mod 10080 < window_length f t)"

lemma digit_char_mono: "a < 10 \<Longrightarrow> b < 10 \<Longrightarrow> digit_char a \<le> digit_char b \<longleftrightarrow> a \<le> b"
  "a < 10 \<Longrightarrow> b < 10 \<Longrightarrow> digit_char a < digit_char b \<longleftrightarrow> a < b"
  by (simp_all add: digit_char_def less_eq_char_def less_char_def)

lemma digit_char_inject: "a < 10 \<Longrightarrow> b < 10 \<Longrightarrow> digit_char a = digit_char b \<longleftrightarrow> a = b"
  by (metis digit_val_char)

lemma number_le:
  fixes a b c d :: nat
  assumes "b < 10" "c < 6" "d < 10" "b' < 10" "c' < 6" "d' < 10"
  shows "(a < a' \<or> (a = a' \<and> (b < b' \<or> (b = b' \<and> (c < c' \<or> (c = c' \<and> d \<le> d')))))) \<longleftrightarrow>
    (10 * a + b) * 60 + (10 * c + d) \<le> (10 * a' + b') * 60 + (10 * c' + d')"
proof (cases a a' rule: linorder_cases)
  case equal
  show ?thesis
  proof (cases b b' rule: linorder_cases)
    case eq: equal
    show ?thesis
      by (cases c c' rule: linorder_cases) (use equal eq assms in auto)
  qed (use equal assms in auto)
qed (use assms in auto)

lemma hhmm_le:
  assumes "h < 24" "m < 60" "h' < 24" "m' < 60"
  shows "hhmm h m \<le> hhmm h' m' \<longleftrightarrow> h * 60 + m \<le> h' * 60 + m'"
proof -
  have r: "h div 10 < 10" "h' div 10 < 10" "m div 10 < 6" "m' div 10 < 6" using assms by auto
  have "hhmm h m \<le> hhmm h' m' \<longleftrightarrow>
    h div 10 < h' div 10 \<or> (h div 10 = h' div 10 \<and> (h mod 10 < h' mod 10 \<or> (h mod 10 = h' mod 10 \<and>
    (m div 10 < m' div 10 \<or> (m div 10 = m' div 10 \<and> m mod 10 \<le> m' mod 10)))))"
    using r by (simp add: hhmm_def two_digits_def digit_char_mono digit_char_inject le_less [of "m mod 10"])
  also have "\<dots> \<longleftrightarrow> (10 * (h div 10) + h mod 10) * 60 + (10 * (m div 10) + m mod 10)
      \<le> (10 * (h' div 10) + h' mod 10) * 60 + (10 * (m' div 10) + m' mod 10)"
    using r by (intro number_le) auto
  finally show ?thesis by simp
qed

lemma hhmm_less:
  assumes "h < 24" "m < 60" "h' < 24" "m' < 60"
  shows "hhmm h m < hhmm h' m' \<longleftrightarrow> h * 60 + m < h' * 60 + m'"
  using hhmm_le [OF assms(3,4,1,2)] by (simp add: not_le [symmetric])

text \<open>How long ago the window of day D began, k days back.\<close>

lemma since_start:
  assumes "D < 7" "wd < 7" "f < 1440" "now < 1440" and k: "k = (wd + 7 - D) mod 7"
  shows "(week_minute wd now + 10080 - week_minute D f) mod 10080 =
    (if k = 0 \<and> now < f then 10080 - (f - now) else k * 1440 + now - f)"
proof (cases "D \<le> wd")
  case True
  then have k': "k = wd - D" using assms by (simp add: k mod_if)
  show ?thesis
  proof (cases "k = 0 \<and> now < f")
    case early: True
    then have "week_minute wd now + 10080 - week_minute D f = 10080 - (f - now)"
      using True k' assms by (simp add: week_minute_def)
    moreover have "10080 - (f - now) < 10080" using early assms by auto
    ultimately have "(week_minute wd now + 10080 - week_minute D f) mod 10080 = 10080 - (f - now)"
      by (simp only: mod_less)
    with early show ?thesis by simp
  next
    case False
    then have le: "f \<le> k * 1440 + now" using assms by (cases k) auto
    have "week_minute wd now + 10080 - week_minute D f = 10080 + (k * 1440 + now - f)"
      using True k' assms le by (simp add: week_minute_def algebra_simps)
    moreover have "k * 1440 + now - f < 10080" using k' assms by auto
    ultimately have "(week_minute wd now + 10080 - week_minute D f) mod 10080 = k * 1440 + now - f" by simp
    with False show ?thesis by (simp only: if_False)
  qed
next
  case False
  then have "wd + 7 - D < 7" "1 \<le> wd + 7 - D" using assms by linarith+
  then have k': "k = wd + 7 - D" "1 \<le> k" by (simp_all add: k)
  then have "week_minute wd now + 10080 - week_minute D f = k * 1440 + now - f"
    using assms by (simp add: week_minute_def algebra_simps diff_mult_distrib2)
  moreover have "k * 1440 + now - f < 10080" using k' assms False by auto
  ultimately have "(week_minute wd now + 10080 - week_minute D f) mod 10080 = k * 1440 + now - f" by simp
  with k' show ?thesis by auto
qed

lemma day_name_mod: "day_name (n mod 7) = day_name n"
  by (simp add: day_name_def weekday_name_def)

text \<open>Only today's and yesterday's windows can still run.\<close>

lemma covered_iff:
  assumes wd: "wd < 7" and f: "f < 1440" and t: "t < 1440" and now: "now < 1440"
  shows "covered f t ds (week_minute wd now) \<longleftrightarrow>
    (if f < t then dayIn ds (day_name wd) \<and> f \<le> now \<and> now < t
     else (dayIn ds (day_name wd) \<and> f \<le> now) \<or> (dayIn ds (day_name (wd + 6)) \<and> now < t))"
proof -
  have run: "(week_minute wd now + 10080 - week_minute D f) mod 10080 < window_length f t \<longleftrightarrow>
      (if f < t then D = wd \<and> f \<le> now \<and> now < t
       else (D = wd \<and> f \<le> now) \<or> (D = (wd + 6) mod 7 \<and> now < t))" if D: "D < 7" for D
  proof -
    define k where "k = (wd + 7 - D) mod 7"
    note s = since_start [OF D wd f now k_def]
    have kv: "k = (if D \<le> wd then wd - D else wd + 7 - D)" using D wd by (simp add: k_def mod_if)
    have yv: "(wd + 6) mod 7 = (if wd = 0 then 6 else wd - 1)" using wd by (simp add: mod_if)
    have k0: "k = 0 \<longleftrightarrow> D = wd" using D wd unfolding kv by auto
    have k1: "k = 1 \<longleftrightarrow> D = (wd + 6) mod 7" using D wd unfolding yv kv by auto
    have ne: "wd \<noteq> (wd + 6) mod 7" using wd unfolding yv by auto
    have "k = 0 \<or> k = 1 \<or> 2 \<le> k" by auto
    then show ?thesis
    proof (elim disjE)
      assume "k = 0"
      then show ?thesis
        unfolding s window_length_def using f t now k0 ne
        by (cases "now < f"; cases "f < t") (simp_all, linarith+)
    next
      assume "k = 1"
      then show ?thesis
        unfolding s window_length_def using f t now k1 ne
        by (cases "f < t") (simp_all, linarith+)
    next
      assume two: "2 \<le> k"
      then have "2880 \<le> k * 1440" by simp
      moreover have "D \<noteq> wd" "D \<noteq> (wd + 6) mod 7" using two k0 k1 by auto
      ultimately show ?thesis
        unfolding s window_length_def using two f t now by (cases "f < t") auto
    qed
  qed
  have day: "day_name ((wd + 6) mod 7) = day_name (wd + 6)" by (rule day_name_mod)
  have lt: "(wd + 6) mod 7 < 7" by simp
  show ?thesis
  proof
    assume "covered f t ds (week_minute wd now)"
    then obtain D where D: "D < 7" "dayIn ds (day_name D)"
      "(week_minute wd now + 10080 - week_minute D f) mod 10080 < window_length f t"
      unfolding covered_def by blast
    from D(3) D(2) day show "if f < t then dayIn ds (day_name wd) \<and> f \<le> now \<and> now < t
       else (dayIn ds (day_name wd) \<and> f \<le> now) \<or> (dayIn ds (day_name (wd + 6)) \<and> now < t)"
      unfolding run [OF D(1)] by (auto split: if_splits)
  next
    assume a: "if f < t then dayIn ds (day_name wd) \<and> f \<le> now \<and> now < t
       else (dayIn ds (day_name wd) \<and> f \<le> now) \<or> (dayIn ds (day_name (wd + 6)) \<and> now < t)"
    have "(dayIn ds (day_name wd) \<and> (week_minute wd now + 10080 - week_minute wd f) mod 10080 < window_length f t) \<or>
      (dayIn ds (day_name ((wd + 6) mod 7)) \<and>
        (week_minute wd now + 10080 - week_minute ((wd + 6) mod 7) f) mod 10080 < window_length f t)"
      using a unfolding run [OF wd] run [OF lt] day by (auto split: if_splits)
    then show "covered f t ds (week_minute wd now)" unfolding covered_def using wd lt by blast
  qed
qed

lemma window_active_covered:
  assumes c: "clock_ok t" and f: "hf < 24" "mf < 60" "w_from w = hhmm hf mf"
    and e: "ht < 24" "mt < 60" "w_to w = hhmm ht mt"
  shows "window_active (day_name (ck_weekday t)) (day_name (ck_weekday t + 6)) (hhmm (ck_hour t) (ck_minute t)) w
    \<longleftrightarrow> covered (hf * 60 + mf) (ht * 60 + mt) (w_days w)
          (week_minute (ck_weekday t) (ck_hour t * 60 + ck_minute t))"
proof -
  have t: "ck_weekday t < 7" "ck_hour t < 24" "ck_minute t < 60" using c by (simp_all add: clock_ok_def)
  have "covered (hf * 60 + mf) (ht * 60 + mt) (w_days w)
      (week_minute (ck_weekday t) (ck_hour t * 60 + ck_minute t)) \<longleftrightarrow>
    (if hf * 60 + mf < ht * 60 + mt
     then dayIn (w_days w) (day_name (ck_weekday t)) \<and> hf * 60 + mf \<le> ck_hour t * 60 + ck_minute t \<and>
       ck_hour t * 60 + ck_minute t < ht * 60 + mt
     else (dayIn (w_days w) (day_name (ck_weekday t)) \<and> hf * 60 + mf \<le> ck_hour t * 60 + ck_minute t) \<or>
       (dayIn (w_days w) (day_name (ck_weekday t + 6)) \<and> ck_hour t * 60 + ck_minute t < ht * 60 + mt))"
    by (rule covered_iff) (use t f e in linarith)+
  then show ?thesis
    unfolding window_active_def Let_def f(3) e(3) hhmm_le [OF e(1,2) f(1,2)] hhmm_le [OF f(1,2) t(2,3)]
      hhmm_less [OF t(2,3) e(1,2)]
    by (simp add: not_le)
qed

text \<open>
  The minutes of the week a validated window covers: its start and end read from their texts.
\<close>

definition minutes_of :: "string \<Rightarrow> nat" where
  "minutes_of s = undec (take 2 s) * 60 + undec (drop 3 s)"

lemma undec_two: "n < 100 \<Longrightarrow> undec (two_digits n) = n"
  by (simp add: undec_def two_digits_def)

lemma minutes_of_hhmm: "h < 24 \<Longrightarrow> m < 60 \<Longrightarrow> minutes_of (hhmm h m) = h * 60 + m"
proof -
  assume "h < 24" "m < 60"
  moreover have "take 2 (hhmm h m) = two_digits h" "drop 3 (hhmm h m) = two_digits m"
    by (simp_all add: hhmm_def two_digits_def)
  ultimately show ?thesis by (simp add: minutes_of_def undec_two)
qed

definition in_window :: "nat \<Rightarrow> window \<Rightarrow> bool" where
  "in_window now w \<longleftrightarrow> covered (minutes_of (w_from w)) (minutes_of (w_to w)) (w_days w) now"

lemma wf_window_active:
  assumes "clock_ok t" and "wf_window w"
  shows "window_active (day_name (ck_weekday t)) (day_name (ck_weekday t + 6)) (hhmm (ck_hour t) (ck_minute t)) w
    \<longleftrightarrow> in_window (week_minute (ck_weekday t) (ck_hour t * 60 + ck_minute t)) w"
proof -
  obtain hf mf where f: "hf < 24" "mf < 60" "w_from w = hhmm hf mf"
    using assms(2) by (auto simp: wf_window_def time_ok_def)
  obtain ht mt where e: "ht < 24" "mt < 60" "w_to w = hhmm ht mt"
    using assms(2) by (auto simp: wf_window_def time_ok_def)
  show ?thesis
    unfolding window_active_covered [OF assms(1) f e] in_window_def
    by (simp add: f e minutes_of_hhmm)
qed

lemma mget_set: "mget m k = Some v \<Longrightarrow> (k, v) \<in> set m"
  by (induction m) (auto simp: mget_Cons split: if_splits)

lemma Active_week:
  assumes "wf_doc d" and "clock_ok t" and "mget (pd_schedules d) name = Some s" and "name \<noteq> []"
  shows "Active d name t \<longleftrightarrow>
    (\<exists>w \<in> set (s_windows s). in_window (week_minute (ck_weekday t) (ck_hour t * 60 + ck_minute t)) w)"
proof -
  have "wf_schedule (name, s)" using assms(1) mget_set [OF assms(3)] by (auto simp: wf_doc_def)
  then have "\<forall>w \<in> set (s_windows s). wf_window w" by (simp add: wf_schedule_def)
  then show ?thesis
    using assms by (auto simp: Active_def Let_def list_ex_iff wf_window_active)
qed

section \<open>Members and exclusions\<close>

type_synonym resolver = "(string \<Rightarrow> string list) option"

definition resolve_with :: "resolver \<Rightarrow> string \<Rightarrow> string list" where
  "resolve_with res m = (case res of None \<Rightarrow> [] | Some f \<Rightarrow> f m)"

definition any_net :: "string list" where
  "any_net = [''0.0.0.0/0'', ''::/0'']"

definition member_nets :: "resolver \<Rightarrow> string \<Rightarrow> string list" where
  "member_nets res m =
     (if m = ''all'' then (let nets = resolve_with res ''all'' in if nets = [] then any_net else nets)
      else if contains m '':'' \<and> \<not> contains m ''/'' then resolve_with res m
      else [m])"

definition group_members :: "policy_doc \<Rightarrow> string \<Rightarrow> string list" where
  "group_members d g = (case mget (pd_groups d) g of None \<Rightarrow> [] | Some x \<Rightarrow> g_members x)"

definition Members :: "policy_doc \<Rightarrow> policy \<Rightarrow> resolver \<Rightarrow> string list" where
  "Members d p res =
     (let ms = (if m_all (p_match p) then [''all''] else [])
             @ concat (map (group_members d) (m_groups (p_match p))) @ m_members (p_match p)
      in sort (remdups (concat (map (member_nets res) ms))))"

definition ExcludedCIDRs :: "policy_doc \<Rightarrow> resolver \<Rightarrow> string list" where
  "ExcludedCIDRs d res =
     sort (remdups (concat (map (\<lambda>h. if contains h ''/'' then [h] else resolve_with res h)
       (x_hosts (pd_exclusions d)))))"

text \<open>With a resolver that answers with networks, a policy compiles to networks only.\<close>

definition nets_only :: "resolver \<Rightarrow> bool" where
  "nets_only res \<longleftrightarrow> (\<forall>m. \<forall>n \<in> set (resolve_with res m). is_net_text n)"

definition targets :: "policy_doc \<Rightarrow> policy \<Rightarrow> string list" where
  "targets d p = concat (map (group_members d) (m_groups (p_match p))) @ m_members (p_match p)"

lemma contains_iff: "contains s [c] \<longleftrightarrow> c \<in> set s"
  by (induction s) (auto simp: has_prefix_def)

lemma any_net_text:
  assumes "n \<in> set any_net"
  shows "is_net_text n"
proof -
  have a: "net_addr [0, 0, 0, 0] 0" "net_addr (replicate 16 0) 0" unfolding net_addr_def by code_simp+
  have t: "''0.0.0.0/0'' = net_text [0, 0, 0, 0] 0" "''::/0'' = net_text (replicate 16 0) 0" by code_simp+
  have "n = ''0.0.0.0/0'' \<or> n = ''::/0''" using assms by (simp add: any_net_def)
  then show ?thesis
  proof
    assume "n = ''0.0.0.0/0''"
    with a(1) show ?thesis unfolding is_net_text_def t(1) by blast
  next
    assume "n = ''::/0''"
    with a(2) show ?thesis unfolding is_net_text_def t(2) by blast
  qed
qed

lemma member_nets_text:
  assumes "member_ok m" and "nets_only res" and "\<not> (reference_ok m \<and> CHR ''/'' \<in> set m)"
    and "n \<in> set (member_nets res m)"
  shows "is_net_text n"
proof -
  have r: "n \<in> set (resolve_with res x) \<Longrightarrow> is_net_text n" for x
    using assms(2) by (simp add: nets_only_def)
  show ?thesis
  proof (cases "m = ''all'' \<or> (CHR '':'' \<in> set m \<and> CHR ''/'' \<notin> set m)")
    case True
    with assms(4) r any_net_text show ?thesis
      by (auto simp: member_nets_def contains_iff Let_def split: if_splits)
  next
    case False
    then have n: "n = m" using assms(4) by (auto simp: member_nets_def contains_iff split: if_splits)
    have "is_net_text m"
      using assms(1) unfolding member_ok_def
    proof (elim disjE exE conjE)
      fix h
      assume m: "m = ''mac:'' @ h" and h: "mac_ok h"
      then have "CHR ''/'' \<in> set h" using False by auto
      then have "is_hex (CHR ''/'') \<or> CHR ''/'' = CHR '':''" by (rule mac_chars(1) [OF h])
      then show ?thesis by simp
    next
      assume "reference_ok m"
      moreover from this have "CHR '':'' \<in> set m"
        using prefix_chars [of m] by (fastforce simp: reference_ok_def)
      ultimately show ?thesis using False assms(3) by blast
    qed (use False in auto)
    with n show ?thesis by simp
  qed
qed

lemma targets_ok:
  assumes "wf_doc d" and "p \<in> set (pd_policies d)" and "m \<in> set (targets d p)"
  shows "member_ok m"
proof -
  have "wf_match d (p_match p)" using assms(1,2) by (auto simp: wf_doc_def wf_policy_def)
  moreover have "member_ok x" if x: "x \<in> set (group_members d g)" for x g
  proof -
    obtain e where e: "mget (pd_groups d) g = Some e" "x \<in> set (g_members e)"
      using x by (cases "mget (pd_groups d) g") (auto simp: group_members_def)
    have "wf_group (g, e)" using assms(1) mget_set [OF e(1)] by (simp add: wf_doc_def)
    with e(2) show ?thesis by (simp add: wf_group_def)
  qed
  ultimately show ?thesis using assms(3) unfolding targets_def wf_match_def by auto
qed

lemma Members_set:
  "set (Members d p res) =
     (if m_all (p_match p) then set (member_nets res ''all'') else {}) \<union>
     (\<Union>m \<in> set (targets d p). set (member_nets res m))"
  by (cases "m_all (p_match p)") (simp_all add: Members_def targets_def Let_def)

section \<open>Results\<close>

definition sample_group :: group where
  "sample_group = \<lparr>g_description = [], g_members = ['' 10.0.0.9 '', ''mac:AA:bb:0c:1D:2e:3F'']\<rparr>"

definition night :: schedule where
  "night = \<lparr>s_description = [], s_windows = [\<lparr>w_days = [''Friday''], w_from = ''22:30'', w_to = ''06:15''\<rparr>]\<rparr>"

definition no_deny :: deny where
  "no_deny = \<lparr>d_apps = [], d_app_categories = [], d_categories = [], d_domains = [], d_tlds = [], d_countries = [],
     d_countries_except = [], d_ports = [], d_internet = False\<rparr>"

definition sample_policy :: policy where
  "sample_policy = \<lparr>p_name = ''kids'', p_description = [], p_enabled = True, p_action = [],
     p_match = \<lparr>m_all = False, m_groups = [''g''], m_members = [], m_even_excluded = False\<rparr>,
     p_schedule = ''night'', p_deny = no_deny\<lparr>d_domains := [''*.Example.com.''], d_countries := ['' us'']\<rparr>,
     p_allow = \<lparr>a_apps = [], a_domains = []\<rparr>, p_tls = \<lparr>t_inspect = False, t_bypass = []\<rparr>,
     p_safe_search = False, p_youtube = []\<rparr>"

definition sample_doc :: policy_doc where
  "sample_doc = \<lparr>pd_version = 0, pd_groups = [(''g'', sample_group)], pd_schedules = [(''night'', night)],
     pd_policies = [sample_policy], pd_exclusions = \<lparr>x_hosts = [], x_domains = []\<rparr>,
     pd_options = \<lparr>o_block_page = [], o_dns_block_mode = []\<rparr>\<rparr>"

lemma sample_valid: "snd (Validate sample_doc) = None"
  by code_simp

text \<open>
  C6: A document that passes validation is well formed, and passes again unchanged when it is read
  back: every member is a network text, a MAC, "all" or a reference to a zone, device, user or group;
  domains, top-level domains, countries, ports and clock times have the form of their pattern; names of
  policies are unique and groups and schedules exist. Of a reference only the prefix and a length of 6 to
  100 characters are checked, not what the compilers could take.
\<close>

theorem policy_Validate_wf:
  assumes "Validate d = (d', None)"
  shows "wf_doc d' \<and> Validate d' = (d', None)"
  using Validate_good [OF assms] Validate_id by blast

theorem policy_Validate_wf_witness: "wf_doc (fst (Validate sample_doc)) \<and> snd (Validate (fst (Validate sample_doc))) = None"
  using policy_Validate_wf [of sample_doc "fst (Validate sample_doc)"] sample_valid
  by (metis prod.collapse snd_conv)

text \<open>
  A document passes unchanged exactly when it is well formed; so one that passed passes again,
  unchanged, when it is read back.
\<close>

theorem policy_fixed_iff: "Validate d = (d, None) \<longleftrightarrow> wf_doc d"
  using Validate_id Validate_good by blast

text \<open>
  C17: on a validated document a schedule is in effect exactly in the minutes of the week its windows
  cover, though the code only compares clock texts and looks at two days.
\<close>

theorem Active_minutes:
  assumes "Validate d0 = (d, None)" and "clock_ok t" and "mget (pd_schedules d) name = Some s" and "name \<noteq> []"
  shows "Active d name t \<longleftrightarrow>
    (\<exists>w \<in> set (s_windows s). in_window (week_minute (ck_weekday t) (ck_hour t * 60 + ck_minute t)) w)"
  by (rule Active_week [OF Validate_good [OF assms(1)] assms(2-4)])

definition saturday_five :: clock where
  "saturday_five = \<lparr>ck_weekday = 6, ck_hour = 5, ck_minute = 0\<rparr>"

lemma sample_schedule:
  "mget (pd_schedules (fst (Validate sample_doc))) ''night'' =
     Some \<lparr>s_description = [], s_windows = [\<lparr>w_days = [''fri''], w_from = ''22:30'', w_to = ''06:15''\<rparr>]\<rparr>"
  by code_simp

lemma sample_window:
  "in_window (week_minute 6 (5 * 60 + 0)) \<lparr>w_days = [''fri''], w_from = ''22:30'', w_to = ''06:15''\<rparr>"
  by code_simp

theorem Active_minutes_witness: "Active (fst (Validate sample_doc)) ''night'' saturday_five"
proof -
  have v: "Validate sample_doc = (fst (Validate sample_doc), None)" using sample_valid by (metis prod.collapse)
  have "clock_ok saturday_five" by (simp add: clock_ok_def saturday_five_def)
  then show ?thesis
    using Active_minutes [OF v _ sample_schedule] sample_window by (simp add: saturday_five_def)
qed

text \<open>
  What a policy compiles to is a sorted list of networks without repetition, as long as the
  resolver answers with networks and no reference the document names contains a slash.
\<close>

theorem Members_networks:
  assumes "Validate d0 = (d, None)" and "p \<in> set (pd_policies d)" and "nets_only res"
    and "\<forall>m \<in> set (targets d p). reference_ok m \<longrightarrow> CHR ''/'' \<notin> set m"
  shows "(\<forall>n \<in> set (Members d p res). is_net_text n) \<and> sorted (Members d p res) \<and> distinct (Members d p res)"
proof -
  have all: "is_net_text n" if "n \<in> set (member_nets res ''all'')" for n
  proof (rule member_nets_text [OF _ assms(3) _ that])
    show "member_ok ''all''" by (simp add: member_ok_def)
    show "\<not> (reference_ok ''all'' \<and> CHR ''/'' \<in> set ''all'')" by simp
  qed
  have "is_net_text n" if "m \<in> set (targets d p)" "n \<in> set (member_nets res m)" for m n
    using member_nets_text [OF targets_ok [OF Validate_good [OF assms(1)] assms(2) that(1)] assms(3) _ that(2)]
      assms(4) that(1) by blast
  with all have "\<forall>n \<in> set (Members d p res). is_net_text n"
    unfolding Members_set by (auto split: if_splits)
  then show ?thesis by (simp add: Members_def Let_def)
qed

definition lan_resolver :: resolver where
  "lan_resolver = Some (\<lambda>m. [''10.1.0.0/16''])"

lemma lan_resolver_nets: "nets_only lan_resolver"
proof -
  have "net_addr [10, 1, 0, 0] 16" unfolding net_addr_def by code_simp
  moreover have "''10.1.0.0/16'' = net_text [10, 1, 0, 0] 16" by code_simp
  ultimately have "is_net_text ''10.1.0.0/16''" unfolding is_net_text_def by blast
  then show ?thesis by (simp add: nets_only_def lan_resolver_def resolve_with_def)
qed

lemma sample_targets:
  "targets (fst (Validate sample_doc)) (hd (pd_policies (fst (Validate sample_doc)))) =
     [''10.0.0.9/32'', ''mac:aa:bb:0c:1d:2e:3f'']"
  "pd_policies (fst (Validate sample_doc)) \<noteq> []"
  by code_simp+

lemma sample_members:
  "hd (Members (fst (Validate sample_doc)) (hd (pd_policies (fst (Validate sample_doc)))) lan_resolver) = ''10.0.0.9/32''"
  "Members (fst (Validate sample_doc)) (hd (pd_policies (fst (Validate sample_doc)))) lan_resolver \<noteq> []"
  by code_simp+

theorem Members_networks_witness: "is_net_text ''10.0.0.9/32''"
proof -
  have v: "Validate sample_doc = (fst (Validate sample_doc), None)" using sample_valid by (metis prod.collapse)
  have "\<forall>m \<in> set (targets (fst (Validate sample_doc)) (hd (pd_policies (fst (Validate sample_doc))))).
      reference_ok m \<longrightarrow> CHR ''/'' \<notin> set m"
    unfolding sample_targets by (simp add: reference_ok_def has_prefix_def)
  with Members_networks [OF v list.set_sel(1) [OF sample_targets(2)] lan_resolver_nets] show ?thesis
    using list.set_sel(1) [OF sample_members(2)] sample_members(1) by metis
qed

text \<open>
  A day is accepted when its first three letters occur anywhere in the list of days, spaces
  included: \<^verbatim>\<open>on call\<close> passes as the day "on ", which no weekday ever equals, so the window
  never opens.
\<close>

lemma day_fragment: "NormalizeDay ''on call'' = Inr ''on ''" "day_name n \<noteq> ''on ''"
proof -
  show "NormalizeDay ''on call'' = Inr ''on ''" by code_simp
  have "\<forall>k \<in> set [0..<7]. day_name k \<noteq> ''on ''" by code_simp
  then have "day_name (n mod 7) \<noteq> ''on ''" by simp
  then show "day_name n \<noteq> ''on ''" by (simp add: day_name_mod)
qed

text \<open>
  A reference whose name contains a slash passes validation and is then taken for a network, so
  its text goes into the compiled rules. A reference with no name passes too.
\<close>

lemma reference_as_network:
  "ValidateMember ''device:tv/2'' = Inr ''device:tv/2''" "member_nets res ''device:tv/2'' = [''device:tv/2'']"
  by (code_simp, simp add: member_nets_def contains_iff)

lemma empty_reference: "ValidateMember ''device:'' = Inr ''device:''"
  by code_simp

end
