(* ===== verification/PfPolicy.thy ===== *)
theory PfPolicy
  imports PolicyApply
begin

text \<open>
  \<^verbatim>\<open>internal/modules/firewall/provider.go\<close>: compiling the policy document into the rules of pf's
  policy anchor, the country tables written as comments and read back, and the label a rule carries,
  which \<^verbatim>\<open>pflog.go\<close> turns back into the policy's name.
\<close>

section \<open>Names\<close>

text \<open>\<^verbatim>\<open>slugRe.ReplaceAllString\<close>: every run of other characters becomes one underscore.\<close>

definition slug_char :: "char \<Rightarrow> bool" where
  "slug_char c \<longleftrightarrow> in_class [(CHR ''a'', CHR ''z''), (CHR ''0'', CHR ''9''), (CHR ''_'', CHR ''_'')] c"

fun replace_runs :: "bool \<Rightarrow> string \<Rightarrow> string" where
  "replace_runs inrun [] = []"
| "replace_runs inrun (c # s) =
     (if slug_char c then c # replace_runs False s
      else if inrun then replace_runs True s
      else CHR ''_'' # replace_runs True s)"

definition Slug :: "string \<Rightarrow> string" where
  "Slug name = replace_runs False (to_lower name)"

definition TableFor :: "string \<Rightarrow> string" where
  "TableFor policyName = ''fs_app_'' @ Slug policyName"

definition GeoTableFor :: "string \<Rightarrow> string" where
  "GeoTableFor cc = ''fs_geo_'' @ to_lower cc"

definition LocalTable :: string where
  "LocalTable = ''flowsight_local''"

section \<open>Country tables\<close>

record geo_spec =
  gs_table :: string
  gs_countries :: "string list"
  gs_invert :: bool

definition comment :: "geo_spec \<Rightarrow> string" where
  "comment g =
     ''# geo-table '' @ gs_table g @ '' '' @
       (if gs_invert g then CHR ''!'' # join_with '','' (gs_countries g) else join_with '','' (gs_countries g))"

text \<open>\<^verbatim>\<open>strings.Fields\<close>: the runs of characters that are not spaces.\<close>

fun fields_loop :: "string \<Rightarrow> string \<Rightarrow> string list" where
  "fields_loop cur [] = (if cur = [] then [] else [rev cur])"
| "fields_loop cur (c # s) =
     (if is_space c then (if cur = [] then fields_loop [] s else rev cur # fields_loop [] s)
      else fields_loop (c # cur) s)"

definition str_fields :: "string \<Rightarrow> string list" where
  "str_fields s = fields_loop [] s"

definition geo_spec_of :: "string \<Rightarrow> geo_spec option" where
  "geo_spec_of l =
     (case str_fields l of
        [a, b, t, list] \<Rightarrow>
          if a \<noteq> ''#'' \<or> b \<noteq> ''geo-table'' then None
          else if has_prefix list ''!'' then
            Some \<lparr>gs_table = t, gs_countries = split_on (CHR '','') (drop 1 list), gs_invert = True\<rparr>
          else Some \<lparr>gs_table = t, gs_countries = split_on (CHR '','') list, gs_invert = False\<rparr>
      | _ \<Rightarrow> None)"

definition geoSpecs :: "string \<Rightarrow> geo_spec list" where
  "geoSpecs rules = List.map_filter geo_spec_of (split_on (CHR ''\<newline>'') rules)"

definition upperAll :: "string list \<Rightarrow> string list" where
  "upperAll xs = map (\<lambda>s. to_upper (trim_space s)) xs"

section \<open>One policy\<close>

record pf_env =
  pe_resolver :: resolver
  pe_geo :: bool
  pe_log_blocks :: bool
  pe_now :: clock

record compiled =
  co_head :: "string list"
  co_rules :: "string list"
  co_tables :: nat
  co_geo :: "(string, geo_spec) gomap"

definition log_opt :: "pf_env \<Rightarrow> string" where
  "log_opt e = (if pe_log_blocks e then '' log'' else [])"

definition rule_action :: "pf_env \<Rightarrow> policy \<Rightarrow> string" where
  "rule_action e p =
     (if p_action p = ''monitor'' then ''match'' @ log_opt e
      else ''block return'' @ log_opt e @ '' quick'')"

definition source_clause :: "string list \<Rightarrow> string" where
  "source_clause ms =
     (case ms of [m] \<Rightarrow> m | _ \<Rightarrow> ''{ '' @ join_with '', '' ms @ '' }'')"

definition rule_label :: "policy \<Rightarrow> string \<Rightarrow> string" where
  "rule_label p kind = ''flowsight:'' @ p_name p @ '':'' @ kind"

definition with_label :: "policy \<Rightarrow> string \<Rightarrow> string \<Rightarrow> string" where
  "with_label p kind s = s @ '' label \"'' @ rule_label p kind @ ''\"''"

text \<open>\<^verbatim>\<open>strings.Cut\<close> at the first slash and \<^verbatim>\<open>strings.ReplaceAll\<close> of one character.\<close>

definition cut_at :: "char \<Rightarrow> string \<Rightarrow> string \<times> string" where
  "cut_at c s = (takeWhile (\<lambda>x. x \<noteq> c) s, drop 1 (dropWhile (\<lambda>x. x \<noteq> c) s))"

definition replace_char :: "char \<Rightarrow> char \<Rightarrow> string \<Rightarrow> string" where
  "replace_char a b s = map (\<lambda>c. if c = a then b else c) s"

definition port_rule :: "pf_env \<Rightarrow> policy \<Rightarrow> string \<Rightarrow> string \<Rightarrow> string" where
  "port_rule e p src port =
     (let (proto, rng) = cut_at (CHR ''/'') (to_lower port);
          rng = replace_char (CHR ''-'') (CHR '':'') rng;
          clause = (if proto = ''any'' then ''proto { tcp, udp }'' else ''proto '' @ proto)
      in with_label p ''port''
           (rule_action e p @ '' '' @ clause @ '' from '' @ src @ '' to any port '' @ rng))"

definition live_members :: "policy_doc \<Rightarrow> pf_env \<Rightarrow> policy \<Rightarrow> string list" where
  "live_members d e p =
     filter (\<lambda>m. m \<notin> set (ExcludedCIDRs d (pe_resolver e)) \<or> m_even_excluded (p_match p))
       (Members d p (pe_resolver e))"

definition skipped :: "policy_doc \<Rightarrow> pf_env \<Rightarrow> policy \<Rightarrow> bool" where
  "skipped d e p \<longleftrightarrow>
     \<not> p_enabled p \<or> \<not> Active d (p_schedule p) (pe_now e) \<or>
     (CapNetBlock \<notin> set (Requirements p) \<and> CapAppBlock \<notin> set (Requirements p)) \<or>
     live_members d e p = []"

definition except_table :: "policy \<Rightarrow> string" where
  "except_table p = ''fs_geox_'' @ Slug (p_name p)"

definition country_rule :: "pf_env \<Rightarrow> policy \<Rightarrow> string \<Rightarrow> string \<Rightarrow> string" where
  "country_rule e p src cc =
     with_label p (''country:'' @ to_upper cc)
       (rule_action e p @ '' from '' @ src @ '' to <'' @ GeoTableFor cc @ ''>'')"

definition policy_rules :: "pf_env \<Rightarrow> policy \<Rightarrow> string \<Rightarrow> string list" where
  "policy_rules e p src =
     (if CapAppBlock \<in> set (Requirements p)
      then [with_label p ''app'' (rule_action e p @ '' from '' @ src @ '' to <'' @ TableFor (p_name p) @ ''>'')] else [])
   @ (if d_internet (p_deny p)
      then [with_label p ''internet'' (rule_action e p @ '' from '' @ src @ '' to ! <'' @ LocalTable @ ''>'')] else [])
   @ map (port_rule e p src) (d_ports (p_deny p))
   @ map (country_rule e p src) (d_countries (p_deny p))
   @ (if d_countries_except (p_deny p) \<noteq> []
      then [with_label p ''country-except''
             (rule_action e p @ '' from '' @ src @ '' to <'' @ except_table p @ ''>'')] else [])"

definition policy_geo :: "policy \<Rightarrow> (string, geo_spec) gomap \<Rightarrow> (string, geo_spec) gomap" where
  "policy_geo p g =
     (let g1 = fold (\<lambda>cc g. mput (GeoTableFor cc)
            \<lparr>gs_table = GeoTableFor cc, gs_countries = [to_upper cc], gs_invert = False\<rparr> g)
          (d_countries (p_deny p)) g
      in if d_countries_except (p_deny p) = [] then g1
         else mput (except_table p)
            \<lparr>gs_table = except_table p, gs_countries = upperAll (d_countries_except (p_deny p)), gs_invert = True\<rparr> g1)"

text \<open>
  One turn of the loop, with the lines written so far, the rules and the country tables; the error is the name of the policy that needs the country database.\<close>

definition compile_policy :: "policy_doc \<Rightarrow> pf_env \<Rightarrow> policy \<Rightarrow> compiled \<Rightarrow> string + compiled" where
  "compile_policy d e p c =
     (if skipped d e p then Inr c
      else
        let src = source_clause (live_members d e p);
            app = CapAppBlock \<in> set (Requirements p);
            c1 = (if app then c\<lparr>co_head := co_head c @ [''table <'' @ TableFor (p_name p) @ ''> persist''],
                                co_tables := co_tables c + 1\<rparr> else c)
        in if (d_countries (p_deny p) \<noteq> [] \<or> d_countries_except (p_deny p) \<noteq> []) \<and> \<not> pe_geo e then Inl (p_name p)
           else Inr (c1\<lparr>co_rules := co_rules c1 @ policy_rules e p src, co_geo := policy_geo p (co_geo c1)\<rparr>))"

fun compile_loop :: "policy_doc \<Rightarrow> pf_env \<Rightarrow> policy list \<Rightarrow> compiled \<Rightarrow> string + compiled" where
  "compile_loop d e [] c = Inr c"
| "compile_loop d e (p # ps) c =
     (case compile_policy d e p c of Inl n \<Rightarrow> Inl n | Inr c' \<Rightarrow> compile_loop d e ps c')"

definition header_line :: string where
  "header_line = ''# Generated by flowsight-policy. Loaded into anchor flowsight/policy.''"

definition geo_lines :: "(string, geo_spec) gomap \<Rightarrow> string list" where
  "geo_lines g =
     concat (map (\<lambda>t. [''table <'' @ t @ ''> persist'', (case mget g t of Some s \<Rightarrow> comment s | None \<Rightarrow> [])])
       (sort (map fst g)))"

text \<open>Every write to the builder is a whole line.\<close>

definition render :: "compiled \<Rightarrow> string" where
  "render c = concat (map (\<lambda>l. l @ ''\<newline>'') (co_head c @ sort (co_rules c) @ geo_lines (co_geo c)))"

record artifact =
  art_text :: string
  art_rules :: nat
  art_tables :: nat

definition start :: compiled where
  "start = \<lparr>co_head = [header_line], co_rules = [], co_tables = 0, co_geo = []\<rparr>"

definition Compile :: "policy_doc \<Rightarrow> pf_env \<Rightarrow> string + artifact" where
  "Compile d e =
     (case compile_loop d e (pd_policies d) start of
        Inl n \<Rightarrow> Inl n
      | Inr c \<Rightarrow> Inr \<lparr>art_text = render c, art_rules = length (co_rules c),
                      art_tables = co_tables c + length (co_geo c)\<rparr>)"

text \<open>What \<^verbatim>\<open>Current\<close> and \<^verbatim>\<open>Apply\<close> read from the text.\<close>

definition hasRules :: "string \<Rightarrow> bool" where
  "hasRules rules \<longleftrightarrow> list_ex (\<lambda>l. let t = trim_space l in
     has_prefix t ''block'' \<or> has_prefix t ''match'' \<or> has_prefix t ''pass'' \<or> has_prefix t ''rdr'')
     (split_on (CHR ''\<newline>'') rules)"


section \<open>Labels\<close>

definition policyOfLabel :: "string \<Rightarrow> string" where
  "policyOfLabel label =
     (if \<not> has_prefix label ''flowsight:'' then []
      else let rest = trim_prefix label ''flowsight:'' in
           case last_index (CHR '':'') rest of
             Some i \<Rightarrow> if 0 < i then take i rest else rest
           | None \<Rightarrow> rest)"

text \<open>\<^verbatim>\<open>labelRe.FindStringSubmatch\<close>: the text between the quotes of the first label.\<close>

fun find_label :: "string \<Rightarrow> string option" where
  "find_label [] = None"
| "find_label (c # s) =
     (let r = drop 7 (c # s) in
      if has_prefix (c # s) ''label \"'' \<and> CHR ''\"'' \<in> set r then Some (takeWhile (\<lambda>x. x \<noteq> CHR ''\"'') r)
      else find_label s)"

section \<open>What the loop compiles\<close>

definition live_policies :: "policy_doc \<Rightarrow> pf_env \<Rightarrow> policy list" where
  "live_policies d e = filter (\<lambda>p. \<not> skipped d e p) (pd_policies d)"

definition rules_of :: "policy_doc \<Rightarrow> pf_env \<Rightarrow> policy \<Rightarrow> string list" where
  "rules_of d e p = policy_rules e p (source_clause (live_members d e p))"

definition app_table :: "policy \<Rightarrow> string list" where
  "app_table p =
     (if CapAppBlock \<in> set (Requirements p) then [''table <'' @ TableFor (p_name p) @ ''> persist''] else [])"

definition requested :: "policy_doc \<Rightarrow> pf_env \<Rightarrow> (string, geo_spec) gomap" where
  "requested d e = fold policy_geo (live_policies d e) []"

lemma compile_loop_spec:
  "compile_loop d e ps c = Inr c' \<Longrightarrow>
     co_rules c' = co_rules c @ concat (map (rules_of d e) (filter (\<lambda>p. \<not> skipped d e p) ps)) \<and>
     co_head c' = co_head c @ concat (map app_table (filter (\<lambda>p. \<not> skipped d e p) ps)) \<and>
     co_geo c' = fold policy_geo (filter (\<lambda>p. \<not> skipped d e p) ps) (co_geo c)"
proof (induction d e ps c rule: compile_loop.induct)
  case (2 d e p ps c)
  then show ?case
    by (auto simp: compile_policy_def Let_def rules_of_def app_table_def split: sum.splits if_splits)
qed simp

lemma Compile_text:
  assumes "Compile d e = Inr a"
  shows "art_text a = ended (CHR ''\<newline>'')
      ((header_line # concat (map app_table (live_policies d e))) @
       sort (concat (map (rules_of d e) (live_policies d e))) @ geo_lines (requested d e))"
    and "art_rules a = length (concat (map (rules_of d e) (live_policies d e)))"
proof -
  obtain c where c: "compile_loop d e (pd_policies d) start = Inr c"
    and a: "a = \<lparr>art_text = render c, art_rules = length (co_rules c), art_tables = co_tables c + length (co_geo c)\<rparr>"
    using assms by (auto simp: Compile_def split: sum.splits)
  note s = compile_loop_spec [OF c, folded live_policies_def]
  show "art_text a = ended (CHR ''\<newline>'')
      ((header_line # concat (map app_table (live_policies d e))) @
       sort (concat (map (rules_of d e) (live_policies d e))) @ geo_lines (requested d e))"
    using s by (simp add: a render_def start_def requested_def)
  show "art_rules a = length (concat (map (rules_of d e) (live_policies d e)))"
    using s by (simp add: a start_def)
qed

section \<open>Lines\<close>

abbreviation nl :: char where
  "nl \<equiv> CHR ''\<newline>''"

definition clean :: "string \<Rightarrow> bool" where
  "clean s \<longleftrightarrow> (\<forall>c \<in> set s. c \<noteq> nl \<and> c \<noteq> CHR ''\"'')"

lemma clean_append [simp]: "clean (s @ t) \<longleftrightarrow> clean s \<and> clean t"
  by (auto simp: clean_def)

lemma clean_Cons [simp]: "clean (c # s) \<longleftrightarrow> c \<noteq> nl \<and> c \<noteq> CHR ''\"'' \<and> clean s"
  by (auto simp: clean_def)

lemma clean_Nil [simp]: "clean []"
  by (simp add: clean_def)

lemma clean_join: "clean sep \<Longrightarrow> \<forall>x \<in> set xs. clean x \<Longrightarrow> clean (join_with sep xs)"
  by (induction sep xs rule: join_with.induct) auto

lemma clean_class: "(\<And>c. c \<in> set s \<Longrightarrow> in_class rs c) \<Longrightarrow> \<not> in_class rs nl \<Longrightarrow> \<not> in_class rs (CHR ''\"'') \<Longrightarrow> clean s"
  unfolding clean_def by metis

lemma slug_chars: "c \<in> set (replace_runs b s) \<Longrightarrow> slug_char c"
proof (induction b s rule: replace_runs.induct)
  case (2 b x s)
  then show ?case by (auto simp: slug_char_def split: if_splits)
qed simp

lemma slug_char_plain: "slug_char c \<Longrightarrow> \<not> is_space c \<and> c \<noteq> nl \<and> c \<noteq> CHR ''\"''"
  by (auto simp: slug_char_def is_space_def Let_def)

lemma clean_Slug [simp]: "clean (Slug n)"
  using slug_chars slug_char_plain unfolding clean_def Slug_def by blast

lemma country_chars: "country_ok c \<Longrightarrow> x \<in> set c \<Longrightarrow> (65 :: nat) \<le> of_char x \<and> (of_char x :: nat) \<le> 90"
  by (auto simp: country_ok_def)

lemma country_upper: "country_ok c \<Longrightarrow> to_upper c = c"
  unfolding to_upper_def by (rule map_idI) (auto simp: to_upper_char_def Let_def dest: country_chars)

lemma country_clean: "country_ok c \<Longrightarrow> clean c \<and> (\<forall>x \<in> set c. \<not> is_space x \<and> x \<noteq> CHR '','' \<and> x \<noteq> CHR ''!'') \<and> c \<noteq> []"
  by (auto simp: clean_def is_space_def Let_def country_ok_def)

lemma country_lower: "country_ok c \<Longrightarrow> x \<in> set (to_lower c) \<Longrightarrow> slug_char x"
  by (auto simp: to_lower_def slug_char_def to_lower_char_def Let_def dest!: country_chars)

lemma lang_no_char: "u \<in> lang r \<Longrightarrow> \<not> in_class (classes r) c \<Longrightarrow> c \<notin> set u"
  using lang_chars by blast

lemma name_plain: "MatchString nameRe n \<Longrightarrow> clean n \<and> CHR '':'' \<notin> set n"
  unfolding MatchString_lang
  using lang_no_char [of n nameRe nl] lang_no_char [of n nameRe "CHR ''\"''"] lang_no_char [of n nameRe "CHR '':''"]
  by (auto simp: clean_def nameRe_def alnum_def)

lemma port_clean: "MatchString portRe (to_lower pt) \<Longrightarrow> clean (to_lower pt)"
  unfolding MatchString_lang
  using lang_no_char [of "to_lower pt" portRe nl] lang_no_char [of "to_lower pt" portRe "CHR ''\"''"]
  by (auto simp: clean_def portRe_def digit_re_def)

lemma net_text_clean: "is_net_text m \<Longrightarrow> clean m"
  using net_text_chars unfolding clean_def by (fastforce simp: is_hex_def hex_val_def Let_def)

lemma source_clean: "\<forall>m \<in> set ms. clean m \<Longrightarrow> clean (source_clause ms)"
  by (auto simp: source_clause_def clean_join split: list.splits)

definition pf_ready :: "policy_doc \<Rightarrow> pf_env \<Rightarrow> bool" where
  "pf_ready d e \<longleftrightarrow> wf_doc d \<and> nets_only (pe_resolver e) \<and>
     (\<forall>p \<in> set (pd_policies d). \<forall>m \<in> set (targets d p). reference_ok m \<longrightarrow> CHR ''/'' \<notin> set m)"

lemma members_clean:
  assumes "pf_ready d e" and "p \<in> set (pd_policies d)"
  shows "clean (source_clause (live_members d e p))"
proof (intro source_clean ballI)
  fix m
  assume m: "m \<in> set (live_members d e p)"
  have all: "is_net_text n" if "n \<in> set (member_nets (pe_resolver e) ''all'')" for n
  proof (rule member_nets_text [OF _ _ _ that])
    show "member_ok ''all''" by (simp add: member_ok_def)
    show "nets_only (pe_resolver e)" using assms(1) by (simp add: pf_ready_def)
  qed simp
  have "is_net_text n" if "t \<in> set (targets d p)" "n \<in> set (member_nets (pe_resolver e) t)" for t n
  proof (rule member_nets_text [OF _ _ _ that(2)])
    show "member_ok t" using targets_ok assms that(1) by (auto simp: pf_ready_def)
    show "nets_only (pe_resolver e)" using assms(1) by (simp add: pf_ready_def)
    show "\<not> (reference_ok t \<and> CHR ''/'' \<in> set t)" using assms that(1) by (auto simp: pf_ready_def)
  qed
  with all m show "clean m"
    unfolding live_members_def set_filter Members_set by (auto split: if_splits intro: net_text_clean)
qed

text \<open>The kinds of label a rule can carry.\<close>

definition label_kinds :: "policy \<Rightarrow> string set" where
  "label_kinds p = {''app'', ''internet'', ''port'', ''country-except''} \<union>
     (\<lambda>cc. ''country:'' @ to_upper cc) ` set (d_countries (p_deny p))"

lemma clean_map_replace: "clean s \<Longrightarrow> clean (replace_char (CHR ''-'') (CHR '':'') s)"
  by (auto simp: clean_def replace_char_def)

lemma clean_cut: "clean s \<Longrightarrow> clean (fst (cut_at c s)) \<and> clean (snd (cut_at c s))"
  by (auto simp: clean_def cut_at_def dest: set_takeWhileD in_set_dropD set_dropWhileD)

lemma rule_action_clean: "clean (rule_action e p)"
  by (simp add: rule_action_def log_opt_def)

lemma rule_shape:
  assumes "wf_policy d p" and "clean src" and "r \<in> set (policy_rules e p src)"
  shows "\<exists>body kind. r = with_label p kind (rule_action e p @ CHR '' '' # body) \<and> clean body \<and> kind \<in> label_kinds p"
proof -
  have d: "wf_deny (p_deny p)" using assms(1) by (simp add: wf_policy_def)
  have t: "clean (TableFor n)" "clean (except_table q)" "clean LocalTable" for n q
    by (simp_all add: TableFor_def except_table_def LocalTable_def)
  from assms(3) consider
      "r = with_label p ''app'' (rule_action e p @ CHR '' '' # (''from '' @ src @ '' to <'' @ TableFor (p_name p) @ ''>''))"
    | "r = with_label p ''internet'' (rule_action e p @ CHR '' '' # (''from '' @ src @ '' to ! <'' @ LocalTable @ ''>''))"
    | pt where "pt \<in> set (d_ports (p_deny p))" "r = port_rule e p src pt"
    | cc where "cc \<in> set (d_countries (p_deny p))" "r = country_rule e p src cc"
    | "r = with_label p ''country-except'' (rule_action e p @ CHR '' '' # (''from '' @ src @ '' to <'' @ except_table p @ ''>''))"
    by (auto simp: policy_rules_def split: if_splits)
  then show ?thesis
  proof cases
    case 1
    then show ?thesis using assms(2) t by (intro exI conjI) (assumption, simp_all add: label_kinds_def)
  next
    case 2
    then show ?thesis using assms(2) t by (intro exI conjI) (assumption, simp_all add: label_kinds_def)
  next
    case (3 pt)
    obtain proto rng where c: "cut_at (CHR ''/'') (to_lower pt) = (proto, rng)" by fastforce
    have "clean (to_lower pt)" using d 3(1) port_clean by (auto simp: wf_deny_def)
    then have "clean proto" "clean rng" using clean_cut [of "to_lower pt" "CHR ''/''"] c by auto
    then have "clean ((if proto = ''any'' then ''proto { tcp, udp }'' else ''proto '' @ proto) @ '' from '' @ src @
        '' to any port '' @ replace_char (CHR ''-'') (CHR '':'') rng)"
      using assms(2) clean_map_replace by auto
    then show ?thesis
      using 3(2) c by (intro exI [of _ "(if proto = ''any'' then ''proto { tcp, udp }'' else ''proto '' @ proto) @
        '' from '' @ src @ '' to any port '' @ replace_char (CHR ''-'') (CHR '':'') rng"] exI [of _ "''port''"])
        (simp add: port_rule_def label_kinds_def)
  next
    case (4 cc)
    then have "country_ok cc" using d by (auto simp: wf_deny_def)
    then have "clean (to_lower cc)" using country_lower slug_char_plain unfolding clean_def by blast
    then show ?thesis
      using 4 assms(2) by (intro exI [of _ "''from '' @ src @ '' to <'' @ GeoTableFor cc @ ''>''"]
        exI [of _ "''country:'' @ to_upper cc"]) (simp add: country_rule_def label_kinds_def GeoTableFor_def)
  next
    case 5
    then show ?thesis using assms(2) t by (intro exI conjI) (assumption, simp_all add: label_kinds_def)
  qed
qed

lemma kind_plain:
  assumes "wf_policy d p" and "kind \<in> label_kinds p"
  shows "clean kind" and "CHR '':'' \<in> set kind \<Longrightarrow> \<exists>cc. kind = ''country:'' @ cc \<and> CHR '':'' \<notin> set cc"
proof -
  have cc: "clean (to_upper c) \<and> CHR '':'' \<notin> set (to_upper c)" if "c \<in> set (d_countries (p_deny p))" for c
  proof -
    have "country_ok c" using assms(1) that by (auto simp: wf_policy_def wf_deny_def)
    then show ?thesis using country_upper country_clean country_chars [of c "CHR '':''"]
      by (auto simp: country_ok_def)
  qed
  show "clean kind" using assms(2) cc by (auto simp: label_kinds_def)
  show "CHR '':'' \<in> set kind \<Longrightarrow> \<exists>cc. kind = ''country:'' @ cc \<and> CHR '':'' \<notin> set cc"
    using assms(2) cc by (auto simp: label_kinds_def)
qed

section \<open>Labels name their policy\<close>

lemma has_prefix_nth: "has_prefix s p \<Longrightarrow> i < length p \<Longrightarrow> s ! i = p ! i"
  unfolding has_prefix_def by (metis nth_take)

lemma label_text_nth: "k \<le> 5 \<Longrightarrow> ''label \"'' ! k \<noteq> CHR ''\"''"
proof -
  assume "k \<le> 5"
  then have "k \<in> set [0..<6]" by simp
  moreover have "\<forall>k \<in> set [0..<6]. ''label \"'' ! k \<noteq> CHR ''\"''" by code_simp
  ultimately show ?thesis by blast
qed

lemma no_early_prefix:
  assumes "CHR ''\"'' \<notin> set b" and "b \<noteq> []"
  shows "\<not> has_prefix (b @ ''label \"'' @ x) ''label \"''"
proof
  assume "has_prefix (b @ ''label \"'' @ x) ''label \"''"
  then have q: "(b @ ''label \"'' @ x) ! 6 = CHR ''\"''"
    using has_prefix_nth [of _ "''label \"''" 6] by simp
  show False
  proof (cases "6 < length b")
    case True
    then show False using q assms(1) nth_mem [of 6 b] by (simp add: nth_append)
  next
    case False
    then have k: "6 - length b \<le> 5" using assms(2) by (cases b) auto
    then have "(''label \"'' @ x) ! (6 - length b) = ''label \"'' ! (6 - length b)"
      by (subst nth_append) simp
    then have "(b @ ''label \"'' @ x) ! 6 = ''label \"'' ! (6 - length b)"
      using False by (simp only: nth_append [of b] if_False)
    with q label_text_nth [OF k] show False by simp
  qed
qed

lemma takeWhile_quote: "CHR ''\"'' \<notin> set x \<Longrightarrow> takeWhile (\<lambda>c. c \<noteq> CHR ''\"'') (x @ CHR ''\"'' # y) = x"
  by (rule takeWhile_before)

lemma find_label_text:
  "CHR ''\"'' \<notin> set b \<Longrightarrow> CHR ''\"'' \<notin> set x \<Longrightarrow> find_label (b @ ''label \"'' @ x @ ''\"'') = Some x"
proof (induction b)
  case Nil
  then show ?case by (simp add: has_prefix_def Let_def takeWhile_quote)
next
  case (Cons c b)
  have "\<not> has_prefix ((c # b) @ ''label \"'' @ x @ ''\"'') ''label \"''"
    by (rule no_early_prefix) (use Cons.prems in auto)
  then show ?case using Cons by (simp add: Let_def)
qed

lemma policyOfLabel_kind:
  assumes "CHR '':'' \<notin> set kind" and "p_name p \<noteq> []"
  shows "policyOfLabel (rule_label p kind) = p_name p"
  using assms last_index_append [of "CHR '':''" kind "p_name p"]
  by (simp add: policyOfLabel_def rule_label_def has_prefix_def trim_prefix_def Let_def)

lemma policyOfLabel_country:
  assumes "CHR '':'' \<notin> set cc"
  shows "policyOfLabel (rule_label p (''country:'' @ cc)) = p_name p @ '':country''"
  using assms last_index_append [of "CHR '':''" cc "p_name p @ '':country''"]
  by (simp add: policyOfLabel_def rule_label_def has_prefix_def trim_prefix_def Let_def)

lemma name_nonempty: "MatchString nameRe n \<Longrightarrow> n \<noteq> []"
  unfolding MatchString_lang nameRe_def lang_Cls_Cat by blast

lemma rule_of_live:
  assumes "pf_ready d e" and "p \<in> set (live_policies d e)" and "r \<in> set (rules_of d e p)"
  obtains body kind where "r = with_label p kind (rule_action e p @ CHR '' '' # body)" "clean body"
    "kind \<in> label_kinds p" "clean kind" "wf_policy d p"
proof -
  have p: "p \<in> set (pd_policies d)" using assms(2) by (simp add: live_policies_def)
  then have w: "wf_policy d p" using assms(1) by (simp add: pf_ready_def wf_doc_def)
  obtain body kind where "r = with_label p kind (rule_action e p @ CHR '' '' # body)" "clean body" "kind \<in> label_kinds p"
    using rule_shape [OF w members_clean [OF assms(1) p]] assms(3) unfolding rules_of_def by blast
  with that kind_plain(1) [OF w] w show thesis by blast
qed

lemma rule_label_found:
  assumes "pf_ready d e" and "p \<in> set (live_policies d e)" and "r \<in> set (rules_of d e p)"
  shows "\<exists>kind \<in> label_kinds p. find_label r = Some (rule_label p kind) \<and>
    policyOfLabel (rule_label p kind) = (if CHR '':'' \<in> set kind then p_name p @ '':country'' else p_name p)"
proof -
  obtain body kind where r: "r = with_label p kind (rule_action e p @ CHR '' '' # body)" and k: "clean body"
    "kind \<in> label_kinds p" "clean kind" and w: "wf_policy d p" by (rule rule_of_live [OF assms])
  have n: "clean (p_name p)" "p_name p \<noteq> []" using w name_plain name_nonempty by (auto simp: wf_policy_def)
  have "r = (rule_action e p @ CHR '' '' # body @ '' '') @ ''label \"'' @ rule_label p kind @ ''\"''"
    by (simp add: r with_label_def)
  moreover have "clean (rule_action e p @ CHR '' '' # body @ '' '')" "clean (rule_label p kind)"
    using k n by (simp_all add: rule_action_clean rule_label_def)
  ultimately have "find_label r = Some (rule_label p kind)"
    using find_label_text unfolding clean_def by metis
  moreover have "policyOfLabel (rule_label p kind) = (if CHR '':'' \<in> set kind then p_name p @ '':country'' else p_name p)"
    using policyOfLabel_kind [OF _ n(2)] kind_plain(2) [OF w k(2)] policyOfLabel_country by auto
  ultimately show ?thesis using k(2) by blast
qed

section \<open>The text is read back\<close>

lemma with_label_line: "clean (p_name p) \<Longrightarrow> clean kind \<Longrightarrow> clean s \<Longrightarrow> nl \<notin> set (with_label p kind s)"
  by (auto simp: with_label_def rule_label_def clean_def)

lemma action_prefix:
  "(p_action p = ''monitor'' \<longrightarrow> (\<exists>t. rule_action e p @ CHR '' '' # s = ''match'' @ CHR '' '' # t)) \<and>
   (p_action p \<noteq> ''monitor'' \<longrightarrow> (\<exists>t. rule_action e p @ CHR '' '' # s = ''block'' @ CHR '' '' # t))"
  by (simp add: rule_action_def log_opt_def)

lemma rule_line:
  assumes "pf_ready d e" and "p \<in> set (live_policies d e)" and "r \<in> set (rules_of d e p)"
  shows "nl \<notin> set r" and "\<exists>t. r = (if p_action p = ''monitor'' then ''match'' else ''block'') @ CHR '' '' # t"
proof -
  obtain body kind where r: "r = with_label p kind (rule_action e p @ CHR '' '' # body)" and k: "clean body"
    "clean kind" and w: "wf_policy d p" by (rule rule_of_live [OF assms])
  have n: "clean (p_name p)" using w name_plain by (auto simp: wf_policy_def)
  show "nl \<notin> set r" unfolding r by (rule with_label_line) (use n k rule_action_clean in auto)
  show "\<exists>t. r = (if p_action p = ''monitor'' then ''match'' else ''block'') @ CHR '' '' # t"
    using action_prefix [of p e "body @ '' label \"'' @ rule_label p kind @ ''\"''"]
    unfolding r with_label_def by (auto split: if_splits)
qed

lemma fields_loop_word:
  assumes "\<forall>c \<in> set w. \<not> is_space c"
  shows "is_space c \<Longrightarrow> rev cur @ w \<noteq> [] \<Longrightarrow> fields_loop cur (w @ c # r) = (rev cur @ w) # fields_loop [] r"
    and "rev cur @ w \<noteq> [] \<Longrightarrow> fields_loop cur w = [rev cur @ w]"
  using assms by (induction w arbitrary: cur) auto

lemma str_fields_word:
  assumes "\<forall>c \<in> set w. \<not> is_space c" and "w \<noteq> []"
  shows "str_fields (w @ CHR '' '' # r) = w # str_fields r" and "str_fields w = [w]"
  using fields_loop_word(1) [OF assms(1), of "CHR '' ''" "[]" r] fields_loop_word(2) [OF assms(1), of "[]"] assms(2)
  by (simp_all add: str_fields_def is_space_def)

lemma not_geo_line:
  assumes "\<forall>c \<in> set w. \<not> is_space c" and "w \<noteq> []" and "w \<noteq> ''#''"
  shows "geo_spec_of (w @ CHR '' '' # r) = None"
  using str_fields_word(1) [OF assms(1,2), of r] assms(3) by (simp add: geo_spec_of_def split: list.splits)

lemma split_join:
  assumes "\<forall>x \<in> set xs. c \<notin> set x" and "xs \<noteq> []"
  shows "split_on c (join_with [c] xs) = xs"
  using assms by (induction "[c]" xs rule: join_with.induct) (simp_all add: split_on_append split_on_no_sep)

definition geo_ok :: "geo_spec \<Rightarrow> bool" where
  "geo_ok s \<longleftrightarrow> gs_table s \<noteq> [] \<and> (\<forall>c \<in> set (gs_table s). slug_char c) \<and> gs_countries s \<noteq> [] \<and>
     (\<forall>c \<in> set (gs_countries s). country_ok c)"

definition country_list :: "geo_spec \<Rightarrow> string" where
  "country_list s = join_with '','' (gs_countries s)"

lemma country_list_chars:
  assumes "geo_ok s" and "x \<in> set (country_list s)"
  shows "\<not> is_space x" and "x \<noteq> CHR ''!''" and "x \<noteq> nl"
proof -
  have "x = CHR '','' \<or> (\<exists>y \<in> set (gs_countries s). x \<in> set y)"
    using join_with_chars [of x "'',''" "gs_countries s"] assms(2) by (auto simp: country_list_def)
  moreover have "country_ok y" if "y \<in> set (gs_countries s)" for y using assms(1) that by (simp add: geo_ok_def)
  ultimately have "x = CHR '','' \<or> ((65 :: nat) \<le> of_char x \<and> (of_char x :: nat) \<le> 90)"
    using country_chars by blast
  then show "\<not> is_space x" and "x \<noteq> CHR ''!''" and "x \<noteq> nl" by (auto simp: is_space_def)
qed

lemma country_list_split:
  assumes "geo_ok s"
  shows "split_on (CHR '','') (country_list s) = gs_countries s" and "country_list s \<noteq> []"
proof -
  have c: "\<forall>c \<in> set (gs_countries s). CHR '','' \<notin> set c \<and> c \<noteq> []"
    using assms country_clean by (auto simp: geo_ok_def)
  have n: "gs_countries s \<noteq> []" using assms by (simp add: geo_ok_def)
  show "split_on (CHR '','') (country_list s) = gs_countries s"
    unfolding country_list_def by (rule split_join) (use c n in auto)
  show "country_list s \<noteq> []"
  proof
    assume "country_list s = []"
    then have "\<forall>x \<in> set (gs_countries s). x = []" unfolding country_list_def by (rule join_with_eq_Nil)
    with c n show False by (metis list.set_sel(1))
  qed
qed

definition marked_list :: "geo_spec \<Rightarrow> string" where
  "marked_list s = (if gs_invert s then CHR ''!'' # country_list s else country_list s)"

lemma comment_words:
  "comment s = ''#'' @ CHR '' '' # ''geo-table'' @ CHR '' '' # gs_table s @ CHR '' '' # marked_list s"
  by (simp add: comment_def marked_list_def country_list_def)

lemma marked_list_chars:
  assumes "geo_ok s"
  shows "\<forall>x \<in> set (marked_list s). \<not> is_space x" and "nl \<notin> set (marked_list s)" and "marked_list s \<noteq> []"
    and "has_prefix (marked_list s) ''!'' \<longleftrightarrow> gs_invert s"
proof -
  show "\<forall>x \<in> set (marked_list s). \<not> is_space x"
    using country_list_chars(1) [OF assms] by (auto simp: marked_list_def is_space_def)
  show "nl \<notin> set (marked_list s)"
    using country_list_chars(3) [OF assms] by (auto simp: marked_list_def)
  show "marked_list s \<noteq> []" using country_list_split(2) [OF assms] by (simp add: marked_list_def)
  show "has_prefix (marked_list s) ''!'' \<longleftrightarrow> gs_invert s"
    using country_list_split(2) [OF assms] country_list_chars(2) [OF assms]
    by (cases "country_list s") (auto simp: marked_list_def has_prefix_def)
qed

lemma comment_fields:
  assumes "geo_ok s"
  shows "str_fields (comment s) = [''#'', ''geo-table'', gs_table s, marked_list s]"
proof -
  have hash: "\<forall>c \<in> set ''#''. \<not> is_space c" "\<forall>c \<in> set ''geo-table''. \<not> is_space c"
    by (simp_all add: is_space_def)
  have n: "''#'' \<noteq> []" "''geo-table'' \<noteq> []" by simp_all
  have t: "\<forall>x \<in> set (gs_table s). \<not> is_space x" "gs_table s \<noteq> []"
    using assms slug_char_plain by (auto simp: geo_ok_def)
  show ?thesis
    unfolding comment_words str_fields_word(1) [OF hash(1) n(1)] str_fields_word(1) [OF hash(2) n(2)]
      str_fields_word(1) [OF t] str_fields_word(2) [OF marked_list_chars(1,3) [OF assms]] ..
qed

lemma geo_comment:
  assumes "geo_ok s"
  shows "geo_spec_of (comment s) = Some s"
proof (cases "gs_invert s")
  case True
  then show ?thesis
    using marked_list_chars(4) [OF assms] country_list_split(1) [OF assms]
    by (simp add: geo_spec_of_def comment_fields [OF assms]) (simp add: marked_list_def)
next
  case False
  then show ?thesis
    using marked_list_chars(4) [OF assms] country_list_split(1) [OF assms]
    by (simp add: geo_spec_of_def comment_fields [OF assms]) (simp add: marked_list_def)
qed

lemma comment_line:
  assumes "geo_ok s"
  shows "nl \<notin> set (comment s)" and "\<exists>t. comment s = ''#'' @ CHR '' '' # t"
proof -
  have "nl \<notin> set (gs_table s)" using assms slug_char_plain by (auto simp: geo_ok_def)
  then show "nl \<notin> set (comment s)" using marked_list_chars(2) [OF assms] unfolding comment_words by simp
  show "\<exists>t. comment s = ''#'' @ CHR '' '' # t" unfolding comment_words by blast
qed

section \<open>The country tables asked for\<close>

definition geo_map_ok :: "(string, geo_spec) gomap \<Rightarrow> bool" where
  "geo_map_ok g \<longleftrightarrow> mkeys_ok g \<and> (\<forall>t s. mget g t = Some s \<longrightarrow> gs_table s = t \<and> geo_ok s)"

lemma geo_map_put: "geo_map_ok g \<Longrightarrow> geo_ok s \<Longrightarrow> gs_table s = t \<Longrightarrow> geo_map_ok (mput t s g)"
  by (auto simp: geo_map_ok_def split: if_splits)

lemma geo_table_ok: "country_ok cc \<Longrightarrow>
    geo_ok \<lparr>gs_table = GeoTableFor cc, gs_countries = [to_upper cc], gs_invert = False\<rparr>"
  using country_lower by (auto simp: geo_ok_def GeoTableFor_def country_upper slug_char_def)

lemma except_table_ok:
  assumes "\<forall>c \<in> set cs. country_ok c" and "cs \<noteq> []"
  shows "geo_ok \<lparr>gs_table = except_table p, gs_countries = upperAll cs, gs_invert = True\<rparr>"
proof -
  have "upperAll cs = cs"
    unfolding upperAll_def using assms(1) country_upper country_clean no_space_trim
    by (intro map_idI) (metis)
  moreover have "\<forall>c \<in> set (except_table p). slug_char c"
    using slug_chars by (auto simp: except_table_def Slug_def slug_char_def)
  ultimately show ?thesis using assms by (simp add: geo_ok_def except_table_def)
qed

lemma policy_geo_ok:
  assumes "wf_policy d p" and "geo_map_ok g"
  shows "geo_map_ok (policy_geo p g)"
proof -
  have w: "\<forall>c \<in> set (d_countries (p_deny p)). country_ok c" "\<forall>c \<in> set (d_countries_except (p_deny p)). country_ok c"
    using assms(1) by (auto simp: wf_policy_def wf_deny_def)
  have "geo_map_ok (fold (\<lambda>cc g. mput (GeoTableFor cc)
      \<lparr>gs_table = GeoTableFor cc, gs_countries = [to_upper cc], gs_invert = False\<rparr> g) cs g)"
    if "\<forall>c \<in> set cs. country_ok c" for cs
    using that assms(2)
  proof (induction cs arbitrary: g)
    case (Cons a cs)
    then have "geo_map_ok (mput (GeoTableFor a)
        \<lparr>gs_table = GeoTableFor a, gs_countries = [to_upper a], gs_invert = False\<rparr> g)"
      by (intro geo_map_put geo_table_ok) simp_all
    with Cons show ?case by simp
  qed simp
  with w show ?thesis
    by (auto simp: policy_geo_def Let_def intro!: geo_map_put except_table_ok)
qed

lemma requested_ok:
  assumes "wf_doc d"
  shows "geo_map_ok (requested d e)"
proof -
  have "geo_map_ok (fold policy_geo ps g)" if "\<forall>p \<in> set ps. wf_policy d p" "geo_map_ok g" for ps g
    using that by (induction ps arbitrary: g) (auto intro: policy_geo_ok)
  moreover have "\<forall>p \<in> set (live_policies d e). wf_policy d p"
    using assms by (auto simp: live_policies_def wf_doc_def)
  moreover have "geo_map_ok []" by (simp add: geo_map_ok_def)
  ultimately show ?thesis unfolding requested_def by blast
qed

section \<open>Every line of the text\<close>

definition text_lines :: "policy_doc \<Rightarrow> pf_env \<Rightarrow> string list" where
  "text_lines d e = (header_line # concat (map app_table (live_policies d e))) @
     sort (concat (map (rules_of d e) (live_policies d e))) @ geo_lines (requested d e)"

text \<open>A line that is no rule: a comment or the declaration of a table.\<close>

definition decl_line :: "string \<Rightarrow> bool" where
  "decl_line l \<longleftrightarrow> nl \<notin> set l \<and> (\<exists>t. l = ''#'' @ CHR '' '' # t \<or> l = ''table'' @ CHR '' '' # t)"

lemma decl_not_rule: "decl_line l \<Longrightarrow> \<not> has_prefix l ''block'' \<and> \<not> has_prefix l ''match''"
  by (auto simp: decl_line_def has_prefix_def)

lemma table_not_geo: "geo_spec_of (''table'' @ CHR '' '' # t) = None"
  by (rule not_geo_line) (simp_all add: is_space_def)

lemma clean_no_nl: "clean s \<Longrightarrow> nl \<notin> set s"
  by (auto simp: clean_def)

lemma app_table_lines:
  "l \<in> set (app_table p) \<Longrightarrow> decl_line l \<and> geo_spec_of l = None"
  using table_not_geo [of "''<'' @ TableFor (p_name p) @ ''> persist''"] clean_no_nl [OF clean_Slug [of "p_name p"]]
  by (auto simp: app_table_def decl_line_def TableFor_def split: if_splits)

lemma header_line_decl: "decl_line header_line" "geo_spec_of header_line = None"
proof -
  show "decl_line header_line" unfolding decl_line_def header_line_def by simp
  show "geo_spec_of header_line = None" by code_simp
qed

lemma geo_lines_decl:
  assumes "geo_map_ok g" and "l \<in> set (geo_lines g)"
  shows "decl_line l"
proof -
  obtain t where t: "t \<in> mkeys g" and l: "l = ''table <'' @ t @ ''> persist'' \<or> l = (case mget g t of Some s \<Rightarrow> comment s | None \<Rightarrow> [])"
    using assms(2) by (auto simp: geo_lines_def mkeys_def)
  obtain s where s: "mget g t = Some s" using t mkeys_iff by metis
  then have k: "geo_ok s" "gs_table s = t" using assms(1) by (auto simp: geo_map_ok_def)
  then have "nl \<notin> set t" using slug_char_plain by (auto simp: geo_ok_def)
  with l s comment_line [OF k(1)] show ?thesis by (auto simp: decl_line_def)
qed

lemma rule_lines:
  assumes "pf_ready d e" and "l \<in> set (concat (map (rules_of d e) (live_policies d e)))"
  shows "nl \<notin> set l" and "has_prefix l ''block'' \<or> has_prefix l ''match''" and "geo_spec_of l = None"
proof -
  obtain p where p: "p \<in> set (live_policies d e)" "l \<in> set (rules_of d e p)" using assms(2) by auto
  show "nl \<notin> set l" by (rule rule_line(1) [OF assms(1) p])
  obtain t where t: "l = (if p_action p = ''monitor'' then ''match'' else ''block'') @ CHR '' '' # t"
    using rule_line(2) [OF assms(1) p] by blast
  show "has_prefix l ''block'' \<or> has_prefix l ''match''" using t by (auto simp: has_prefix_def)
  show "geo_spec_of l = None" unfolding t by (rule not_geo_line) (simp_all add: is_space_def)
qed

lemma text_split:
  assumes "pf_ready d e"
  shows "split_on nl (ended nl (text_lines d e)) = text_lines d e @ [[]]"
proof -
  have g: "geo_map_ok (requested d e)" using requested_ok assms by (simp add: pf_ready_def)
  have "nl \<notin> set l" if "l \<in> set (text_lines d e)" for l
    using that rule_lines(1) [OF assms] geo_lines_decl [OF g] header_line_decl app_table_lines
    by (auto simp: text_lines_def decl_line_def)
  then have "\<forall>l \<in> set (text_lines d e). nl \<notin> set l" by blast
  from split_ended [OF this, of "[]"] show ?thesis by simp
qed



lemma map_filter_append: "List.map_filter f (xs @ ys) = List.map_filter f xs @ List.map_filter f ys"
  by (induction xs) (simp_all add: List.map_filter_simps split: option.splits)

lemma map_filter_none: "\<forall>x \<in> set xs. f x = None \<Longrightarrow> List.map_filter f xs = []"
  by (induction xs) (simp_all add: List.map_filter_simps)

lemma geo_lines_read:
  assumes "geo_map_ok g" and "set ts \<subseteq> mkeys g"
  shows "List.map_filter geo_spec_of (concat (map (\<lambda>t. [''table <'' @ t @ ''> persist'',
      (case mget g t of Some s \<Rightarrow> comment s | None \<Rightarrow> [])]) ts)) = map (\<lambda>t. the (mget g t)) ts"
  using assms(2)
proof (induction ts)
  case (Cons t ts)
  then obtain s where s: "mget g t = Some s" using mkeys_iff by (metis list.set_intros(1) subsetD)
  then have "geo_ok s" using assms(1) by (auto simp: geo_map_ok_def)
  then have "geo_spec_of (comment s) = Some s" by (rule geo_comment)
  moreover have "geo_spec_of (''table <'' @ t @ ''> persist'') = None"
    using table_not_geo [of "''<'' @ t @ ''> persist''"] by simp
  ultimately show ?case using Cons s by (simp add: List.map_filter_simps)
qed (simp add: List.map_filter_simps)

lemma geo_specs_read:
  assumes "pf_ready d e" and "Compile d e = Inr a"
  shows "geoSpecs (art_text a) = map (\<lambda>t. the (mget (requested d e) t)) (sort (map fst (requested d e)))"
proof -
  have g: "geo_map_ok (requested d e)" using requested_ok assms(1) by (simp add: pf_ready_def)
  have t: "art_text a = ended nl (text_lines d e)"
    using Compile_text [OF assms(2)] by (simp add: text_lines_def)
  have "List.map_filter geo_spec_of (header_line # concat (map app_table (live_policies d e))) = []"
    by (rule map_filter_none) (use header_line_decl app_table_lines in auto)
  moreover have "List.map_filter geo_spec_of (sort (concat (map (rules_of d e) (live_policies d e)))) = []"
    by (rule map_filter_none) (use rule_lines(3) [OF assms(1)] in auto)
  moreover have "List.map_filter geo_spec_of (geo_lines (requested d e)) =
      map (\<lambda>t. the (mget (requested d e) t)) (sort (map fst (requested d e)))"
    unfolding geo_lines_def by (rule geo_lines_read [OF g]) (auto simp: mkeys_def)
  moreover have "List.map_filter geo_spec_of [[]] = []" by code_simp
  ultimately show ?thesis
    unfolding geoSpecs_def t text_split [OF assms(1)] unfolding text_lines_def map_filter_append by simp
qed

lemma block_line_origin:
  assumes "pf_ready d e" and "Compile d e = Inr a" and "l \<in> set (split_on nl (art_text a))" and "has_prefix l ''block''"
  shows "\<exists>p \<in> set (pd_policies d). p_enabled p \<and> p_action p = ''block'' \<and> Active d (p_schedule p) (pe_now e) \<and>
    l \<in> set (rules_of d e p)"
proof -
  have g: "geo_map_ok (requested d e)" using requested_ok assms(1) by (simp add: pf_ready_def)
  have "art_text a = ended nl (text_lines d e)" using Compile_text [OF assms(2)] by (simp add: text_lines_def)
  with assms(3) have "l \<in> set (text_lines d e @ [[]])" using text_split [OF assms(1)] by simp
  moreover have "l \<noteq> []" using assms(4) by (auto simp: has_prefix_def)
  ultimately have "l \<in> set (concat (map (rules_of d e) (live_policies d e)))"
    using assms(4) decl_not_rule [of l] geo_lines_decl [OF g, of l] header_line_decl app_table_lines
    by (auto simp: text_lines_def)
  then obtain p where p: "p \<in> set (live_policies d e)" "l \<in> set (rules_of d e p)" by auto
  obtain t where "l = (if p_action p = ''monitor'' then ''match'' else ''block'') @ CHR '' '' # t"
    using rule_line(2) [OF assms(1) p] by blast
  then have "p_action p \<noteq> ''monitor''" using assms(4) by (auto simp: has_prefix_def)
  moreover have "wf_policy d p" using assms(1) p(1) by (auto simp: pf_ready_def wf_doc_def live_policies_def)
  ultimately show ?thesis using p by (auto simp: live_policies_def skipped_def wf_policy_def)
qed

section \<open>Results\<close>

definition pf_sample :: pf_env where
  "pf_sample = \<lparr>pe_resolver = lan_resolver, pe_geo = True, pe_log_blocks = True, pe_now = saturday_five\<rparr>"

definition pf_sample_doc :: policy_doc where
  "pf_sample_doc = fst (Validate sample_doc)"

lemma pf_sample_ready: "pf_ready pf_sample_doc pf_sample"
proof -
  have "Validate sample_doc = (pf_sample_doc, None)"
    using sample_valid unfolding pf_sample_doc_def by (metis prod.collapse)
  then have "wf_doc pf_sample_doc" by (rule Validate_good)
  moreover have "list_all (\<lambda>p. list_all (\<lambda>m. CHR ''/'' \<notin> set m \<or> \<not> contains m '':'' \<and> m \<noteq> []) (targets pf_sample_doc p))
      (pd_policies pf_sample_doc)"
    unfolding pf_sample_doc_def by code_simp
  moreover have "contains m '':''" if "reference_ok m" for m
    using that prefix_chars [of m] unfolding contains_iff by (fastforce simp: reference_ok_def)
  ultimately show ?thesis
    using lan_resolver_nets unfolding pf_ready_def pf_sample_def list_all_iff by auto
qed

definition pf_sample_art :: artifact where
  "pf_sample_art = (case Compile pf_sample_doc pf_sample of Inr a \<Rightarrow> a)"

lemma pf_sample_compiles: "Compile pf_sample_doc pf_sample = Inr pf_sample_art"
  unfolding pf_sample_art_def by code_simp



definition pf_sample_rule :: string where
  "pf_sample_rule = ''block return log quick from { 10.0.0.9/32, 10.1.0.0/16 } to <fs_geo_us> label \"flowsight:kids:country:US\"''"


text \<open>
  The country tables the policies asked for are what reading the rules text back gives, in the
  order of their names: the comments are a faithful record of the tables to fill.
\<close>

theorem geo_tables_roundtrip:
  assumes "pf_ready d e" and "Compile d e = Inr a"
  shows "geoSpecs (art_text a) = map (\<lambda>t. the (mget (requested d e) t)) (sort (map fst (requested d e)))"
  by (rule geo_specs_read [OF assms])

theorem geo_tables_roundtrip_witness:
  "geoSpecs (art_text pf_sample_art) = [\<lparr>gs_table = ''fs_geo_us'', gs_countries = [''US''], gs_invert = False\<rparr>]"
proof -
  have "map (\<lambda>t. the (mget (requested pf_sample_doc pf_sample) t)) (sort (map fst (requested pf_sample_doc pf_sample))) =
      [\<lparr>gs_table = ''fs_geo_us'', gs_countries = [''US''], gs_invert = False\<rparr>]"
    by code_simp
  with geo_tables_roundtrip [OF pf_sample_ready pf_sample_compiles] show ?thesis by simp
qed

text \<open>
  C19: In that text, for such a document, a line that blocks comes from a policy of the document that is
  enabled, in effect now and set to block: a policy set to monitor never compiles into one.
\<close>

theorem blocks_only_blocking:
  assumes "pf_ready d e" and "Compile d e = Inr a" and "l \<in> set (split_on nl (art_text a))" and "has_prefix l ''block''"
  shows "\<exists>p \<in> set (pd_policies d). p_enabled p \<and> p_action p = ''block'' \<and> Active d (p_schedule p) (pe_now e) \<and>
    l \<in> set (rules_of d e p)"
  by (rule block_line_origin [OF assms])

theorem blocks_only_blocking_witness:
  "\<exists>p \<in> set (pd_policies pf_sample_doc). p_action p = ''block'' \<and> pf_sample_rule \<in> set (rules_of pf_sample_doc pf_sample p)"
proof -
  have "pf_sample_rule \<in> set (split_on nl (art_text pf_sample_art))" "has_prefix pf_sample_rule ''block''"
    by code_simp+
  from blocks_only_blocking [OF pf_sample_ready pf_sample_compiles this] show ?thesis by blast
qed

text \<open>
  The label of a compiled rule names its policy, except that the rules of denied countries give the
  name with ":country" appended: the label has one more part than the reader expects.
\<close>

theorem label_names_policy:
  assumes "pf_ready d e" and "p \<in> set (live_policies d e)" and "r \<in> set (rules_of d e p)"
  shows "\<exists>kind \<in> label_kinds p. find_label r = Some (rule_label p kind) \<and>
    policyOfLabel (rule_label p kind) = (if CHR '':'' \<in> set kind then p_name p @ '':country'' else p_name p)"
  by (rule rule_label_found [OF assms])

theorem label_names_policy_witness:
  "\<exists>l. find_label pf_sample_rule = Some l \<and> policyOfLabel l \<in> {''kids'', ''kids:country''}"
proof -
  define p where "p = hd (pd_policies pf_sample_doc)"
  have "p \<in> set (live_policies pf_sample_doc pf_sample)" "pf_sample_rule \<in> set (rules_of pf_sample_doc pf_sample p)"
    "p_name p = ''kids''"
    unfolding p_def by code_simp+
  from label_names_policy [OF pf_sample_ready this(1,2)] this(3) show ?thesis by (auto split: if_splits)
qed

text \<open>
  Table names come from slugs, and different policies can have the same one: the later of two such
  policies replaces the countries the earlier one allows.
\<close>

lemma slug_collision: "Slug ''kids tv'' = Slug ''kids.tv''" "TableFor ''kids tv'' = TableFor ''kids.tv''"
  by code_simp+

text \<open>A slash reference can carry a rule of its own into the compiled text.\<close>

lemma reference_injects:
  "reference_ok ''device:a/ to any\<newline>pass quick all'' \<and>
   nl \<in> set (source_clause (member_nets None ''device:a/ to any\<newline>pass quick all''))"
  by code_simp

end
