(* ===== verification/PolicyDiff.thy ===== *)
theory PolicyDiff
  imports GoText
begin

text \<open>
  \<^verbatim>\<open>internal/modules/policy/diff.go\<close>: the line diff shown with a plan. The table of longest
  common subsequences is filled from the last row and column; the walk through it emits kept, added
  and removed lines and hides all but the first two of each run of kept ones. The table's values
  stay below the number of lines, far inside 32 bits.
\<close>

section \<open>The table\<close>

text \<open>
  One row from right to left: the line x of the old file, what is left of the new one, and the row
  below from the same column on.
\<close>

fun lcs_row :: "'a \<Rightarrow> 'a list \<Rightarrow> nat list \<Rightarrow> nat list" where
  "lcs_row x (y # ys) (p # q # r) =
     (let rest = lcs_row x ys (q # r) in
      (if x = y then q + 1 else if p \<ge> hd rest then p else hd rest) # rest)"
| "lcs_row x _ _ = [0]"

fun lcs_table :: "'a list \<Rightarrow> 'a list \<Rightarrow> nat list list" where
  "lcs_table [] bl = [replicate (length bl + 1) 0]"
| "lcs_table (x # xs) bl = (let t = lcs_table xs bl in lcs_row x bl (hd t) # t)"

section \<open>The walk\<close>

datatype diff_line = Same string | Plus_line string | Minus_line string

function walk :: "string list \<Rightarrow> string list \<Rightarrow> nat list list \<Rightarrow> nat \<Rightarrow> nat \<Rightarrow> nat \<Rightarrow> diff_line list" where
  "walk al bl t i j ctx =
     (if \<not> (i < length al \<or> j < length bl) then []
      else if i < length al \<and> j < length bl \<and> al ! i = bl ! j then
        (if ctx < 2 then [Same (al ! i)] else []) @ walk al bl t (Suc i) (Suc j) (Suc ctx)
      else if j < length bl \<and> (length al \<le> i \<or> t ! i ! Suc j \<ge> t ! Suc i ! j) then
        Plus_line (bl ! j) # walk al bl t i (Suc j) 0
      else Minus_line (al ! i) # walk al bl t (Suc i) j 0)"
  by pat_completeness auto
termination
  by (relation "measure (\<lambda>(al, bl, t, i, j, ctx). (length al - i) + (length bl - j))") auto

declare walk.simps [simp del]

fun line_text :: "diff_line \<Rightarrow> string" where
  "line_text (Same l) = CHR '' '' # l"
| "line_text (Plus_line l) = CHR ''+'' # l"
| "line_text (Minus_line l) = CHR ''-'' # l"

definition diff_lines :: "string \<Rightarrow> string list" where
  "diff_lines a = (if a = [] then [] else split_on (CHR ''\<newline>'') (trim_right (CHR ''\<newline>'') a))"

definition unifiedDiff :: "string \<Rightarrow> string \<Rightarrow> string \<Rightarrow> string" where
  "unifiedDiff a b name =
     (let al = diff_lines a; bl = diff_lines b in
      if length al * length bl > 4000000 then
        ''--- '' @ name @ '' (current, '' @ dec (length al) @ '' lines)\<newline>+++ '' @ name @
        '' (desired, '' @ dec (length bl) @ '' lines)\<newline>(diff too large to render)\<newline>''
      else
        ''--- '' @ name @ '' (current)\<newline>+++ '' @ name @ '' (desired)\<newline>'' @
        concat (map (\<lambda>l. line_text l @ ''\<newline>'') (walk al bl (lcs_table al bl) 0 0 0)))"

section \<open>The table holds the longest common subsequences\<close>

fun lcs :: "'a list \<Rightarrow> 'a list \<Rightarrow> nat" where
  "lcs (x # xs) (y # ys) = (if x = y then lcs xs ys + 1 else max (lcs xs (y # ys)) (lcs (x # xs) ys))"
| "lcs _ _ = 0"

lemma lcs_Nil [simp]: "lcs [] ys = 0" "lcs xs [] = 0"
  by (cases xs; simp)+

text \<open>A common subsequence is never longer.\<close>

lemma lcs_upper: "subseq zs xs \<Longrightarrow> subseq zs ys \<Longrightarrow> length zs \<le> lcs xs ys"
proof (induction xs ys arbitrary: zs rule: lcs.induct)
  case (1 x xs y ys)
  show ?case
  proof (cases zs)
    case (Cons z zt)
    show ?thesis
    proof (cases "x = y")
      case eq: True
      show ?thesis
      proof (cases "z = x")
        case True
        with 1 Cons eq have "length zt \<le> lcs xs ys" by simp
        with Cons eq show ?thesis by simp
      next
        case False
        with 1(1) [OF eq, of zs] 1(4,5) Cons eq have "length zs \<le> lcs xs ys" by (simp add: subseq_Cons2_iff)
        with eq show ?thesis by simp
      qed
    next
      case ne: False
      show ?thesis
      proof (cases "z = x")
        case False
        with 1(4) Cons have "subseq zs xs" by simp
        with 1(2) [OF ne, of zs] 1(5) have "length zs \<le> lcs xs (y # ys)" by blast
        with ne show ?thesis by simp
      next
        case True
        with 1(5) Cons ne have "subseq zs ys" by (simp split: if_splits)
        with 1(3) [OF ne, of zs] 1(4) have "length zs \<le> lcs (x # xs) ys" by blast
        with ne show ?thesis by simp
      qed
    qed
  qed simp
qed simp_all

fun tails :: "'a list \<Rightarrow> 'a list list" where
  "tails [] = [[]]"
| "tails (y # ys) = (y # ys) # tails ys"

lemma length_tails [simp]: "length (tails ys) = Suc (length ys)"
  by (induction ys) simp_all

lemma tails_nth: "j \<le> length ys \<Longrightarrow> tails ys ! j = drop j ys"
proof (induction ys arbitrary: j)
  case (Cons y ys)
  then show ?case by (cases j) simp_all
qed simp

lemma tails_hd: "tails ys = ys # tl (tails ys)"
  by (cases ys) simp_all

lemma lcs_row_correct:
  "lcs_row x ys (map (lcs xs) (tails ys)) = map (lcs (x # xs)) (tails ys)"
proof (induction ys)
  case (Cons y ys)
  have n: "map (lcs xs) (tails (y # ys)) = lcs xs (y # ys) # lcs xs ys # map (lcs xs) (tl (tails ys))"
    by (simp, subst tails_hd) simp
  have "map (lcs xs) (tails ys) = lcs xs ys # map (lcs xs) (tl (tails ys))"
    by (subst tails_hd) simp
  with Cons have r: "lcs_row x ys (lcs xs ys # map (lcs xs) (tl (tails ys))) = map (lcs (x # xs)) (tails ys)"
    by simp
  have "hd (map (lcs (x # xs)) (tails ys)) = lcs (x # xs) ys"
    by (subst tails_hd) simp
  then show ?case unfolding n by (simp add: Let_def r max_def)
qed simp

lemma lcs_table_correct: "lcs_table al bl = map (\<lambda>xs. map (lcs xs) (tails bl)) (tails al)"
proof (induction al)
  case Nil
  have "map (lcs []) (tails bl) = replicate (length bl + 1) 0" by (induction bl) simp_all
  then show ?case by simp
next
  case (Cons x xs)
  have "hd (lcs_table xs bl) = map (lcs xs) (tails bl)"
    unfolding Cons by (subst (2) tails_hd) simp
  with Cons show ?case by (simp add: Let_def lcs_row_correct)
qed

lemma lcs_table_nth:
  assumes "i \<le> length al" and "j \<le> length bl"
  shows "lcs_table al bl ! i ! j = lcs (drop i al) (drop j bl)"
  using assms by (simp add: lcs_table_correct tails_nth)

section \<open>The edit script\<close>

fun edits :: "string list \<Rightarrow> string list \<Rightarrow> diff_line list" where
  "edits (x # xs) (y # ys) =
     (if x = y then Same x # edits xs ys
      else if lcs (x # xs) ys \<ge> lcs xs (y # ys) then Plus_line y # edits (x # xs) ys
      else Minus_line x # edits xs (y # ys))"
| "edits [] (y # ys) = Plus_line y # edits [] ys"
| "edits (x # xs) [] = Minus_line x # edits xs []"
| "edits [] [] = []"

text \<open>What is shown: the first two lines of each run of kept ones, and every change.\<close>

fun hide :: "nat \<Rightarrow> diff_line list \<Rightarrow> diff_line list" where
  "hide ctx [] = []"
| "hide ctx (Same l # s) = (if ctx < 2 then [Same l] else []) @ hide (Suc ctx) s"
| "hide ctx (Plus_line l # s) = Plus_line l # hide 0 s"
| "hide ctx (Minus_line l # s) = Minus_line l # hide 0 s"

fun old_side :: "diff_line list \<Rightarrow> string list" where
  "old_side [] = []"
| "old_side (Same l # s) = l # old_side s"
| "old_side (Plus_line l # s) = old_side s"
| "old_side (Minus_line l # s) = l # old_side s"

fun new_side :: "diff_line list \<Rightarrow> string list" where
  "new_side [] = []"
| "new_side (Same l # s) = l # new_side s"
| "new_side (Plus_line l # s) = l # new_side s"
| "new_side (Minus_line l # s) = new_side s"

fun kept :: "diff_line list \<Rightarrow> string list" where
  "kept [] = []"
| "kept (Same l # s) = l # kept s"
| "kept (Plus_line l # s) = kept s"
| "kept (Minus_line l # s) = kept s"

definition changes :: "diff_line list \<Rightarrow> diff_line list" where
  "changes s = filter (\<lambda>d. case d of Same _ \<Rightarrow> False | _ \<Rightarrow> True) s"

lemma walk_edits:
  assumes "i \<le> length al" and "j \<le> length bl"
  shows "walk al bl (lcs_table al bl) i j ctx = hide ctx (edits (drop i al) (drop j bl))"
  using assms
proof (induction "(length al - i) + (length bl - j)" arbitrary: i j ctx rule: less_induct)
  case less
  show ?case
  proof (cases "i < length al"; cases "j < length bl")
    assume i: "i < length al" and j: "j < length bl"
    then have d: "drop i al = al ! i # drop (Suc i) al" "drop j bl = bl ! j # drop (Suc j) bl"
      by (simp_all add: Cons_nth_drop_Suc)
    have t: "lcs_table al bl ! i ! Suc j = lcs (drop i al) (drop (Suc j) bl)"
      "lcs_table al bl ! Suc i ! j = lcs (drop (Suc i) al) (drop j bl)"
      using i j by (simp_all add: lcs_table_nth)
    have r: "walk al bl (lcs_table al bl) (Suc i) (Suc j) (Suc ctx) = hide (Suc ctx) (edits (drop (Suc i) al) (drop (Suc j) bl))"
      "walk al bl (lcs_table al bl) i (Suc j) 0 = hide 0 (edits (drop i al) (drop (Suc j) bl))"
      "walk al bl (lcs_table al bl) (Suc i) j 0 = hide 0 (edits (drop (Suc i) al) (drop j bl))"
      using i j by (intro less.hyps; simp)+
    show ?thesis
      using i j d t r by (subst walk.simps) simp
  next
    assume i: "i < length al" and j: "\<not> j < length bl"
    then have d: "drop i al = al ! i # drop (Suc i) al" "drop j bl = []"
      by (simp_all add: Cons_nth_drop_Suc)
    have r: "walk al bl (lcs_table al bl) (Suc i) j 0 = hide 0 (edits (drop (Suc i) al) (drop j bl))"
      using i less.prems by (intro less.hyps) simp_all
    show ?thesis using i j d r by (subst walk.simps) simp
  next
    assume i: "\<not> i < length al" and j: "j < length bl"
    then have d: "drop i al = []" "drop j bl = bl ! j # drop (Suc j) bl"
      by (simp_all add: Cons_nth_drop_Suc)
    have r: "walk al bl (lcs_table al bl) i (Suc j) 0 = hide 0 (edits (drop i al) (drop (Suc j) bl))"
      using j less.prems by (intro less.hyps) simp_all
    show ?thesis using i j d r by (subst walk.simps) simp
  next
    assume "\<not> i < length al" "\<not> j < length bl"
    then show ?thesis by (subst walk.simps) simp
  qed
qed

lemma edits_sides: "old_side (edits xs ys) = xs" "new_side (edits xs ys) = ys"
  by (induction xs ys rule: edits.induct) simp_all

lemma edits_kept: "length (kept (edits xs ys)) = lcs xs ys"
  by (induction xs ys rule: edits.induct) (auto simp: max_def)

lemma kept_subseq: "subseq (kept s) (old_side s)" "subseq (kept s) (new_side s)"
  by (induction s rule: kept.induct) auto

lemma changes_count: "length (changes s) + 2 * length (kept s) = length (old_side s) + length (new_side s)"
  by (induction s rule: kept.induct) (simp_all add: changes_def)

lemma edits_minimal:
  assumes "old_side s = xs" and "new_side s = ys"
  shows "length (changes (edits xs ys)) \<le> length (changes s)"
proof -
  have "length (kept s) \<le> lcs xs ys"
    using lcs_upper [of "kept s" xs ys] kept_subseq [of s] assms by simp
  then show ?thesis
    using changes_count [of s] changes_count [of "edits xs ys"] assms edits_sides [of xs ys] edits_kept [of xs ys] by simp
qed

lemma hide_changes: "changes (hide ctx s) = changes s"
  by (induction ctx s rule: hide.induct) (simp_all add: changes_def)

lemma edits_same: "edits xs xs = map Same xs"
  by (induction xs) simp_all

section \<open>Results\<close>

text \<open>
  C23: below the size limit the text is the two headings and a shortest edit script: one that turns the
  old lines into the new ones with as few added and removed lines as any script needs, and whose
  added and removed lines are all shown.
\<close>

theorem diff_shortest:
  assumes "length (diff_lines a) * length (diff_lines b) \<le> 4000000"
  shows "\<exists>s. unifiedDiff a b name =
        ''--- '' @ name @ '' (current)\<newline>+++ '' @ name @ '' (desired)\<newline>'' @
        concat (map (\<lambda>l. line_text l @ ''\<newline>'') (hide 0 s)) \<and>
      old_side s = diff_lines a \<and> new_side s = diff_lines b \<and> changes (hide 0 s) = changes s \<and>
      (\<forall>s'. old_side s' = diff_lines a \<and> new_side s' = diff_lines b \<longrightarrow>
         length (changes s) \<le> length (changes s'))"
proof (intro exI conjI)
  let ?s = "edits (diff_lines a) (diff_lines b)"
  show "unifiedDiff a b name =
        ''--- '' @ name @ '' (current)\<newline>+++ '' @ name @ '' (desired)\<newline>'' @
        concat (map (\<lambda>l. line_text l @ ''\<newline>'') (hide 0 ?s))"
    using assms walk_edits [of 0 "diff_lines a" 0 "diff_lines b" 0] by (simp add: unifiedDiff_def Let_def)
qed (use edits_minimal in \<open>auto simp: edits_sides hide_changes\<close>)

theorem diff_shortest_witness:
  "\<exists>s. old_side s = [''a'', ''b''] \<and> new_side s = [''b'', ''c''] \<and> length (changes s) \<le> 2"
proof -
  let ?a = "''a\<newline>b\<newline>''" and ?b = "''b\<newline>c\<newline>''"
  have e: "old_side [Minus_line ''a'', Same ''b'', Plus_line ''c''] = [''a'', ''b'']"
    "new_side [Minus_line ''a'', Same ''b'', Plus_line ''c''] = [''b'', ''c'']"
    "length (changes [Minus_line ''a'', Same ''b'', Plus_line ''c'']) = 2"
    by (simp_all add: changes_def)
  have d: "diff_lines ?a = [''a'', ''b'']" "diff_lines ?b = [''b'', ''c'']" by code_simp+
  have "length (diff_lines ?a) * length (diff_lines ?b) \<le> 4000000" unfolding d by simp
  from diff_shortest [OF this, of "''f''"] e show ?thesis unfolding d by metis
qed

text \<open>The entry of the table for two positions is the length of the longest common subsequence of the rests.\<close>

theorem diff_table_entry:
  fixes al bl :: "string list"
  assumes "i \<le> length al" and "j \<le> length bl"
  shows "lcs_table al bl ! i ! j = Max {length zs | zs. subseq zs (drop i al) \<and> subseq zs (drop j bl)}"
  unfolding lcs_table_nth [OF assms]
proof (rule Max_eqI [symmetric])
  let ?x = "drop i al" and ?y = "drop j bl"
  show "finite {length zs | zs. subseq zs ?x \<and> subseq zs ?y}"
    by (rule finite_subset [of _ "{..length ?x}"]) (auto dest: list_emb_length)
  show "n \<le> lcs ?x ?y" if "n \<in> {length zs | zs. subseq zs ?x \<and> subseq zs ?y}" for n
    using that lcs_upper by blast
  have "subseq (kept (edits ?x ?y)) ?x" "subseq (kept (edits ?x ?y)) ?y"
    using kept_subseq [of "edits ?x ?y"] edits_sides [of ?x ?y] by simp_all
  then show "lcs ?x ?y \<in> {length zs | zs. subseq zs ?x \<and> subseq zs ?y}"
    using edits_kept [of ?x ?y] by (metis (mono_tags, lifting) mem_Collect_eq)
qed

theorem diff_table_entry_witness:
  "lcs_table [''a'', ''b''] [''b'', ''c''] ! 0 ! 0 = Max {length zs | zs. subseq zs [''a'', ''b''] \<and> subseq zs [''b'', ''c'']}"
  using diff_table_entry [of 0 "[''a'', ''b'']" 0 "[''b'', ''c'']"] by (simp only: drop_0 zero_le)

text \<open>A file compared with itself shows no change, whatever its size.\<close>

lemma diff_same: "changes (walk al al (lcs_table al al) 0 0 ctx) = []"
proof -
  have "changes (map Same al) = []" by (simp add: changes_def filter_empty_conv)
  then show ?thesis using walk_edits [of 0 al 0 al ctx] by (simp add: hide_changes edits_same)
qed

end
