(* ===== verification/EnrollRules.thy ===== *)
theory EnrollRules
  imports Settings
begin

text \<open>
  \<^verbatim>\<open>internal/modules/enroll/enroll.go\<close>, the classification rules: how the rules document is
  read, when a rule matches a device, and which rule a device gets. A device is a row of the
  registry; the fields only the API fills on the way out are left out. A pattern of the operator is
  compiled by Go's \<^verbatim>\<open>regexp\<close>, here a parameter: what a pattern accepts, or that it does not compile.
\<close>

section \<open>Devices and rules\<close>

record device =
  d_MAC :: string
  d_IP :: string
  d_IP6 :: string
  d_Hostname :: string
  d_Vendor :: string
  d_VendorClass :: string
  d_Fingerprint :: string
  d_Zone :: string
  d_Class :: string
  d_Confidence :: string
  d_Rule :: string
  d_Why :: string
  d_Pinned :: int
  d_Randomized :: int
  d_GuestName :: string
  d_GuestKind :: string
  d_User :: string
  d_Iface :: string
  d_FirstSeen :: int
  d_LastSeen :: int

definition blank_device :: device where
  "blank_device = \<lparr>d_MAC = [], d_IP = [], d_IP6 = [], d_Hostname = [], d_Vendor = [], d_VendorClass = [],
     d_Fingerprint = [], d_Zone = [], d_Class = [], d_Confidence = [], d_Rule = [], d_Why = [], d_Pinned = 0,
     d_Randomized = 0, d_GuestName = [], d_GuestKind = [], d_User = [], d_Iface = [], d_FirstSeen = 0, d_LastSeen = 0\<rparr>"

text \<open>The conditions are \<^const>\<open>None\<close> where the document has no object for them, a nil map.\<close>

record rule =
  r_ID :: string
  r_Zone :: string
  r_Confidence :: string
  r_Why :: string
  r_When :: "obj option"

type_synonym regexps = "string \<Rightarrow> (string \<Rightarrow> bool) option"

section \<open>Reading the document\<close>

definition text_of :: "obj \<Rightarrow> string \<Rightarrow> string" where
  "text_of m key = (case mget m key of Some (JStr v) \<Rightarrow> v | _ \<Rightarrow> [])"

definition object_of :: "obj \<Rightarrow> string \<Rightarrow> obj option" where
  "object_of m key = (case mget m key of Some (JObj v) \<Rightarrow> Some v | _ \<Rightarrow> None)"

definition array_of :: "obj \<Rightarrow> string \<Rightarrow> json list option" where
  "array_of m key = (case mget m key of Some (JArr v) \<Rightarrow> Some v | _ \<Rightarrow> None)"

text \<open>
  The first field, in the order of the map, whose pattern does not compile. The messages stop before
  the compiler's own text.
\<close>

definition bad_pattern :: "regexps \<Rightarrow> string \<times> json \<Rightarrow> bool" where
  "bad_pattern rx c \<longleftrightarrow>
     (case c of (field, JStr val) \<Rightarrow> has_suffix field ''_re'' \<and> rx val = None | _ \<Rightarrow> False)"

definition validateRuleRegexes :: "regexps \<Rightarrow> rule \<Rightarrow> string option" where
  "validateRuleRegexes rx r =
     (case r_When r of
        None \<Rightarrow> None
      | Some when \<Rightarrow> map_option (\<lambda>(field, _). ''invalid regex '' @ field) (find (bad_pattern rx) when))"

definition read_rule :: "obj \<Rightarrow> rule" where
  "read_rule m = \<lparr>r_ID = text_of m ''id'', r_Zone = text_of m ''zone'', r_Confidence = text_of m ''confidence'',
     r_Why = text_of m ''why'', r_When = object_of m ''when''\<rparr>"

fun read_rules :: "regexps \<Rightarrow> json list \<Rightarrow> string + rule list" where
  "read_rules rx [] = Inr []"
| "read_rules rx (JObj m # rs) =
     (let r = read_rule m in
      case validateRuleRegexes rx r of
        Some e \<Rightarrow> Inl (''rule '' @ r_ID r @ '': '' @ e)
      | None \<Rightarrow> (case read_rules rx rs of Inl e \<Rightarrow> Inl e | Inr l \<Rightarrow> Inr (r # l)))"
| "read_rules rx (_ # rs) = read_rules rx rs"

definition parseRules :: "regexps \<Rightarrow> obj \<Rightarrow> string + rule list" where
  "parseRules rx doc = read_rules rx (case array_of doc ''rules'' of Some l \<Rightarrow> l | None \<Rightarrow> [])"

section \<open>Matching\<close>

definition any_text :: "(string \<Rightarrow> bool) \<Rightarrow> json list \<Rightarrow> bool" where
  "any_text p vals = list_ex (\<lambda>v. case v of JStr s \<Rightarrow> p s | _ \<Rightarrow> False) vals"

definition re_cond :: "regexps \<Rightarrow> json \<Rightarrow> string \<Rightarrow> bool" where
  "re_cond rx want s =
     (case want of JStr pattern \<Rightarrow> (case rx pattern of Some re \<Rightarrow> re s | None \<Rightarrow> False) | _ \<Rightarrow> False)"

definition list_cond :: "json \<Rightarrow> (string \<Rightarrow> bool) \<Rightarrow> bool" where
  "list_cond want p = (case want of JArr vals \<Rightarrow> any_text p vals | _ \<Rightarrow> False)"

definition matchCondition :: "regexps \<Rightarrow> string \<Rightarrow> json \<Rightarrow> device \<Rightarrow> bool" where
  "matchCondition rx key want d =
     (if key = ''vendor'' then list_cond want (\<lambda>v. contains (to_lower (d_Vendor d)) (to_lower v))
      else if key = ''hostname_re'' then re_cond rx want (d_Hostname d)
      else if key = ''vendor_class_re'' then re_cond rx want (d_VendorClass d)
      else if key = ''fingerprint_re'' then re_cond rx want (d_Fingerprint d)
      else if key = ''mac_prefix'' then list_cond want (\<lambda>v. has_prefix (to_upper (d_MAC d)) (to_upper v))
      else if key = ''guest_kind'' then list_cond want (\<lambda>v. d_GuestKind d = v)
      else False)"

definition conditionMatches :: "regexps \<Rightarrow> obj \<Rightarrow> device \<Rightarrow> bool" where
  "conditionMatches rx cond d = list_all (\<lambda>(key, want). key = ''any'' \<or> matchCondition rx key want d) cond"

definition any_block :: "regexps \<Rightarrow> json list \<Rightarrow> device \<Rightarrow> bool" where
  "any_block rx blocks d = list_ex (\<lambda>b. case b of JObj c \<Rightarrow> conditionMatches rx c d | _ \<Rightarrow> False) blocks"

definition ruleMatches :: "regexps \<Rightarrow> rule \<Rightarrow> device \<Rightarrow> bool" where
  "ruleMatches rx r d =
     (case r_When r of
        None \<Rightarrow> False
      | Some when \<Rightarrow>
          (case array_of when ''any'' of Some blocks \<Rightarrow> any_block rx blocks d | None \<Rightarrow> True) \<and>
          list_all (\<lambda>(key, want). key = ''any'' \<or> matchCondition rx key want d) when)"

text \<open>The zone, the rule, its confidence and why.\<close>

fun classify :: "regexps \<Rightarrow> rule list \<Rightarrow> device \<Rightarrow> string \<times> string \<times> string \<times> string" where
  "classify rx [] d = ([], [], ''none'', ''No rule matched this device.'')"
| "classify rx (r # rs) d =
     (if ruleMatches rx r d then (r_Zone r, r_ID r, r_Confidence r, r_Why r) else classify rx rs d)"

section \<open>Results\<close>

definition known_keys :: "string list" where
  "known_keys = [''vendor'', ''hostname_re'', ''vendor_class_re'', ''fingerprint_re'', ''mac_prefix'', ''guest_kind'']"

lemma matchCondition_known: "matchCondition rx key want d \<Longrightarrow> key \<in> set known_keys"
  by (auto simp: matchCondition_def known_keys_def split: if_splits)

text \<open>A device gets the first rule of the list that matches it, or none at all.\<close>

lemma classify_first:
  "classify rx rules d =
     (case find (\<lambda>r. ruleMatches rx r d) rules of
        Some r \<Rightarrow> (r_Zone r, r_ID r, r_Confidence r, r_Why r)
      | None \<Rightarrow> ([], [], ''none'', ''No rule matched this device.''))"
  by (induction rules) simp_all

text \<open>What matching looks at: six fields of the device, so two devices that agree on them get the same rule.\<close>

lemma classify_cong:
  assumes "d_Vendor d = d_Vendor d'" "d_Hostname d = d_Hostname d'" "d_VendorClass d = d_VendorClass d'"
    "d_Fingerprint d = d_Fingerprint d'" "d_MAC d = d_MAC d'" "d_GuestKind d = d_GuestKind d'"
  shows "classify rx rules d = classify rx rules d'"
proof -
  have c: "matchCondition rx key want d = matchCondition rx key want d'" for key want
    by (simp add: matchCondition_def assms)
  have "ruleMatches rx r d = ruleMatches rx r d'" for r
    unfolding ruleMatches_def any_block_def conditionMatches_def c ..
  then show ?thesis by (induction rules) simp_all
qed

text \<open>
  A rule fails closed: one with a key the program does not know matches no device, so no device is
  classified by it. The object that holds alternatives is the exception, which the next result shows.
\<close>

theorem unknown_key_matches_nothing:
  assumes "r_When r = Some when" and "(key, want) \<in> set when" and "key \<notin> set known_keys" and "key \<noteq> ''any''"
  shows "\<not> ruleMatches rx r d \<and> classify rx (rs @ r # rs') d = classify rx (rs @ rs') d"
proof -
  have "\<not> ruleMatches rx r d"
    using assms matchCondition_known [of rx key want d]
    by (auto simp: ruleMatches_def list_all_iff split: option.splits)
  moreover from this have "classify rx (rs @ r # rs') d = classify rx (rs @ rs') d"
    by (induction rs) simp_all
  ultimately show ?thesis by simp
qed

theorem unknown_key_matches_nothing_witness:
  "classify (\<lambda>_. None) [\<lparr>r_ID = ''cam'', r_Zone = ''iot'', r_Confidence = ''high'', r_Why = [],
     r_When = Some [(''vendr'', JArr [JStr ''axis''])]\<rparr>] blank_device
   = ([], [], ''none'', ''No rule matched this device.'')"
  using unknown_key_matches_nothing
    [of "\<lparr>r_ID = ''cam'', r_Zone = ''iot'', r_Confidence = ''high'', r_Why = [],
       r_When = Some [(''vendr'', JArr [JStr ''axis''])]\<rparr>" "[(''vendr'', JArr [JStr ''axis''])]"
       "''vendr''" "JArr [JStr ''axis'']" "\<lambda>_. None" blank_device "[]" "[]"]
  by (simp add: known_keys_def)

text \<open>
  Alternatives that are no list of objects, an empty one among them, or a rule without conditions
  match every device: here a rule fails open.
\<close>

lemma any_fails_open:
  assumes "r_When r = Some [(''any'', want)]" and "\<nexists>l. want = JArr l"
  shows "ruleMatches rx r d"
  using assms by (cases want) (simp_all add: ruleMatches_def array_of_def mget_def)

lemma empty_matches_all: "r_When r = Some [] \<Longrightarrow> ruleMatches rx r d"
  by (simp add: ruleMatches_def array_of_def)

lemma nested_any_matches_all:
  "r_When r = Some [(''any'', JArr [JObj [(''any'', c)]])] \<Longrightarrow> ruleMatches rx r d"
  by (simp add: ruleMatches_def array_of_def mget_def any_block_def conditionMatches_def)

end
