(* ===== verification/EnrollRegistry.thy ===== *)
theory EnrollRegistry
  imports EnrollRules Net
begin

text \<open>
  \<^verbatim>\<open>internal/modules/enroll/enroll.go\<close> and \<^verbatim>\<open>crud.go\<close>, the registry of devices: what a
  reconciliation does with the signals of a round, the DHCP transactions, the zone a person, the API or
  the captive page chooses, and what is stored. The registry maps addresses to devices; the stored
  table is keyed by the address as well, and its writes are taken to succeed.
\<close>

section \<open>Hardware addresses\<close>

text \<open>\<^verbatim>\<open>Sscanf\<close> with \<^verbatim>\<open>%x\<close> on the first two characters: blanks are skipped, and what is no digit is 0.\<close>

definition first_octet :: "string \<Rightarrow> nat" where
  "first_octet mac = unhex (takeWhile is_hex (dropWhile (\<lambda>c. is_space c \<and> c \<noteq> CHR ''\<newline>'') (take 2 mac)))"

definition isPseudoMAC :: "string \<Rightarrow> bool" where
  "isPseudoMAC s =
     (let mac = to_upper s in
      mac = ''FF:FF:FF:FF:FF:FF'' \<or> mac = [] \<or> has_prefix mac ''01:00:5E'' \<or> has_prefix mac ''33:33'' \<or>
      (2 \<le> length mac \<and> odd (first_octet mac)))"

definition isRandomizedMAC :: "string \<Rightarrow> bool" where
  "isRandomizedMAC s = (let mac = to_lower s in 2 \<le> length mac \<and> odd (first_octet mac div 2))"

definition LocallyAdministered :: "string \<Rightarrow> bool" where
  "LocallyAdministered s =
     (case map hex_val (to_lower (take 2 (trim_space s))) of
        [Some a, Some b] \<Rightarrow> odd ((16 * a + b) div 2)
      | _ \<Rightarrow> False)"

section \<open>The state\<close>

record zone =
  z_ID :: string
  z_Name :: string
  z_Description :: string
  z_Subnet :: string
  z_Subnet6 :: string
  z_Gateway :: string
  z_Range :: "string \<times> string"
  z_DNS :: "string list"
  z_Internet :: bool
  z_Captive :: bool
  z_SelfService :: bool
  z_ReachZones :: "string list"
  z_Block :: string

record zones_doc =
  zd_Mode :: string
  zd_CaptiveZone :: string
  zd_Zones :: "zone list"

record signal =
  s_IP :: string
  s_IP6 :: string
  s_Hostname :: string
  s_Vendor :: string
  s_VendorClass :: string
  s_Fingerprint :: string

definition no_signal :: signal where
  "no_signal = \<lparr>s_IP = [], s_IP6 = [], s_Hostname = [], s_Vendor = [], s_VendorClass = [], s_Fingerprint = []\<rparr>"

record txn =
  t_mac :: string
  t_ip :: string
  t_hostname :: string
  t_vendorClass :: string
  t_fingerprint :: string
  t_lastActivity :: int

type_synonym registry = "(string, device) gomap"

text \<open>
  The zones are \<^const>\<open>None\<close> after a start whose \<^verbatim>\<open>zones.json\<close> was refused, a nil pointer.
\<close>

record enroll =
  e_devices :: registry
  e_stored :: registry
  e_zones :: "zones_doc option"
  e_rules :: "rule list"
  e_pending :: "(string, string) gomap"
  e_captiveRate :: "(string, int) gomap"

section \<open>Saving and placing a device\<close>

definition saved :: "int \<Rightarrow> device \<Rightarrow> device" where
  "saved now d =
     (let d1 = d\<lparr>d_MAC := to_lower (d_MAC d)\<rparr>;
          d2 = (if d_LastSeen d1 = 0 then d1\<lparr>d_LastSeen := now\<rparr> else d1)
      in if d_FirstSeen d2 = 0 then d2\<lparr>d_FirstSeen := d_LastSeen d2\<rparr> else d2)"

text \<open>A device of the registry is changed in place and saved: the entry and the stored row.\<close>

definition saveDevice :: "int \<Rightarrow> string \<Rightarrow> device \<Rightarrow> enroll \<Rightarrow> enroll" where
  "saveDevice now mac d st =
     (let d' = saved now d in
      st\<lparr>e_devices := mput mac d' (e_devices st), e_stored := mput (d_MAC d') d' (e_stored st)\<rparr>)"

definition hasZone :: "zones_doc option \<Rightarrow> string \<Rightarrow> bool" where
  "hasZone zs i = (if i = [] then False else
     case zs of None \<Rightarrow> False | Some z \<Rightarrow> list_ex (\<lambda>z. z_ID z = i) (zd_Zones z))"

definition followsRules :: "zones_doc option \<Rightarrow> device \<Rightarrow> bool" where
  "followsRules zs d =
     (if d_Pinned d \<noteq> 0 then False
      else d_Zone d = [] \<or> (case zs of None \<Rightarrow> True | Some z \<Rightarrow> zd_Mode z \<noteq> ''enforce''))"

definition derivedZone :: "zones_doc option \<Rightarrow> string \<Rightarrow> string" where
  "derivedZone zs z =
     (case zs of
        Some doc \<Rightarrow> if z = [] \<and> hasZone zs (zd_CaptiveZone doc) then zd_CaptiveZone doc else z
      | None \<Rightarrow> z)"

section \<open>Reconciliation\<close>

definition new_device :: "int \<Rightarrow> string \<Rightarrow> device" where
  "new_device now mac = blank_device\<lparr>d_MAC := mac, d_FirstSeen := now\<rparr>"

text \<open>What the newest sighting says about the device.\<close>

definition sighting :: "int \<Rightarrow> string \<Rightarrow> signal \<Rightarrow> device \<Rightarrow> device" where
  "sighting now mac sig d =
     (let v = (if LocallyAdministered mac \<and> d_Vendor d \<noteq> [] \<and> \<not> contains (d_Vendor d) ''private address'' then [] else d_Vendor d)
      in d\<lparr>d_IP := (if s_IP sig \<noteq> [] then s_IP sig else d_IP d),
           d_IP6 := (if s_IP6 sig \<noteq> [] then s_IP6 sig else d_IP6 d),
           d_Hostname := s_Hostname sig,
           d_Vendor := (if s_Vendor sig \<noteq> [] \<and> v = [] then s_Vendor sig else v),
           d_VendorClass := (if s_VendorClass sig \<noteq> [] \<and> d_VendorClass d = [] then s_VendorClass sig else d_VendorClass d),
           d_Fingerprint := (if s_Fingerprint sig \<noteq> [] \<and> d_Fingerprint d = [] then s_Fingerprint sig else d_Fingerprint d),
           d_LastSeen := now,
           d_Randomized := (if isRandomizedMAC mac then 1 else 0)\<rparr>)"

definition classified :: "regexps \<Rightarrow> rule list \<Rightarrow> device \<Rightarrow> device" where
  "classified rx rules d =
     (case classify rx rules d of (zone, rule, conf, why) \<Rightarrow>
        d\<lparr>d_Class := zone, d_Rule := rule, d_Confidence := conf, d_Why := why\<rparr>)"

text \<open>One device heard from: refreshed, classified, placed and saved.\<close>

definition place :: "enroll \<Rightarrow> string \<Rightarrow> device \<Rightarrow> device" where
  "place st mac d =
     (case mget (e_pending st) mac of
        Some z \<Rightarrow> d\<lparr>d_Zone := z, d_Pinned := 1\<rparr>
      | None \<Rightarrow> if followsRules (e_zones st) d then d\<lparr>d_Zone := derivedZone (e_zones st) (d_Class d)\<rparr> else d)"

definition heard :: "regexps \<Rightarrow> int \<Rightarrow> string \<times> signal \<Rightarrow> enroll \<Rightarrow> enroll" where
  "heard rx now ms st =
     (case ms of (mac, sig) \<Rightarrow>
        let d = (case mget (e_devices st) mac of Some d \<Rightarrow> d | None \<Rightarrow> new_device now mac);
            d1 = place st mac (classified rx (e_rules st) (sighting now mac sig d))
        in saveDevice now mac d1 (st\<lparr>e_pending := mdel mac (e_pending st)\<rparr>))"

text \<open>Who was last seen behind an address this round.\<close>

definition holders :: "(string, signal) gomap \<Rightarrow> (string, string) gomap" where
  "holders signals = fold (\<lambda>(mac, sig) h. if s_IP sig \<noteq> [] then mput (s_IP sig) mac h else h) signals []"

definition taken :: "(string, string) gomap \<Rightarrow> string \<Rightarrow> device \<Rightarrow> bool" where
  "taken holder mac d \<longleftrightarrow>
     d_IP d \<noteq> [] \<and> (case mget holder (d_IP d) of Some h \<Rightarrow> h \<noteq> [] \<and> h \<noteq> mac | None \<Rightarrow> False)"

text \<open>A loop over the registry that changes and saves some of its devices.\<close>

definition sweep :: "int \<Rightarrow> (string \<Rightarrow> device \<Rightarrow> device option) \<Rightarrow> enroll \<Rightarrow> enroll" where
  "sweep now f st = fold (\<lambda>(mac, d) st. case f mac d of Some d' \<Rightarrow> saveDevice now mac d' st | None \<Rightarrow> st) (e_devices st) st"

definition clear_taken :: "(string, string) gomap \<Rightarrow> string \<Rightarrow> device \<Rightarrow> device option" where
  "clear_taken holder mac d = (if taken holder mac d then Some (d\<lparr>d_IP := []\<rparr>) else None)"

definition unheard :: "regexps \<Rightarrow> (string, signal) gomap \<Rightarrow> enroll \<Rightarrow> string \<Rightarrow> device \<Rightarrow> device option" where
  "unheard rx signals st mac d =
     (if mget signals mac \<noteq> None \<or> \<not> followsRules (e_zones st) d then None
      else
        let d1 = classified rx (e_rules st) d;
            d2 = d1\<lparr>d_Zone := derivedZone (e_zones st) (d_Class d1)\<rparr>
        in if d2 = d then None else Some d2)"

definition reconcile :: "regexps \<Rightarrow> int \<Rightarrow> (string, signal) gomap \<Rightarrow> enroll \<Rightarrow> enroll" where
  "reconcile rx now signals st =
     (let st1 = fold (heard rx now) signals st;
          st2 = sweep now (clear_taken (holders signals)) st1
      in sweep now (unheard rx signals st2) st2)"

section \<open>Where signals come from\<close>

text \<open>
  A row of the hosts table: address, hardware address, name, maker, newest first. What an address of
  the registry of makers says, \<^verbatim>\<open>identity.Vendor\<close>, is a parameter, as is the order of the rows.
\<close>

record host_row =
  h_ip :: string
  h_mac :: string
  h_name :: string
  h_vendor :: string

definition host_signal :: "host_row \<Rightarrow> string \<Rightarrow> signal \<Rightarrow> signal" where
  "host_signal r mac sig =
     (let s1 = (if contains (h_ip r) '':'' then (if s_IP6 sig = [] then sig\<lparr>s_IP6 := h_ip r\<rparr> else sig)
                else if s_IP sig = [] then sig\<lparr>s_IP := h_ip r\<rparr> else sig);
          s2 = (if s_Hostname s1 = [] then s1\<lparr>s_Hostname := h_name r\<rparr> else s1)
      in if s_Vendor s2 = [] \<and> (\<not> LocallyAdministered mac \<or> contains (h_vendor r) ''private address'')
         then s2\<lparr>s_Vendor := h_vendor r\<rparr> else s2)"

definition add_host :: "host_row \<Rightarrow> (string, signal) gomap \<Rightarrow> (string, signal) gomap" where
  "add_host r signals =
     (let mac = to_lower (h_mac r) in
      if mac = [] \<or> isPseudoMAC (to_upper mac) then signals
      else mput mac (host_signal r mac (case mget signals mac of Some s \<Rightarrow> s | None \<Rightarrow> no_signal)) signals)"

definition txn_signal :: "txn \<Rightarrow> signal \<Rightarrow> signal" where
  "txn_signal t sig =
     sig\<lparr>s_IP := (if t_ip t \<noteq> [] \<and> s_IP sig = [] then t_ip t else s_IP sig),
         s_Hostname := (if t_hostname t \<noteq> [] then t_hostname t else s_Hostname sig),
         s_VendorClass := (if t_vendorClass t \<noteq> [] then t_vendorClass t else s_VendorClass sig),
         s_Fingerprint := (if t_fingerprint t \<noteq> [] then t_fingerprint t else s_Fingerprint sig)\<rparr>"

definition add_txn :: "txn \<Rightarrow> (string, signal) gomap \<Rightarrow> (string, signal) gomap" where
  "add_txn t signals =
     (if t_mac t = [] then signals
      else mput (t_mac t) (txn_signal t (case mget signals (t_mac t) of Some s \<Rightarrow> s | None \<Rightarrow> no_signal)) signals)"

definition gatherSignals ::
  "host_row list \<Rightarrow> (string \<Rightarrow> string) option \<Rightarrow> (string, txn) gomap \<Rightarrow> (string, signal) gomap" where
  "gatherSignals rows vendor txns =
     (let s1 = fold add_host rows [];
          s2 = (case vendor of
                  None \<Rightarrow> s1
                | Some f \<Rightarrow> map (\<lambda>(mac, sig). (mac, if s_Vendor sig = [] then sig\<lparr>s_Vendor := f mac\<rparr> else sig)) s1)
      in fold (\<lambda>(_, t). add_txn t) txns s2)"

section \<open>One transaction, one decision\<close>

definition from_txn :: "txn \<Rightarrow> device \<Rightarrow> device" where
  "from_txn t d =
     d\<lparr>d_Hostname := (if t_hostname t \<noteq> [] then t_hostname t else d_Hostname d),
       d_VendorClass := (if t_vendorClass t \<noteq> [] \<and> d_VendorClass d = [] then t_vendorClass t else d_VendorClass d),
       d_Fingerprint := (if t_fingerprint t \<noteq> [] \<and> d_Fingerprint d = [] then t_fingerprint t else d_Fingerprint d),
       d_IP := (if t_ip t \<noteq> [] then t_ip t else d_IP d)\<rparr>"

definition emitDeviceFromTransaction :: "int \<Rightarrow> txn \<Rightarrow> enroll \<Rightarrow> enroll" where
  "emitDeviceFromTransaction now t st =
     (if t_mac t = [] then st
      else
        let d = (case mget (e_devices st) (t_mac t) of Some d \<Rightarrow> d | None \<Rightarrow> new_device now (t_mac t));
            d1 = from_txn t d;
            st1 = st\<lparr>e_devices := mput (t_mac t) d1 (e_devices st)\<rparr>;
            st2 = (if t_ip t = [] then st1
                   else sweep now (\<lambda>omac x. if omac \<noteq> t_mac t \<and> d_IP x = t_ip t then Some (x\<lparr>d_IP := []\<rparr>) else None) st1)
        in saveDevice now (t_mac t) (d1\<lparr>d_LastSeen := now\<rparr>) st2)"

definition apiAssign :: "int \<Rightarrow> string \<Rightarrow> string \<Rightarrow> enroll \<Rightarrow> enroll" where
  "apiAssign now rmac zone st =
     (let mac = to_lower rmac;
          d = (case mget (e_devices st) mac of Some d \<Rightarrow> d | None \<Rightarrow> blank_device\<lparr>d_MAC := mac\<rparr>);
          d1 = (if zone \<noteq> [] then d\<lparr>d_Zone := zone, d_Pinned := 1\<rparr>
                else d\<lparr>d_Pinned := 0, d_Zone := derivedZone (e_zones st) (d_Class d)\<rparr>)
      in saveDevice now mac d1 st)"

text \<open>The captive page: the device is the first of the registry that holds the client's address.\<close>

definition captivePost :: "int \<Rightarrow> string \<Rightarrow> string \<Rightarrow> enroll \<Rightarrow> (string + unit) \<times> enroll" where
  "captivePost now client zone st =
     (let mac = (case find (\<lambda>(_, d). d_IP d = client) (e_devices st) of Some (_, d) \<Rightarrow> d_MAC d | None \<Rightarrow> []) in
      if mac = [] then (Inl ''device not found'', st)
      else
        let lastChange = (case mget (e_captiveRate st) mac of Some t \<Rightarrow> t | None \<Rightarrow> 0) in
        if now - lastChange < 60 then (Inl ''please wait at least 60 seconds between changes'', st)
        else
          let st1 = st\<lparr>e_captiveRate := mput mac now (e_captiveRate st)\<rparr>;
              zoneExists = (case e_zones st of None \<Rightarrow> False | Some z \<Rightarrow> list_ex (\<lambda>z. z_ID z = zone) (zd_Zones z))
          in if \<not> zoneExists then (Inl ''invalid zone'', st1)
             else (Inr (),
               case mget (e_devices st1) (to_lower mac) of
                 Some d \<Rightarrow> saveDevice now (to_lower mac) (d\<lparr>d_Zone := zone, d_Pinned := 1\<rparr>) st1
               | None \<Rightarrow> st1))"

definition apiSetMode :: "string \<Rightarrow> string option \<Rightarrow> zones_doc \<Rightarrow> string + zones_doc" where
  "apiSetMode mode allowed z =
     (if mode \<noteq> ''monitor'' \<and> mode \<noteq> ''enforce'' then Inl ''mode must be monitor or enforce''
      else case (if mode = ''enforce'' then allowed else None) of
        Some err \<Rightarrow> Inl err
      | None \<Rightarrow> Inr (z\<lparr>zd_Mode := mode\<rparr>))"

text \<open>The request's address is looked up as it is; the stored row stays.\<close>

definition apiDeleteDeviceByMAC :: "string \<Rightarrow> enroll \<Rightarrow> (string + unit) \<times> enroll" where
  "apiDeleteDeviceByMAC mac st =
     (if mac = [] then (Inl ''mac is required'', st)
      else if mget (e_devices st) mac = None then (Inl (''no device with MAC '' @ mac), st)
      else (Inr (), st\<lparr>e_devices := mdel mac (e_devices st)\<rparr>))"

section \<open>Starting\<close>

definition isStoredClientID :: "device \<Rightarrow> bool" where
  "isStoredClientID row =
     (let mac = to_lower (d_MAC row) in
      if length mac \<noteq> 17 \<or> \<not> has_prefix mac ''00:0'' \<or> (of_char (mac ! 4) :: nat) < 49 \<or> 52 < (of_char (mac ! 4) :: nat) then False
      else if list_ex (\<lambda>v. v \<noteq> []) [d_IP row, d_IP6 row, d_Hostname row, d_Vendor row, d_GuestName row] then False
      else d_Pinned row = 0)"

definition load_row :: "string \<times> device \<Rightarrow> enroll \<Rightarrow> enroll" where
  "load_row kd st =
     (case kd of (_, row) \<Rightarrow>
        if d_MAC row = [] then st
        else if isStoredClientID row then st\<lparr>e_stored := mdel (d_MAC row) (e_stored st)\<rparr>
        else st\<lparr>e_devices := mput (to_lower (d_MAC row)) row (e_devices st)\<rparr>)"

definition loadRegistry :: "enroll \<Rightarrow> enroll" where
  "loadRegistry st = fold load_row (e_stored st) st"

section \<open>What a sweep and a round do to each device\<close>

lemma saveDevice_frame [simp]:
  "e_zones (saveDevice now mac d st) = e_zones st" "e_rules (saveDevice now mac d st) = e_rules st"
  "e_pending (saveDevice now mac d st) = e_pending st" "e_captiveRate (saveDevice now mac d st) = e_captiveRate st"
  by (simp_all add: saveDevice_def Let_def)

lemma saveDevice_devices [simp]: "e_devices (saveDevice now mac d st) = mput mac (saved now d) (e_devices st)"
  by (simp add: saveDevice_def Let_def)

lemma saved_fields [simp]:
  "d_IP (saved now d) = d_IP d" "d_Zone (saved now d) = d_Zone d" "d_Pinned (saved now d) = d_Pinned d"
  "d_Class (saved now d) = d_Class d" "d_Vendor (saved now d) = d_Vendor d" "d_Hostname (saved now d) = d_Hostname d"
  "d_MAC (saved now d) = to_lower (d_MAC d)"
  by (simp_all add: saved_def Let_def)

lemma mget_fold_sweep:
  assumes "distinct (map fst xs)"
  shows "mget (e_devices (fold (\<lambda>(mac, d) st. case f mac d of Some d' \<Rightarrow> saveDevice now mac d' st | None \<Rightarrow> st) xs st)) k =
    (case map_of xs k of
       Some d \<Rightarrow> (case f k d of Some d' \<Rightarrow> Some (saved now d') | None \<Rightarrow> mget (e_devices st) k)
     | None \<Rightarrow> mget (e_devices st) k)"
  using assms
proof (induction xs arbitrary: st)
  case (Cons x xs)
  obtain m d where x: "x = (m, d)" by force
  with Cons.prems have m: "map_of xs m = None" by (simp add: map_of_eq_None_iff)
  show ?case
    using Cons.IH Cons.prems m unfolding x
    by (cases "k = m") (simp_all split: option.splits)
qed simp

lemma sweep_devices:
  assumes "mkeys_ok (e_devices st)"
  shows "mget (e_devices (sweep now f st)) k =
    (case mget (e_devices st) k of
       Some d \<Rightarrow> Some (case f k d of Some d' \<Rightarrow> saved now d' | None \<Rightarrow> d)
     | None \<Rightarrow> None)"
  using mget_fold_sweep [of "e_devices st" now f st k] assms
  by (simp add: sweep_def mkeys_ok_def mget_def split: option.splits)

lemma sweep_frame [simp]:
  "e_zones (sweep now f st) = e_zones st" "e_rules (sweep now f st) = e_rules st"
  "e_pending (sweep now f st) = e_pending st"
proof -
  have "e_zones (fold (\<lambda>(mac, d) st. case f mac d of Some d' \<Rightarrow> saveDevice now mac d' st | None \<Rightarrow> st) xs st) = e_zones st \<and>
    e_rules (fold (\<lambda>(mac, d) st. case f mac d of Some d' \<Rightarrow> saveDevice now mac d' st | None \<Rightarrow> st) xs st) = e_rules st \<and>
    e_pending (fold (\<lambda>(mac, d) st. case f mac d of Some d' \<Rightarrow> saveDevice now mac d' st | None \<Rightarrow> st) xs st) = e_pending st"
    for xs by (induction xs arbitrary: st) (auto split: option.splits)
  then show "e_zones (sweep now f st) = e_zones st" "e_rules (sweep now f st) = e_rules st"
    "e_pending (sweep now f st) = e_pending st" by (simp_all add: sweep_def)
qed

lemma sweep_keys_ok [simp]: "mkeys_ok (e_devices st) \<Longrightarrow> mkeys_ok (e_devices (sweep now f st))"
proof -
  have "mkeys_ok (e_devices st) \<Longrightarrow>
    mkeys_ok (e_devices (fold (\<lambda>(mac, d) st. case f mac d of Some d' \<Rightarrow> saveDevice now mac d' st | None \<Rightarrow> st) xs st))"
    for xs by (induction xs arbitrary: st) (auto split: option.splits)
  then show "mkeys_ok (e_devices st) \<Longrightarrow> mkeys_ok (e_devices (sweep now f st))" by (simp add: sweep_def)
qed

text \<open>A device heard from, after the first loop.\<close>

definition met :: "regexps \<Rightarrow> int \<Rightarrow> enroll \<Rightarrow> string \<Rightarrow> signal \<Rightarrow> device" where
  "met rx now st mac sig =
     saved now (place st mac (classified rx (e_rules st) (sighting now mac sig
       (case mget (e_devices st) mac of Some d \<Rightarrow> d | None \<Rightarrow> new_device now mac))))"

lemma heard_frame [simp]:
  "e_zones (heard rx now ms st) = e_zones st" "e_rules (heard rx now ms st) = e_rules st"
  by (simp_all add: heard_def Let_def split: prod.splits)

lemma fold_heard_frame [simp]:
  "e_zones (fold (heard rx now) signals st) = e_zones st" "e_rules (fold (heard rx now) signals st) = e_rules st"
  by (induction signals arbitrary: st) simp_all

lemma fold_heard_keys_ok [simp]:
  "mkeys_ok (e_devices st) \<Longrightarrow> mkeys_ok (e_devices (fold (heard rx now) signals st))"
  by (induction signals arbitrary: st) (auto simp: heard_def Let_def)

lemma heard_devices:
  "mget (e_devices (heard rx now (mac, sig) st)) k = (if k = mac then Some (met rx now st mac sig) else mget (e_devices st) k)"
  by (simp add: heard_def met_def Let_def)

lemma met_other: "k \<noteq> mac \<Longrightarrow> met rx now (heard rx now (mac, sig) st) k sig' = met rx now st k sig'"
proof -
  assume "k \<noteq> mac"
  then have p: "mget (e_pending (heard rx now (mac, sig) st)) k = mget (e_pending st) k"
    by (simp add: heard_def Let_def)
  have d: "mget (e_devices (heard rx now (mac, sig) st)) k = mget (e_devices st) k"
    using \<open>k \<noteq> mac\<close> by (simp add: heard_devices)
  show ?thesis unfolding met_def place_def heard_frame p d ..
qed

lemma round_devices:
  assumes "mkeys_ok signals"
  shows "mget (e_devices (fold (heard rx now) signals st)) k =
    (case mget signals k of Some sig \<Rightarrow> Some (met rx now st k sig) | None \<Rightarrow> mget (e_devices st) k)"
  using assms
proof (induction signals arbitrary: st)
  case (Cons x xs)
  obtain m sig where x: "x = (m, sig)" by force
  with Cons.prems have m: "mget xs m = None" and ok: "mkeys_ok xs"
    by (simp_all add: mkeys_ok_def mget_None_iff mkeys_def)
  show ?case
    using Cons.IH [OF ok, of "heard rx now (m, sig) st"] m unfolding x
    by (auto simp: mget_Cons heard_devices met_other split: option.splits)
qed simp

section \<open>Who holds an address\<close>

lemma holders_None:
  assumes "a \<noteq> []"
  shows "mget (holders signals) a = None \<longleftrightarrow> (\<forall>(mac, sig) \<in> set signals. s_IP sig \<noteq> a)"
proof -
  have "mget (fold (\<lambda>(mac, sig) h. if s_IP sig \<noteq> [] then mput (s_IP sig) mac h else h) signals h0) a = None \<longleftrightarrow>
      mget h0 a = None \<and> (\<forall>(mac, sig) \<in> set signals. s_IP sig \<noteq> a)" for h0
    using assms by (induction signals arbitrary: h0) (auto split: if_splits)
  then show ?thesis by (simp add: holders_def)
qed

lemma holders_Some:
  assumes "mget (holders signals) a = Some h"
  obtains sig where "(h, sig) \<in> set signals" "s_IP sig = a" "a \<noteq> []"
proof -
  have "mget (fold (\<lambda>(mac, sig) h. if s_IP sig \<noteq> [] then mput (s_IP sig) mac h else h) signals h0) a = Some h \<Longrightarrow>
      mget h0 a = Some h \<or> (\<exists>sig. (h, sig) \<in> set signals \<and> s_IP sig = a \<and> a \<noteq> [])" for h0
  proof (induction signals arbitrary: h0)
    case (Cons x xs)
    obtain m sig where x: "x = (m, sig)" by force
    show ?case
      using Cons.IH [of "if s_IP sig \<noteq> [] then mput (s_IP sig) m h0 else h0"] Cons.prems
      by (auto simp: x split: if_splits)
  qed simp
  from this [of "[]"] assms that show thesis by (auto simp: holders_def)
qed

section \<open>Results\<close>

text \<open>The entries of the registry carry the address they are kept under, in lower case.\<close>

definition registry_ok :: "enroll \<Rightarrow> bool" where
  "registry_ok st \<longleftrightarrow> mkeys_ok (e_devices st) \<and>
     (\<forall>k d. mget (e_devices st) k = Some d \<longrightarrow> d_MAC d = k \<and> to_lower k = k)"

definition one_holder :: "enroll \<Rightarrow> bool" where
  "one_holder st \<longleftrightarrow> (\<forall>k k' d d'. mget (e_devices st) k = Some d \<and> mget (e_devices st) k' = Some d' \<and>
     d_IP d = d_IP d' \<and> d_IP d \<noteq> [] \<longrightarrow> k = k')"

lemma one_holderI:
  "(\<And>k k' d d'. mget (e_devices st) k = Some d \<Longrightarrow> mget (e_devices st) k' = Some d' \<Longrightarrow> d_IP d' = d_IP d \<Longrightarrow>
     d_IP d \<noteq> [] \<Longrightarrow> k = k') \<Longrightarrow> one_holder st"
  unfolding one_holder_def by metis

lemma one_holderD:
  "one_holder st \<Longrightarrow> mget (e_devices st) k = Some d \<Longrightarrow> mget (e_devices st) k' = Some d' \<Longrightarrow> d_IP d = a \<Longrightarrow>
     d_IP d' = a \<Longrightarrow> a \<noteq> [] \<Longrightarrow> k = k'"
  unfolding one_holder_def by metis

definition signals_ok :: "(string, signal) gomap \<Rightarrow> bool" where
  "signals_ok signals \<longleftrightarrow> mkeys_ok signals \<and> (\<forall>(mac, sig) \<in> set signals. mac \<noteq> [] \<and> to_lower mac = mac)"

lemma reconcile_devices:
  assumes "mkeys_ok signals" and "mkeys_ok (e_devices st)"
  shows "mget (e_devices (reconcile rx now signals st)) k =
    (case mget signals k of
       Some sig \<Rightarrow>
         let d = met rx now st k sig
         in Some (if taken (holders signals) k d then saved now (d\<lparr>d_IP := []\<rparr>) else d)
     | None \<Rightarrow>
         (case mget (e_devices st) k of
            None \<Rightarrow> None
          | Some d \<Rightarrow>
              let d1 = (if taken (holders signals) k d then saved now (d\<lparr>d_IP := []\<rparr>) else d)
              in Some (case unheard rx signals st k d1 of Some d2 \<Rightarrow> saved now d2 | None \<Rightarrow> d1)))"
proof -
  let ?st1 = "fold (heard rx now) signals st"
  let ?st2 = "sweep now (clear_taken (holders signals)) ?st1"
  have u: "unheard rx signals ?st2 = unheard rx signals st"
    by (rule ext)+ (simp add: unheard_def Let_def)
  show ?thesis
    using assms
    by (simp add: reconcile_def Let_def sweep_devices round_devices clear_taken_def u split: option.splits)
      (simp add: unheard_def)
qed

lemma classified_fields [simp]:
  "d_MAC (classified rx rules d) = d_MAC d" "d_IP (classified rx rules d) = d_IP d"
  "d_Pinned (classified rx rules d) = d_Pinned d" "d_Zone (classified rx rules d) = d_Zone d"
  by (simp_all add: classified_def split: prod.splits)

lemma place_fields [simp]: "d_MAC (place st mac d) = d_MAC d" "d_IP (place st mac d) = d_IP d"
  by (simp_all add: place_def split: option.splits)

lemma sighting_fields [simp]:
  "d_MAC (sighting now mac sig d) = d_MAC d" "d_IP (sighting now mac sig d) = (if s_IP sig \<noteq> [] then s_IP sig else d_IP d)"
  "d_Pinned (sighting now mac sig d) = d_Pinned d" "d_Zone (sighting now mac sig d) = d_Zone d"
  by (simp_all add: sighting_def Let_def)

lemma new_device_fields [simp]: "d_MAC (new_device now mac) = mac" "d_IP (new_device now mac) = []"
  by (simp_all add: new_device_def blank_device_def)

lemma met_fields [simp]:
  "d_MAC (met rx now st mac sig) = to_lower (case mget (e_devices st) mac of Some d \<Rightarrow> d_MAC d | None \<Rightarrow> mac)"
  "d_IP (met rx now st mac sig) =
     (if s_IP sig \<noteq> [] then s_IP sig else case mget (e_devices st) mac of Some d \<Rightarrow> d_IP d | None \<Rightarrow> [])"
  by (simp_all add: met_def split: option.splits)

lemma unheard_fields:
  "unheard rx signals st k d = Some d' \<Longrightarrow>
   d_MAC d' = d_MAC d \<and> d_IP d' = d_IP d \<and> d_Pinned d' = d_Pinned d \<and> mget signals k = None \<and> followsRules (e_zones st) d"
  by (auto simp: unheard_def Let_def split: if_splits)

text \<open>What a round leaves of the address of a device.\<close>

lemma reconcile_cases:
  assumes "mkeys_ok signals" and "mkeys_ok (e_devices st)" and "mget (e_devices (reconcile rx now signals st)) k = Some d"
  obtains (heard) sig where "mget signals k = Some sig"
      "d_IP d = (if taken (holders signals) k (met rx now st k sig) then [] else d_IP (met rx now st k sig))"
      "d_MAC d = d_MAC (met rx now st k sig)"
  | (quiet) d0 where "mget signals k = None" "mget (e_devices st) k = Some d0"
      "d_IP d = (if taken (holders signals) k d0 then [] else d_IP d0)"
      "d_MAC d = d_MAC d0 \<or> d_MAC d = to_lower (d_MAC d0)"
  using assms(3) unfolding reconcile_devices [OF assms(1,2)]
  by (auto simp: Let_def dest!: unheard_fields split: option.splits if_splits)

lemma reconcile_keys_ok: "mkeys_ok (e_devices st) \<Longrightarrow> mkeys_ok (e_devices (reconcile rx now signals st))"
  by (simp add: reconcile_def Let_def)

lemma reconcile_registry_ok:
  assumes "registry_ok st" and "signals_ok signals"
  shows "registry_ok (reconcile rx now signals st)"
  unfolding registry_ok_def
proof (intro conjI allI impI)
  have ok: "mkeys_ok signals" "mkeys_ok (e_devices st)"
    using assms by (simp_all add: signals_ok_def registry_ok_def)
  then show "mkeys_ok (e_devices (reconcile rx now signals st))" by (simp add: reconcile_keys_ok)
  fix k d assume d: "mget (e_devices (reconcile rx now signals st)) k = Some d"
  have e: "d_MAC d0 = k \<and> to_lower k = k" if "mget (e_devices st) k = Some d0" for d0
    using assms(1) that by (simp add: registry_ok_def)
  have l: "to_lower k = k" if "mget signals k = Some sig" for sig
    using assms(2) that by (auto simp: signals_ok_def mget_def dest!: map_of_SomeD)
  from ok d show "d_MAC d = k" "to_lower k = k"
    by (cases rule: reconcile_cases; auto dest: e l split: option.splits)+
qed

text \<open>Who keeps an address is its holder of the round, or had it before and no signal reports it.\<close>

lemma held:
  assumes "registry_ok st" and "signals_ok signals"
    and d: "mget (e_devices (reconcile rx now signals st)) k = Some d" "d_IP d \<noteq> []"
  shows "mget (holders signals) (d_IP d) = Some k \<or>
      mget (holders signals) (d_IP d) = None \<and> (\<exists>d0. mget (e_devices st) k = Some d0 \<and> d_IP d0 = d_IP d)"
proof -
  let ?H = "holders signals"
  have ok: "mkeys_ok signals" "mkeys_ok (e_devices st)"
    using assms by (simp_all add: signals_ok_def registry_ok_def)
  have kept: "mget ?H (d_IP d) = None \<or> mget ?H (d_IP d) = Some k"
    if "\<not> taken ?H k d'" "d_IP d' = d_IP d" for d'
  proof (cases "mget ?H (d_IP d)")
    case (Some h)
    then obtain sig where "(h, sig) \<in> set signals" by (rule holders_Some)
    then have "h \<noteq> []" using assms(2) by (auto simp: signals_ok_def)
    with that Some d(2) show ?thesis by (auto simp: taken_def)
  qed simp
  from ok d(1) show ?thesis
  proof (cases rule: reconcile_cases)
    case (heard sig)
    with d(2) have nt: "\<not> taken ?H k (met rx now st k sig)" and ip: "d_IP (met rx now st k sig) = d_IP d" by (auto split: if_splits)
    from kept [OF nt ip] show ?thesis
    proof
      assume none: "mget ?H (d_IP d) = None"
      have "(k, sig) \<in> set signals" using heard(1) by (simp add: mget_def map_of_SomeD)
      with none d(2) have "s_IP sig \<noteq> d_IP d" by (auto simp: holders_None)
      with ip d(2) have "\<exists>d0. mget (e_devices st) k = Some d0 \<and> d_IP d0 = d_IP d"
        by (auto split: option.splits if_splits)
      with none show ?thesis by simp
    qed simp
  next
    case (quiet d0)
    with d(2) have "\<not> taken ?H k d0" "d_IP d0 = d_IP d" by (auto split: if_splits)
    from kept [OF this] \<open>d_IP d0 = d_IP d\<close> quiet(2) show ?thesis by auto
  qed
qed

lemma round_one_holder:
  assumes "registry_ok st" and "signals_ok signals" and u: "one_holder st"
  shows "one_holder (reconcile rx now signals st)"
proof (rule one_holderI)
  fix k k' d d'
  assume d: "mget (e_devices (reconcile rx now signals st)) k = Some d"
    and d': "mget (e_devices (reconcile rx now signals st)) k' = Some d'" and e: "d_IP d' = d_IP d" and ne: "d_IP d \<noteq> []"
  from held [OF assms(1,2) d ne] show "k = k'"
  proof
    assume "mget (holders signals) (d_IP d) = Some k"
    with held [OF assms(1,2) d'] e ne show ?thesis by simp
  next
    assume a: "mget (holders signals) (d_IP d) = None \<and> (\<exists>d0. mget (e_devices st) k = Some d0 \<and> d_IP d0 = d_IP d)"
    with held [OF assms(1,2) d'] e ne obtain d0' where "mget (e_devices st) k' = Some d0'" "d_IP d0' = d_IP d" by auto
    with a ne one_holderD [OF u] show ?thesis by blast
  qed
qed

text \<open>An address a signal reports has a holder afterwards.\<close>

lemma reported_held:
  assumes "registry_ok st" and "signals_ok signals" and "(m, sig) \<in> set signals" and "s_IP sig = a" and "a \<noteq> []"
  shows "\<exists>k d. mget (e_devices (reconcile rx now signals st)) k = Some d \<and> d_IP d = a"
proof -
  have ok: "mkeys_ok signals" "mkeys_ok (e_devices st)"
    using assms by (simp_all add: signals_ok_def registry_ok_def)
  have "mget (holders signals) a \<noteq> None"
    unfolding holders_None [OF assms(5)]
  proof
    assume "\<forall>(mac, sig) \<in> set signals. s_IP sig \<noteq> a"
    from bspec [OF this assms(3)] assms(4) show False by simp
  qed
  then obtain h where h: "mget (holders signals) a = Some h" by blast
  then obtain s where s: "(h, s) \<in> set signals" "s_IP s = a" by (rule holders_Some)
  then have g: "mget signals h = Some s" using ok(1) by (simp add: mget_def mkeys_ok_def)
  have "d_IP (met rx now st h s) = a" using s(2) assms(5) by simp
  moreover from this h have "\<not> taken (holders signals) h (met rx now st h s)" by (simp add: taken_def)
  ultimately have "mget (e_devices (reconcile rx now signals st)) h = Some (met rx now st h s)"
    using g by (simp add: reconcile_devices [OF ok] Let_def)
  with \<open>d_IP (met rx now st h s) = a\<close> show ?thesis by blast
qed

section \<open>One transaction\<close>

lemma from_txn_fields [simp]:
  "d_MAC (from_txn t d) = d_MAC d" "d_IP (from_txn t d) = (if t_ip t \<noteq> [] then t_ip t else d_IP d)"
  "d_Zone (from_txn t d) = d_Zone d" "d_Pinned (from_txn t d) = d_Pinned d"
  by (simp_all add: from_txn_def)

text \<open>The device of a transaction, and what becomes of the others.\<close>

definition of_txn :: "int \<Rightarrow> txn \<Rightarrow> enroll \<Rightarrow> device" where
  "of_txn now t st =
     from_txn t (case mget (e_devices st) (t_mac t) of Some d \<Rightarrow> d | None \<Rightarrow> new_device now (t_mac t))"

lemma of_txn_fields [simp]:
  "d_MAC (of_txn now t st) = (case mget (e_devices st) (t_mac t) of Some d \<Rightarrow> d_MAC d | None \<Rightarrow> t_mac t)"
  "d_IP (of_txn now t st) =
     (if t_ip t \<noteq> [] then t_ip t else case mget (e_devices st) (t_mac t) of Some d \<Rightarrow> d_IP d | None \<Rightarrow> [])"
  by (simp_all add: of_txn_def split: option.splits)

lemma emit_devices:
  assumes "mkeys_ok (e_devices st)" and "t_mac t \<noteq> []"
  shows "mget (e_devices (emitDeviceFromTransaction now t st)) k =
      (if k = t_mac t then Some (saved now (of_txn now t st\<lparr>d_LastSeen := now\<rparr>))
       else map_option (\<lambda>d. if t_ip t \<noteq> [] \<and> d_IP d = t_ip t then saved now (d\<lparr>d_IP := []\<rparr>) else d) (mget (e_devices st) k))"
    and "mkeys_ok (e_devices (emitDeviceFromTransaction now t st))"
proof -
  let ?d1 = "of_txn now t st"
  let ?f = "\<lambda>omac x. if omac \<noteq> t_mac t \<and> d_IP x = t_ip t then Some (x\<lparr>d_IP := []\<rparr>) else None"
  let ?st1 = "st\<lparr>e_devices := mput (t_mac t) ?d1 (e_devices st)\<rparr>"
  have ok: "mkeys_ok (e_devices ?st1)" using assms(1) by simp
  have e: "emitDeviceFromTransaction now t st =
      saveDevice now (t_mac t) (?d1\<lparr>d_LastSeen := now\<rparr>) (if t_ip t = [] then ?st1 else sweep now ?f ?st1)"
    using assms(2) by (simp add: emitDeviceFromTransaction_def of_txn_def Let_def)
  show "mkeys_ok (e_devices (emitDeviceFromTransaction now t st))" unfolding e using ok by simp
  show "mget (e_devices (emitDeviceFromTransaction now t st)) k =
      (if k = t_mac t then Some (saved now (?d1\<lparr>d_LastSeen := now\<rparr>))
       else map_option (\<lambda>d. if t_ip t \<noteq> [] \<and> d_IP d = t_ip t then saved now (d\<lparr>d_IP := []\<rparr>) else d) (mget (e_devices st) k))"
    unfolding e using sweep_devices [OF ok, of now ?f k]
    by (cases "k = t_mac t"; cases "t_ip t = []"; cases "mget (e_devices st) k") simp_all
qed

lemma emit_registry_ok:
  assumes "registry_ok st" and "to_lower (t_mac t) = t_mac t"
  shows "registry_ok (emitDeviceFromTransaction now t st)"
proof (cases "t_mac t = []")
  case False
  have ok: "mkeys_ok (e_devices st)" using assms(1) by (simp add: registry_ok_def)
  have e: "d_MAC d = k \<and> to_lower k = k" if "mget (e_devices st) k = Some d" for k d
    using assms(1) that by (simp add: registry_ok_def)
  show ?thesis
    unfolding registry_ok_def emit_devices(1) [OF ok False]
    using emit_devices(2) [OF ok False] assms(2) by (auto simp: split: option.splits if_splits dest!: e)
qed (use assms in \<open>simp add: emitDeviceFromTransaction_def\<close>)

lemma cleared: "saved now (d\<lparr>d_IP := []\<rparr>) = d \<Longrightarrow> d_IP d = []"
  by (metis saved_fields(1) device.select_convs(2) device.surjective device.update_convs(2))

lemma emit_one_holder:
  assumes "registry_ok st" and u: "one_holder st"
  shows "one_holder (emitDeviceFromTransaction now t st)"
proof (cases "t_mac t = []")
  case False
  have ok: "mkeys_ok (e_devices st)" using assms(1) by (simp add: registry_ok_def)
  let ?e = "e_devices (emitDeviceFromTransaction now t st)"
  have ip: "k = t_mac t \<and> d_IP d = t_ip t \<or>
      d_IP d \<noteq> t_ip t \<and> (\<exists>d0. mget (e_devices st) k = Some d0 \<and> d_IP d0 = d_IP d) \<or>
      t_ip t = [] \<and> (\<exists>d0. mget (e_devices st) k = Some d0 \<and> d_IP d0 = d_IP d)"
    if "mget ?e k = Some d" "d_IP d \<noteq> []" for k d
    using that unfolding emit_devices(1) [OF ok False]
    by (auto split: if_splits option.splits dest: cleared)
  show ?thesis
  proof (rule one_holderI)
    fix k k' d d'
    assume d: "mget ?e k = Some d" and d': "mget ?e k' = Some d'" and e: "d_IP d' = d_IP d" and ne: "d_IP d \<noteq> []"
    have "d_IP d' \<noteq> []" using e ne by simp
    with ip [OF d ne] ip [OF d'] e ne have
      "k = t_mac t \<and> k' = t_mac t \<or>
       (\<exists>d0 d0'. mget (e_devices st) k = Some d0 \<and> d_IP d0 = d_IP d \<and> mget (e_devices st) k' = Some d0' \<and> d_IP d0' = d_IP d)"
      by metis
    with ne one_holderD [OF u] show "k = k'" by blast
  qed
qed (use assms in \<open>simp add: emitDeviceFromTransaction_def\<close>)

section \<open>Where a reconciliation puts a device\<close>








section \<open>The operations together\<close>

text \<open>
  What can happen to a running module: a reconciliation, a DHCP transaction, an assignment, a choice on
  the captive page, the removal of a device, and new rules or zones.
\<close>

inductive enroll_step :: "regexps \<Rightarrow> enroll \<Rightarrow> enroll \<Rightarrow> bool" for rx where
  step_reconcile: "signals_ok signals \<Longrightarrow> enroll_step rx st (reconcile rx now signals st)"
| step_txn: "to_lower (t_mac t) = t_mac t \<Longrightarrow> enroll_step rx st (emitDeviceFromTransaction now t st)"
| step_assign: "enroll_step rx st (apiAssign now mac zone st)"
| step_captive: "enroll_step rx st (snd (captivePost now client zone st))"
| step_delete: "enroll_step rx st (snd (apiDeleteDeviceByMAC mac st))"
| step_rules: "enroll_step rx st (st\<lparr>e_rules := rules\<rparr>)"
| step_zones: "enroll_step rx st (st\<lparr>e_zones := zones\<rparr>)"

text \<open>
  Stored rows as saving writes them, each under the lower case hardware address it carries, with no
  address in two of them. A row of a removed device is not among those saving keeps in step, so this is
  what a start asks of the table it reads.
\<close>

definition stored_ok :: "registry \<Rightarrow> bool" where
  "stored_ok rows \<longleftrightarrow> mkeys_ok rows \<and> (\<forall>(k, d) \<in> set rows. d_MAC d = k \<and> to_lower k = k) \<and>
     (\<forall>(k, d) \<in> set rows. \<forall>(k', d') \<in> set rows. d_IP d = d_IP d' \<and> d_IP d \<noteq> [] \<longrightarrow> k = k')"

inductive enrolled :: "regexps \<Rightarrow> enroll \<Rightarrow> bool" for rx where
  enrolled_start: "e_devices st = [] \<Longrightarrow> stored_ok (e_stored st) \<Longrightarrow> enrolled rx (loadRegistry st)"
| enrolled_step: "enrolled rx st \<Longrightarrow> enroll_step rx st st' \<Longrightarrow> enrolled rx st'"

lemma load_rows_devices:
  assumes "mkeys_ok (e_devices st)" and "\<forall>(k, d) \<in> set rows. d_MAC d = k \<and> to_lower k = k"
  shows "mkeys_ok (e_devices (fold load_row rows st)) \<and>
    (\<forall>k d. mget (e_devices (fold load_row rows st)) k = Some d \<longrightarrow> mget (e_devices st) k = Some d \<or> (k, d) \<in> set rows)"
  using assms
proof (induction rows arbitrary: st)
  case (Cons x rows)
  obtain k0 r where x: "x = (k0, r)" by force
  have r: "d_MAC r = k0" "to_lower k0 = k0" using Cons.prems(2) by (simp_all add: x)
  have one: "mkeys_ok (e_devices (load_row x st))"
    "mget (e_devices (load_row x st)) k = Some d \<Longrightarrow> mget (e_devices st) k = Some d \<or> (k, d) = (k0, r)" for k d
    using Cons.prems(1) r by (auto simp: x load_row_def split: if_splits)
  have IH: "mkeys_ok (e_devices (fold load_row rows (load_row x st))) \<and>
    (\<forall>k d. mget (e_devices (fold load_row rows (load_row x st))) k = Some d \<longrightarrow>
       mget (e_devices (load_row x st)) k = Some d \<or> (k, d) \<in> set rows)"
    using Cons.prems(2) by (intro Cons.IH one(1)) simp
  show ?case
  proof (intro conjI allI impI)
    show "mkeys_ok (e_devices (fold load_row (x # rows) st))" using IH by simp
    fix k d assume "mget (e_devices (fold load_row (x # rows) st)) k = Some d"
    with IH have "mget (e_devices (load_row x st)) k = Some d \<or> (k, d) \<in> set rows" by simp
    with one(2) [of k d] show "mget (e_devices st) k = Some d \<or> (k, d) \<in> set (x # rows)" by (auto simp: x)
  qed
qed simp

lemma loadRegistry_ok:
  assumes "e_devices st = []" and ok: "stored_ok (e_stored st)"
  shows "registry_ok (loadRegistry st) \<and> one_holder (loadRegistry st)"
proof -
  have rows: "\<forall>(k, d) \<in> set (e_stored st). d_MAC d = k \<and> to_lower k = k" using ok by (simp add: stored_ok_def)
  have l: "mkeys_ok (e_devices (loadRegistry st)) \<and>
    (\<forall>k d. mget (e_devices (loadRegistry st)) k = Some d \<longrightarrow> (k, d) \<in> set (e_stored st))"
    using load_rows_devices [OF _ rows, of st] assms(1) by (simp add: loadRegistry_def mkeys_ok_def)
  have "registry_ok (loadRegistry st)" using l rows unfolding registry_ok_def by fastforce
  moreover have "one_holder (loadRegistry st)"
  proof (rule one_holderI)
    fix k k' d d'
    assume "mget (e_devices (loadRegistry st)) k = Some d" "mget (e_devices (loadRegistry st)) k' = Some d'"
      and e: "d_IP d' = d_IP d" "d_IP d \<noteq> []"
    with l have "(k, d) \<in> set (e_stored st)" "(k', d') \<in> set (e_stored st)" by blast+
    with ok e show "k = k'" unfolding stored_ok_def by fastforce
  qed
  ultimately show ?thesis ..
qed

lemma set_device:
  assumes "registry_ok st" and "one_holder st" and "d_MAC d = k" and "to_lower k = k"
    and "d_IP d = (case mget (e_devices st) k of Some d0 \<Rightarrow> d_IP d0 | None \<Rightarrow> [])"
  shows "registry_ok (saveDevice now k d st) \<and> one_holder (saveDevice now k d st)"
proof
  show "registry_ok (saveDevice now k d st)"
    using assms by (auto simp: registry_ok_def split: if_splits)
  have old: "\<exists>d0. mget (e_devices st) m = Some d0 \<and> d_IP d0 = d_IP d'"
    if "mget (e_devices (saveDevice now k d st)) m = Some d'" "d_IP d' \<noteq> []" for m d'
    using that assms(5) by (auto split: if_splits option.splits)
  show "one_holder (saveDevice now k d st)"
  proof (rule one_holderI)
    fix m m' x x'
    assume x: "mget (e_devices (saveDevice now k d st)) m = Some x" "mget (e_devices (saveDevice now k d st)) m' = Some x'"
      "d_IP x' = d_IP x" "d_IP x \<noteq> []"
    then show "m = m'" using old [of m x] old [of m' x'] one_holderD [OF assms(2)] by metis
  qed
qed

lemma apiAssign_ok:
  assumes "registry_ok st" and "one_holder st"
  shows "registry_ok (apiAssign now mac zone st) \<and> one_holder (apiAssign now mac zone st)"
proof -
  let ?d = "case mget (e_devices st) (to_lower mac) of Some d \<Rightarrow> d | None \<Rightarrow> blank_device\<lparr>d_MAC := to_lower mac\<rparr>"
  have "d_MAC ?d = to_lower mac \<and> d_IP ?d = (case mget (e_devices st) (to_lower mac) of Some d \<Rightarrow> d_IP d | None \<Rightarrow> [])"
    using assms(1) by (cases "mget (e_devices st) (to_lower mac)") (simp_all add: registry_ok_def blank_device_def)
  then show ?thesis
    unfolding apiAssign_def Let_def by (intro set_device assms) simp_all
qed

lemma captivePost_cases:
  obtains (refused) "snd (captivePost now client zone st) = st"
  | (counted) c where "snd (captivePost now client zone st) = st\<lparr>e_captiveRate := c\<rparr>"
  | (chosen) k d c where "mget (e_devices st) k = Some d" "hasZone (e_zones st) zone \<or> zone = []"
      "snd (captivePost now client zone st) =
         saveDevice now k (d\<lparr>d_Zone := zone, d_Pinned := 1\<rparr>) (st\<lparr>e_captiveRate := c\<rparr>)"
proof -
  let ?mac = "case find (\<lambda>(_, d). d_IP d = client) (e_devices st) of Some (_, d) \<Rightarrow> d_MAC d | None \<Rightarrow> []"
  let ?last = "case mget (e_captiveRate st) ?mac of Some t \<Rightarrow> t | None \<Rightarrow> 0"
  let ?c = "mput ?mac now (e_captiveRate st)"
  let ?ex = "case e_zones st of None \<Rightarrow> False | Some z \<Rightarrow> list_ex (\<lambda>z. z_ID z = zone) (zd_Zones z)"
  consider "?mac = [] \<or> now - ?last < 60"
    | "?mac \<noteq> []" "\<not> now - ?last < 60" "\<not> ?ex \<or> mget (e_devices st) (to_lower ?mac) = None"
    | d where "?mac \<noteq> []" "\<not> now - ?last < 60" "?ex" "mget (e_devices st) (to_lower ?mac) = Some d"
    by blast
  then show thesis
  proof cases
    case 1
    then have "snd (captivePost now client zone st) = st" unfolding captivePost_def Let_def by (auto simp only: if_True if_False snd_conv split: if_splits)
    then show ?thesis by (rule refused)
  next
    case 2
    then have "snd (captivePost now client zone st) = st\<lparr>e_captiveRate := ?c\<rparr>"
      unfolding captivePost_def Let_def by (cases "?ex") simp_all
    then show ?thesis by (rule counted)
  next
    case (3 d)
    then have "snd (captivePost now client zone st) =
        saveDevice now (to_lower ?mac) (d\<lparr>d_Zone := zone, d_Pinned := 1\<rparr>) (st\<lparr>e_captiveRate := ?c\<rparr>)"
      unfolding captivePost_def Let_def by simp
    moreover have "hasZone (e_zones st) zone \<or> zone = []"
      using 3(3) by (simp add: hasZone_def split: option.splits)
    ultimately show ?thesis using 3(4) by (intro chosen)
  qed
qed

lemma same_devices:
  "e_devices st' = e_devices st \<Longrightarrow> registry_ok st' = registry_ok st"
  "e_devices st' = e_devices st \<Longrightarrow> one_holder st' = one_holder st"
  unfolding registry_ok_def one_holder_def by simp_all

lemma captivePost_ok:
  assumes "registry_ok st" and "one_holder st"
  shows "registry_ok (snd (captivePost now client zone st)) \<and> one_holder (snd (captivePost now client zone st))"
proof -
  have rate: "registry_ok (st\<lparr>e_captiveRate := c\<rparr>)" "one_holder (st\<lparr>e_captiveRate := c\<rparr>)" for c
    using assms same_devices [of "st\<lparr>e_captiveRate := c\<rparr>" st] by simp_all
  show ?thesis
  proof (cases rule: captivePost_cases [of now client zone st])
    case (chosen k d c)
    have "d_MAC d = k" "to_lower k = k" using chosen(1) assms(1) by (simp_all add: registry_ok_def)
    then show ?thesis
      unfolding chosen(3) using chosen(1) by (intro set_device rate) simp_all
  qed (simp_all add: assms rate)
qed

lemma apiDelete_ok:
  assumes "registry_ok st" and "one_holder st"
  shows "registry_ok (snd (apiDeleteDeviceByMAC mac st)) \<and> one_holder (snd (apiDeleteDeviceByMAC mac st))"
proof -
  let ?st = "st\<lparr>e_devices := mdel mac (e_devices st)\<rparr>"
  have "registry_ok ?st" using assms(1) by (simp add: registry_ok_def)
  moreover have "one_holder ?st"
  proof (rule one_holderI)
    fix k k' d d'
    assume "mget (e_devices ?st) k = Some d" "mget (e_devices ?st) k' = Some d'" and e: "d_IP d' = d_IP d" "d_IP d \<noteq> []"
    then have "mget (e_devices st) k = Some d" "mget (e_devices st) k' = Some d'" by (simp_all split: if_splits)
    from one_holderD [OF assms(2) this refl e] show "k = k'" .
  qed
  ultimately show ?thesis unfolding apiDeleteDeviceByMAC_def using assms by simp
qed

lemma enroll_step_ok:
  assumes "enroll_step rx st st'" and ok: "registry_ok st" "one_holder st"
  shows "registry_ok st' \<and> one_holder st'"
  using assms
proof (cases rule: enroll_step.cases)
  case (step_rules rules)
  then show ?thesis using ok same_devices [of st' st] by simp
next
  case (step_zones zones)
  then show ?thesis using ok same_devices [of st' st] by simp
qed (use ok in \<open>simp_all add: reconcile_registry_ok round_one_holder emit_registry_ok emit_one_holder
    apiAssign_ok captivePost_ok apiDelete_ok\<close>)

lemma enrolled_ok: "enrolled rx st \<Longrightarrow> registry_ok st \<and> one_holder st"
proof (induction rule: enrolled.induct)
  case (enrolled_start st)
  then show ?case by (rule loadRegistry_ok)
qed (use enroll_step_ok in blast)

text \<open>The signals of a round are keyed by addresses in lower case.\<close>

lemma signals_ok_keys: "signals_ok s \<longleftrightarrow> mkeys_ok s \<and> (\<forall>mac \<in> mkeys s. mac \<noteq> [] \<and> to_lower mac = mac)"
  by (auto simp: signals_ok_def mkeys_def)

lemma signals_ok_mput: "signals_ok s \<Longrightarrow> mac \<noteq> [] \<Longrightarrow> to_lower mac = mac \<Longrightarrow> signals_ok (mput mac sig s)"
  by (simp add: signals_ok_keys)

lemma hosts_ok: "signals_ok s \<Longrightarrow> signals_ok (fold add_host rows s)"
  by (induction rows arbitrary: s) (simp_all add: add_host_def Let_def signals_ok_mput)

lemma vendors_ok: "signals_ok s \<Longrightarrow> signals_ok (map (\<lambda>(mac, sig). (mac, g mac sig)) s)"
proof -
  have "fst \<circ> (\<lambda>(mac, sig). (mac, g mac sig)) = fst" by (simp add: fun_eq_iff split: prod.splits)
  then show "signals_ok s \<Longrightarrow> ?thesis" by (simp add: signals_ok_keys mkeys_ok_def mkeys_def image_comp)
qed

lemma txns_ok:
  "signals_ok s \<Longrightarrow> \<forall>(_, t) \<in> set txns. to_lower (t_mac t) = t_mac t \<Longrightarrow> signals_ok (fold (\<lambda>(_, t). add_txn t) txns s)"
  by (induction txns arbitrary: s) (auto simp: add_txn_def signals_ok_mput)

lemma gatherSignals_ok:
  assumes "\<forall>(_, t) \<in> set txns. to_lower (t_mac t) = t_mac t"
  shows "signals_ok (gatherSignals rows vendor txns)"
proof -
  have "signals_ok []" by (simp add: signals_ok_def mkeys_ok_def)
  from hosts_ok [OF this] have "signals_ok (fold add_host rows [])" .
  then show ?thesis
    unfolding gatherSignals_def Let_def by (cases vendor) (auto intro!: txns_ok vendors_ok assms)
qed

text \<open>
  C7: from a start on stored rows that record no address twice, and through every round, transaction,
  assignment, choice on the captive page and removal, each device is kept under its own hardware
  address, in lower case, and no two devices are recorded behind one address (the text of the address
  field, when it is not empty).
\<close>

theorem one_device_per_address:
  assumes "enrolled rx st" and "mget (e_devices st) k = Some d"
  shows "d_MAC d = k \<and> to_lower k = k \<and>
    (\<forall>k' d'. mget (e_devices st) k' = Some d' \<and> d_IP d' = d_IP d \<and> d_IP d \<noteq> [] \<longrightarrow> k' = k)"
proof -
  have ok: "registry_ok st" "one_holder st" using enrolled_ok [OF assms(1)] by simp_all
  have "d_MAC d = k \<and> to_lower k = k" using ok(1) assms(2) by (simp add: registry_ok_def)
  with one_holderD [OF ok(2) _ assms(2)] show ?thesis by blast
qed

definition new_module :: enroll where
  "new_module = \<lparr>e_devices = [], e_stored = [], e_zones = None, e_rules = [], e_pending = [], e_captiveRate = []\<rparr>"

definition lease :: txn where
  "lease = \<lparr>t_mac = ''aa'', t_ip = ''10.0.0.5'', t_hostname = [], t_vendorClass = [], t_fingerprint = [], t_lastActivity = 7\<rparr>"

lemma enrolled_new: "enrolled rx new_module"
  using enrolled_start [of new_module rx]
  by (simp add: new_module_def stored_ok_def mkeys_ok_def loadRegistry_def)

theorem one_device_per_address_witness:
  "\<exists>d. mget (e_devices (emitDeviceFromTransaction 7 lease new_module)) ''aa'' = Some d \<and> d_IP d = ''10.0.0.5'' \<and> d_MAC d = ''aa''"
proof -
  let ?st = "emitDeviceFromTransaction 7 lease new_module"
  have "enrolled (\<lambda>_. None) ?st"
    by (rule enrolled_step [OF enrolled_new step_txn]) (simp add: lease_def to_lower_def to_lower_char_def)
  moreover have "mget (e_devices ?st) ''aa'' = Some (saved 7 (of_txn 7 lease new_module\<lparr>d_LastSeen := 7\<rparr>))"
    by (subst emit_devices) (simp_all add: new_module_def lease_def mkeys_ok_def)
  moreover have "d_IP (saved 7 (of_txn 7 lease new_module\<lparr>d_LastSeen := 7\<rparr>)) = ''10.0.0.5''" by (simp add: lease_def)
  ultimately show ?thesis using one_device_per_address [of "\<lambda>_. None" ?st "''aa''"] by auto
qed

text \<open>
  After a round every address a signal reported is recorded for a device: taking it from the others
  never loses it.
\<close>

theorem reported_address_held:
  assumes "enrolled rx st" and "(m, sig) \<in> set signals" and "s_IP sig \<noteq> []"
    and "\<forall>(_, t) \<in> set txns. to_lower (t_mac t) = t_mac t" and "signals = gatherSignals rows vendor txns"
  shows "\<exists>k d. mget (e_devices (reconcile rx now signals st)) k = Some d \<and> d_IP d = s_IP sig"
  using enrolled_ok [OF assms(1)] gatherSignals_ok [OF assms(4)] assms(2,3,5) by (intro reported_held) auto

theorem reported_address_held_witness:
  "\<exists>k d. mget (e_devices (reconcile (\<lambda>_. None) 9 (gatherSignals [] None [(''1'', lease)]) new_module)) k = Some d \<and> d_IP d = ''10.0.0.5''"
proof -
  have e: "enrolled (\<lambda>_. None) new_module" by (rule enrolled_new)
  have g: "gatherSignals [] None [(''1'', lease)] = [(''aa'', no_signal\<lparr>s_IP := ''10.0.0.5''\<rparr>)]"
    by (simp add: gatherSignals_def add_txn_def lease_def txn_signal_def no_signal_def mget_def mput_def)
  have "\<forall>(_, t) \<in> set [(''1'', lease)]. to_lower (t_mac t) = t_mac t"
    by (simp add: lease_def to_lower_def to_lower_char_def)
  from reported_address_held [OF e _ _ this refl, of "''aa''" "no_signal\<lparr>s_IP := ''10.0.0.5''\<rparr>" "[]" None 9] g
  show ?thesis by simp
qed




section \<open>What goes wrong\<close>

text \<open>
  The captive page offers the zones marked for self service, but takes any zone that exists, whatever
  their marks: a captive client can place itself in every zone. A pin does not hold it either.
\<close>

lemma captive_takes_any_zone:
  assumes "find (\<lambda>(_, d). d_IP d = client) (e_devices st) = Some (k, d)" and "registry_ok st" and "k \<noteq> []"
    and "mget (e_devices st) k = Some d" and "mget (e_captiveRate st) k = None" and "60 \<le> now"
    and "e_zones st = Some z" and "list_ex (\<lambda>z. z_ID z = zone \<and> \<not> z_SelfService z) (zd_Zones z)"
  shows "fst (captivePost now client zone st) = Inr () \<and>
    (\<exists>d'. mget (e_devices (snd (captivePost now client zone st))) k = Some d' \<and> d_Zone d' = zone)"
proof -
  have k: "d_MAC d = k" "to_lower k = k" using assms(2,4) by (auto simp: registry_ok_def)
  have "list_ex (\<lambda>z. z_ID z = zone) (zd_Zones z)" using assms(8) by (auto simp: list_ex_iff)
  with assms k show ?thesis by (simp add: captivePost_def Let_def)
qed

text \<open>Removing a device leaves its row, which the next start loads again.\<close>

lemma removed_device_stays_stored: "e_stored (snd (apiDeleteDeviceByMAC mac st)) = e_stored st"
  by (simp add: apiDeleteDeviceByMAC_def)

end
