(* ===== verification/Allocator.thy ===== *)
theory Allocator
  imports NetText
begin

text \<open>
  \<^verbatim>\<open>internal/modules/enroll/allocator.go\<close>: the addresses of a zone's range and who holds them.
  The search for a free address increments the address in place, byte by byte, with the carry of
  8-bit arithmetic, until it is free or past the end; nothing in the code bounds it, so it is a
  partial function and that it returns is a theorem. Reading addresses as numbers in base 256
  shows what it finds: the lowest free address of the range.
\<close>

section \<open>The allocator\<close>

fun carry :: "bytes \<Rightarrow> bytes" where
  "carry [] = []"
| "carry (b # r) = (if b + 1 \<noteq> 0 then (b + 1) # r else 0 # carry r)"

definition ipIncrement :: "bytes \<Rightarrow> bytes" where
  "ipIncrement ip = rev (carry (rev ip))"

fun ipLessOrEqual :: "bytes \<Rightarrow> bytes \<Rightarrow> bool" where
  "ipLessOrEqual [] b = True"
| "ipLessOrEqual (x # a) [] = False"
| "ipLessOrEqual (x # a) (y # b) = (if x < y then True else if x > y then False else ipLessOrEqual a b)"

record allocator =
  al_network :: ipnet
  al_start :: bytes
  al_end :: bytes
  al_next :: bytes
  al_used :: "(string, bytes) gomap"

definition NewAllocator :: "string \<Rightarrow> string \<Rightarrow> string \<Rightarrow> allocator option" where
  "NewAllocator subnet startStr endStr =
     (case parse_cidr subnet of
        None \<Rightarrow> None
      | Some (_, network) \<Rightarrow>
          (case (parse_ip startStr, parse_ip endStr) of
             (Some s, Some e) \<Rightarrow>
               let (s', e') = (case to4 s of Some v \<Rightarrow> (v, case to4 e of Some w \<Rightarrow> w | None \<Rightarrow> []) | None \<Rightarrow> (s, e))
               in Some \<lparr>al_network = network, al_start = s', al_end = e', al_next = s', al_used = []\<rparr>
           | _ \<Rightarrow> None))"

definition isUsed :: "(string, bytes) gomap \<Rightarrow> bytes \<Rightarrow> bool" where
  "isUsed used ip = list_ex (\<lambda>(_, allocated). ip_equal allocated ip) used"

text \<open>The loop of \<^verbatim>\<open>Allocate\<close>: not returning is \<^const>\<open>None\<close>, no address \<open>Some None\<close>.\<close>

partial_function (option) search :: "(string, bytes) gomap \<Rightarrow> bytes \<Rightarrow> bytes \<Rightarrow> bytes option option" where
  "search used e ip =
     (if ipLessOrEqual ip e then
        if \<not> isUsed used ip then Some (Some ip) else search used e (ipIncrement ip)
      else Some None)"

definition Allocate :: "allocator option \<Rightarrow> string \<Rightarrow> ((string + string) \<times> allocator option) option" where
  "Allocate al mac =
     (case al of
        None \<Rightarrow> Some (Inl ''allocator nil'', None)
      | Some a \<Rightarrow>
          (case mget (al_used a) mac of
             Some ip \<Rightarrow> Some (Inr (ip_string ip), Some a)
           | None \<Rightarrow>
               map_option (\<lambda>r. case r of
                   Some ip \<Rightarrow> (Inr (ip_string ip), Some (a\<lparr>al_used := mput mac ip (al_used a)\<rparr>))
                 | None \<Rightarrow> (Inl ''no free addresses in range'', Some a))
                 (search (al_used a) (al_end a) (al_start a))))"

text \<open>A text that is no address becomes the address of no bytes.\<close>

definition LoadReservations :: "(string \<times> string) list \<Rightarrow> allocator \<Rightarrow> allocator" where
  "LoadReservations rs a =
     a\<lparr>al_used := fold (\<lambda>(mac, ip). mput mac (case parse_ip ip of Some b \<Rightarrow> b | None \<Rightarrow> [])) rs (al_used a)\<rparr>"

definition Allocations :: "allocator \<Rightarrow> (string \<times> string) list" where
  "Allocations a = map (\<lambda>(mac, ip). (mac, ip_string ip)) (al_used a)"

section \<open>Addresses as numbers\<close>

fun le_val :: "bytes \<Rightarrow> nat" where
  "le_val [] = 0"
| "le_val (b # r) = unat b + 256 * le_val r"

definition ip_val :: "bytes \<Rightarrow> nat" where
  "ip_val ip = le_val (rev ip)"

lemma unat_u8 [simp]: "unat (b :: u8) < 256"
  using unsigned_less [of b] by simp

lemma le_val_bound: "le_val r < 256 ^ length r"
proof (induction r)
  case (Cons b r)
  have "unat b < 256" by simp
  then have "unat b + 256 * le_val r < 256 * (le_val r + 1)" by simp
  also have "\<dots> \<le> 256 * 256 ^ length r" using Cons by (intro mult_le_mono2) simp
  finally show ?case by simp
qed simp

lemma le_val_append: "le_val (r @ s) = le_val r + 256 ^ length r * le_val s"
  by (induction r) (simp_all add: algebra_simps)

lemma le_val_digits:
  assumes "a < 256" and "b < 256"
  shows "a + 256 * m = b + 256 * n \<longleftrightarrow> a = b \<and> m = (n :: nat)"
proof
  assume e: "a + 256 * m = b + 256 * n"
  have "(a + 256 * m) mod 256 = a" "(b + 256 * n) mod 256 = b"
    "(a + 256 * m) div 256 = m" "(b + 256 * n) div 256 = n"
    using assms by simp_all
  with e show "a = b \<and> m = n" by metis
qed simp

lemma le_val_inj: "length r = length s \<Longrightarrow> le_val r = le_val s \<longleftrightarrow> r = s"
proof (induction r s rule: list_induct2)
  case (Cons x xs y ys)
  have "le_val (x # xs) = le_val (y # ys) \<longleftrightarrow> unat x = unat y \<and> le_val xs = le_val ys"
    using le_val_digits [OF unat_u8 unat_u8, of x "le_val xs" y "le_val ys"] by simp
  with Cons.IH show ?case by (simp add: word_unat_eq_iff)
qed simp

lemma le_val_carry: "le_val (carry r) = (le_val r + 1) mod 256 ^ length r"
proof (induction r)
  case (Cons b r)
  have u: "unat (b + 1) = (unat b + 1) mod 256" by (simp add: unat_word_ariths)
  show ?case
  proof (cases "b + 1 = 0")
    case True
    then have "(unat b + 1) mod 256 = 0" using u by simp
    then have "unat b = 255" using unat_u8 [of b] by (cases "unat b + 1 = 256") auto
    with True Cons show ?thesis by (simp add: mult_mod_right)
  next
    case False
    then have "unat (b + 1) \<noteq> 0" by (simp add: unat_eq_zero)
    with u have "unat b + 1 \<noteq> 256" by auto
    with unat_u8 [of b] have "unat b + 1 < 256" by linarith
    with u have v: "unat (b + 1) = unat b + 1" by simp
    with False le_val_bound [of "(b + 1) # r"] show ?thesis by simp
  qed
qed simp

lemma length_carry [simp]: "length (carry r) = length r"
  by (induction r) simp_all

lemma length_ipIncrement [simp]: "length (ipIncrement ip) = length ip"
  by (simp add: ipIncrement_def)

lemma ip_val_bound: "ip_val ip < 256 ^ length ip"
  using le_val_bound [of "rev ip"] by (simp add: ip_val_def)

lemma ip_val_inj: "length a = length b \<Longrightarrow> ip_val a = ip_val b \<longleftrightarrow> a = b"
  using le_val_inj [of "rev a" "rev b"] by (simp add: ip_val_def)

lemma ip_val_Cons: "ip_val (x # a) = unat x * 256 ^ length a + ip_val a"
  by (simp add: ip_val_def le_val_append)

lemma ip_val_increment: "ip_val (ipIncrement ip) = (ip_val ip + 1) mod 256 ^ length ip"
  by (simp add: ip_val_def ipIncrement_def le_val_carry)

lemma ipLessOrEqual_val: "length a = length b \<Longrightarrow> ipLessOrEqual a b \<longleftrightarrow> ip_val a \<le> ip_val b"
proof (induction a b rule: list_induct2)
  case (Cons x a y b)
  have a: "ip_val a < 256 ^ length b" using ip_val_bound [of a] Cons.hyps by simp
  have b: "ip_val b < 256 ^ length b" by (rule ip_val_bound)
  have lt: "p * 256 ^ length b + ip_val u < q * 256 ^ length b + ip_val v"
    if "p < q" "ip_val u < 256 ^ length b" for p q :: nat and u v
  proof -
    have "p * 256 ^ length b + 256 ^ length b \<le> q * 256 ^ length b"
      using mult_le_mono1 [of "Suc p" q "256 ^ length b"] that(1) by simp
    with that(2) show ?thesis by linarith
  qed
  show ?case
  proof (cases x y rule: linorder_cases)
    case less
    with lt [of "unat x" "unat y" a b] a Cons.hyps show ?thesis by (simp add: ip_val_Cons word_less_nat_alt)
  next
    case equal
    with Cons show ?thesis by (simp add: ip_val_Cons)
  next
    case greater
    with lt [of "unat y" "unat x" b a] b Cons.hyps show ?thesis by (simp add: ip_val_Cons word_less_nat_alt)
  qed
qed simp

text \<open>The k-th address tried.\<close>

definition tried :: "bytes \<Rightarrow> nat \<Rightarrow> bytes" where
  "tried ip k = (ipIncrement ^^ k) ip"

lemma tried_0 [simp]: "tried ip 0 = ip"
  by (simp add: tried_def)

lemma tried_Suc: "tried ip (Suc k) = tried (ipIncrement ip) k"
  by (simp add: tried_def funpow_swap1)

lemma length_tried [simp]: "length (tried ip k) = length ip"
  by (induction k arbitrary: ip) (simp_all add: tried_Suc)

lemma ip_val_tried: "ip_val (tried ip k) = (ip_val ip + k) mod 256 ^ length ip"
proof (induction k arbitrary: ip)
  case 0
  then show ?case using ip_val_bound [of ip] by simp
next
  case (Suc k)
  then show ?case by (simp add: tried_Suc ip_val_increment mod_simps)
qed

lemma mod_add_less:
  assumes "(a + i) mod n = (a + j) mod n" and "i \<le> j" and "j < (n :: nat)"
  shows "i = j"
proof -
  have "n dvd (a + j) - (a + i)"
    using mod_eq_dvd_iff_nat [of "a + i" "a + j" n] assms by simp
  then obtain k where k: "j - i = n * k" using assms(2) by (auto simp: dvd_def)
  then show ?thesis using assms(2,3) by (cases k) simp_all
qed

lemma tried_inj:
  assumes "tried ip i = tried ip j" and "i < 256 ^ length ip" and "j < 256 ^ length ip"
  shows "i = j"
proof -
  have e: "(ip_val ip + i) mod 256 ^ length ip = (ip_val ip + j) mod 256 ^ length ip"
    unfolding ip_val_tried [symmetric] assms(1) ..
  show ?thesis
    using mod_add_less [OF e _ assms(3)] mod_add_less [OF e [symmetric] _ assms(2)]
    by (cases "i \<le> j") simp_all
qed

section \<open>The search returns\<close>

lemma ip_equal_same:
  assumes "ip_equal u a" and "ip_equal u b" and "length a = length b"
  shows "a = b"
proof -
  have "a = b" if "take 12 a = take 12 b" "drop 12 a = drop 12 b"
    using that by (metis append_take_drop_id)
  with assms show ?thesis
    by (auto simp: ip_equal_def to4_def split: option.splits if_splits)
qed

lemma isUsed_iff: "isUsed used ip \<longleftrightarrow> (\<exists>u \<in> snd ` set used. ip_equal u ip)"
  by (force simp: isUsed_def list_ex_iff)

text \<open>One of the first addresses is free: each address in use rules out one at most.\<close>

lemma some_free:
  assumes "length used < 256 ^ length ip"
  shows "\<exists>k \<le> length used. \<not> isUsed used (tried ip k)"
proof (rule ccontr)
  assume "\<not> ?thesis"
  then have "\<forall>k \<in> {..length used}. \<exists>u \<in> snd ` set used. ip_equal u (tried ip k)"
    by (auto simp: isUsed_iff)
  then obtain h where h: "\<forall>k \<in> {..length used}. h k \<in> snd ` set used \<and> ip_equal (h k) (tried ip k)"
    by (metis (no_types) bchoice)
  have "inj_on h {..length used}"
  proof (rule inj_onI)
    fix i j assume ij: "i \<in> {..length used}" "j \<in> {..length used}" "h i = h j"
    with bspec [OF h ij(1)] bspec [OF h ij(2)]
    have "ip_equal (h i) (tried ip i)" "ip_equal (h i) (tried ip j)" by simp_all
    then have "tried ip i = tried ip j" by (rule ip_equal_same) simp
    with ij assms show "i = j" by (intro tried_inj) auto
  qed
  moreover have "h ` {..length used} \<subseteq> snd ` set used" using h by auto
  ultimately have "card {..length used} \<le> card (snd ` set used)" by (intro card_inj_on_le) auto
  also have "\<dots> \<le> length used" using card_image_le [of "set used" snd] card_length [of used] by simp
  finally show False by simp
qed

text \<open>The search stops at the first address that is free or past the end.\<close>

lemma search_first:
  assumes "\<And>i. i < k \<Longrightarrow> ipLessOrEqual (tried ip i) e \<and> isUsed used (tried ip i)"
    and "\<not> ipLessOrEqual (tried ip k) e \<or> \<not> isUsed used (tried ip k)"
  shows "search used e ip = Some (if ipLessOrEqual (tried ip k) e then Some (tried ip k) else None)"
  using assms
proof (induction k arbitrary: ip)
  case 0
  then show ?case by (subst search.simps) auto
next
  case (Suc k)
  have "ipLessOrEqual ip e" "isUsed used ip" using Suc.prems(1) [of 0] by simp_all
  moreover have "search used e (ipIncrement ip) =
      Some (if ipLessOrEqual (tried (ipIncrement ip) k) e then Some (tried (ipIncrement ip) k) else None)"
  proof (rule Suc.IH)
    show "ipLessOrEqual (tried (ipIncrement ip) i) e \<and> isUsed used (tried (ipIncrement ip) i)" if "i < k" for i
      using Suc.prems(1) [of "Suc i"] that by (simp add: tried_Suc)
    show "\<not> ipLessOrEqual (tried (ipIncrement ip) k) e \<or> \<not> isUsed used (tried (ipIncrement ip) k)"
      using Suc.prems(2) by (simp add: tried_Suc)
  qed
  ultimately show ?case by (subst search.simps) (simp add: tried_Suc)
qed

lemma search_returns:
  assumes "length used < 256 ^ length ip"
  obtains k where "k \<le> length used"
    "\<And>i. i < k \<Longrightarrow> ipLessOrEqual (tried ip i) e \<and> isUsed used (tried ip i)"
    "search used e ip = Some (if ipLessOrEqual (tried ip k) e then Some (tried ip k) else None)"
    "ipLessOrEqual (tried ip k) e \<Longrightarrow> \<not> isUsed used (tried ip k)"
proof -
  let ?P = "\<lambda>k. \<not> ipLessOrEqual (tried ip k) e \<or> \<not> isUsed used (tried ip k)"
  obtain m where m: "m \<le> length used" "?P m" using some_free [OF assms] by blast
  define k where "k = (LEAST k. ?P k)"
  have p: "?P k" unfolding k_def using m(2) by (rule LeastI)
  have le: "k \<le> m" unfolding k_def using m(2) by (rule Least_le)
  have b: "ipLessOrEqual (tried ip i) e \<and> isUsed used (tried ip i)" if "i < k" for i
    using not_less_Least [of i ?P] that unfolding k_def by blast
  show thesis
    using that [of k] le m(1) b search_first [OF b p] p by auto
qed

section \<open>What is found\<close>

definition range_ok :: "allocator \<Rightarrow> bool" where
  "range_ok a \<longleftrightarrow> length (al_start a) = length (al_end a) \<and> (\<exists>b \<in> set (al_end a). b \<noteq> 255)"

lemma ip_val_ones: "ip_val ip + 1 = 256 ^ length ip \<Longrightarrow> b \<in> set ip \<Longrightarrow> b = 255"
proof (induction ip)
  case (Cons x ip)
  have "ip_val ip < 256 ^ length ip" by (rule ip_val_bound)
  then have "ip_val ip + 1 \<le> 256 ^ length ip" by simp
  moreover have "unat x \<le> 255" using unat_u8 [of x] by linarith
  then have "unat x * 256 ^ length ip \<le> 255 * 256 ^ length ip" by (rule mult_le_mono1)
  moreover have "unat x * 256 ^ length ip + ip_val ip + 1 = 256 * 256 ^ length ip"
    using Cons.prems(1) by (simp add: ip_val_Cons)
  ultimately have "unat x * 256 ^ length ip = 255 * 256 ^ length ip" "ip_val ip + 1 = 256 ^ length ip"
    by linarith+
  then have "unat x = 255" "b \<in> set ip \<Longrightarrow> b = 255" using Cons.IH by simp_all
  then have "x = 255" "b \<in> set ip \<Longrightarrow> b = 255" by (simp_all add: word_unat_eq_iff)
  with Cons.prems(2) show ?case by auto
qed simp

lemma range_ok_val: "range_ok a \<Longrightarrow> ip_val (al_end a) + 1 < 256 ^ length (al_start a)"
  using ip_val_ones [of "al_end a"] ip_val_bound [of "al_end a"] unfolding range_ok_def
  by (metis Suc_eq_plus1 Suc_lessI)

definition free_in :: "(string, bytes) gomap \<Rightarrow> bytes \<Rightarrow> bytes \<Rightarrow> bytes \<Rightarrow> bool" where
  "free_in used s e y \<longleftrightarrow> length y = length s \<and> ip_val s \<le> ip_val y \<and> ip_val y \<le> ip_val e \<and> \<not> isUsed used y"

lemma search_lowest:
  assumes l: "length ip = length e" and e: "ip_val e + 1 < 256 ^ length ip" and u: "length used < 256 ^ length ip"
  obtains (found) x where "search used e ip = Some (Some x)" "free_in used ip e x"
      "\<And>y. free_in used ip e y \<Longrightarrow> ip_val x \<le> ip_val y"
  | (none) "search used e ip = Some None" "\<And>y. \<not> free_in used ip e y"
proof -
  obtain k where k: "k \<le> length used"
    "\<And>i. i < k \<Longrightarrow> ipLessOrEqual (tried ip i) e \<and> isUsed used (tried ip i)"
    "search used e ip = Some (if ipLessOrEqual (tried ip k) e then Some (tried ip k) else None)"
    "ipLessOrEqual (tried ip k) e \<Longrightarrow> \<not> isUsed used (tried ip k)"
    using search_returns [OF u, of e] by metis
  have le: "ipLessOrEqual (tried ip i) e \<longleftrightarrow> ip_val (tried ip i) \<le> ip_val e" for i
    using l by (simp add: ipLessOrEqual_val)
  have val: "i \<le> k \<Longrightarrow> ip_val (tried ip i) = ip_val ip + i" for i
  proof (induction i)
    case (Suc i)
    then have v: "ip_val (tried ip i) = ip_val ip + i" and "ip_val (tried ip i) \<le> ip_val e"
      using k(2) [of i] le by auto
    with e have "ip_val ip + Suc i < 256 ^ length ip" by simp
    then show ?case by (simp add: ip_val_tried)
  qed simp
  have y: "isUsed used y" if "length y = length ip" "ip_val ip \<le> ip_val y" "ip_val y < ip_val ip + k" for y
  proof -
    let ?i = "ip_val y - ip_val ip"
    have "?i < k" using that by simp
    moreover from this have "ip_val (tried ip ?i) = ip_val y" using val [of ?i] that(2) by simp
    then have "tried ip ?i = y" using that(1) by (simp add: ip_val_inj)
    ultimately show ?thesis using k(2) [of ?i] by simp
  qed
  show thesis
  proof (cases "ipLessOrEqual (tried ip k) e")
    case True
    have "free_in used ip e (tried ip k)"
      using True k(4) le val [of k] by (simp add: free_in_def)
    moreover have "ip_val (tried ip k) \<le> ip_val z" if "free_in used ip e z" for z
      using y [of z] that val [of k] by (fastforce simp: free_in_def)
    ultimately show thesis using found True k(3) by simp
  next
    case False
    have "\<not> free_in used ip e z" for z
      using y [of z] False le [of k] val [of k] by (fastforce simp: free_in_def)
    with none False k(3) show thesis by simp
  qed
qed

section \<open>Sequences of requests\<close>

fun allocate_all :: "string list \<Rightarrow> allocator \<Rightarrow> ((string + string) list \<times> allocator) option" where
  "allocate_all [] a = Some ([], a)"
| "allocate_all (m # ms) a =
     (case Allocate (Some a) m of
        Some (r, Some a') \<Rightarrow> map_option (\<lambda>(rs, b). (r # rs, b)) (allocate_all ms a')
      | _ \<Rightarrow> None)"

definition pool_ok :: "allocator \<Rightarrow> bool" where
  "pool_ok a \<longleftrightarrow> length (al_start a) \<in> {4, 16} \<and>
     (\<forall>m x. mget (al_used a) m = Some x \<longrightarrow> length x = length (al_start a)) \<and>
     (\<forall>m m' x. mget (al_used a) m = Some x \<and> mget (al_used a) m' = Some x \<longrightarrow> m = m')"

lemma ip_equal_refl [simp]: "ip_equal x x"
  by (simp add: ip_equal_def split: option.splits)

lemma used_is_used: "mget used m = Some x \<Longrightarrow> isUsed used x"
  by (force simp: isUsed_iff mget_def dest: map_of_SomeD)

lemma NewAllocator_pool: "NewAllocator subnet s e = Some a \<Longrightarrow> pool_ok a \<and> al_used a = []"
  by (auto simp: NewAllocator_def pool_ok_def parse_ip_def as16_def Let_def v4_prefix_def
      split: option.splits prod.splits if_splits dest!: length_parse_addr length_to4)

lemma search_unused:
  assumes "length used < 256 ^ length ip"
  obtains (found) x where "search used e ip = Some (Some x)" "length x = length ip" "\<not> isUsed used x"
  | (none) "search used e ip = Some None"
proof -
  obtain k where "search used e ip = Some (if ipLessOrEqual (tried ip k) e then Some (tried ip k) else None)"
    "ipLessOrEqual (tried ip k) e \<Longrightarrow> \<not> isUsed used (tried ip k)"
    using search_returns [OF assms, of e] by metis
  with found [of "tried ip k"] none show thesis by (cases "ipLessOrEqual (tried ip k) e") simp_all
qed

text \<open>One request: what is held stays held, and the answer is what the requester then holds.\<close>

lemma Allocate_step:
  assumes "pool_ok a" and "length (al_used a) < 256 ^ length (al_start a)"
  obtains r b where "Allocate (Some a) m = Some (r, Some b)" "pool_ok b" "al_start b = al_start a"
    "length (al_used b) \<le> Suc (length (al_used a))"
    "\<And>m' x. mget (al_used a) m' = Some x \<Longrightarrow> mget (al_used b) m' = Some x"
    "\<And>t. r = Inr t \<Longrightarrow> \<exists>x. mget (al_used b) m = Some x \<and> t = ip_string x"
proof (cases "mget (al_used a) m")
  case (Some x)
  with assms that [of "Inr (ip_string x)" a] show thesis by (simp add: Allocate_def)
next
  case None
  from assms(2) show thesis
  proof (cases rule: search_unused [where e = "al_end a"])
    case (found x)
    let ?b = "a\<lparr>al_used := mput m x (al_used a)\<rparr>"
    have "pool_ok ?b"
      using assms(1) found(2,3) used_is_used unfolding pool_ok_def by (auto split: if_splits)
    moreover have "Allocate (Some a) m = Some (Inr (ip_string x), Some ?b)"
      using None found(1) by (simp add: Allocate_def)
    ultimately show thesis
      using None by (intro that [of "Inr (ip_string x)" ?b]) (auto simp: length_mput_le)
  next
    case none
    with None assms that [of "Inl ''no free addresses in range''" a] show thesis by (simp add: Allocate_def)
  qed
qed

lemma allocate_all_step:
  assumes "pool_ok a" and "length (al_used a) + length ms < 256 ^ length (al_start a)"
  obtains rs b where "allocate_all ms a = Some (rs, b)" "length rs = length ms" "pool_ok b"
    "\<And>m' x. mget (al_used a) m' = Some x \<Longrightarrow> mget (al_used b) m' = Some x"
    "\<And>i t. i < length ms \<Longrightarrow> rs ! i = Inr t \<Longrightarrow> \<exists>x. mget (al_used b) (ms ! i) = Some x \<and> t = ip_string x"
  using assms
proof (induction ms arbitrary: a thesis)
  case Nil
  then show ?case by simp
next
  case (Cons m ms)
  obtain r b where b: "Allocate (Some a) m = Some (r, Some b)" "pool_ok b" "al_start b = al_start a"
    "length (al_used b) \<le> Suc (length (al_used a))"
    "\<And>m' x. mget (al_used a) m' = Some x \<Longrightarrow> mget (al_used b) m' = Some x"
    "\<And>t. r = Inr t \<Longrightarrow> \<exists>x. mget (al_used b) m = Some x \<and> t = ip_string x"
    using Allocate_step [of a m] Cons.prems(2,3) by (metis add_lessD1)
  have "length (al_used b) + length ms < 256 ^ length (al_start b)" using b(3,4) Cons.prems(3) by simp
  then obtain rs c where c: "allocate_all ms b = Some (rs, c)" "length rs = length ms" "pool_ok c"
    "\<And>m' x. mget (al_used b) m' = Some x \<Longrightarrow> mget (al_used c) m' = Some x"
    "\<And>i t. i < length ms \<Longrightarrow> rs ! i = Inr t \<Longrightarrow> \<exists>x. mget (al_used c) (ms ! i) = Some x \<and> t = ip_string x"
    using Cons.IH [of b] b(2) by metis
  have "\<exists>x. mget (al_used c) ((m # ms) ! i) = Some x \<and> t = ip_string x"
    if "i < length (m # ms)" "(r # rs) ! i = Inr t" for i t
    using that b(6) c(4,5) by (cases i) auto
  with b(1,5) c show ?case by (intro Cons.prems(1) [of "r # rs" c]) auto
qed

lemma pool_texts:
  assumes "pool_ok a" and "mget (al_used a) m = Some x" and "mget (al_used a) m' = Some y"
  shows "ip_string x = ip_string y \<longleftrightarrow> m = m'"
proof
  assume e: "ip_string x = ip_string y"
  have l: "length x = length (al_start a)" "length y = length (al_start a)" "length (al_start a) \<in> {4, 16}"
    using assms by (auto simp: pool_ok_def)
  then have "as16 x = as16 y" using e parse_ip_ip_string [of x] parse_ip_ip_string [of y] by auto
  with l have "x = y" by (auto simp: as16_def)
  with assms show "m = m'" by (auto simp: pool_ok_def)
qed (use assms in auto)

section \<open>Results\<close>

text \<open>
  C10: every request returns: the search stops after at most one more try than there are addresses in
  use, although the loop itself has no bound and increments past the last address to the first.
\<close>

theorem Allocate_returns:
  assumes "length (al_used a) < 256 ^ length (al_start a)"
  shows "(\<exists>r. Allocate (Some a) mac = Some r) \<and>
    (\<exists>k \<le> length (al_used a). search (al_used a) (al_end a) (al_start a) =
       Some (if ipLessOrEqual (tried (al_start a) k) (al_end a) then Some (tried (al_start a) k) else None))"
proof -
  obtain k where k: "k \<le> length (al_used a)"
    "search (al_used a) (al_end a) (al_start a) =
       Some (if ipLessOrEqual (tried (al_start a) k) (al_end a) then Some (tried (al_start a) k) else None)"
    using search_returns [OF assms, of "al_end a"] by metis
  then show ?thesis by (auto simp: Allocate_def split: option.splits)
qed

definition home_pool :: allocator where
  "home_pool = \<lparr>al_network = \<lparr>net_ip = [192, 168, 0, 0], net_mask = [255, 255, 255, 0]\<rparr>,
     al_start = [192, 168, 0, 10], al_end = [192, 168, 0, 20], al_next = [192, 168, 0, 10],
     al_used = [(''aa'', [192, 168, 0, 10])]\<rparr>"

theorem Allocate_returns_witness: "\<exists>r. Allocate (Some home_pool) ''bb'' = Some r"
  using Allocate_returns [of home_pool "''bb''"] by (simp add: home_pool_def)

text \<open>
  C22: A device without an address gets the lowest free one of the range, and is refused exactly when
  none is free, for a range whose end is not all ones and fewer reservations than addresses.
\<close>

theorem Allocate_lowest:
  assumes "range_ok a" and "length (al_used a) < 256 ^ length (al_start a)" and "mget (al_used a) mac = None"
  shows "(\<exists>x. Allocate (Some a) mac = Some (Inr (ip_string x), Some (a\<lparr>al_used := mput mac x (al_used a)\<rparr>)) \<and>
        free_in (al_used a) (al_start a) (al_end a) x \<and>
        (\<forall>y. free_in (al_used a) (al_start a) (al_end a) y \<longrightarrow> ip_val x \<le> ip_val y)) \<or>
      (Allocate (Some a) mac = Some (Inl ''no free addresses in range'', Some a) \<and>
        (\<forall>y. \<not> free_in (al_used a) (al_start a) (al_end a) y))"
proof -
  have l: "length (al_start a) = length (al_end a)" using assms(1) by (simp add: range_ok_def)
  show ?thesis
    using l range_ok_val [OF assms(1)] assms(2)
    by (cases rule: search_lowest) (use assms(3) in \<open>auto simp: Allocate_def\<close>)
qed

theorem Allocate_lowest_witness:
  "\<exists>x. Allocate (Some home_pool) ''bb'' =
     Some (Inr (ip_string x), Some (home_pool\<lparr>al_used := mput ''bb'' x (al_used home_pool)\<rparr>))"
proof -
  have "range_ok home_pool" by (simp add: range_ok_def home_pool_def)
  moreover have "length (al_used home_pool) < 256 ^ length (al_start home_pool)" by (simp add: home_pool_def)
  moreover have "mget (al_used home_pool) ''bb'' = None" by (simp add: home_pool_def mget_def)
  moreover have "free_in (al_used home_pool) (al_start home_pool) (al_end home_pool) [192, 168, 0, 11]"
    by (simp add: free_in_def home_pool_def ip_val_def isUsed_def ip_equal_def to4_def)
  ultimately show ?thesis using Allocate_lowest [of home_pool "''bb''"] by blast
qed

text \<open>
  C21: from a fresh allocator, whatever devices ask in whatever order: every request returns, and two
  answers are the same address exactly when they are for the same device.
\<close>

theorem addresses_one_to_one:
  assumes "NewAllocator subnet startStr endStr = Some a" and "length macs < 2 ^ 32"
  shows "\<exists>rs b. allocate_all macs a = Some (rs, b) \<and> length rs = length macs \<and>
    (\<forall>i j t t'. i < length macs \<and> j < length macs \<and> rs ! i = Inr t \<and> rs ! j = Inr t' \<longrightarrow>
       (t = t' \<longleftrightarrow> macs ! i = macs ! j))"
proof -
  have a: "pool_ok a" "al_used a = []" using NewAllocator_pool [OF assms(1)] by simp_all
  then have "length (al_start a) \<in> {4, 16}" by (simp add: pool_ok_def)
  with a(2) assms(2) have "length (al_used a) + length macs < 256 ^ length (al_start a)" by auto
  from allocate_all_step [OF a(1) this] obtain rs b where
    b: "allocate_all macs a = Some (rs, b)" "length rs = length macs" "pool_ok b"
    "\<And>i t. i < length macs \<Longrightarrow> rs ! i = Inr t \<Longrightarrow> \<exists>x. mget (al_used b) (macs ! i) = Some x \<and> t = ip_string x"
    by metis
  have "t = t' \<longleftrightarrow> macs ! i = macs ! j"
    if "i < length macs" "j < length macs" "rs ! i = Inr t" "rs ! j = Inr t'" for i j t t'
    using b(4) [OF that(1,3)] b(4) [OF that(2,4)] pool_texts [OF b(3)] by auto
  with b(1,2) show ?thesis by blast
qed

theorem addresses_one_to_one_witness:
  "\<exists>a rs b. NewAllocator ''10.0.0.0/24'' ''10.0.0.1'' ''10.0.0.9'' = Some a \<and>
     allocate_all [''aa'', ''bb'', ''aa''] a = Some (rs, b) \<and> length rs = 3"
proof -
  have "parse_cidr ''10.0.0.0/24'' \<noteq> None" "parse_ip ''10.0.0.1'' \<noteq> None" "parse_ip ''10.0.0.9'' \<noteq> None"
    by code_simp+
  then obtain na n s e where n: "parse_cidr ''10.0.0.0/24'' = Some (na, n)" "parse_ip ''10.0.0.1'' = Some s" "parse_ip ''10.0.0.9'' = Some e"
    by auto
  obtain a where a: "NewAllocator ''10.0.0.0/24'' ''10.0.0.1'' ''10.0.0.9'' = Some a"
    by (cases "to4 s") (simp_all add: NewAllocator_def n split: prod.splits)
  then show ?thesis
    using addresses_one_to_one [OF a, of "[''aa'', ''bb'', ''aa'']"] by fastforce
qed

text \<open>
  What the range's last address is for: with 255.255.255.255 the increment wraps and addresses
  outside the range are handed out.
\<close>

definition top_pool :: allocator where
  "top_pool = \<lparr>al_network = \<lparr>net_ip = [255, 255, 255, 0], net_mask = [255, 255, 255, 0]\<rparr>,
     al_start = [255, 255, 255, 255], al_end = [255, 255, 255, 255], al_next = [255, 255, 255, 255],
     al_used = [(''aa'', [255, 255, 255, 255])]\<rparr>"

lemma wraps_past_end:
  "Allocate (Some top_pool) ''bb'' = Some (Inr (ip_string [0, 0, 0, 0]), Some (top_pool\<lparr>al_used := mput ''bb'' [0, 0, 0, 0] (al_used top_pool)\<rparr>))"
proof -
  have "search (al_used top_pool) (al_end top_pool) (al_start top_pool) = Some (Some [0, 0, 0, 0])"
    by (simp add: top_pool_def search.simps ipIncrement_def isUsed_def ip_equal_def to4_def)
  then show ?thesis by (simp add: Allocate_def top_pool_def mget_def)
qed

text \<open>A reservation whose address does not parse is answered with the text of no address, and no error.\<close>

lemma unparsable_reservation:
  assumes "parse_ip ip = None"
  shows "Allocate (Some (LoadReservations [(mac, ip)] a)) mac = Some (Inr ''<nil>'', Some (LoadReservations [(mac, ip)] a))"
  using assms by (simp add: Allocate_def LoadReservations_def ip_string_def)

text \<open>The same devices asking in another order get other addresses: what is held is not kept on disk.\<close>

lemma order_matters:
  "map_option fst (allocate_all [''aa'', ''bb''] (home_pool\<lparr>al_used := []\<rparr>)) \<noteq>
   map_option (rev \<circ> fst) (allocate_all [''bb'', ''aa''] (home_pool\<lparr>al_used := []\<rparr>))"
  by (simp add: home_pool_def Allocate_def search.simps isUsed_def ipIncrement_def mget_def mput_def ip_equal_def to4_def
      ip_string_def ip4_string_def)

end
