(* ===== verification/EnrollZones.thy ===== *)
theory EnrollZones
  imports EnrollRegistry Allocator
begin

text \<open>
  \<^verbatim>\<open>internal/modules/enroll/enroll.go\<close> and \<^verbatim>\<open>crud.go\<close>, the zones: what a start accepts of
  \<^verbatim>\<open>zones.json\<close>, the routes that change zones, the firewall rules that keep zones apart, the DHCP
  reservations, and what the reference \<^verbatim>\<open>zone:\<close> of a policy stands for. The rules are a datatype
  with the text of each; what they do to a packet is stated with the meaning of \<^verbatim>\<open>quick\<close> in pf:
  the first rule that matches decides.
\<close>

section \<open>Loading\<close>

text \<open>What reading the file gives: absent, a read or parse error, or the document.\<close>

datatype zones_file = Missing | Failed string | Doc zones_doc

datatype zone_error =
    NoID | DuplicateID string | BadSubnet string | BadBlock string | BadRange string | BadFile string
  | IDRequired | NoZone string | BadSubnet6 string | InUse string string

definition check_zone :: "string list \<Rightarrow> zone \<Rightarrow> zone_error + zone" where
  "check_zone seen z =
     (if z_ID z = [] then Inl NoID
      else if z_ID z \<in> set seen then Inl (DuplicateID (z_ID z))
      else if parse_cidr (z_Subnet z) = None then Inl (BadSubnet (z_ID z))
      else
        let z' = (if z_Block z = [] then z\<lparr>z_Block := z_Subnet z\<rparr> else z) in
        if parse_cidr (z_Block z') = None then Inl (BadBlock (z_ID z))
        else if parse_ip (fst (z_Range z)) = None \<or> parse_ip (snd (z_Range z)) = None
          then Inl (BadRange (z_ID z))
        else Inr z')"

text \<open>The allocators of the zones before the first that is refused stay.\<close>

fun check_zones :: "string list \<Rightarrow> zone list \<Rightarrow> (string, allocator option) gomap \<Rightarrow>
    (zone_error + zone list) \<times> (string, allocator option) gomap" where
  "check_zones seen [] al = (Inr [], al)"
| "check_zones seen (z # zs) al =
     (case check_zone seen z of
        Inl e \<Rightarrow> (Inl e, al)
      | Inr z' \<Rightarrow>
          let al' = mput (z_ID z) (NewAllocator (z_Subnet z) (fst (z_Range z)) (snd (z_Range z))) al in
          case check_zones (z_ID z # seen) zs al' of
            (Inl e, al'') \<Rightarrow> (Inl e, al'')
          | (Inr zs', al'') \<Rightarrow> (Inr (z' # zs'), al''))"

definition loadZones :: "zones_file \<Rightarrow> zones_doc option \<Rightarrow> (string, allocator option) gomap \<Rightarrow>
    zone_error option \<times> zones_doc option \<times> (string, allocator option) gomap" where
  "loadZones file zones al =
     (case file of
        Missing \<Rightarrow> (None, Some \<lparr>zd_Mode = ''monitor'', zd_CaptiveZone = ''quarantine'', zd_Zones = []\<rparr>, al)
      | Failed e \<Rightarrow> (Some (BadFile e), zones, al)
      | Doc z \<Rightarrow>
          (case check_zones [] (zd_Zones z) al of
             (Inl e, al') \<Rightarrow> (Some e, zones, al')
           | (Inr zs, al') \<Rightarrow> (None, Some (z\<lparr>zd_Zones := zs\<rparr>), al')))"

section \<open>The routes\<close>

text \<open>The form a second subnet is stored in; any network is taken, an IPv4 one too.\<close>

definition normal_subnet6 :: "zone \<Rightarrow> zone_error + zone" where
  "normal_subnet6 z =
     (if z_Subnet6 z = [] then Inr z
      else (case parse_cidr (z_Subnet6 z) of
        None \<Rightarrow> Inl (BadSubnet6 (z_ID z))
      | Some (_, n) \<Rightarrow> Inr (z\<lparr>z_Subnet6 := ipnet_string n\<rparr>)))"

fun normal_zones :: "zone list \<Rightarrow> zone_error + zone list" where
  "normal_zones [] = Inr []"
| "normal_zones (z # zs) =
     (case normal_subnet6 z of
        Inl e \<Rightarrow> Inl e
      | Inr z' \<Rightarrow> (case normal_zones zs of Inl e \<Rightarrow> Inl e | Inr l \<Rightarrow> Inr (z' # l)))"

definition apiSetZones :: "zones_doc \<Rightarrow> zone_error + zones_doc" where
  "apiSetZones doc =
     (case normal_zones (zd_Zones doc) of Inl e \<Rightarrow> Inl e | Inr l \<Rightarrow> Inr (doc\<lparr>zd_Zones := l\<rparr>))"

definition zone_index :: "string \<Rightarrow> zone list \<Rightarrow> nat option" where
  "zone_index i zs = (let n = length (takeWhile (\<lambda>z. z_ID z \<noteq> i) zs) in if n < length zs then Some n else None)"

text \<open>
  An update looks the zone up in one critical section and writes the entry of that index in the next;
  \<^const>\<open>None\<close> is the panic of an index out of range. Between the two others may run.
\<close>

definition write_zone :: "nat \<Rightarrow> string \<Rightarrow> zone \<Rightarrow> zones_doc \<Rightarrow> zones_doc option" where
  "write_zone n i z doc =
     (if n < length (zd_Zones doc) then Some (doc\<lparr>zd_Zones := (zd_Zones doc)[n := z\<lparr>z_ID := i\<rparr>]\<rparr>) else None)"

definition apiUpdateZoneByID :: "string \<Rightarrow> zone \<Rightarrow> zones_doc \<Rightarrow> (zones_doc \<Rightarrow> zones_doc) \<Rightarrow> zone_error + zones_doc option" where
  "apiUpdateZoneByID i z doc between =
     (if i = [] then Inl IDRequired
      else case normal_subnet6 z of
        Inl e \<Rightarrow> Inl e
      | Inr z' \<Rightarrow>
          (case zone_index i (zd_Zones doc) of
             None \<Rightarrow> Inl (NoZone i)
           | Some n \<Rightarrow> Inr (write_zone n i z' (between doc))))"

definition apiDeleteZoneByID :: "string \<Rightarrow> registry \<Rightarrow> zones_doc \<Rightarrow> zone_error + zones_doc" where
  "apiDeleteZoneByID i devs doc =
     (if i = [] then Inl IDRequired
      else case zone_index i (zd_Zones doc) of
        None \<Rightarrow> Inl (NoZone i)
      | Some n \<Rightarrow>
          (case find (\<lambda>(_, d). d_Zone d = i) devs of
             Some (_, d) \<Rightarrow> Inl (InUse i (d_MAC d))
           | None \<Rightarrow> Inr (doc\<lparr>zd_Zones := take n (zd_Zones doc) @ drop (Suc n) (zd_Zones doc)\<rparr>)))"

section \<open>The firewall\<close>

datatype fw_rule =
    PassTo string string
  | PassDNS string string
  | BlockAll string
  | BlockTo string string
  | BlockOutside string

fun rule_text :: "fw_rule \<Rightarrow> string" where
  "rule_text (PassTo i a) = ''pass quick from <fs_'' @ i @ ''> to '' @ a @ ''\<newline>''"
| "rule_text (PassDNS i a) = ''pass quick proto { tcp, udp } from <fs_'' @ i @ ''> to '' @ a @ '' port 53\<newline>''"
| "rule_text (BlockAll i) = ''block return quick from <fs_'' @ i @ ''> to any\<newline>''"
| "rule_text (BlockTo i j) = ''block return quick from <fs_'' @ i @ ''> to <fs_'' @ j @ ''>\<newline>''"
| "rule_text (BlockOutside i) = ''block return quick from <fs_'' @ i @ ''> to !<fs_'' @ i @ ''>\<newline>''"

definition isolation_rules :: "zone list \<Rightarrow> zone \<Rightarrow> fw_rule list" where
  "isolation_rules zs z =
     (if z_Captive z then
        PassTo (z_ID z) (z_Gateway z) #
        map (PassDNS (z_ID z)) (filter (\<lambda>dns. dns \<noteq> [] \<and> dns \<noteq> z_Gateway z) (z_DNS z)) @ [BlockAll (z_ID z)]
      else
        map (\<lambda>other. BlockTo (z_ID z) (z_ID other))
          (filter (\<lambda>other. \<not> (z_ID other = z_ID z \<or> z_ID other \<in> set (z_ReachZones z))) zs) @
        (if z_Internet z then [] else [BlockOutside (z_ID z)]))"

definition firewall_rules :: "zone list \<Rightarrow> fw_rule list" where
  "firewall_rules zs = concat (map (isolation_rules zs) zs)"

definition applyFirewall :: "zone list \<Rightarrow> string" where
  "applyFirewall zs =
     ''# Generated by FlowSight enroll. Do not edit.\<newline>\<newline>'' @
     concat (map (\<lambda>z. ''table <fs_'' @ z_ID z @ ''> persist { '' @ z_Subnet z @ '' }\<newline>'') zs) @ ''\<newline>'' @
     concat (map rule_text (firewall_rules zs))"

section \<open>Reservations\<close>

text \<open>
  A line per device placed in a zone that has an allocator; \<^const>\<open>None\<close> is a search that does not return.
\<close>

definition reserve :: "string \<Rightarrow> string \<times> device \<Rightarrow> string \<times> (string, allocator option) gomap \<Rightarrow>
    (string \<times> (string, allocator option) gomap) option" where
  "reserve captive md acc =
     (case (md, acc) of ((mac, d), (buf, al)) \<Rightarrow>
        if d_Zone d \<noteq> [] \<and> d_Zone d \<noteq> captive then
          (case mget al (d_Zone d) of
             Some (Some a) \<Rightarrow>
               (case Allocate (Some a) mac of
                  None \<Rightarrow> None
                | Some (r, a') \<Rightarrow>
                    Some (case r of
                        Inr ip \<Rightarrow> if ip \<noteq> [] then buf @ ''dhcp-host='' @ to_lower mac @ '','' @ ip @ '','' @ d_Hostname d @ ''\<newline>'' else buf
                      | Inl _ \<Rightarrow> buf,
                      mput (d_Zone d) a' al))
           | _ \<Rightarrow> Some (buf, al))
        else Some (buf, al))"

fun reserve_all :: "string \<Rightarrow> (string \<times> device) list \<Rightarrow> string \<times> (string, allocator option) gomap \<Rightarrow>
    (string \<times> (string, allocator option) gomap) option" where
  "reserve_all captive [] acc = Some acc"
| "reserve_all captive (md # mds) acc = Option.bind (reserve captive md acc) (reserve_all captive mds)"

definition dnsmasq_text :: "zones_doc \<Rightarrow> registry \<Rightarrow> (string, allocator option) gomap \<Rightarrow>
    (string \<times> (string, allocator option) gomap) option" where
  "dnsmasq_text doc devs al =
     reserve_all (zd_CaptiveZone doc) devs
       (''# Generated by FlowSight enroll. Do not edit.\<newline>\<newline>'' @
        concat (map (\<lambda>z. ''# Zone: '' @ z_ID z @ '' - '' @ z_Name z @ ''\<newline>'') (zd_Zones doc)), al)"

section \<open>Zones of a policy\<close>

text \<open>
  \<^verbatim>\<open>Resolve\<close>: the subnets of the zone and every address of every device in it, each once. The
  resolver it wraps and the address book are parameters; \<^const>\<open>None\<close> is the panic on zones that
  were never loaded.
\<close>

definition add_once :: "string \<Rightarrow> string list \<Rightarrow> string list" where
  "add_once c out = (if c \<noteq> [] \<and> c \<notin> set out then out @ [c] else out)"

definition zone_macs :: "registry \<Rightarrow> string \<Rightarrow> string list" where
  "zone_macs devs i = map (\<lambda>(_, d). d_MAC d) (filter (\<lambda>(_, d). d_Zone d = i \<and> d_MAC d \<noteq> []) devs)"

definition as_cidr :: "string \<Rightarrow> string" where
  "as_cidr addr = (if contains addr '':'' then addr @ ''/128'' else addr @ ''/32'')"

definition device_members :: "(string \<Rightarrow> string list) option \<Rightarrow> (string \<Rightarrow> string list) option \<Rightarrow> string \<Rightarrow> string list" where
  "device_members delegate book mac =
     (case delegate of
        None \<Rightarrow> []
      | Some f \<Rightarrow>
          concat (map (\<lambda>cidr. case book of
              Some addrs \<Rightarrow> map as_cidr (addrs (hd (split_on (CHR ''/'') cidr)))
            | None \<Rightarrow> [cidr]) (f (''mac:'' @ to_lower mac))))"

definition Resolve :: "(string \<Rightarrow> string list) option \<Rightarrow> (string \<Rightarrow> string list) option \<Rightarrow> zones_doc option \<Rightarrow> registry \<Rightarrow>
    string \<Rightarrow> string list option" where
  "Resolve delegate book zones devs member =
     (if has_prefix member ''zone:'' then
        let i = trim_prefix member ''zone:'' in
        (case zones of
           None \<Rightarrow> None
         | Some doc \<Rightarrow>
             let subnets = concat (map (\<lambda>z. [z_Subnet z, z_Subnet6 z]) (filter (\<lambda>z. z_ID z = i) (zd_Zones doc)))
             in Some (fold add_once (subnets @ concat (map (device_members delegate book) (sort (zone_macs devs i)))) []))
      else Some (case delegate of Some f \<Rightarrow> f member | None \<Rightarrow> []))"

text \<open>How many devices of a zone have an IPv6 address while the zone has no IPv6 subnet.\<close>

definition CheckZoneIPv6Devices :: "(string \<Rightarrow> string list) option \<Rightarrow> zones_doc \<Rightarrow> registry \<Rightarrow> string \<Rightarrow> nat" where
  "CheckZoneIPv6Devices book doc devs i =
     (case find (\<lambda>z. z_ID z = i) (zd_Zones doc) of
        None \<Rightarrow> 0
      | Some z \<Rightarrow>
          if z_Subnet6 z \<noteq> [] then 0
          else (case book of
            None \<Rightarrow> 0
          | Some addrs \<Rightarrow>
              length (filter (\<lambda>mac. case mget devs mac of
                  Some d \<Rightarrow> d_IP d \<noteq> [] \<and> list_ex (\<lambda>a. contains a '':'') (addrs (d_IP d))
                | None \<Rightarrow> False) (zone_macs devs i))))"

text \<open>The summary: how many devices each zone holds, and how many none or the captive one.\<close>

definition summary_step :: "string \<Rightarrow> string \<times> device \<Rightarrow> (string, nat) gomap \<times> nat \<Rightarrow> (string, nat) gomap \<times> nat" where
  "summary_step captive md acc =
     (case (md, acc) of ((_, d), (counts, un)) \<Rightarrow>
        if d_Zone d = [] \<or> d_Zone d = captive then (counts, Suc un)
        else (mput (d_Zone d) (Suc (case mget counts (d_Zone d) of Some n \<Rightarrow> n | None \<Rightarrow> 0)) counts, un))"

definition apiSummary :: "zones_doc \<Rightarrow> registry \<Rightarrow> (string, nat) gomap \<times> nat \<times> nat" where
  "apiSummary doc devs =
     (case fold (summary_step (zd_CaptiveZone doc)) devs ([], 0) of (counts, un) \<Rightarrow> (counts, un, length devs))"

section \<open>What the rules do\<close>

text \<open>
  A packet: its addresses, and whether it is TCP or UDP to port 53. A table of the anchor holds the
  subnets of the zones with its name, a host stands for its address.
\<close>

record packet =
  p_src :: bytes
  p_dst :: bytes
  p_dns :: bool

definition holds :: "zone \<Rightarrow> bytes \<Rightarrow> bool" where
  "holds z a = (case parse_cidr (z_Subnet z) of Some (_, n) \<Rightarrow> net_contains n a | None \<Rightarrow> False)"

definition in_table :: "zone list \<Rightarrow> string \<Rightarrow> bytes \<Rightarrow> bool" where
  "in_table zs i a = list_ex (\<lambda>z. z_ID z = i \<and> holds z a) zs"

definition is_host :: "string \<Rightarrow> bytes \<Rightarrow> bool" where
  "is_host t a = (case parse_ip t of Some b \<Rightarrow> ip_equal b a | None \<Rightarrow> False)"

fun applies :: "zone list \<Rightarrow> packet \<Rightarrow> fw_rule \<Rightarrow> bool" where
  "applies zs p (PassTo i h) \<longleftrightarrow> in_table zs i (p_src p) \<and> is_host h (p_dst p)"
| "applies zs p (PassDNS i h) \<longleftrightarrow> in_table zs i (p_src p) \<and> is_host h (p_dst p) \<and> p_dns p"
| "applies zs p (BlockAll i) \<longleftrightarrow> in_table zs i (p_src p)"
| "applies zs p (BlockTo i j) \<longleftrightarrow> in_table zs i (p_src p) \<and> in_table zs j (p_dst p)"
| "applies zs p (BlockOutside i) \<longleftrightarrow> in_table zs i (p_src p) \<and> \<not> in_table zs i (p_dst p)"

fun passes :: "fw_rule \<Rightarrow> bool" where
  "passes (PassTo i a) = True"
| "passes (PassDNS i a) = True"
| "passes _ = False"

text \<open>The first rule that applies decides; without one the anchor says nothing.\<close>

definition verdict :: "zone list \<Rightarrow> fw_rule list \<Rightarrow> packet \<Rightarrow> bool option" where
  "verdict zs rs p = map_option passes (find (applies zs p) rs)"

fun rule_zone :: "fw_rule \<Rightarrow> string" where
  "rule_zone (PassTo i a) = i"
| "rule_zone (PassDNS i a) = i"
| "rule_zone (BlockAll i) = i"
| "rule_zone (BlockTo i j) = i"
| "rule_zone (BlockOutside i) = i"

lemma applies_zone: "applies zs p r \<Longrightarrow> in_table zs (rule_zone r) (p_src p)"
  by (cases r) simp_all

lemma isolation_zone: "r \<in> set (isolation_rules zs z) \<Longrightarrow> rule_zone r = z_ID z"
  by (auto simp: isolation_rules_def split: if_splits)

lemma in_table_own:
  assumes "distinct (map z_ID zs)" and "z \<in> set zs"
  shows "in_table zs (z_ID z) a = holds z a"
  using assms by (auto simp: in_table_def list_ex_iff distinct_map dest: inj_onD)

lemma find_append: "find P (xs @ ys) = (case find P xs of Some x \<Rightarrow> Some x | None \<Rightarrow> find P ys)"
  by (induction xs) simp_all

lemma find_none: "(\<And>x. x \<in> set xs \<Longrightarrow> \<not> P x) \<Longrightarrow> find P xs = None"
  by (induction xs) simp_all

text \<open>Only the rules of the zone a packet comes from concern it.\<close>

lemma verdict_own:
  assumes "distinct (map z_ID xs)" and "z \<in> set xs" and "set xs \<subseteq> set zs" and "distinct (map z_ID zs)"
    and only: "\<And>y. y \<in> set zs \<Longrightarrow> holds y (p_src p) \<Longrightarrow> y = z"
  shows "verdict zs (concat (map (isolation_rules zs) xs)) p = verdict zs (isolation_rules zs z) p"
  using assms(1-3)
proof (induction xs)
  case (Cons x xs)
  have other: "find (applies zs p) (isolation_rules zs y) = None" if "y \<in> set zs" "y \<noteq> z" for y
  proof (rule find_none)
    fix r assume "r \<in> set (isolation_rules zs y)"
    then have "rule_zone r = z_ID y" by (rule isolation_zone)
    then show "\<not> applies zs p r"
      using applies_zone [of zs p r] in_table_own [OF assms(4) that(1), of "p_src p"] only [OF that(1)] that(2) by auto
  qed
  show ?case
  proof (cases "x = z")
    case True
    have "find (applies zs p) (concat (map (isolation_rules zs) xs)) = None"
    proof (rule find_none)
      fix r assume "r \<in> set (concat (map (isolation_rules zs) xs))"
      then obtain y where y: "y \<in> set xs" "r \<in> set (isolation_rules zs y)" by auto
      have "y \<noteq> z" using Cons.prems(1) y(1) True by auto
      moreover have "y \<in> set zs" using Cons.prems(3) y(1) by auto
      ultimately show "\<not> applies zs p r" using other [of y] y(2) by (auto simp: find_None_iff)
    qed
    with True show ?thesis by (simp add: verdict_def find_append split: option.splits)
  next
    case False
    with Cons.prems have "z \<in> set xs" "x \<in> set zs" by auto
    with Cons False other [of x] show ?thesis by (simp add: verdict_def find_append)
  qed
qed simp

lemma verdict_Nil [simp]: "verdict zs [] p = None"
  by (simp add: verdict_def)

lemma verdict_append:
  "verdict zs (xs @ ys) p = (case verdict zs xs p of Some b \<Rightarrow> Some b | None \<Rightarrow> verdict zs ys p)"
  by (simp add: verdict_def find_append split: option.splits)

lemma verdict_Cons: "verdict zs (r # rs) p = (if applies zs p r then Some (passes r) else verdict zs rs p)"
  by (simp add: verdict_def)

lemma verdict_uniform:
  "(\<And>r. r \<in> set xs \<Longrightarrow> passes r = b) \<Longrightarrow>
   verdict zs xs p = (if \<exists>r \<in> set xs. applies zs p r then Some b else None)"
  by (induction xs) (auto simp: verdict_Cons)

lemma verdict_DNS:
  "verdict zs (map (PassDNS i) ds) p =
     (if in_table zs i (p_src p) \<and> p_dns p \<and> (\<exists>d \<in> set ds. is_host d (p_dst p)) then Some True else None)"
  by (subst verdict_uniform [where b = True]) auto

lemma verdict_to:
  "verdict zs (map (\<lambda>other. BlockTo i (z_ID other)) os) p =
     (if in_table zs i (p_src p) \<and> (\<exists>other \<in> set os. in_table zs (z_ID other) (p_dst p)) then Some False else None)"
  by (subst verdict_uniform [where b = False]) auto

lemma is_host_Nil [simp]: "is_host [] a = False"
  by (simp add: is_host_def parse_ip_def parse_eval)

text \<open>What the rules of one zone make of a packet from it.\<close>

lemma isolation_verdict:
  assumes "distinct (map z_ID zs)" and "z \<in> set zs" and "holds z (p_src p)"
    and "\<And>y. y \<in> set zs \<Longrightarrow> holds y (p_src p) \<Longrightarrow> y = z"
  shows "verdict zs (firewall_rules zs) p =
    (if z_Captive z then
       Some (is_host (z_Gateway z) (p_dst p) \<or> p_dns p \<and> (\<exists>d \<in> set (z_DNS z). is_host d (p_dst p)))
     else if (\<exists>y \<in> set zs. z_ID y \<noteq> z_ID z \<and> z_ID y \<notin> set (z_ReachZones z) \<and> holds y (p_dst p)) \<or>
       \<not> z_Internet z \<and> \<not> holds z (p_dst p) then Some False
     else None)"
proof -
  note own = in_table_own [OF assms(1)]
  have "verdict zs (firewall_rules zs) p = verdict zs (isolation_rules zs z) p"
    unfolding firewall_rules_def by (rule verdict_own [OF assms(1,2) order_refl assms(1,4)])
  moreover have "(\<exists>y \<in> set (filter (\<lambda>other. \<not> (z_ID other = z_ID z \<or> z_ID other \<in> set (z_ReachZones z))) zs).
      in_table zs (z_ID y) (p_dst p)) \<longleftrightarrow>
    (\<exists>y \<in> set zs. z_ID y \<noteq> z_ID z \<and> z_ID y \<notin> set (z_ReachZones z) \<and> holds y (p_dst p))"
    using own by auto
  ultimately show ?thesis
    using assms(2,3) own [OF assms(2)]
    by (auto simp: isolation_rules_def verdict_append verdict_Cons verdict_DNS verdict_to)
qed


definition guest :: zone where
  "guest = \<lparr>z_ID = ''guest'', z_Name = [], z_Description = [], z_Subnet = ''10.9.0.0/24'', z_Subnet6 = [],
     z_Gateway = ''10.9.0.1'', z_Range = (''10.9.0.2'', ''10.9.0.99''), z_DNS = [''1.1.1.1''], z_Internet = False,
     z_Captive = True, z_SelfService = False, z_ReachZones = [], z_Block = []\<rparr>"




text \<open>
  The zones a zone without Internet is meant to reach are outside its own, so its last rule keeps it
  from them: the list has no effect there.
\<close>

lemma reach_without_internet:
  assumes "distinct (map z_ID zs)" and "z \<in> set zs" and "holds z (p_src p)"
    and "\<forall>y \<in> set zs. holds y (p_src p) \<longrightarrow> y = z" and "\<not> z_Captive z"
    and "\<not> z_Internet z" and "\<not> holds z (p_dst p)"
  shows "verdict zs (firewall_rules zs) p = Some False"
  using assms(4-) isolation_verdict [OF assms(1-3)] by auto

section \<open>Loaded zones\<close>

definition zone_ok :: "zone \<Rightarrow> bool" where
  "zone_ok z \<longleftrightarrow> z_ID z \<noteq> [] \<and> parse_cidr (z_Subnet z) \<noteq> None \<and> parse_cidr (z_Block z) \<noteq> None \<and>
     parse_ip (fst (z_Range z)) \<noteq> None \<and> parse_ip (snd (z_Range z)) \<noteq> None"

lemma check_zone_ok:
  "check_zone seen z = Inr z' \<Longrightarrow>
     zone_ok z' \<and> z_ID z' = z_ID z \<and> z_Subnet z' = z_Subnet z \<and> z_Range z' = z_Range z \<and> z_ID z \<notin> set seen"
  by (auto simp: check_zone_def zone_ok_def Let_def split: if_splits)

lemma NewAllocator_Some:
  "parse_cidr s \<noteq> None \<Longrightarrow> parse_ip a \<noteq> None \<Longrightarrow> parse_ip b \<noteq> None \<Longrightarrow> NewAllocator s a b \<noteq> None"
  by (auto simp: NewAllocator_def Let_def split: option.splits prod.splits)

lemma check_zones_ok:
  assumes "check_zones seen zs al = (Inr zs', al')"
  shows "(\<forall>z \<in> set zs'. zone_ok z \<and> z_ID z \<notin> set seen \<and>
      (\<exists>a. mget al' (z_ID z) = Some (Some a))) \<and> distinct (map z_ID zs') \<and>
      (\<forall>k. k \<notin> z_ID ` set zs' \<longrightarrow> mget al' k = mget al k)"
  using assms
proof (induction zs arbitrary: seen al zs')
  case (Cons z zs)
  obtain z' where z: "check_zone seen z = Inr z'" using Cons.prems by (auto simp: Let_def split: sum.splits)
  let ?al = "mput (z_ID z) (NewAllocator (z_Subnet z) (fst (z_Range z)) (snd (z_Range z))) al"
  obtain l where l: "check_zones (z_ID z # seen) zs ?al = (Inr l, al')" "zs' = z' # l"
    using Cons.prems z by (auto simp: Let_def split: sum.splits prod.splits)
  have ok: "zone_ok z'" "z_ID z' = z_ID z" "z_Subnet z' = z_Subnet z" "z_Range z' = z_Range z" "z_ID z \<notin> set seen"
    using check_zone_ok [OF z] by simp_all
  obtain a where a: "NewAllocator (z_Subnet z) (fst (z_Range z)) (snd (z_Range z)) = Some a"
    using NewAllocator_Some ok(1) unfolding zone_ok_def ok(3,4) by blast
  from Cons.IH [OF l(1)] have ih: "\<And>y. y \<in> set l \<Longrightarrow> zone_ok y \<and> z_ID y \<noteq> z_ID z \<and> z_ID y \<notin> set seen \<and>
      (\<exists>a. mget al' (z_ID y) = Some (Some a))" "distinct (map z_ID l)"
    "\<And>k. k \<notin> z_ID ` set l \<Longrightarrow> mget al' k = mget ?al k" by auto
  have n: "z_ID z \<notin> z_ID ` set l" using ih(1) by fastforce
  have "mget al' (z_ID z) = Some (Some a)" using ih(3) [OF n] a by simp
  moreover have "mget al' k = mget al k" if "k \<notin> z_ID ` set zs'" for k
    using ih(3) [of k] that ok(2) unfolding l(2) by auto
  ultimately show ?case unfolding l(2) using ih(1,2) n ok by auto
qed simp

text \<open>
  A start that accepts the file has zones with names of their own, with networks and ranges that
  parse, and an allocator for each.
\<close>

theorem loadZones_ok:
  assumes "loadZones file zones al = (None, Some doc, al')"
  shows "distinct (map z_ID (zd_Zones doc)) \<and>
    (\<forall>z \<in> set (zd_Zones doc). zone_ok z \<and> (\<exists>a. mget al' (z_ID z) = Some (Some a)))"
  using assms check_zones_ok [of "[]"]
  by (auto simp: loadZones_def split: zones_file.splits sum.splits prod.splits)

theorem loadZones_ok_witness:
  "\<exists>doc al. loadZones (Doc \<lparr>zd_Mode = ''enforce'', zd_CaptiveZone = [], zd_Zones = [guest]\<rparr>) None [] = (None, Some doc, al) \<and>
     distinct (map z_ID (zd_Zones doc))"
proof -
  have "check_zone [] guest = Inr (guest\<lparr>z_Block := z_Subnet guest\<rparr>)"
  proof -
    have "parse_cidr ''10.9.0.0/24'' \<noteq> None" "parse_ip ''10.9.0.2'' \<noteq> None" "parse_ip ''10.9.0.99'' \<noteq> None" by code_simp+
    then show ?thesis by (simp add: check_zone_def guest_def)
  qed
  then obtain doc al where l: "loadZones (Doc \<lparr>zd_Mode = ''enforce'', zd_CaptiveZone = [], zd_Zones = [guest]\<rparr>) None [] = (None, Some doc, al)"
    by (simp add: loadZones_def Let_def)
  with loadZones_ok [OF l] show ?thesis by blast
qed

text \<open>
  An update that is overtaken by a removal between its two critical sections writes over another
  zone, or indexes past the end.
\<close>

lemma update_overtaken:
  "apiUpdateZoneByID ''a'' guest \<lparr>zd_Mode = [], zd_CaptiveZone = [], zd_Zones = [guest\<lparr>z_ID := ''a''\<rparr>]\<rparr>
     (\<lambda>doc. doc\<lparr>zd_Zones := []\<rparr>) = Inr None"
  "apiUpdateZoneByID ''a'' guest \<lparr>zd_Mode = [], zd_CaptiveZone = [], zd_Zones = [guest\<lparr>z_ID := ''a''\<rparr>, guest\<lparr>z_ID := ''b''\<rparr>]\<rparr>
     (\<lambda>doc. doc\<lparr>zd_Zones := tl (zd_Zones doc)\<rparr>) =
   Inr (Some \<lparr>zd_Mode = [], zd_CaptiveZone = [], zd_Zones = [guest\<lparr>z_ID := ''a''\<rparr>]\<rparr>)"
  by (simp_all add: apiUpdateZoneByID_def normal_subnet6_def guest_def zone_index_def write_zone_def)

lemma fold_add_once: "set (fold add_once cs out) = set out \<union> (set cs - {[]})"
  by (induction cs arbitrary: out) (auto simp: add_once_def)

lemma fold_add_once_distinct: "distinct out \<Longrightarrow> distinct (fold add_once cs out)"
  by (induction cs arbitrary: out) (simp_all add: add_once_def)

text \<open>What a zone stands for: no member twice, none empty, and both subnets and every address of its devices.\<close>

theorem Resolve_zone:
  "\<exists>out. Resolve delegate book (Some doc) devs (''zone:'' @ i) = Some out \<and> distinct out \<and>
    set out = ({s. \<exists>z \<in> set (zd_Zones doc). z_ID z = i \<and> (s = z_Subnet z \<or> s = z_Subnet6 z)} \<union>
      {s. \<exists>(k, d) \<in> set devs. d_Zone d = i \<and> d_MAC d \<noteq> [] \<and> s \<in> set (device_members delegate book (d_MAC d))}) - {[]}"
proof -
  have p: "has_prefix (''zone:'' @ i) ''zone:''" "trim_prefix (''zone:'' @ i) ''zone:'' = i"
    by (simp_all add: has_prefix_def trim_prefix_def)
  let ?out = "fold add_once (concat (map (\<lambda>z. [z_Subnet z, z_Subnet6 z]) (filter (\<lambda>z. z_ID z = i) (zd_Zones doc))) @
     concat (map (device_members delegate book) (sort (zone_macs devs i)))) []"
  have "Resolve delegate book (Some doc) devs (''zone:'' @ i) = Some ?out"
    unfolding Resolve_def Let_def p(2) using p(1) by (simp only: if_True option.case)
  moreover have "distinct ?out" by (rule fold_add_once_distinct) simp
  ultimately show ?thesis by (intro exI conjI) (assumption | auto simp: fold_add_once zone_macs_def)+
qed

end
