(* ===== verification/GoSubmatch.thy ===== *)
theory GoSubmatch
  imports GoRegexp
begin

text \<open>
  Go's \<^verbatim>\<open>regexp\<close> with captures: patterns with groups, greedy repetition and the end of the text,
  and \<^verbatim>\<open>FindStringSubmatch\<close>, which returns the match that backtracking finds first, the leftmost
  start first. A run of a pattern lists the ways it can go, in the order backtracking tries them: what
  each captured and what is left of the text. The lemmas split a run along the pattern.
\<close>

section \<open>Patterns with groups\<close>

datatype rx =
    One "char \<Rightarrow> bool"
  | Seq rx rx
  | Or rx rx
  | Many rx
  | Between nat nat rx
  | Group nat rx
  | AtEnd

type_synonym caps = "(nat \<times> string) list"

abbreviation Many1 :: "rx \<Rightarrow> rx" where
  "Many1 r \<equiv> Seq r (Many r)"

abbreviation Optional :: "rx \<Rightarrow> rx" where
  "Optional r \<equiv> Between 0 1 r"

fun word_rx :: "string \<Rightarrow> rx" where
  "word_rx [] = Between 0 0 AtEnd"
| "word_rx [c] = One ((=) c)"
| "word_rx (c # s) = Seq (One ((=) c)) (word_rx s)"

section \<open>Runs\<close>

definition after :: "('s \<Rightarrow> (caps \<times> string) list) \<Rightarrow> caps \<times> 's \<Rightarrow> (caps \<times> string) list" where
  "after f ct = (case ct of (cs, t) \<Rightarrow> map (\<lambda>(ds, u). (cs @ ds, u)) (f t))"

text \<open>Greedy repetition: one more that moves on, or stop; the first number bounds the tries.\<close>

fun many :: "nat \<Rightarrow> (string \<Rightarrow> (caps \<times> string) list) \<Rightarrow> string \<Rightarrow> (caps \<times> string) list" where
  "many 0 f s = [([], s)]"
| "many (Suc n) f s =
     concat (map (after (many n f)) (filter (\<lambda>(_, t). length t < length s) (f s))) @ [([], s)]"

fun exact :: "nat \<Rightarrow> (string \<Rightarrow> (caps \<times> string) list) \<Rightarrow> string \<Rightarrow> (caps \<times> string) list" where
  "exact 0 f s = [([], s)]"
| "exact (Suc n) f s = concat (map (after (exact n f)) (f s))"

primrec runs_rx :: "rx \<Rightarrow> string \<Rightarrow> (caps \<times> string) list" where
  "runs_rx (One p) s = (case s of [] \<Rightarrow> [] | c # t \<Rightarrow> if p c then [([], t)] else [])"
| "runs_rx (Seq a b) s = concat (map (after (runs_rx b)) (runs_rx a s))"
| "runs_rx (Or a b) s = runs_rx a s @ runs_rx b s"
| "runs_rx (Many a) s = many (length s) (runs_rx a) s"
| "runs_rx (Between m n a) s = concat (map (after (many (n - m) (runs_rx a))) (exact m (runs_rx a) s))"
| "runs_rx (Group k a) s = map (\<lambda>(cs, t). ((k, take (length s - length t) s) # cs, t)) (runs_rx a s)"
| "runs_rx AtEnd s = (if s = [] then [([], [])] else [])"

text \<open>The text of a group, empty when it took no part.\<close>

definition group_of :: "caps \<Rightarrow> nat \<Rightarrow> string" where
  "group_of cs k = (case map_of cs k of Some s \<Rightarrow> s | None \<Rightarrow> [])"

definition MatchPrefix :: "rx \<Rightarrow> string \<Rightarrow> caps option" where
  "MatchPrefix r s = (case runs_rx r s of [] \<Rightarrow> None | (cs, _) # _ \<Rightarrow> Some cs)"

fun FindStringSubmatch :: "rx \<Rightarrow> string \<Rightarrow> caps option" where
  "FindStringSubmatch r [] = MatchPrefix r []"
| "FindStringSubmatch r (c # s) = (case MatchPrefix r (c # s) of Some cs \<Rightarrow> Some cs | None \<Rightarrow> FindStringSubmatch r s)"

section \<open>What a run means\<close>

text \<open>A run leaves an end of the text, and reads on along the pattern.\<close>

definition suffixing :: "(string \<Rightarrow> (caps \<times> string) list) \<Rightarrow> bool" where
  "suffixing f \<longleftrightarrow> (\<forall>s cs t. (cs, t) \<in> set (f s) \<longrightarrow> (\<exists>u. s = u @ t))"

lemma suffixingD: "suffixing f \<Longrightarrow> (cs, t) \<in> set (f s) \<Longrightarrow> \<exists>u. s = u @ t"
  by (simp add: suffixing_def)

lemma after_iff [simp]: "(cs, u) \<in> set (after f (c, t)) \<longleftrightarrow> (\<exists>d. cs = c @ d \<and> (d, u) \<in> set (f t))"
  by (auto simp: after_def)

lemma in_after: "(cs, u) \<in> set (concat (map (after f) xs)) \<longleftrightarrow> (\<exists>c t d. (c, t) \<in> set xs \<and> cs = c @ d \<and> (d, u) \<in> set (f t))"
proof
  assume "(cs, u) \<in> set (concat (map (after f) xs))"
  then obtain ct where ct: "ct \<in> set xs" "(cs, u) \<in> set (after f ct)" by auto
  obtain c t where "ct = (c, t)" by force
  with ct show "\<exists>c t d. (c, t) \<in> set xs \<and> cs = c @ d \<and> (d, u) \<in> set (f t)" by auto
next
  assume "\<exists>c t d. (c, t) \<in> set xs \<and> cs = c @ d \<and> (d, u) \<in> set (f t)"
  then obtain c t d where "(c, t) \<in> set xs" "cs = c @ d" "(d, u) \<in> set (f t)" by blast
  then have "(cs, u) \<in> set (after f (c, t))" by simp
  with \<open>(c, t) \<in> set xs\<close> have "(cs, u) \<in> (\<Union>ct \<in> set xs. set (after f ct))" by (rule UN_I)
  then show "(cs, u) \<in> set (concat (map (after f) xs))" by simp
qed

lemma in_many:
  assumes "(cs, t) \<in> set (many (Suc n) f s)"
  obtains (stop) "t = s" "cs = []"
  | (go) c v d where "(c, v) \<in> set (f s)" "length v < length s" "cs = c @ d" "(d, t) \<in> set (many n f v)"
proof (cases "t = s \<and> cs = []")
  case False
  with assms have "(cs, t) \<in> set (concat (map (after (many n f)) (filter (\<lambda>(_, t). length t < length s) (f s))))" by auto
  then obtain c v d where "(c, v) \<in> set (filter (\<lambda>(_, t). length t < length s) (f s))" "cs = c @ d" "(d, t) \<in> set (many n f v)"
    unfolding in_after by blast
  then show thesis using go [of c v d] by simp
qed (use stop in simp)

lemma suffixing_many: "suffixing f \<Longrightarrow> suffixing (many n f)"
proof (induction n)
  case 0
  then show ?case by (simp add: suffixing_def)
next
  case (Suc n)
  show ?case unfolding suffixing_def
  proof (intro allI impI)
    fix s cs t assume "(cs, t) \<in> set (many (Suc n) f s)"
    then show "\<exists>u. s = u @ t"
    proof (cases rule: in_many)
      case (go c v d)
      obtain u where "s = u @ v" using suffixingD [OF Suc.prems go(1)] by blast
      moreover obtain w where "v = w @ t" using suffixingD [OF Suc.IH [OF Suc.prems] go(4)] by blast
      ultimately show ?thesis by (intro exI [of _ "u @ w"]) simp
    qed simp
  qed
qed

lemma suffixing_seq: "suffixing f \<Longrightarrow> suffixing g \<Longrightarrow> suffixing (\<lambda>s. concat (map (after g) (f s)))"
  unfolding suffixing_def
proof (intro allI impI)
  fix s cs t
  assume f: "\<forall>s cs t. (cs, t) \<in> set (f s) \<longrightarrow> (\<exists>u. s = u @ t)"
    and g: "\<forall>s cs t. (cs, t) \<in> set (g s) \<longrightarrow> (\<exists>u. s = u @ t)"
    and "(cs, t) \<in> set (concat (map (after g) (f s)))"
  then obtain c v d where "(c, v) \<in> set (f s)" "(d, t) \<in> set (g v)" unfolding in_after by blast
  with f g obtain u w where "s = u @ v" "v = w @ t" by meson
  then show "\<exists>u. s = u @ t" by (intro exI [of _ "u @ w"]) simp
qed

lemma suffixing_exact: "suffixing f \<Longrightarrow> suffixing (exact n f)"
proof (induction n)
  case 0
  then show ?case by (simp add: suffixing_def)
next
  case (Suc n)
  from suffixing_seq [OF Suc.prems Suc.IH [OF Suc.prems]] show ?case by (simp add: suffixing_def)
qed

lemma suffixing_runs: "suffixing (runs_rx r)"
proof (induction r)
  case (One p)
  then show ?case by (auto simp: suffixing_def split: list.splits if_splits)
next
  case (Seq a b)
  from suffixing_seq [OF this] show ?case by (simp add: suffixing_def)
next
  case (Or a b)
  then show ?case by (auto simp: suffixing_def)
next
  case (Many a)
  from suffixing_many [OF this] show ?case by (simp add: suffixing_def)
next
  case (Between m n a)
  from suffixing_seq [OF suffixing_exact [OF this, of m] suffixing_many [OF this, of "n - m"]]
  show ?case by (simp add: suffixing_def)
next
  case (Group k a)
  then show ?case by (auto simp: suffixing_def)
next
  case AtEnd
  then show ?case by (simp add: suffixing_def)
qed

text \<open>Along the pattern, with what each part reads.\<close>

definition reads :: "rx \<Rightarrow> string \<Rightarrow> caps \<Rightarrow> string \<Rightarrow> bool" where
  "reads r u cs t \<longleftrightarrow> (cs, t) \<in> set (runs_rx r (u @ t))"

lemma reads_One: "reads (One p) u cs t \<longleftrightarrow> (\<exists>c. u = [c] \<and> p c \<and> cs = [])"
  unfolding reads_def by (cases u) (auto split: list.splits if_splits)

lemma reads_Seq: "reads (Seq a b) w cs t \<longleftrightarrow> (\<exists>u v c d. w = u @ v \<and> cs = c @ d \<and> reads a u c (v @ t) \<and> reads b v d t)"
proof
  assume "reads (Seq a b) w cs t"
  then obtain c x d where x: "(c, x) \<in> set (runs_rx a (w @ t))" "cs = c @ d" "(d, t) \<in> set (runs_rx b x)"
    unfolding reads_def runs_rx.simps in_after by blast
  obtain v where v: "x = v @ t" using suffixingD [OF suffixing_runs x(3)] by blast
  obtain u where "w @ t = u @ x" using suffixingD [OF suffixing_runs x(1)] by blast
  with v have "w = u @ v" by simp
  with x v show "\<exists>u v c d. w = u @ v \<and> cs = c @ d \<and> reads a u c (v @ t) \<and> reads b v d t"
    unfolding reads_def by auto
next
  assume "\<exists>u v c d. w = u @ v \<and> cs = c @ d \<and> reads a u c (v @ t) \<and> reads b v d t"
  then obtain u v c d where "w = u @ v" "cs = c @ d" "(c, v @ t) \<in> set (runs_rx a (u @ v @ t))" "(d, t) \<in> set (runs_rx b (v @ t))"
    unfolding reads_def by auto
  then show "reads (Seq a b) w cs t" unfolding reads_def runs_rx.simps in_after by auto
qed

lemma reads_SeqE:
  assumes "reads (Seq a b) w cs t"
  obtains u v c d where "w = u @ v" "cs = c @ d" "reads a u c (v @ t)" "reads b v d t"
proof -
  from assms have "\<exists>u v c d. w = u @ v \<and> cs = c @ d \<and> reads a u c (v @ t) \<and> reads b v d t"
    unfolding reads_Seq .
  then show thesis by (elim exE conjE) (rule that)
qed

lemma reads_Or: "reads (Or a b) u cs t \<longleftrightarrow> reads a u cs t \<or> reads b u cs t"
  by (simp add: reads_def)

lemma reads_AtEnd: "reads AtEnd u cs t \<longleftrightarrow> u = [] \<and> t = [] \<and> cs = []"
  by (auto simp: reads_def)

lemma reads_Group: "reads (Group k a) u cs t \<longleftrightarrow> (\<exists>c. cs = (k, u) # c \<and> reads a u c t)"
proof
  assume "reads (Group k a) u cs t"
  then show "\<exists>c. cs = (k, u) # c \<and> reads a u c t" by (auto simp: reads_def)
next
  assume "\<exists>c. cs = (k, u) # c \<and> reads a u c t"
  then obtain c where "cs = (k, u) # c" "(c, t) \<in> set (runs_rx a (u @ t))" by (auto simp: reads_def)
  then show "reads (Group k a) u cs t" unfolding reads_def runs_rx.simps by force
qed

lemma reads_GroupE:
  assumes "reads (Group k a) u cs t"
  obtains c where "cs = (k, u) # c" "reads a u c t"
proof -
  from assms have "\<exists>c. cs = (k, u) # c \<and> reads a u c t" unfolding reads_Group .
  then show thesis by (elim exE conjE) (rule that)
qed

text \<open>Repetition of a class of characters reads characters of the class, and captures nothing.\<close>

lemma many_class: "(cs, t) \<in> set (many n (runs_rx (One p)) s) \<Longrightarrow> \<exists>u. s = u @ t \<and> list_all p u \<and> cs = [] \<and> length u \<le> n"
proof (induction n arbitrary: s cs)
  case (Suc n)
  from Suc.prems show ?case
  proof (cases rule: in_many)
    case (go c v d)
    then obtain x where x: "s = x # v" "p x" "c = []" by (auto split: list.splits if_splits)
    obtain u where "v = u @ t" "list_all p u" "d = []" "length u \<le> n" using Suc.IH [OF go(4)] by blast
    with x go show ?thesis by (intro exI [of _ "x # u"]) simp
  qed simp
qed simp

lemma reads_Many_class: "reads (Many (One p)) u cs t \<Longrightarrow> list_all p u \<and> cs = []"
  unfolding reads_def runs_rx.simps(4) using many_class by fastforce

lemma reads_Many1_class: "reads (Many1 (One p)) u cs t \<Longrightarrow> u \<noteq> [] \<and> list_all p u \<and> cs = []"
  by (auto simp: reads_Seq reads_One dest: reads_Many_class)

lemma reads_Optional: "reads (Optional a) u cs t \<Longrightarrow> u = [] \<and> cs = [] \<or> reads a u cs t"
proof -
  assume "reads (Optional a) u cs t"
  then have "(cs, t) \<in> set (many (Suc 0) (runs_rx a) (u @ t))" by (simp add: reads_def after_def)
  then show ?thesis by (cases rule: in_many) (auto simp: reads_def)
qed

lemma reads_word: "reads (word_rx w) u cs t \<Longrightarrow> w \<noteq> [] \<Longrightarrow> u = w \<and> cs = []"
proof (induction w arbitrary: u cs rule: word_rx.induct)
  case (2 c)
  then show ?case by (auto simp: reads_One)
next
  case (3 c d s)
  then show ?case by (fastforce simp: reads_Seq reads_One)
qed simp

lemma MatchPrefix_reads: "MatchPrefix r s = Some cs \<Longrightarrow> \<exists>u t. s = u @ t \<and> reads r u cs t"
proof -
  assume "MatchPrefix r s = Some cs"
  then obtain t where t: "(cs, t) \<in> set (runs_rx r s)"
    by (auto simp: MatchPrefix_def split: list.splits)
  then obtain u where "s = u @ t" using suffixingD [OF suffixing_runs] by blast
  with t show ?thesis unfolding reads_def by blast
qed

lemma FindStringSubmatch_reads: "FindStringSubmatch r s = Some cs \<Longrightarrow> \<exists>v u t. s = v @ u @ t \<and> reads r u cs t"
proof (induction s)
  case Nil
  then show ?case using MatchPrefix_reads [of r "[]"] by auto
next
  case (Cons c s)
  show ?case
  proof (cases "MatchPrefix r (c # s)")
    case None
    with Cons obtain v u t where "s = v @ u @ t" "reads r u cs t" by auto
    then show ?thesis by (intro exI [of _ "c # v"] exI [of _ u] exI [of _ t]) simp
  next
    case (Some ds)
    with Cons.prems have "MatchPrefix r (c # s) = Some cs" by simp
    from MatchPrefix_reads [OF this] show ?thesis by (metis append_Nil)
  qed
qed

text \<open>The other way: what a pattern can read, a run of it reads.\<close>

lemma many_stop: "([], s) \<in> set (many n f s)"
  by (cases n) simp_all

lemma many_class_complete:
  assumes f: "\<And>c x. p c \<Longrightarrow> f (c # x) = [([], x)]"
  shows "list_all p u \<Longrightarrow> length u \<le> n \<Longrightarrow> ([], t) \<in> set (many n f (u @ t))"
proof (induction u arbitrary: n)
  case (Cons c u)
  then obtain m where m: "n = Suc m" "length u \<le> m" by (cases n) auto
  from Cons.prems(1) have u: "list_all p u" and c: "p c" by simp_all
  have "([], t) \<in> set (many m f (u @ t))" by (rule Cons.IH [OF u m(2)])
  then have "([], t) \<in> set (after (many m f) ([], u @ t))" by simp
  with f [OF c] m(1) show ?case by simp
qed (simp add: many_stop)

lemma reads_OneI: "p c \<Longrightarrow> reads (One p) [c] [] t"
  by (simp add: reads_One)

lemma reads_SeqI: "reads a u c (v @ t) \<Longrightarrow> reads b v d t \<Longrightarrow> reads (Seq a b) (u @ v) (c @ d) t"
  unfolding reads_Seq by blast

lemma reads_GroupI: "reads a u c t \<Longrightarrow> reads (Group k a) u ((k, u) # c) t"
  unfolding reads_Group by blast

lemma reads_ManyI: "list_all p u \<Longrightarrow> reads (Many (One p)) u [] t"
  unfolding reads_def runs_rx.simps(4) by (rule many_class_complete) simp_all

lemma reads_Many1I:
  assumes "u \<noteq> []" and "list_all p u"
  shows "reads (Many1 (One p)) u [] t"
proof -
  obtain c v where u: "u = [c] @ v" using assms(1) by (cases u) auto
  have "reads (One p) [c] [] (v @ t)" using assms(2) u by (simp add: reads_One)
  moreover have "reads (Many (One p)) v [] t" using assms(2) u by (intro reads_ManyI) simp
  ultimately have "reads (Many1 (One p)) ([c] @ v) ([] @ []) t" by (rule reads_SeqI)
  then show ?thesis using u by simp
qed

lemma reads_Optional_none: "reads (Optional a) [] [] t"
  by (simp add: reads_def after_def)

lemma reads_OptionalI: "reads a u cs t \<Longrightarrow> u \<noteq> [] \<Longrightarrow> reads (Optional a) u cs t"
  by (auto simp: reads_def after_def intro!: bexI [of _ "(cs, t)"])

lemma reads_wordI: "w \<noteq> [] \<Longrightarrow> reads (word_rx w) w [] t"
proof (induction w rule: word_rx.induct)
  case (3 c d s)
  have "reads (One ((=) c)) [c] [] ((d # s) @ t)" by (simp add: reads_One)
  moreover have "reads (word_rx (d # s)) (d # s) [] t" using 3 by simp
  ultimately have "reads (Seq (One ((=) c)) (word_rx (d # s))) ([c] @ d # s) ([] @ []) t" by (rule reads_SeqI)
  then show ?case by simp
qed (simp_all add: reads_One)

lemma reads_MatchPrefix:
  assumes "reads r s cs t"
  shows "\<exists>ds. MatchPrefix r (s @ t) = Some ds"
proof -
  have "runs_rx r (s @ t) \<noteq> []" using assms unfolding reads_def by auto
  then show ?thesis unfolding MatchPrefix_def by (auto split: list.splits)
qed

section \<open>Common parts\<close>

definition any_char :: rx where "any_char = One (\<lambda>c. c \<noteq> CHR ''\<newline>'')"

text \<open>\<^verbatim>\<open>\s\<close> of Go is tab, line feed, form feed, carriage return and space.\<close>

definition re_space :: "char \<Rightarrow> bool" where
  "re_space c \<longleftrightarrow> (of_char c :: nat) \<in> {9, 10, 12, 13, 32}"

definition spaces :: rx where "spaces = Many1 (One re_space)"

definition digits :: rx where "digits = Many1 (One is_digit)"

lemma spaces_read: "reads spaces u cs t \<Longrightarrow> u \<noteq> [] \<and> list_all re_space u \<and> cs = []"
  unfolding spaces_def by (rule reads_Many1_class)

lemma digits_read: "reads digits u cs t \<Longrightarrow> u \<noteq> [] \<and> list_all is_digit u \<and> cs = []"
  unfolding digits_def by (rule reads_Many1_class)

text \<open>Parts of a pattern that capture nothing can be skipped.\<close>

definition plain :: "rx \<Rightarrow> bool" where
  "plain r \<longleftrightarrow> (\<forall>u cs t. reads r u cs t \<longrightarrow> cs = [])"

definition later :: "rx \<Rightarrow> string \<Rightarrow> caps \<Rightarrow> string \<Rightarrow> bool" where
  "later r u cs t \<longleftrightarrow> (\<exists>p x. u = p @ x \<and> reads r x cs t)"

lemma plain_word: "w \<noteq> [] \<Longrightarrow> plain (word_rx w)"
  unfolding plain_def using reads_word by blast

lemma plain_any: "plain (Many any_char)"
  unfolding plain_def any_char_def using reads_Many_class by blast

lemma plain_spaces: "plain spaces"
  unfolding plain_def using spaces_read by blast

lemma later_Seq:
  assumes "plain a" and "later (Seq a b) u cs t"
  shows "later b u cs t"
proof -
  from assms(2) obtain p x where p: "u = p @ x" "reads (Seq a b) x cs t" unfolding later_def by blast
  obtain y z c d where y: "x = y @ z" "cs = c @ d" "reads a y c (z @ t)" "reads b z d t"
    using p(2) by (rule reads_SeqE)
  have "c = []" using assms(1) y(3) unfolding plain_def by blast
  then have "u = (p @ y) @ z \<and> reads b z cs t" using p(1) y by simp
  then show ?thesis unfolding later_def by (intro exI)
qed

end
