(* ===== verification/EnrollLog.thy ===== *)
theory EnrollLog
  imports GoSubmatch EnrollRegistry
begin

text \<open>
  \<^verbatim>\<open>internal/modules/enroll/enroll.go\<close>, the DHCP log: a line of dnsmasq is split into a
  transaction number and a text, the text is matched against four patterns, and what it says is
  gathered per transaction; an acknowledgement makes a device of it. Times of transactions are
  nanoseconds, those of devices seconds.
\<close>

section \<open>The patterns\<close>

definition dnsmasqPrefixRe :: rx where
  "dnsmasqPrefixRe =
     Seq (Many any_char) (Seq (word_rx ''dnsmasq-dhcp'') (Seq (Many any_char) (Seq (word_rx ''['')
       (Seq (Many any_char) (Seq (word_rx '']'') (Seq spaces
         (Seq (Optional (Seq (Group 1 digits) spaces)) (Seq (Group 2 (Many1 any_char)) AtEnd))))))))"

definition octet_rx :: rx where "octet_rx = Between 2 2 (One is_hex)"

definition dhcpOpRe :: rx where
  "dhcpOpRe =
     Seq (Group 1 (Or (word_rx ''DHCPDISCOVER'') (Or (word_rx ''DHCPREQUEST'') (Or (word_rx ''DHCPACK'') (word_rx ''DHCPNAK'')))))
      (Seq (word_rx ''('') (Seq (Many1 (One (\<lambda>c. c \<noteq> CHR '')''))) (Seq (word_rx '')'') (Seq spaces
        (Seq (Optional (Seq (Group 2 (Seq (Between 1 3 (One is_digit)) (Between 3 3 (Seq (word_rx ''.'') (Between 1 3 (One is_digit)))))) spaces))
          (Seq (Group 3 (Seq octet_rx (Between 5 5 (Seq (word_rx '':'') octet_rx)))) (Or (One re_space) AtEnd)))))))"

text \<open>\<^verbatim>\<open>^(\d+)\s+<words>:\s+(.+)$\<close> for three kinds of words.\<close>

definition fact_rx :: "string \<Rightarrow> rx" where
  "fact_rx words =
     Seq (Group 1 digits) (Seq spaces (Seq (word_rx words) (Seq spaces (Seq (Group 2 (Many1 any_char)) AtEnd))))"

definition clientNameRe :: rx where "clientNameRe = fact_rx ''client provides name:''"
definition vendorClassRe :: rx where "vendorClassRe = fact_rx ''vendor class:''"
definition requestedOptsRe :: rx where "requestedOptsRe = fact_rx ''requested options:''"

section \<open>A line\<close>

definition extractTransactionID :: "string \<Rightarrow> string" where
  "extractTransactionID text = []"

definition new_txn :: txn where
  "new_txn = \<lparr>t_mac = [], t_ip = [], t_hostname = [], t_vendorClass = [], t_fingerprint = [], t_lastActivity = 0\<rparr>"

text \<open>The option numbers of ``1:netmask, 3:router'': what stands before a colon that is not first.\<close>

definition option_number :: "string \<Rightarrow> string option" where
  "option_number part =
     (case str_index (trim_space part) '':'' of
        Some n \<Rightarrow> if 0 < n then Some (take n (trim_space part)) else None
      | None \<Rightarrow> None)"

definition option_list :: "string \<Rightarrow> string" where
  "option_list s = join_with '','' (List.map_filter option_number (split_on (CHR '','') s))"

definition dhcp_op :: "caps \<Rightarrow> txn \<Rightarrow> txn" where
  "dhcp_op m t =
     (let mac = to_upper (group_of m 3);
          t1 = (if \<not> isPseudoMAC mac then t\<lparr>t_mac := to_lower mac\<rparr> else t)
      in if group_of m 2 \<noteq> [] then t1\<lparr>t_ip := group_of m 2\<rparr> else t1)"

text \<open>What a text does to its transaction, and whether it makes a device of it.\<close>

definition txn_text :: "string \<Rightarrow> string \<Rightarrow> txn \<Rightarrow> txn \<times> bool" where
  "txn_text txnID text t =
     (case MatchPrefix dhcpOpRe text of
        Some m \<Rightarrow> (let t1 = dhcp_op m t in (t1, has_prefix text ''DHCPACK'' \<and> t_mac t1 \<noteq> []))
      | None \<Rightarrow>
          (case MatchPrefix clientNameRe text of
             Some m \<Rightarrow> (if group_of m 1 = txnID then t\<lparr>t_hostname := group_of m 2\<rparr> else t, False)
           | None \<Rightarrow>
               (case MatchPrefix vendorClassRe text of
                  Some m \<Rightarrow> (if group_of m 1 = txnID then t\<lparr>t_vendorClass := group_of m 2\<rparr> else t, False)
                | None \<Rightarrow>
                    (case MatchPrefix requestedOptsRe text of
                       Some m \<Rightarrow> (if group_of m 1 = txnID then t\<lparr>t_fingerprint := option_list (group_of m 2)\<rparr> else t, False)
                     | None \<Rightarrow> (t, False)))))"

definition parseDnsmasqLogLine :: "int \<Rightarrow> string \<Rightarrow> (string, txn) gomap \<times> enroll \<Rightarrow> (string, txn) gomap \<times> enroll" where
  "parseDnsmasqLogLine now line st =
     (case (FindStringSubmatch dnsmasqPrefixRe line, st) of
        (None, _) \<Rightarrow> st
      | (Some m, (txns, en)) \<Rightarrow>
          let text = group_of m 2;
              txnID = (if group_of m 1 = [] then extractTransactionID text else group_of m 1)
          in if txnID = [] then st
             else
               let t = (case mget txns txnID of Some t \<Rightarrow> t | None \<Rightarrow> new_txn);
                   (t1, emit) = txn_text txnID text (t\<lparr>t_lastActivity := now\<rparr>)
               in (mput txnID t1 txns, if emit then emitDeviceFromTransaction (now div 1000000000) t1 en else en))"

text \<open>Transactions nothing was heard of for ten minutes are dropped, at most every five.\<close>

definition clean_txns :: "int \<Rightarrow> int \<Rightarrow> (string, txn) gomap \<Rightarrow> (string, txn) gomap \<times> int" where
  "clean_txns now lastCleanup txns =
     (if now - lastCleanup > 5 * 60 * 1000000000 then (filter (\<lambda>(_, t). \<not> now - t_lastActivity t > 10 * 60 * 1000000000) txns, now)
      else (txns, lastCleanup))"

section \<open>What a line can teach\<close>

text \<open>
  A line that says its transaction number twice in a row: a number, blanks, the same number, a blank.
\<close>

definition repeats_here :: "string \<Rightarrow> bool" where
  "repeats_here s =
     (let i = takeWhile is_digit s; r = dropWhile is_digit s; q = dropWhile re_space r
      in i \<noteq> [] \<and> q \<noteq> r \<and> take (length i) q = i \<and>
         (case drop (length i) q of [] \<Rightarrow> False | c # _ \<Rightarrow> re_space c))"

fun repeats :: "string \<Rightarrow> bool" where
  "repeats [] = False"
| "repeats (c # s) \<longleftrightarrow> repeats_here (c # s) \<or> repeats s"

lemma repeats_append: "repeats s \<Longrightarrow> repeats (pre @ s)"
  by (induction pre) simp_all

lemma space_no_digit: "re_space c \<Longrightarrow> \<not> is_digit c"
  by (auto simp: re_space_def is_digit_def)

lemma span_all:
  assumes "list_all p u" and "v = [] \<or> \<not> p (hd v)"
  shows "takeWhile p (u @ v) = u" "dropWhile p (u @ v) = v"
proof -
  have "takeWhile p v = [] \<and> dropWhile p v = v" using assms(2) by (cases v) auto
  then show "takeWhile p (u @ v) = u" "dropWhile p (u @ v) = v"
    using assms(1) by (simp_all add: list_all_iff takeWhile_append2 dropWhile_append2)
qed

lemma repeats_intro:
  assumes "i \<noteq> []" and "list_all is_digit i" and "s1 \<noteq> []" and "list_all re_space s1" and "s2 \<noteq> []" and "list_all re_space s2"
  shows "repeats (pre @ i @ s1 @ i @ s2 @ rest)"
proof -
  obtain a s1' where s1: "s1 = a # s1'" "re_space a" using assms(3,4) by (cases s1) auto
  obtain d i' where i: "i = d # i'" "is_digit d" using assms(1,2) by (cases i) auto
  obtain b s2' where s2: "s2 = b # s2'" "re_space b" using assms(5,6) by (cases s2) auto
  have t: "takeWhile is_digit (i @ s1 @ i @ s2 @ rest) = i" "dropWhile is_digit (i @ s1 @ i @ s2 @ rest) = s1 @ i @ s2 @ rest"
    using span_all [OF assms(2), of "s1 @ i @ s2 @ rest"] s1 space_no_digit by simp_all
  have "\<not> re_space d" using i(2) space_no_digit by blast
  then have q: "dropWhile re_space (s1 @ i @ s2 @ rest) = i @ s2 @ rest"
    using span_all(2) [OF assms(4), of "i @ s2 @ rest"] i by simp
  have "repeats_here (i @ s1 @ i @ s2 @ rest)"
    unfolding repeats_here_def Let_def t q using assms(1) s1 s2 by simp
  then have "repeats (i @ s1 @ i @ s2 @ rest)" using i by simp
  then show ?thesis by (rule repeats_append)
qed

lemma fact_read:
  assumes "MatchPrefix (fact_rx words) text = Some m"
  obtains i s1 rest where "text = i @ s1 @ rest" "group_of m 1 = i" "i \<noteq> []" "list_all is_digit i" "s1 \<noteq> []" "list_all re_space s1"
proof -
  obtain u t where u: "text = u @ t" "reads (fact_rx words) u m t" using MatchPrefix_reads [OF assms] by blast
  obtain a b c d where g: "u = a @ b" "m = c @ d" "reads (Group 1 digits) a c (b @ t)"
    "reads (Seq spaces (Seq (word_rx words) (Seq spaces (Seq (Group 2 (Many1 any_char)) AtEnd)))) b d t"
    using u(2) unfolding fact_rx_def by (rule reads_SeqE)
  obtain s1 v e f where s: "b = s1 @ v" "d = e @ f" "reads spaces s1 e (v @ t)"
    "reads (Seq (word_rx words) (Seq spaces (Seq (Group 2 (Many1 any_char)) AtEnd))) v f t"
    using g(4) by (rule reads_SeqE)
  obtain c' where c: "c = (1, a) # c'" "reads digits a c' (b @ t)" using g(3) by (rule reads_GroupE)
  show thesis
    using that [of a s1 "v @ t"] u(1) g(1,2) s(1) c(1) digits_read [OF c(2)] spaces_read [OF s(3)]
    by (simp add: group_of_def)
qed

text \<open>The prefix leaves a number, blanks and the text.\<close>

lemma prefix_read:
  assumes "FindStringSubmatch dnsmasqPrefixRe line = Some m" and "group_of m 1 \<noteq> []"
  obtains pre s1 post where "line = pre @ group_of m 1 @ s1 @ group_of m 2 @ post" "list_all is_digit (group_of m 1)"
    "s1 \<noteq> []" "list_all re_space s1"
proof -
  let ?opt = "Optional (Seq (Group 1 digits) spaces)"
  let ?last = "Seq (Group 2 (Many1 any_char)) AtEnd"
  obtain v u t where u: "line = v @ u @ t" "reads dnsmasqPrefixRe u m t"
    using FindStringSubmatch_reads [OF assms(1)] by (elim exE conjE)
  have w: "plain (word_rx ''dnsmasq-dhcp'')" "plain (word_rx ''['')" "plain (word_rx '']'')" by (rule plain_word, simp)+
  have "later dnsmasqPrefixRe u m t" using u(2) unfolding later_def by (intro exI [of _ "[]"] exI [of _ u]) simp
  note this [unfolded dnsmasqPrefixRe_def]
  from later_Seq [OF w(3) later_Seq [OF plain_any later_Seq [OF w(2) later_Seq [OF plain_any later_Seq [OF w(1) later_Seq [OF plain_any this]]]]]]
  have "later (Seq ?opt ?last) u m t" by (rule later_Seq [OF plain_spaces])
  then obtain p x where x: "u = p @ x" "reads (Seq ?opt ?last) x m t" unfolding later_def by (elim exE conjE)
  obtain a b c d where g: "x = a @ b" "m = c @ d" "reads ?opt a c (b @ t)" "reads ?last b d t"
    using x(2) by (rule reads_SeqE)
  obtain y z e f where y: "b = y @ z" "d = e @ f" "reads (Group 2 (Many1 any_char)) y e (z @ t)" "reads AtEnd z f t"
    using g(4) by (rule reads_SeqE)
  obtain e' where e: "e = (2, y) # e'" "reads (Many1 any_char) y e' (z @ t)" using y(3) by (rule reads_GroupE)
  then have e': "e' = []" unfolding any_char_def using reads_Many1_class by blast
  have f: "f = []" using y(4) by (simp add: reads_AtEnd)
  from reads_Optional [OF g(3)] show thesis
  proof
    assume "a = [] \<and> c = []"
    with g(2) y(2) e(1) e' f have "group_of m 1 = []" by (simp add: group_of_def)
    with assms(2) show thesis by simp
  next
    assume opt: "reads (Seq (Group 1 digits) spaces) a c (b @ t)"
    obtain i s1 c1 c2 where i: "a = i @ s1" "c = c1 @ c2" "reads (Group 1 digits) i c1 (s1 @ b @ t)" "reads spaces s1 c2 (b @ t)"
      using opt by (rule reads_SeqE)
    obtain c1' where c1: "c1 = (1, i) # c1'" "reads digits i c1' (s1 @ b @ t)" using i(3) by (rule reads_GroupE)
    have "group_of m 1 = i" "group_of m 2 = y"
      using g(2) i(2) c1 digits_read [OF c1(2)] spaces_read [OF i(4)] y(2) e(1) by (simp_all add: group_of_def)
    then show thesis
      using that [of "v @ p" s1 "z @ t"] u(1) x(1) g(1) i(1) y(1) digits_read [OF c1(2)] spaces_read [OF i(4)] by simp
  qed
qed

definition learnt :: "txn \<Rightarrow> string \<times> string \<times> string" where
  "learnt t = (t_hostname t, t_vendorClass t, t_fingerprint t)"

lemma dhcp_op_learnt [simp]: "learnt (dhcp_op m t) = learnt t"
  by (simp add: learnt_def dhcp_op_def Let_def)

lemma txn_text_learnt:
  assumes "learnt (fst (txn_text i text t)) \<noteq> learnt t"
  obtains s1 rest where "text = i @ s1 @ rest" "i \<noteq> []" "list_all is_digit i" "s1 \<noteq> []" "list_all re_space s1"
proof -
  have "\<exists>words m. MatchPrefix (fact_rx words) text = Some m \<and> group_of m 1 = i"
    using assms
    by (auto simp: txn_text_def Let_def clientNameRe_def vendorClassRe_def requestedOptsRe_def split: option.splits if_splits)
  then obtain words m where m: "MatchPrefix (fact_rx words) text = Some m" "group_of m 1 = i" by (elim exE conjE)
  obtain j s1 rest where f: "text = j @ s1 @ rest" "group_of m 1 = j" "j \<noteq> []" "list_all is_digit j"
    "s1 \<noteq> []" "list_all re_space s1" using m(1) by (rule fact_read)
  have "j = i" using f(2) m(2) by (rule trans [OF sym])
  show thesis by (rule that [OF f(1,3-6) [unfolded \<open>j = i\<close>]])
qed

lemma in_mput: "(i, t) \<in> set (mput k v m) \<Longrightarrow> t = v \<or> (i, t) \<in> set m"
  unfolding mput_def by (induction m) (auto split: if_splits)

text \<open>What a line teaches about a transaction needs the number of the transaction twice.\<close>

lemma line_learns:
  assumes "\<not> repeats line" and "\<forall>(i, t) \<in> set txns. learnt t = ([], [], [])"
  shows "\<forall>(i, t) \<in> set (fst (parseDnsmasqLogLine now line (txns, en))). learnt t = ([], [], [])"
proof (cases "FindStringSubmatch dnsmasqPrefixRe line")
  case None
  with assms(2) show ?thesis by (simp add: parseDnsmasqLogLine_def)
next
  case (Some m)
  let ?i = "group_of m 1" and ?text = "group_of m 2"
  show ?thesis
  proof (cases "?i = []")
    case True
    with Some assms(2) show ?thesis by (simp add: parseDnsmasqLogLine_def extractTransactionID_def Let_def)
  next
    case False
    let ?t = "(case mget txns ?i of Some t \<Rightarrow> t | None \<Rightarrow> new_txn)\<lparr>t_lastActivity := now\<rparr>"
    have "learnt (case mget txns ?i of Some t \<Rightarrow> t | None \<Rightarrow> new_txn) = ([], [], [])"
      using assms(2) by (auto simp: new_txn_def learnt_def mget_def dest!: map_of_SomeD split: option.splits)
    then have t: "learnt ?t = ([], [], [])" by (simp add: learnt_def)
    have "learnt (fst (txn_text ?i ?text ?t)) = learnt ?t"
    proof (rule ccontr)
      assume "learnt (fst (txn_text ?i ?text ?t)) \<noteq> learnt ?t"
      then obtain s2 rest where
        x: "?text = ?i @ s2 @ rest" "?i \<noteq> []" "list_all is_digit ?i" "s2 \<noteq> []" "list_all re_space s2" by (rule txn_text_learnt)
      obtain pre s1 post where
        y: "line = pre @ ?i @ s1 @ ?text @ post" "list_all is_digit ?i" "s1 \<noteq> []" "list_all re_space s1"
        using Some False by (rule prefix_read)
      have "line = pre @ ?i @ s1 @ ?i @ s2 @ (rest @ post)" using y(1) x(1) by (metis append_assoc)
      moreover have "repeats (pre @ ?i @ s1 @ ?i @ s2 @ (rest @ post))"
        using False x(3) y(3,4) x(4,5) by (rule repeats_intro)
      ultimately show False using assms(1) by metis
    qed
    with t have l: "learnt (fst (txn_text ?i ?text ?t)) = ([], [], [])" by simp
    have p: "fst (parseDnsmasqLogLine now line (txns, en)) = mput ?i (fst (txn_text ?i ?text ?t)) txns"
      using Some False by (simp add: parseDnsmasqLogLine_def Let_def split: prod.splits)
    show ?thesis unfolding p
    proof (intro ballI, clarify)
      fix i t assume "(i, t) \<in> set (mput ?i (fst (txn_text ?i ?text ?t)) txns)"
      then have "t = fst (txn_text ?i ?text ?t) \<or> (i, t) \<in> set txns" by (rule in_mput)
      with l assms(2) show "learnt t = ([], [], [])" by auto
    qed
  qed
qed

section \<open>Results\<close>

text \<open>
  From lines as dnsmasq writes them, with the number of the transaction once, no name, no vendor class
  and no fingerprint is ever learnt: the prefix takes the number, and the patterns want it again.
\<close>

theorem log_learns_nothing:
  assumes "\<forall>(now, line) \<in> set ls. \<not> repeats line"
  shows "\<forall>(i, t) \<in> set (fst (fold (\<lambda>(now, line). parseDnsmasqLogLine now line) ls ([], en))).
    t_hostname t = [] \<and> t_vendorClass t = [] \<and> t_fingerprint t = []"
proof -
  have "\<forall>(i, t) \<in> set (fst st). learnt t = ([], [], []) \<Longrightarrow> \<forall>(now, line) \<in> set ls. \<not> repeats line \<Longrightarrow>
    \<forall>(i, t) \<in> set (fst (fold (\<lambda>(now, line). parseDnsmasqLogLine now line) ls st)). learnt t = ([], [], [])" for st
  proof (induction ls arbitrary: st)
    case (Cons x ls)
    obtain now line where x: "x = (now, line)" by force
    have "\<forall>(i, t) \<in> set (fst (parseDnsmasqLogLine now line st)). learnt t = ([], [], [])"
      using line_learns [of line "fst st" now "snd st"] Cons.prems by (simp add: x)
    from Cons.IH [OF this] Cons.prems(2) show ?case by (simp add: x)
  qed simp
  from this [of "([], en)"] assms show ?thesis by (simp add: learnt_def)
qed

definition name_line :: string where
  "name_line = ''dnsmasq-dhcp 39072 - [meta sequenceId=9] 1234567 client provides name: fs-client''"

theorem log_learns_nothing_witness:
  "list_all (\<lambda>(i, t). t_hostname t = []) (fst (fold (\<lambda>(now, line). parseDnsmasqLogLine now line) [(0, name_line)] ([], new_module)))"
proof -
  have "\<not> repeats name_line" unfolding name_line_def by code_simp
  then have "\<forall>(now, line) \<in> set [(0, name_line)]. \<not> repeats line" by simp
  from log_learns_nothing [OF this, of new_module] show ?thesis by (auto simp: list_all_iff)
qed

text \<open>An acknowledgement with a transaction number gives the address and the hardware address, and makes a device.\<close>

lemma ack_example:
  "txn_text ''77'' ''DHCPACK(eth0) 10.0.0.5 AA:bb:cc:dd:ee:0f phone'' new_txn =
     (new_txn\<lparr>t_mac := ''aa:bb:cc:dd:ee:0f'', t_ip := ''10.0.0.5''\<rparr>, True)"
  by code_simp

end
