(* ===== verification/Tailer.thy ===== *)
theory Tailer
  imports GoText
begin

text \<open>
  \<^verbatim>\<open>internal/core/tail.go\<close>: reading a growing log file from where the last read stopped. A
  file is its inode and its bytes at the time of \<^verbatim>\<open>Stat\<close>; the limited, buffered reader over it
  yields the bytes between the offset and the limit. The results say what a sequence of reads of a
  file that only grows hands to its client: every complete line once and in order.
\<close>

section \<open>The tailer\<close>

record tailer =
  tl_offset :: nat
  tl_inode :: nat
  tl_seeded :: bool
  tl_StartAtEnd :: bool
  tl_MaxBytes :: int

definition NewTailer :: tailer where
  "NewTailer = \<lparr>tl_offset = 0, tl_inode = 0, tl_seeded = False, tl_StartAtEnd = True, tl_MaxBytes = 2 ^ 25\<rparr>"

definition Position :: "tailer \<Rightarrow> nat \<times> nat" where
  "Position t = (tl_offset t, tl_inode t)"

definition Restore :: "nat \<Rightarrow> nat \<Rightarrow> tailer \<Rightarrow> tailer" where
  "Restore offset inode t = t\<lparr>tl_offset := offset, tl_inode := inode, tl_seeded := inode \<noteq> 0\<rparr>"

abbreviation nl :: char where "nl \<equiv> CHR ''\<newline>''"

text \<open>\<^verbatim>\<open>bytes.TrimRight\<close> with both characters of a line end.\<close>

definition trim_eol :: "string \<Rightarrow> string" where
  "trim_eol line = rev (dropWhile (\<lambda>c. of_char c \<in> {10 :: nat, 13}) (rev line))"

text \<open>
  The loop over the bytes read: the lines handed on and how far the offset moves. The first argument
  holds, reversed, what \<^verbatim>\<open>ReadBytes\<close> has of the current line.
\<close>

fun read_loop :: "string \<Rightarrow> string \<Rightarrow> string list \<times> nat" where
  "read_loop cur [] = ([], 0)"
| "read_loop cur (c # s) =
     (if c = nl then
        let line = trim_eol (rev (c # cur)); (ls, n) = read_loop [] s
        in (if line \<noteq> [] then line # ls else ls, Suc (length cur) + n)
      else read_loop (c # cur) s)"

text \<open>One read: a missing file is an error; otherwise the lines, whose number is returned.\<close>

definition Lines :: "(nat \<times> string) option \<Rightarrow> tailer \<Rightarrow> (string + string list) \<times> tailer" where
  "Lines file t =
     (case file of
        None \<Rightarrow> (Inl ''no such file or directory'', t)
      | Some (ino, content) \<Rightarrow>
          if \<not> tl_seeded t \<and> tl_StartAtEnd t
          then (Inr [], t\<lparr>tl_seeded := True, tl_inode := ino, tl_offset := length content\<rparr>)
          else
            let t1 = (if \<not> tl_seeded t then t\<lparr>tl_seeded := True, tl_inode := ino, tl_offset := 0\<rparr> else t);
                t2 = (if ino \<noteq> tl_inode t1 \<or> length content < tl_offset t1 then t1\<lparr>tl_inode := ino, tl_offset := 0\<rparr> else t1)
            in if length content = tl_offset t2 then (Inr [], t2)
               else
                 let rest = length content - tl_offset t2;
                     limit = (if 0 < tl_MaxBytes t2 \<and> int rest > tl_MaxBytes t2 then nat (tl_MaxBytes t2) else rest);
                     (ls, n) = read_loop [] (take limit (drop (tl_offset t2) content))
                 in (Inr ls, t2\<lparr>tl_offset := tl_offset t2 + n\<rparr>))"

section \<open>The lines of a text\<close>

text \<open>The complete lines of a text, without line ends and empty ones.\<close>

definition complete_lines :: "string \<Rightarrow> string list" where
  "complete_lines s = filter (\<lambda>l. l \<noteq> []) (map trim_eol (butlast (split_on nl s)))"

lemma trim_eol_nl: "trim_eol (l @ [nl]) = trim_eol l"
  by (simp add: trim_eol_def)

lemma complete_lines_no_nl: "nl \<notin> set s \<Longrightarrow> complete_lines s = []"
  by (simp add: complete_lines_def split_on_no_sep)

lemma complete_lines_line:
  "nl \<notin> set l \<Longrightarrow> complete_lines (l @ nl # s) = (if trim_eol l \<noteq> [] then [trim_eol l] else []) @ complete_lines s"
  by (simp add: complete_lines_def split_on_append)

lemma split_on_append_end: "split_on c (s @ c # t) = split_on c s @ split_on c t"
proof (induction s)
  case (Cons a s)
  then show ?case by (cases "split_on c s") (auto split: list.splits)
qed simp

lemma complete_lines_append: "complete_lines (s @ nl # t) = complete_lines (s @ [nl]) @ complete_lines t"
  using split_on_append_end [of nl s t] split_on_append_end [of nl s "[]"]
  by (simp add: complete_lines_def butlast_append)

text \<open>What the loop reads is a whole number of lines, and all of them.\<close>

lemma read_loop_lines:
  assumes "nl \<notin> set cur" and "read_loop cur s = (ls, n)"
  shows "ls = complete_lines (rev cur @ s) \<and>
    (n = 0 \<and> nl \<notin> set s \<or> (\<exists>p q. s = p @ nl # q \<and> nl \<notin> set q \<and> n = length cur + Suc (length p)))"
  using assms
proof (induction s arbitrary: cur ls n)
  case Nil
  then show ?case by (simp add: complete_lines_no_nl)
next
  case (Cons c s)
  obtain ls' n' where r: "read_loop [] s = (ls', n')" by force
  show ?case
  proof (cases "c = nl")
    case True
    with Cons.prems(2) r have l: "ls = (if trim_eol (rev cur @ [nl]) \<noteq> [] then [trim_eol (rev cur @ [nl])] else []) @ ls'"
      and n: "n = Suc (length cur) + n'" by (auto simp: Let_def split: if_splits)
    from Cons.IH [OF _ r] have ih: "ls' = complete_lines s"
      "n' = 0 \<and> nl \<notin> set s \<or> (\<exists>p q. s = p @ nl # q \<and> nl \<notin> set q \<and> n' = Suc (length p))" by simp_all
    have "ls = complete_lines (rev cur @ c # s)"
      using l ih(1) True Cons.prems(1) by (simp add: complete_lines_line trim_eol_nl)
    moreover from ih(2) have "\<exists>p q. c # s = p @ nl # q \<and> nl \<notin> set q \<and> n = length cur + Suc (length p)"
    proof
      assume "n' = 0 \<and> nl \<notin> set s"
      with True n show ?thesis by (intro exI [of _ "[]"] exI [of _ s]) simp
    next
      assume "\<exists>p q. s = p @ nl # q \<and> nl \<notin> set q \<and> n' = Suc (length p)"
      then obtain p q where "s = p @ nl # q" "nl \<notin> set q" "n' = Suc (length p)" by blast
      with True n show ?thesis by (intro exI [of _ "nl # p"] exI [of _ q]) simp
    qed
    ultimately show ?thesis by blast
  next
    case False
    with Cons.prems have "nl \<notin> set (c # cur)" "read_loop (c # cur) s = (ls, n)" by simp_all
    from Cons.IH [OF this] have ih: "ls = complete_lines (rev cur @ c # s)"
      "n = 0 \<and> nl \<notin> set s \<or> (\<exists>p q. s = p @ nl # q \<and> nl \<notin> set q \<and> n = Suc (length cur) + Suc (length p))" by simp_all
    from ih(2) have "n = 0 \<and> nl \<notin> set (c # s) \<or>
        (\<exists>p q. c # s = p @ nl # q \<and> nl \<notin> set q \<and> n = length cur + Suc (length p))"
    proof
      assume "\<exists>p q. s = p @ nl # q \<and> nl \<notin> set q \<and> n = Suc (length cur) + Suc (length p)"
      then obtain p q where "s = p @ nl # q" "nl \<notin> set q" "n = Suc (length cur) + Suc (length p)" by blast
      then show ?thesis by (intro disjI2 exI [of _ "c # p"] exI [of _ q]) simp
    qed (use False in simp)
    with ih(1) show ?thesis by blast
  qed
qed

text \<open>A place between lines: the start, or after a line end.\<close>

definition at_line :: "nat \<Rightarrow> string \<Rightarrow> bool" where
  "at_line n s \<longleftrightarrow> n \<le> length s \<and> (n = 0 \<or> s ! (n - 1) = nl)"

lemma complete_lines_split:
  assumes "at_line n s"
  shows "complete_lines s = complete_lines (take n s) @ complete_lines (drop n s)"
proof (cases n)
  case 0
  then show ?thesis by (simp add: complete_lines_no_nl)
next
  case (Suc k)
  with assms have k: "k < length s" "s ! k = nl" by (simp_all add: at_line_def)
  then have t: "take n s = take k s @ [nl]" using Suc by (simp add: take_Suc_conv_app_nth)
  have "s = take k s @ nl # drop n s" using id_take_nth_drop [OF k(1)] k(2) Suc by simp
  then have "complete_lines s = complete_lines (take k s @ [nl]) @ complete_lines (drop n s)"
    using complete_lines_append [of "take k s" "drop n s"] by simp
  with t show ?thesis by simp
qed

text \<open>One read that starts between lines ends between lines, and hands on the lines it passes.\<close>

lemma read_lines:
  assumes "at_line o1 content" and "read_loop [] (take limit (drop o1 content)) = (ls, n)"
  shows "at_line (o1 + n) content" "ls = complete_lines (take n (drop o1 content))"
    "nl \<notin> set (drop (o1 + n) (take (o1 + limit) content))"
proof -
  let ?c = "take limit (drop o1 content)"
  have r: "ls = complete_lines ?c"
    "n = 0 \<and> nl \<notin> set ?c \<or> (\<exists>p q. ?c = p @ nl # q \<and> nl \<notin> set q \<and> n = Suc (length p))"
    using read_loop_lines [OF _ assms(2)] by simp_all
  have d: "drop (o1 + n) (take (o1 + limit) content) = drop n ?c"
    by (simp add: drop_take add.commute)
  from r(2) show "at_line (o1 + n) content" "ls = complete_lines (take n (drop o1 content))"
    "nl \<notin> set (drop (o1 + n) (take (o1 + limit) content))"
  proof (atomize (full), elim disjE exE conjE, goal_cases)
    case 1
    then show ?case using assms(1) r(1) d by (simp add: complete_lines_no_nl)
  next
    case (2 p q)
    have c: "?c = (p @ [nl]) @ q" "length (p @ [nl]) = n" using 2 by simp_all
    have n: "n \<le> length ?c" using c by simp
    have pre: "take n ?c = p @ [nl]" "drop n ?c = q" using c by (metis append_eq_conv_conj)+
    have "n \<le> limit" using n by simp
    then have tn: "take n (drop o1 content) = p @ [nl]" using n pre(1) by simp
    have "content ! (o1 + (n - 1)) = nl"
    proof -
      have "drop o1 content ! (n - 1) = nl"
        using tn c(2) by (metis Suc_diff_1 length_append_singleton lessI nth_append_length nth_take diff_Suc_1 zero_less_Suc)
      moreover have "o1 \<le> length content" using assms(1) by (simp add: at_line_def)
      ultimately show ?thesis by simp
    qed
    moreover have "n \<le> length content - o1" "o1 \<le> length content" using n assms(1) by (simp_all add: at_line_def)
    then have "o1 + n \<le> length content" by linarith
    ultimately have "at_line (o1 + n) content" using c(2) by (auto simp: at_line_def)
    moreover have "complete_lines ?c = complete_lines (p @ [nl])"
      using complete_lines_append [of p q] 2 by (simp add: complete_lines_no_nl)
    ultimately show ?case using r(1) tn d pre(2) 2 by simp
  qed
qed

section \<open>A sequence of reads\<close>

fun read_all :: "tailer \<Rightarrow> (nat \<times> string) list \<Rightarrow> string list \<times> tailer" where
  "read_all t [] = ([], t)"
| "read_all t (f # fs) =
     (let (r, t') = Lines (Some f) t; (ls, t'') = read_all t' fs
      in ((case r of Inr l \<Rightarrow> l | Inl _ \<Rightarrow> []) @ ls, t''))"

text \<open>From a place on, no line with its end is longer than the limit; a limit of zero or less is none.\<close>

definition fits :: "int \<Rightarrow> nat \<Rightarrow> string \<Rightarrow> bool" where
  "fits m n s \<longleftrightarrow> m \<le> 0 \<or>
     list_all (\<lambda>i. at_line i s \<and> nl \<in> set (drop i s) \<longrightarrow> nl \<in> set (take (nat m) (drop i s))) [n ..< Suc (length s)]"

definition line_ends :: "nat \<Rightarrow> string \<Rightarrow> nat" where
  "line_ends n s = length (filter (\<lambda>c. c = nl) (drop n s))"

lemma fitsD:
  assumes "fits m n s" and "0 < m" and "n \<le> i" and "at_line i s" and "nl \<in> set (drop i s)"
  shows "nl \<in> set (take (nat m) (drop i s))"
proof -
  have "i \<le> length s" using assms(4) by (simp add: at_line_def)
  with assms show ?thesis unfolding fits_def list_all_iff by auto
qed

lemma line_ends_pass:
  assumes "n < n'" and "at_line n' s"
  shows "line_ends n' s < line_ends n s"
proof -
  obtain k where k: "n' = Suc k" using assms(1) by (cases n') auto
  with assms have "k < length s" "s ! k = nl" "n \<le> k" by (simp_all add: at_line_def)
  then have "drop n s = take (k - n) (drop n s) @ nl # drop n' s"
    using id_take_nth_drop [of "k - n" "drop n s"] k by (simp add: add.commute)
  then have "line_ends n s = length (filter (\<lambda>c. c = nl) (take (k - n) (drop n s) @ nl # drop n' s))"
    unfolding line_ends_def by metis
  then show ?thesis by (simp add: line_ends_def)
qed

lemma line_ends_0: "line_ends n s = 0 \<longleftrightarrow> nl \<notin> set (drop n s)"
  by (auto simp: line_ends_def filter_empty_conv)

lemma one_read:
  assumes "tl_seeded t" and "tl_inode t = ino" and "at_line (tl_offset t) c"
  obtains ls t' where "Lines (Some (ino, c)) t = (Inr ls, t')" "tl_seeded t'" "tl_inode t' = ino"
    "tl_MaxBytes t' = tl_MaxBytes t" "at_line (tl_offset t') c" "tl_offset t \<le> tl_offset t'"
    "complete_lines (take (tl_offset t') c) = complete_lines (take (tl_offset t) c) @ ls"
    "fits (tl_MaxBytes t) (tl_offset t) c \<Longrightarrow> nl \<in> set (drop (tl_offset t) c) \<Longrightarrow> tl_offset t < tl_offset t'"
proof (cases "length c = tl_offset t")
  case True
  then have "Lines (Some (ino, c)) t = (Inr [], t)" using assms by (simp add: Lines_def)
  with True assms that show thesis by simp
next
  case False
  let ?o = "tl_offset t"
  let ?rest = "length c - ?o"
  define limit where "limit = (if 0 < tl_MaxBytes t \<and> int ?rest > tl_MaxBytes t then nat (tl_MaxBytes t) else ?rest)"
  obtain ls n where rl: "read_loop [] (take limit (drop ?o c)) = (ls, n)" by force
  have ol: "?o \<le> length c" using assms(3) by (simp add: at_line_def)
  have "Lines (Some (ino, c)) t =
      (let (ls, n) = read_loop [] (take limit (drop ?o c)) in (Inr ls, t\<lparr>tl_offset := ?o + n\<rparr>))"
    using assms(1,2) ol False by (simp add: Lines_def Let_def limit_def)
  then have "Lines (Some (ino, c)) t = (Inr ls, t\<lparr>tl_offset := ?o + n\<rparr>)" by (simp add: rl)
  moreover note read_lines [OF assms(3) rl]
  moreover have "complete_lines (take (?o + n) c) = complete_lines (take ?o c) @ ls"
  proof -
    have a: "at_line ?o (take (?o + n) c)"
      using assms(3) read_lines(1) [OF assms(3) rl] by (cases ?o) (auto simp: at_line_def)
    show ?thesis using complete_lines_split [OF a] read_lines(2) [OF assms(3) rl] by (simp add: drop_take)
  qed
  moreover have "?o < ?o + n" if "fits (tl_MaxBytes t) ?o c" and e: "nl \<in> set (drop ?o c)"
  proof (rule ccontr)
    assume "\<not> ?o < ?o + n"
    with read_lines(3) [OF assms(3) rl] have "nl \<notin> set (take limit (drop ?o c))" by (simp add: drop_take)
    moreover have "nl \<in> set (take limit (drop ?o c))"
      using e fitsD [OF that(1) _ order_refl assms(3) e] by (auto simp: limit_def)
    ultimately show False by contradiction
  qed
  ultimately show thesis using assms by (intro that [of ls "t\<lparr>tl_offset := ?o + n\<rparr>"]) simp_all
qed

lemma at_line_grows: "at_line n c \<Longrightarrow> prefix c d \<Longrightarrow> at_line n d \<and> take n d = take n c"
  by (cases n) (auto simp: at_line_def prefix_def nth_append)

definition following :: "nat \<Rightarrow> tailer \<Rightarrow> nat \<Rightarrow> string \<Rightarrow> bool" where
  "following ino t n c \<longleftrightarrow> tl_seeded t \<and> tl_inode t = ino \<and> n \<le> tl_offset t \<and> at_line (tl_offset t) c"

lemma followingD: "following ino t n c \<Longrightarrow> tl_seeded t \<and> tl_inode t = ino \<and> n \<le> tl_offset t \<and> at_line (tl_offset t) c"
  by (simp add: following_def)

text \<open>Lines passed are those of the stretch between the two places.\<close>

lemma stretch:
  assumes "at_line n c" and "n \<le> m" and "complete_lines (take m c) = complete_lines (take n c) @ ls"
  shows "ls = complete_lines (drop n (take m c))"
proof -
  have "at_line n (take m c)" using assms(1,2) by (cases n) (auto simp: at_line_def)
  from complete_lines_split [OF this] assms(2,3) show ?thesis by (simp add: min_def)
qed

lemma reads_once:
  assumes "following ino t n c" and "sorted_wrt prefix (c # cs)"
  shows "\<exists>ls t'. read_all t (map (Pair ino) (c # cs)) = (ls, t') \<and> following ino t' (tl_offset t) (last (c # cs)) \<and>
    tl_MaxBytes t' = tl_MaxBytes t \<and>
    complete_lines (take (tl_offset t') (last (c # cs))) = complete_lines (take (tl_offset t) c) @ ls"
  using assms
proof (induction cs arbitrary: t n c)
  case Nil
  note f = followingD [OF Nil(1)]
  obtain ls t1 where "Lines (Some (ino, c)) t = (Inr ls, t1)" "tl_seeded t1" "tl_inode t1 = ino"
    "tl_MaxBytes t1 = tl_MaxBytes t" "at_line (tl_offset t1) c" "tl_offset t \<le> tl_offset t1"
    "complete_lines (take (tl_offset t1) c) = complete_lines (take (tl_offset t) c) @ ls"
    using one_read [of t ino c] f by metis
  then show ?case by (simp add: following_def)
next
  case (Cons d ds)
  note f = followingD [OF Cons.prems(1)]
  obtain ls t1 where t1: "Lines (Some (ino, c)) t = (Inr ls, t1)" "tl_seeded t1" "tl_inode t1 = ino"
    "tl_MaxBytes t1 = tl_MaxBytes t" "at_line (tl_offset t1) c" "tl_offset t \<le> tl_offset t1"
    "complete_lines (take (tl_offset t1) c) = complete_lines (take (tl_offset t) c) @ ls"
    using one_read [of t ino c] f by metis
  have "prefix c d" and s: "sorted_wrt prefix (d # ds)" using Cons.prems(2) by simp_all
  from at_line_grows [OF t1(5) this(1)] have g: "at_line (tl_offset t1) d" "take (tl_offset t1) d = take (tl_offset t1) c" by simp_all
  have "following ino t1 (tl_offset t) d" using t1 g(1) by (simp add: following_def)
  from Cons.IH [OF this s] obtain ls' t2 where t2: "read_all t1 (map (Pair ino) (d # ds)) = (ls', t2)"
    "following ino t2 (tl_offset t1) (last (d # ds))" "tl_MaxBytes t2 = tl_MaxBytes t1"
    "complete_lines (take (tl_offset t2) (last (d # ds))) = complete_lines (take (tl_offset t1) d) @ ls'" by (elim exE conjE)
  have "read_all t (map (Pair ino) (c # d # ds)) = (ls @ ls', t2)"
    using t1(1) t2(1) by (simp add: Let_def)
  moreover have "following ino t2 (tl_offset t) (last (d # ds))" using t2(2) t1(6) by (simp add: following_def)
  ultimately show ?case using t1(4,7) t2(3,4) g(2) by simp
qed

text \<open>A file that does not grow any more is read to its last line end.\<close>

lemma reads_catch_up:
  assumes "following ino t b d" and "fits (tl_MaxBytes t) b d" and "line_ends (tl_offset t) d \<le> n"
  shows "\<exists>ls t'. read_all t (replicate n (ino, d)) = (ls, t') \<and> following ino t' (tl_offset t) d \<and>
    nl \<notin> set (drop (tl_offset t') d) \<and>
    complete_lines (take (tl_offset t') d) = complete_lines (take (tl_offset t) d) @ ls"
  using assms
proof (induction n arbitrary: t b)
  case 0
  then show ?case by (simp add: following_def line_ends_0)
next
  case (Suc n)
  note f = followingD [OF Suc.prems(1)]
  have fit: "fits (tl_MaxBytes t) (tl_offset t) d" using Suc.prems(2) f by (auto simp: fits_def list_all_iff)
  obtain ls t1 where t1: "Lines (Some (ino, d)) t = (Inr ls, t1)" "tl_seeded t1" "tl_inode t1 = ino"
    "tl_MaxBytes t1 = tl_MaxBytes t" "at_line (tl_offset t1) d" "tl_offset t \<le> tl_offset t1"
    "complete_lines (take (tl_offset t1) d) = complete_lines (take (tl_offset t) d) @ ls"
    "nl \<in> set (drop (tl_offset t) d) \<Longrightarrow> tl_offset t < tl_offset t1"
    using one_read [of t ino d] f fit by metis
  have f1: "following ino t1 (tl_offset t) d" using t1 by (simp add: following_def)
  have "line_ends (tl_offset t1) d \<le> n"
  proof (cases "nl \<in> set (drop (tl_offset t) d)")
    case True
    from line_ends_pass [OF t1(8) [OF True] t1(5)] Suc.prems(3) show ?thesis by simp
  next
    case False
    then have "nl \<notin> set (drop (tl_offset t1) d)" using set_drop_subset_set_drop [OF t1(6), of d] by blast
    then show ?thesis using line_ends_0 [of "tl_offset t1" d] by simp
  qed
  from Suc.IH [OF f1 _ this] fit t1(4) obtain ls' t2 where t2: "read_all t1 (replicate n (ino, d)) = (ls', t2)"
    "following ino t2 (tl_offset t1) d" "nl \<notin> set (drop (tl_offset t2) d)"
    "complete_lines (take (tl_offset t2) d) = complete_lines (take (tl_offset t1) d) @ ls'" by auto
  then show ?case using t1(1,6,7) by (simp add: Let_def following_def)
qed

lemma line_ends_mono: "n \<le> m \<Longrightarrow> line_ends m s \<le> line_ends n s"
proof -
  assume "n \<le> m"
  then have "drop m s = drop (m - n) (drop n s)" by simp
  then have "drop n s = take (m - n) (drop n s) @ drop m s" by (metis append_take_drop_id)
  then have "line_ends n s = length (filter (\<lambda>c. c = nl) (take (m - n) (drop n s) @ drop m s))"
    unfolding line_ends_def by metis
  then show ?thesis by (simp add: line_ends_def)
qed

lemma more_reads:
  assumes "following ino t b d"
  shows "\<exists>ls t'. read_all t (replicate n (ino, d)) = (ls, t') \<and> following ino t' (tl_offset t) d \<and>
    complete_lines (take (tl_offset t') d) = complete_lines (take (tl_offset t) d) @ ls"
proof (cases n)
  case 0
  then show ?thesis using assms by (simp add: following_def)
next
  case (Suc k)
  have s: "sorted_wrt prefix (replicate m d)" for m by (induction m) auto
  have l: "last (d # replicate k d) = d" by (cases k) simp_all
  from reads_once [OF assms, of "replicate k d"] s [of "Suc k"] show ?thesis
    unfolding l Suc by (auto simp: map_replicate)
qed

text \<open>Where a tailer begins to read a file: at its end, its start or where it stopped.\<close>

definition begins :: "tailer \<Rightarrow> nat \<Rightarrow> string \<Rightarrow> nat" where
  "begins t ino c =
     (if \<not> tl_seeded t then (if tl_StartAtEnd t then length c else 0)
      else if ino \<noteq> tl_inode t \<or> length c < tl_offset t then 0 else tl_offset t)"

lemma first_read:
  "Lines (Some (ino, c)) t = Lines (Some (ino, c)) (t\<lparr>tl_seeded := True, tl_inode := ino, tl_offset := begins t ino c\<rparr>)"
  by (cases t) (simp add: Lines_def begins_def Let_def)

lemma read_all_append:
  "read_all t (xs @ ys) = (let (ls, t') = read_all t xs; (ls', t'') = read_all t' ys in (ls @ ls', t''))"
  by (induction xs arbitrary: t) (simp_all add: Let_def split: prod.splits)

section \<open>Results\<close>

text \<open>
  C12: read as often as one likes while it grows, a file is handed on line by line, each complete line
  once and in order, from where the first read begins, when that is between lines: what was handed on is
  the complete lines up to the offset, which is between lines again. And when no line from there on is
  longer than the limit of a read, everything is handed on after as many reads of the grown file as it
  has line ends.
\<close>

theorem lines_exactly_once:
  assumes "sorted_wrt prefix (c # cs)" and "at_line (begins t ino c) c" and "d = last (c # cs)"
  shows "\<exists>ls t'. read_all t (map (Pair ino) (c # cs) @ replicate n (ino, d)) = (ls, t') \<and>
    at_line (tl_offset t') d \<and> begins t ino c \<le> tl_offset t' \<and>
    ls = complete_lines (drop (begins t ino c) (take (tl_offset t') d)) \<and>
    (fits (tl_MaxBytes t) (begins t ino c) d \<and> line_ends (begins t ino c) d \<le> n \<longrightarrow>
       ls = complete_lines (drop (begins t ino c) d))"
proof -
  let ?b = "begins t ino c"
  let ?t = "t\<lparr>tl_seeded := True, tl_inode := ino, tl_offset := ?b\<rparr>"
  have f: "following ino ?t ?b c" using assms(2) by (simp add: following_def)
  from reads_once [OF f assms(1)] obtain l1 t1 where r1: "read_all ?t (map (Pair ino) (c # cs)) = (l1, t1)"
    "following ino t1 ?b d" "tl_MaxBytes t1 = tl_MaxBytes t"
    "complete_lines (take (tl_offset t1) d) = complete_lines (take ?b c) @ l1"
    unfolding assms(3) by auto
  have same: "read_all t (map (Pair ino) (c # cs)) = (l1, t1)"
    using r1(1) by (simp only: list.map read_all.simps first_read [of ino c t])
  have pd: "prefix c d" using assms(1,3) by (cases cs) (auto split: if_splits)
  have b: "at_line ?b d" "take ?b d = take ?b c" using at_line_grows [OF assms(2) pd] by simp_all
  have "\<exists>l2 t2. read_all t1 (replicate n (ino, d)) = (l2, t2) \<and> following ino t2 (tl_offset t1) d \<and>
      complete_lines (take (tl_offset t2) d) = complete_lines (take (tl_offset t1) d) @ l2 \<and>
      (fits (tl_MaxBytes t) ?b d \<and> line_ends ?b d \<le> n \<longrightarrow> nl \<notin> set (drop (tl_offset t2) d))"
  proof (cases "fits (tl_MaxBytes t) ?b d \<and> line_ends ?b d \<le> n")
    case True
    then have "line_ends (tl_offset t1) d \<le> n" using line_ends_mono followingD [OF r1(2)] order_trans by blast
    from reads_catch_up [OF r1(2) _ this] True r1(3) show ?thesis by auto
  next
    case False
    with more_reads [OF r1(2), of n] show ?thesis by blast
  qed
  then obtain l2 t2 where r2: "read_all t1 (replicate n (ino, d)) = (l2, t2)" "following ino t2 (tl_offset t1) d"
      "complete_lines (take (tl_offset t2) d) = complete_lines (take (tl_offset t1) d) @ l2"
      "fits (tl_MaxBytes t) ?b d \<and> line_ends ?b d \<le> n \<longrightarrow> nl \<notin> set (drop (tl_offset t2) d)" by blast
  have all: "read_all t (map (Pair ino) (c # cs) @ replicate n (ino, d)) = (l1 @ l2, t2)"
    unfolding read_all_append same by (simp add: r2(1))
  have le: "?b \<le> tl_offset t2" using followingD [OF r1(2)] followingD [OF r2(2)] by simp
  have at: "at_line (tl_offset t2) d" using followingD [OF r2(2)] by simp
  have ls: "l1 @ l2 = complete_lines (drop ?b (take (tl_offset t2) d))"
    using r1(4) r2(3) by (intro stretch [OF b(1) le]) (simp add: b(2))
  have "l1 @ l2 = complete_lines (drop ?b d)" if "nl \<notin> set (drop (tl_offset t2) d)"
  proof (rule stretch [OF b(1), where m = "length d", simplified])
    show "?b \<le> length d" using b(1) by (simp add: at_line_def)
    show "complete_lines d = complete_lines (take ?b d) @ l1 @ l2"
      using complete_lines_split [OF at] that r1(4) r2(3) by (simp add: complete_lines_no_nl b(2))
  qed
  with all at le ls r2(4) show ?thesis by blast
qed

text \<open>A new tailer reads on from the end of the file it finds.\<close>

theorem lines_exactly_once_witness:
  "\<exists>t'. read_all NewTailer [(7, ''old\<newline>''), (7, ''old\<newline>a\<newline>b''), (7, ''old\<newline>a\<newline>bc\<newline>''), (7, ''old\<newline>a\<newline>bc\<newline>''),
     (7, ''old\<newline>a\<newline>bc\<newline>'')] = ([''a'', ''bc''], t')"
proof -
  let ?d = "''old\<newline>a\<newline>bc\<newline>''"
  have b: "begins NewTailer 7 ''old\<newline>'' = 4" by (simp add: begins_def NewTailer_def)
  have l: "line_ends 4 ?d \<le> 2" "complete_lines (drop 4 ?d) = [''a'', ''bc'']" "at_line 4 ''old\<newline>''" by code_simp+
  have "fits (tl_MaxBytes NewTailer) 4 ?d"
    by (auto simp: fits_def list_all_iff NewTailer_def)
  moreover have "sorted_wrt prefix [''old\<newline>'', ''old\<newline>a\<newline>b'', ?d]" by simp
  ultimately show ?thesis
    using lines_exactly_once [of "''old\<newline>''" "[''old\<newline>a\<newline>b'', ?d]" NewTailer 7 ?d 2] b l by (auto simp: numeral_eq_Suc)
qed

definition log_start :: tailer where
  "log_start = NewTailer\<lparr>tl_seeded := True, tl_inode := 7\<rparr>"

text \<open>A position that is saved and restored reads on where it was, for a file that has an inode.\<close>

lemma restored_position:
  "tl_seeded t \<Longrightarrow> tl_inode t \<noteq> 0 \<Longrightarrow> Restore (fst (Position t)) (snd (Position t)) (t\<lparr>tl_offset := a, tl_inode := b, tl_seeded := c\<rparr>) = t"
  by (simp add: Restore_def Position_def)

text \<open>
  A line longer than the limit is never handed on, nor any line after it: no read moves the offset.
\<close>

lemma long_line_stops:
  assumes "tl_seeded t" and "tl_inode t = ino" and "tl_offset t \<le> length c"
    and "0 < tl_MaxBytes t" and "nl \<notin> set (take (nat (tl_MaxBytes t)) (drop (tl_offset t) c))"
    and "tl_MaxBytes t < int (length c - tl_offset t)"
  shows "Lines (Some (ino, c)) t = (Inr [], t)"
proof -
  obtain ls n where rl: "read_loop [] (take (nat (tl_MaxBytes t)) (drop (tl_offset t) c)) = (ls, n)" by force
  from read_loop_lines [OF _ this] assms(5) have "ls = []" "n = 0" by (auto simp: complete_lines_no_nl)
  with assms rl show ?thesis by (simp add: Lines_def Let_def)
qed

text \<open>
  A first read that starts at the end of the file may start inside a line, and hands on its rest. What
  is written to a file after its last read, here the second line before the file is replaced, is lost.
\<close>

lemma first_line_cut: "fst (read_all NewTailer [(7, ''hal''), (7, ''half a line\<newline>'')]) = [''f a line'']"
  by code_simp

lemma rotation_loses:
  "prefix ''a\<newline>'' ''a\<newline>b\<newline>'' \<and> fst (read_all log_start [(7, ''a\<newline>''), (8, ''c\<newline>'')]) = [''a'', ''c'']"
  by code_simp

end
