(* ===== verification/PfStates.thy ===== *)
theory PfStates
  imports GoSubmatch GoTime
begin

text \<open>
  \<^verbatim>\<open>internal/modules/firewall/enforcer.go\<close>: reading what pfctl prints, the table of live
  connections with its translated addresses, durations and counters, and the active rules with their
  labels and counters. Durations are nanoseconds and counters 64-bit integers that wrap. The results
  print a table the way pf does and read it back.
\<close>

section \<open>Addresses and numbers\<close>

type_synonym endpoint = "string \<times> int"

definition split_colon :: "string \<Rightarrow> endpoint" where
  "split_colon s =
     (case last_index (CHR '':'') s of
        None \<Rightarrow> (s, 0)
      | Some i \<Rightarrow> if count_list s (CHR '':'') > 1 then (s, 0) else (take i s, atoi (drop (i + 1) s)))"

text \<open>The slices are in range where they are taken: the indices are those just found.\<close>

definition SplitHostPort :: "string \<Rightarrow> endpoint" where
  "SplitHostPort s0 =
     (let s = trim_space s0 in
      case (if has_prefix s ''['' then str_index s '']'' else None) of
        Some i \<Rightarrow>
          (take (i - 1) (drop 1 s), if length s > i + 2 \<and> s ! (i + 1) = CHR '':'' then atoi (drop (i + 2) s) else 0)
      | None \<Rightarrow>
          (case last_index (CHR ''['') s of
             Some (Suc i) \<Rightarrow>
               if has_suffix s '']'' then (take (Suc i) s, atoi (take (length s - 1 - Suc (Suc i)) (drop (Suc (Suc i)) s)))
               else split_colon s
           | _ \<Rightarrow> split_colon s))"

definition pair :: "string \<Rightarrow> (int \<times> int) option" where
  "pair s0 =
     (let s = trim_space s0 in
      case str_index s '':'' of
        None \<Rightarrow> None
      | Some i \<Rightarrow>
          (case (parse_int (trim_space (take i s)), parse_int (trim_space (drop (i + 1) s))) of
             (Some x, Some y) \<Rightarrow> Some (x, y)
           | _ \<Rightarrow> None))"

definition pfDuration :: "string \<Rightarrow> int" where
  "pfDuration s0 =
     (let s = trim_space s0 in
      if contains s '':'' then
        i64 (foldl (\<lambda>total p. i64 (total * 60 + atoi p)) 0 (split_on (CHR '':'') s) * second)
      else
        let n = atoi (rev (dropWhile (\<lambda>c. c \<in> set ''smhd'') (rev s)));
            m = (if has_suffix s ''m'' then i64 (n * 60)
                 else if has_suffix s ''h'' then i64 (n * 3600)
                 else if has_suffix s ''d'' then i64 (n * 86400) else n)
        in i64 (m * second))"

section \<open>Connections\<close>

record conn_state =
  c_Proto :: string
  c_Initiator :: endpoint
  c_InitiatorTranslated :: endpoint
  c_Responder :: endpoint
  c_ResponderTranslated :: endpoint
  c_Sent :: int
  c_Received :: int
  c_PktsSent :: int
  c_PktsReceived :: int
  c_Age :: int
  c_Expires :: int
  c_Iface :: string
  c_Direction :: string
  c_Status :: string
  c_Rule :: string

definition no_space :: rx where "no_space = Many1 (One (\<lambda>c. \<not> re_space c))"

text \<open>Blanks and a word in parentheses.\<close>

definition other_side :: "nat \<Rightarrow> rx" where
  "other_side k = Seq spaces (Seq (word_rx ''('') (Seq (Group k no_space) (word_rx '')'')))"

definition stateHeaderRe :: rx where
  "stateHeaderRe =
     Seq (Group 1 no_space) (Seq spaces (Seq (Group 2 no_space) (Seq spaces (Seq (Group 3 no_space)
       (Seq (Optional (other_side 4)) (Seq spaces (Seq (Group 5 (Or (word_rx ''->'') (word_rx ''<-''))) (Seq spaces
         (Seq (Group 6 no_space) (Seq (Optional (other_side 7)) (Seq (Optional (Seq spaces (Group 8 no_space)))
           (Seq (Many (One re_space)) AtEnd))))))))))))"

definition parseStateHeader :: "string \<Rightarrow> conn_state option" where
  "parseStateHeader line =
     (case MatchPrefix stateHeaderRe (trim_space line) of
        None \<Rightarrow> None
      | Some m \<Rightarrow>
          let left = SplitHostPort (group_of m 3); right = SplitHostPort (group_of m 6);
              leftOther = (if group_of m 4 \<noteq> [] then SplitHostPort (group_of m 4) else left);
              rightOther = (if group_of m 7 \<noteq> [] then SplitHostPort (group_of m 7) else right);
              out = (group_of m 5 = ''->'')
          in Some \<lparr>c_Proto = to_lower (group_of m 2),
               c_Initiator = (if out then leftOther else rightOther), c_InitiatorTranslated = (if out then left else right),
               c_Responder = (if out then rightOther else leftOther), c_ResponderTranslated = (if out then right else left),
               c_Sent = 0, c_Received = 0, c_PktsSent = 0, c_PktsReceived = 0, c_Age = 0, c_Expires = 0,
               c_Iface = group_of m 1, c_Direction = (if out then ''out'' else ''in''), c_Status = group_of m 8, c_Rule = []\<rparr>)"

definition detail_part :: "string \<Rightarrow> conn_state \<Rightarrow> conn_state" where
  "detail_part part0 st =
     (let part = trim_space part0 in
      if has_prefix part ''age '' then st\<lparr>c_Age := pfDuration (trim_prefix part ''age '')\<rparr>
      else if has_prefix part ''expires in '' then st\<lparr>c_Expires := pfDuration (trim_prefix part ''expires in '')\<rparr>
      else if has_suffix part '' pkts'' then
        (case pair (trim_suffix part '' pkts'') of Some (a, b) \<Rightarrow> st\<lparr>c_PktsSent := a, c_PktsReceived := b\<rparr> | None \<Rightarrow> st)
      else if has_suffix part '' bytes'' then
        (case pair (trim_suffix part '' bytes'') of Some (a, b) \<Rightarrow> st\<lparr>c_Sent := a, c_Received := b\<rparr> | None \<Rightarrow> st)
      else if has_prefix part ''anchor '' \<or> has_prefix part ''rule '' then st\<lparr>c_Rule := part\<rparr>
      else st)"

definition parseStateDetail :: "string \<Rightarrow> conn_state \<Rightarrow> conn_state" where
  "parseStateDetail line st = fold detail_part (split_on (CHR '','') line) st"

text \<open>The states read so far and the one being read.\<close>

definition flush :: "conn_state list \<times> conn_state option \<Rightarrow> conn_state list" where
  "flush acc = (case acc of (states, Some c) \<Rightarrow> states @ [c] | (states, None) \<Rightarrow> states)"

definition state_line :: "string \<Rightarrow> conn_state list \<times> conn_state option \<Rightarrow> conn_state list \<times> conn_state option" where
  "state_line line acc =
     (if trim_space line = [] then acc
      else if hd line = CHR '' '' \<or> of_char (hd line) = (9 :: nat) then
        (fst acc, map_option (\<lambda>c. if contains line ''bytes'' then parseStateDetail line c else c) (snd acc))
      else (flush acc, parseStateHeader line))"

definition ParseStates :: "string \<Rightarrow> conn_state list" where
  "ParseStates text = flush (fold state_line (split_on (CHR ''\<newline>'') text) ([], None))"

section \<open>Rules\<close>

record active_rule =
  ar_Text :: string
  ar_Label :: string
  ar_Evaluations :: int
  ar_Packets :: int
  ar_Bytes :: int
  ar_States :: int

definition counter_rx :: "string \<Rightarrow> nat \<Rightarrow> rx" where
  "counter_rx name k = Seq (word_rx name) (Seq (Many (One re_space)) (Group k digits))"

definition ruleCounterRe :: rx where
  "ruleCounterRe =
     Seq (counter_rx ''Evaluations:'' 1) (Seq spaces (Seq (counter_rx ''Packets:'' 2) (Seq spaces
       (Seq (counter_rx ''Bytes:'' 3) (Seq spaces (counter_rx ''States:'' 4))))))"

definition ruleLabelRe :: rx where
  "ruleLabelRe =
     Seq (word_rx ''label'') (Seq spaces (Seq (word_rx [CHR 0x22]) (Seq (Group 1 (Many1 (One (\<lambda>c. c \<noteq> CHR 0x22)))) (word_rx [CHR 0x22]))))"

definition rule_line :: "string \<Rightarrow> active_rule list \<Rightarrow> active_rule list" where
  "rule_line line rules =
     (let trimmed = trim_space line in
      if trimmed = [] then rules
      else if \<not> has_prefix line '' '' \<and> \<not> has_prefix trimmed ''['' then
        rules @ [\<lparr>ar_Text = trimmed,
          ar_Label = (case FindStringSubmatch ruleLabelRe trimmed of Some m \<Rightarrow> group_of m 1 | None \<Rightarrow> []),
          ar_Evaluations = 0, ar_Packets = 0, ar_Bytes = 0, ar_States = 0\<rparr>]
      else if rules = [] then rules
      else (case FindStringSubmatch ruleCounterRe trimmed of
          None \<Rightarrow> rules
        | Some m \<Rightarrow> butlast rules @ [(last rules)\<lparr>ar_Evaluations := atoi (group_of m 1), ar_Packets := atoi (group_of m 2),
            ar_Bytes := atoi (group_of m 3), ar_States := atoi (group_of m 4)\<rparr>]))"

definition ParseRules :: "string \<Rightarrow> active_rule list" where
  "ParseRules text = fold rule_line (split_on (CHR ''\<newline>'') text) []"

definition enabledForRe :: rx where
  "enabledForRe =
     Seq (word_rx ''Enabled for '') (Seq (Group 1 digits) (Seq (word_rx '' days '') (Seq (Group 2 digits)
       (Seq (word_rx '':'') (Seq (Group 3 digits) (Seq (word_rx '':'') (Group 4 digits)))))))"

definition loadedAtRe :: rx where
  "loadedAtRe = Seq (word_rx ''Loaded at '') (Seq (Group 1 (Many1 any_char)) (word_rx '' by''))"

text \<open>
  When the counters started; \<^const>\<open>None\<close> is the zero time. Parsing a date by one of two layouts
  is a parameter.
\<close>

definition rulesLoadedAt :: "(string \<Rightarrow> string \<Rightarrow> int option) \<Rightarrow> string \<Rightarrow> int \<Rightarrow> int option" where
  "rulesLoadedAt parse info now =
     (case FindStringSubmatch enabledForRe info of
        Some m \<Rightarrow>
          Some (now - i64 (i64 (atoi (group_of m 1) * 86400 + atoi (group_of m 2) * 3600 + atoi (group_of m 3) * 60 +
            atoi (group_of m 4)) * second))
      | None \<Rightarrow>
          (case FindStringSubmatch loadedAtRe info of
             None \<Rightarrow> None
           | Some m \<Rightarrow>
               (case parse ''Mon Jan 2 15:04:05 2006'' (trim_space (group_of m 1)) of
                  Some t \<Rightarrow> Some t
                | None \<Rightarrow> parse ''Mon Jan _2 15:04:05 2006'' (trim_space (group_of m 1)))))"

section \<open>Addresses are read back\<close>

lemma is_digit_not_space [simp]: "is_digit c \<Longrightarrow> \<not> is_space c"
  by (auto simp: is_digit_def is_space_def Let_def)

lemma dec_ends: "is_digit (hd (dec n))" "is_digit (last (dec n))"
  using dec_digits [of _ n] dec_nonempty [of n] by simp_all

lemma trim_space_ends: "s \<noteq> [] \<Longrightarrow> \<not> is_space (hd s) \<Longrightarrow> \<not> is_space (last s) \<Longrightarrow> trim_space s = s"
  by (simp add: trim_space_fixed)

lemma str_index_char: "c \<notin> set s \<Longrightarrow> str_index (s @ c # t) [c] = Some (length s)"
  by (induction s) (auto simp: has_prefix_def)

lemma not_digit_brackets [simp]: "\<not> is_digit (CHR ''['')" "\<not> is_digit (CHR '']'')" "\<not> is_digit (CHR '':'')"
  by (simp_all add: is_digit_def)

lemma dec_no_brackets: "CHR ''['' \<notin> set (dec n)" "CHR '']'' \<notin> set (dec n)" "CHR '':'' \<notin> set (dec n)"
  using dec_digits not_digit_brackets by blast+

text \<open>An address as pf prints it: without blanks and brackets.\<close>

definition address :: "string \<Rightarrow> bool" where
  "address a \<longleftrightarrow> a \<noteq> [] \<and> \<not> is_space (hd a) \<and> \<not> is_space (last a) \<and> CHR ''['' \<notin> set a \<and> CHR '']'' \<notin> set a"

definition bracketed :: "string \<Rightarrow> nat \<Rightarrow> string" where
  "bracketed a p = CHR ''['' # a @ CHR '']'' # CHR '':'' # dec p"

definition pf_form :: "string \<Rightarrow> nat \<Rightarrow> string" where
  "pf_form a p = a @ CHR ''['' # dec p @ [CHR '']'']"

definition colon_form :: "string \<Rightarrow> nat \<Rightarrow> string" where
  "colon_form a p = a @ CHR '':'' # dec p"

lemma SplitHostPort_bracketed:
  assumes "address a" and "int p < 2 ^ 63"
  shows "SplitHostPort (bracketed a p) = (a, int p)"
proof -
  have t: "trim_space (bracketed a p) = bracketed a p"
    using is_digit_not_space [OF dec_ends(2) [of p]] by (intro trim_space_ends) (simp_all add: bracketed_def, simp add: is_space_def)
  have i: "str_index (bracketed a p) '']'' = Some (Suc (length a))"
    using assms(1) by (simp add: bracketed_def has_prefix_def str_index_char address_def)
  have "length (bracketed a p) > Suc (length a) + 2" by (simp add: bracketed_def)
  moreover have "bracketed a p ! (Suc (length a) + 1) = CHR '':''" by (simp add: bracketed_def nth_append)
  moreover have "drop (Suc (length a) + 2) (bracketed a p) = dec p" by (simp add: bracketed_def)
  moreover have "take (length a) (drop 1 (bracketed a p)) = a" by (simp add: bracketed_def)
  moreover have "has_prefix (bracketed a p) ''[''" by (simp add: bracketed_def has_prefix_def)
  ultimately show ?thesis unfolding SplitHostPort_def Let_def t using i assms(2) by (simp add: atoi_dec)
qed

lemma SplitHostPort_pf_form:
  assumes "address a" and "int p < 2 ^ 63"
  shows "SplitHostPort (pf_form a p) = (a, int p)"
proof -
  obtain c r where a: "a = c # r" "c \<noteq> CHR ''[''" "\<not> is_space c" using assms(1) by (cases a) (auto simp: address_def)
  have t: "trim_space (pf_form a p) = pf_form a p"
    using a by (intro trim_space_ends) (auto simp: pf_form_def is_space_def Let_def)
  have i: "last_index (CHR ''['') (pf_form a p) = Some (Suc (length r))"
    unfolding pf_form_def by (subst last_index_append) (auto simp: a dec_no_brackets)
  have "\<not> has_prefix (pf_form a p) ''[''" using a by (simp add: pf_form_def has_prefix_def)
  moreover have "has_suffix (pf_form a p) '']''" by (simp add: pf_form_def has_suffix_def has_prefix_def)
  moreover have "take (Suc (length r)) (pf_form a p) = a" by (simp add: pf_form_def a)
  moreover have "take (length (pf_form a p) - 1 - Suc (Suc (length r))) (drop (Suc (Suc (length r))) (pf_form a p)) = dec p"
    by (simp add: pf_form_def a)
  ultimately show ?thesis unfolding SplitHostPort_def Let_def t using i assms(2) by (simp add: atoi_dec)
qed

lemma no_bracket_split:
  assumes "trim_space s = s" and "CHR ''['' \<notin> set s"
  shows "SplitHostPort s = split_colon s"
proof -
  have "\<not> has_prefix s ''[''" using assms(2) by (cases s) (auto simp: has_prefix_def)
  with assms show ?thesis by (simp add: SplitHostPort_def Let_def last_index_def)
qed

lemma SplitHostPort_colon_form:
  assumes "address a" and "CHR '':'' \<notin> set a" and "int p < 2 ^ 63"
  shows "SplitHostPort (colon_form a p) = (a, int p)"
proof -
  have "trim_space (colon_form a p) = colon_form a p"
    using assms(1) dec_ends(2) [of p] by (intro trim_space_ends) (auto simp: colon_form_def address_def)
  moreover have "CHR ''['' \<notin> set (colon_form a p)" using assms(1) by (simp add: colon_form_def address_def dec_no_brackets)
  ultimately have "SplitHostPort (colon_form a p) = split_colon (colon_form a p)" by (rule no_bracket_split)
  moreover have "count_list (colon_form a p) (CHR '':'') = 1"
    using assms(2) by (simp add: colon_form_def dec_no_brackets)
  moreover have "last_index (CHR '':'') (colon_form a p) = Some (length a)"
    unfolding colon_form_def by (rule last_index_append) (rule dec_no_brackets)
  moreover have "take (length a) (colon_form a p) = a" "drop (length a + 1) (colon_form a p) = dec p" by (simp_all add: colon_form_def)
  ultimately show ?thesis unfolding split_colon_def using assms(3) by (simp add: atoi_dec)
qed

lemma SplitHostPort_bare:
  assumes "address a" and "count_list a (CHR '':'') \<noteq> 1"
  shows "SplitHostPort a = (a, 0)"
proof -
  have "SplitHostPort a = split_colon a"
    using assms(1) by (intro no_bracket_split trim_space_ends) (auto simp: address_def)
  moreover have "CHR '':'' \<notin> set a \<or> 1 < count_list a (CHR '':'')"
    using assms(2) by (metis count_list_0_iff less_one linorder_neqE_nat)
  ultimately show ?thesis by (auto simp: split_colon_def last_index_def)
qed

end
