(* ===== verification/PfStateTable.thy ===== *)
theory PfStateTable
  imports PfStates
begin

text \<open>
  pf's state table printed and read back (\<^verbatim>\<open>ParseStates\<close>): a connection with its translated
  ends, as the lines \<^verbatim>\<open>pfctl -ss -v\<close> prints for it. The words of a header decide what the
  pattern captures; the details are a list of parts that do not interfere; the table is the
  concatenation.
\<close>

section \<open>State lines are read back\<close>

text \<open>The words of a line, which decide what the pattern of a header captures.\<close>

function words :: "string \<Rightarrow> string list" where
  "words [] = []"
| "words (c # s) =
     (if re_space c then words s
      else (c # takeWhile (\<lambda>x. \<not> re_space x) s) # words (dropWhile (\<lambda>x. \<not> re_space x) s))"
  by pat_completeness auto
termination by (relation "measure length") (auto simp: length_dropWhile_le le_imp_less_Suc)

definition token :: "string \<Rightarrow> bool" where
  "token u \<longleftrightarrow> u \<noteq> [] \<and> list_all (\<lambda>c. \<not> re_space c) u"

definition starts_blank :: "string \<Rightarrow> bool" where
  "starts_blank x \<longleftrightarrow> x = [] \<or> re_space (hd x)"

lemma words_token: "token u \<Longrightarrow> starts_blank x \<Longrightarrow> words (u @ x) = u # words x"
proof -
  assume u: "token u" and x: "starts_blank x"
  obtain c v where v: "u = c # v" "\<not> re_space c" "list_all (\<lambda>c. \<not> re_space c) v"
    using u by (cases u) (auto simp: token_def)
  have "takeWhile (\<lambda>x. \<not> re_space x) (v @ x) = v" "dropWhile (\<lambda>x. \<not> re_space x) (v @ x) = x"
    using v(3) x by (induction v) (cases x; auto simp: starts_blank_def)+
  with v show ?thesis by simp
qed

lemma words_blanks: "list_all re_space v \<Longrightarrow> words (v @ x) = words x"
  by (induction v) auto

lemma starts_blank_append: "starts_blank u \<Longrightarrow> starts_blank v \<Longrightarrow> starts_blank (u @ v)"
  by (cases u) (auto simp: starts_blank_def)

lemma starts_blank_blanks: "v \<noteq> [] \<Longrightarrow> list_all re_space v \<Longrightarrow> starts_blank (v @ x)"
  by (cases v) (auto simp: starts_blank_def)

lemma no_space_read: "reads no_space u cs t \<Longrightarrow> token u \<and> cs = []"
  unfolding no_space_def token_def using reads_Many1_class by blast

lemma read_spaces:
  assumes "reads (Seq spaces r) x cs t"
  obtains y where "reads r y cs t" "words x = words y" "starts_blank x"
proof -
  obtain u v c d where u: "x = u @ v" "cs = c @ d" "reads spaces u c (v @ t)" "reads r v d t"
    using assms by (rule reads_SeqE)
  from spaces_read [OF u(3)] u show thesis by (intro that [of v]) (simp_all add: words_blanks starts_blank_blanks)
qed

lemma read_token:
  assumes "reads (Seq (Group k no_space) r) x cs t"
  obtains u y c where "x = u @ y" "token u" "cs = (k, u) # c" "reads r y c t"
proof -
  obtain u v c d where u: "x = u @ v" "cs = c @ d" "reads (Group k no_space) u c (v @ t)" "reads r v d t"
    using assms by (rule reads_SeqE)
  obtain e where e: "c = (k, u) # e" "reads no_space u e (v @ t)" using u(3) by (rule reads_GroupE)
  from no_space_read [OF e(2)] u e show thesis by (intro that [of u v d]) simp_all
qed

text \<open>The word, and the capture, of an address in parentheses that may be absent.\<close>

definition paren_word :: "string option \<Rightarrow> string list" where
  "paren_word d = (case d of None \<Rightarrow> [] | Some x \<Rightarrow> [''('' @ x @ '')''])"

definition capture :: "nat \<Rightarrow> string option \<Rightarrow> caps" where
  "capture k d = (case d of None \<Rightarrow> [] | Some x \<Rightarrow> [(k, x)])"

lemma not_re_space_paren [simp]: "\<not> re_space (CHR ''('')" "\<not> re_space (CHR '')'')" "re_space (CHR '' '')"
  by (simp_all add: re_space_def)

lemma token_paren: "token x \<Longrightarrow> token (''('' @ x @ '')'')"
  by (simp add: token_def)

lemma read_other_side:
  assumes "reads (other_side k) x cs t"
  obtains v y where "x = v @ ''('' @ y @ '')''" "v \<noteq> []" "list_all re_space v" "token y" "cs = [(k, y)]"
proof -
  obtain v z c d where v: "x = v @ z" "cs = c @ d" "reads spaces v c (z @ t)"
    "reads (Seq (word_rx ''('') (Seq (Group k no_space) (word_rx '')''))) z d t"
    using assms unfolding other_side_def by (rule reads_SeqE)
  obtain o1 z2 c2 d2 where z: "z = o1 @ z2" "d = c2 @ d2" "reads (word_rx ''('') o1 c2 (z2 @ t)"
    "reads (Seq (Group k no_space) (word_rx '')'')) z2 d2 t" using v(4) by (rule reads_SeqE)
  obtain y o2 c3 where y: "z2 = y @ o2" "token y" "d2 = (k, y) # c3" "reads (word_rx '')'') o2 c3 t"
    using z(4) by (rule read_token)
  from spaces_read [OF v(3)] reads_word [OF z(3)] reads_word [OF y(4)] v z y
  show thesis by (intro that [of v y]) simp_all
qed

lemma read_optional_other:
  assumes "reads (Seq (Optional (other_side k)) r) x cs t"
  obtains d y c where "reads r y c t" "cs = capture k d @ c"
    "starts_blank y \<longrightarrow> words x = paren_word d @ words y \<and> starts_blank x"
proof -
  obtain u v c e where u: "x = u @ v" "cs = c @ e" "reads (Optional (other_side k)) u c (v @ t)" "reads r v e t"
    using assms by (rule reads_SeqE)
  from reads_Optional [OF u(3)] show thesis
  proof
    assume "u = [] \<and> c = []"
    with u show thesis by (intro that [of v e None]) (simp_all add: capture_def paren_word_def)
  next
    assume "reads (other_side k) u c (v @ t)"
    then obtain b y where b: "u = b @ ''('' @ y @ '')''" "b \<noteq> []" "list_all re_space b" "token y" "c = [(k, y)]"
      by (rule read_other_side)
    have "words x = paren_word (Some y) @ words v \<and> starts_blank x" if v: "starts_blank v"
    proof
      have "words x = words ((''('' @ y @ '')'') @ v)" using words_blanks [OF b(3)] u(1) b(1) by simp
      then show "words x = paren_word (Some y) @ words v"
        using words_token [OF token_paren [OF b(4)] v] by (simp add: paren_word_def)
      show "starts_blank x" using starts_blank_blanks [OF b(2,3)] u(1) b(1) by simp
    qed
    with u b show thesis by (intro that [of v e "Some y"]) (simp_all add: capture_def)
  qed
qed

text \<open>The status and the end of the line.\<close>

definition status_rx :: rx where
  "status_rx = Seq (Optional (Seq spaces (Group 8 no_space))) (Seq (Many (One re_space)) AtEnd)"

definition status_word :: "string option \<Rightarrow> string list" where
  "status_word d = (case d of None \<Rightarrow> [] | Some x \<Rightarrow> [x])"

lemma read_status:
  assumes "reads status_rx x cs t"
  obtains d where "words x = status_word d" "cs = capture 8 d" "starts_blank x"
proof -
  obtain u v c e where u: "x = u @ v" "cs = c @ e" "reads (Optional (Seq spaces (Group 8 no_space))) u c (v @ t)"
    "reads (Seq (Many (One re_space)) AtEnd) v e t"
    using assms unfolding status_rx_def by (rule reads_SeqE)
  obtain v1 v2 e1 e2 where v: "v = v1 @ v2" "e = e1 @ e2" "reads (Many (One re_space)) v1 e1 (v2 @ t)" "reads AtEnd v2 e2 t"
    using u(4) by (rule reads_SeqE)
  from reads_Many_class [OF v(3)] v(1,2,4) have b: "list_all re_space v" "e = []" by (simp_all add: reads_AtEnd)
  have wv: "words v = []" using words_blanks [OF b(1), of "[]"] by simp
  have sv: "starts_blank v" using b(1) by (cases v) (simp_all add: starts_blank_def)
  from reads_Optional [OF u(3)] show thesis
  proof
    assume "u = [] \<and> c = []"
    with u b wv sv show thesis by (intro that [of None]) (simp_all add: capture_def status_word_def)
  next
    assume "reads (Seq spaces (Group 8 no_space)) u c (v @ t)"
    then obtain w y c1 c2 where w: "u = w @ y" "c = c1 @ c2" "reads spaces w c1 (y @ v @ t)" "reads (Group 8 no_space) y c2 (v @ t)"
      by (rule reads_SeqE) simp
    obtain c3 where y: "c2 = (8, y) # c3" "reads no_space y c3 (v @ t)" using w(4) by (rule reads_GroupE)
    from no_space_read [OF y(2)] have t: "token y" "c3 = []" by simp_all
    from spaces_read [OF w(3)] have s: "w \<noteq> []" "list_all re_space w" "c1 = []" by simp_all
    have "words x = [y]" using u(1) w(1) words_blanks [OF s(2)] words_token [OF t(1) sv] wv by simp
    moreover have "starts_blank x" using starts_blank_blanks [OF s(1,2)] u(1) w(1) by simp
    ultimately show thesis using u(2) w(2) y(1) t s b by (intro that [of "Some y"]) (simp_all add: capture_def status_word_def)
  qed
qed

text \<open>The pattern from the responder on, from the arrow on, and from the left address on.\<close>

definition responder_rx :: rx where
  "responder_rx = Seq (Group 6 no_space) (Seq (Optional (other_side 7)) status_rx)"

definition arrow_rx :: rx where
  "arrow_rx = Seq (Group 5 (Or (word_rx ''->'') (word_rx ''<-''))) (Seq spaces responder_rx)"

definition sides_rx :: rx where
  "sides_rx = Seq (Group 3 no_space) (Seq (Optional (other_side 4)) (Seq spaces arrow_rx))"

lemma stateHeaderRe_parts:
  "stateHeaderRe = Seq (Group 1 no_space) (Seq spaces (Seq (Group 2 no_space) (Seq spaces sides_rx)))"
  by (simp add: stateHeaderRe_def sides_rx_def arrow_rx_def responder_rx_def status_rx_def)

lemma read_responder:
  assumes "reads responder_rx x cs t"
  obtains r ro st where "words x = r # paren_word ro @ status_word st" "cs = (6, r) # capture 7 ro @ capture 8 st"
proof -
  obtain r y c where r: "x = r @ y" "token r" "cs = (6, r) # c" "reads (Seq (Optional (other_side 7)) status_rx) y c t"
    using assms unfolding responder_rx_def by (rule read_token)
  obtain ro z d where z: "reads status_rx z d t" "c = capture 7 ro @ d"
    "starts_blank z \<longrightarrow> words y = paren_word ro @ words z \<and> starts_blank y"
    using r(4) by (rule read_optional_other)
  obtain st where st: "words z = status_word st" "d = capture 8 st" "starts_blank z" using z(1) by (rule read_status)
  show thesis using words_token [OF r(2), of y] z(3) r(1,3) z(2) st by (intro that [of r ro st]) simp_all
qed

lemma read_arrow:
  assumes "reads arrow_rx x cs t"
  obtains ar r ro st where "words x = ar # r # paren_word ro @ status_word st"
    "cs = (5, ar) # (6, r) # capture 7 ro @ capture 8 st" "ar = ''->'' \<or> ar = ''<-''"
proof -
  obtain ar y c d where y: "x = ar @ y" "cs = c @ d" "reads (Group 5 (Or (word_rx ''->'') (word_rx ''<-''))) ar c (y @ t)"
    "reads (Seq spaces responder_rx) y d t" using assms unfolding arrow_rx_def by (rule reads_SeqE)
  obtain e where e: "c = (5, ar) # e" "reads (Or (word_rx ''->'') (word_rx ''<-'')) ar e (y @ t)" using y(3) by (rule reads_GroupE)
  from e(2) have ar: "ar = ''->'' \<or> ar = ''<-''" "e = []" unfolding reads_Or using reads_word by blast+
  then have "token ar" by (auto simp: token_def re_space_def)
  obtain z where z: "reads responder_rx z d t" "words y = words z" "starts_blank y" using y(4) by (rule read_spaces)
  obtain r ro st where "words z = r # paren_word ro @ status_word st" "d = (6, r) # capture 7 ro @ capture 8 st"
    using z(1) by (rule read_responder)
  then show thesis using words_token [OF \<open>token ar\<close> z(3)] y(1,2) z(2) e(1) ar by (intro that [of ar r ro st]) simp_all
qed

lemma read_sides:
  assumes "reads sides_rx x cs t"
  obtains l lo ar r ro st where
    "words x = l # paren_word lo @ ar # r # paren_word ro @ status_word st"
    "cs = (3, l) # capture 4 lo @ (5, ar) # (6, r) # capture 7 ro @ capture 8 st" "ar = ''->'' \<or> ar = ''<-''"
proof -
  obtain l y c where l: "x = l @ y" "token l" "cs = (3, l) # c" "reads (Seq (Optional (other_side 4)) (Seq spaces arrow_rx)) y c t"
    using assms unfolding sides_rx_def by (rule read_token)
  obtain lo z d where z: "reads (Seq spaces arrow_rx) z d t" "c = capture 4 lo @ d"
    "starts_blank z \<longrightarrow> words y = paren_word lo @ words z \<and> starts_blank y"
    using l(4) by (rule read_optional_other)
  obtain w where w: "reads arrow_rx w d t" "words z = words w" "starts_blank z" using z(1) by (rule read_spaces)
  obtain ar r ro st where "words w = ar # r # paren_word ro @ status_word st"
    "d = (5, ar) # (6, r) # capture 7 ro @ capture 8 st" "ar = ''->'' \<or> ar = ''<-''"
    using w(1) by (rule read_arrow)
  then show thesis using words_token [OF l(2), of y] l(1,3) z(2,3) w(2,3) by (intro that [of l lo ar r ro st]) simp_all
qed

lemma read_header:
  assumes "reads stateHeaderRe x cs t"
  obtains i p l lo ar r ro st where
    "words x = [i, p, l] @ paren_word lo @ [ar, r] @ paren_word ro @ status_word st"
    "cs = [(1, i), (2, p), (3, l)] @ capture 4 lo @ [(5, ar), (6, r)] @ capture 7 ro @ capture 8 st"
    "ar = ''->'' \<or> ar = ''<-''"
proof -
  obtain i y c where i: "x = i @ y" "token i" "cs = (1, i) # c" "reads (Seq spaces (Seq (Group 2 no_space) (Seq spaces sides_rx))) y c t"
    using assms unfolding stateHeaderRe_parts by (rule read_token)
  obtain z where z: "reads (Seq (Group 2 no_space) (Seq spaces sides_rx)) z c t" "words y = words z" "starts_blank y"
    using i(4) by (rule read_spaces)
  obtain p v d where p: "z = p @ v" "token p" "c = (2, p) # d" "reads (Seq spaces sides_rx) v d t"
    using z(1) by (rule read_token)
  obtain w where w: "reads sides_rx w d t" "words v = words w" "starts_blank v" using p(4) by (rule read_spaces)
  obtain l lo ar r ro st where "words w = l # paren_word lo @ ar # r # paren_word ro @ status_word st"
    "d = (3, l) # capture 4 lo @ (5, ar) # (6, r) # capture 7 ro @ capture 8 st" "ar = ''->'' \<or> ar = ''<-''"
    using w(1) by (rule read_sides)
  then show thesis using words_token [OF i(2) z(3)] words_token [OF p(2) w(3)] i(1,3) z(2) p(1,3) w(2)
    by (intro that [of i p l lo ar r ro st]) simp_all
qed

text \<open>
  A connection and the lines pf prints for it. An end that is translated is printed as it is on the
  wire going out, and as it is delivered coming in, with its other form in parentheses.
\<close>

record pf_conn =
  pc_iface :: string
  pc_proto :: string
  pc_out :: bool
  pc_opener :: "string \<times> nat"
  pc_opener_nat :: "(string \<times> nat) option"
  pc_target :: "string \<times> nat"
  pc_target_nat :: "(string \<times> nat) option"
  pc_status :: string
  pc_age :: nat
  pc_expires :: nat
  pc_packets :: "nat \<times> nat"
  pc_bytes :: "nat \<times> nat"
  pc_rule :: string

definition end_text :: "string \<times> nat \<Rightarrow> string" where
  "end_text e = (if CHR '':'' \<in> set (fst e) then pf_form (fst e) (snd e) else colon_form (fst e) (snd e))"

definition shown :: "string \<times> nat \<Rightarrow> (string \<times> nat) option \<Rightarrow> string" where
  "shown e n = (case n of None \<Rightarrow> end_text e | Some m \<Rightarrow> end_text m)"

definition beside :: "string \<times> nat \<Rightarrow> (string \<times> nat) option \<Rightarrow> string option" where
  "beside e n = map_option (\<lambda>_. end_text e) n"

definition in_parens :: "string option \<Rightarrow> string" where
  "in_parens d = (case d of None \<Rightarrow> [] | Some x \<Rightarrow> '' ('' @ x @ '')'')"

definition state_header :: "string \<Rightarrow> string \<Rightarrow> string \<Rightarrow> string option \<Rightarrow> string \<Rightarrow> string \<Rightarrow> string option \<Rightarrow> string \<Rightarrow> string" where
  "state_header i p l lo ar r ro st =
     i @ '' '' @ p @ '' '' @ l @ in_parens lo @ '' '' @ ar @ '' '' @ r @ in_parens ro @ ''       '' @ st"

definition header_text :: "pf_conn \<Rightarrow> string" where
  "header_text c =
     (let a = shown (pc_opener c) (pc_opener_nat c); b = beside (pc_opener c) (pc_opener_nat c);
          x = shown (pc_target c) (pc_target_nat c); y = beside (pc_target c) (pc_target_nat c)
      in if pc_out c then state_header (pc_iface c) (pc_proto c) a b ''->'' x y (pc_status c)
         else state_header (pc_iface c) (pc_proto c) x y ''<-'' a b (pc_status c))"

definition unspaced :: "string \<Rightarrow> bool" where
  "unspaced u \<longleftrightarrow> u \<noteq> [] \<and> list_all (\<lambda>c. \<not> is_space c) u"

definition end_ok :: "string \<times> nat \<Rightarrow> bool" where
  "end_ok e \<longleftrightarrow> unspaced (fst e) \<and> CHR ''['' \<notin> set (fst e) \<and> CHR '']'' \<notin> set (fst e) \<and> int (snd e) < 2 ^ 63"

lemma re_space_is_space: "re_space c \<Longrightarrow> is_space c"
  by (auto simp: re_space_def is_space_def Let_def)

lemma unspaced_token: "unspaced u \<Longrightarrow> token u"
  using re_space_is_space by (auto simp: unspaced_def token_def list_all_iff)

lemma unspaced_hd_last: "unspaced u \<Longrightarrow> \<not> is_space (hd u) \<and> \<not> is_space (last u) \<and> u \<noteq> []"
  by (auto simp: unspaced_def list_all_iff)

lemma not_space_brackets [simp]: "\<not> is_space (CHR ''['')" "\<not> is_space (CHR '']'')" "\<not> is_space (CHR '':'')"
  "\<not> is_space (CHR ''a'')" "\<not> is_space (CHR ''e'')" "\<not> is_space (CHR ''r'')" "\<not> is_space (CHR ''s'')"
  by (simp_all add: is_space_def)

lemma unspaced_dec: "list_all (\<lambda>c. \<not> is_space c) (dec n)"
  using dec_digits is_digit_not_space by (auto simp: list_all_iff)

lemma unspaced_end_text: "end_ok e \<Longrightarrow> unspaced (end_text e)"
  using unspaced_dec by (auto simp: end_text_def end_ok_def unspaced_def pf_form_def colon_form_def)

lemma SplitHostPort_end: "end_ok e \<Longrightarrow> SplitHostPort (end_text e) = (fst e, int (snd e))"
proof -
  assume e: "end_ok e"
  then have "address (fst e)" using unspaced_hd_last [of "fst e"] by (auto simp: end_ok_def address_def)
  with e show ?thesis unfolding end_text_def
    by (simp add: SplitHostPort_pf_form SplitHostPort_colon_form end_ok_def)
qed

definition tokens_ok :: "string \<Rightarrow> string \<Rightarrow> string \<Rightarrow> string option \<Rightarrow> string \<Rightarrow> string option \<Rightarrow> string \<Rightarrow> bool" where
  "tokens_ok i p l lo r ro st \<longleftrightarrow> unspaced i \<and> unspaced p \<and> unspaced l \<and> (case lo of None \<Rightarrow> True | Some x \<Rightarrow> unspaced x) \<and>
     unspaced r \<and> (case ro of None \<Rightarrow> True | Some x \<Rightarrow> unspaced x) \<and> unspaced st \<and> hd st \<noteq> CHR ''(''"

lemma starts_blank_in_parens: "starts_blank x \<Longrightarrow> starts_blank (in_parens d @ x)"
  by (auto simp: in_parens_def starts_blank_def split: option.splits)

lemma words_in_parens:
  assumes "case d of None \<Rightarrow> True | Some x \<Rightarrow> unspaced x" and "starts_blank x"
  shows "words (in_parens d @ x) = paren_word d @ words x"
proof (cases d)
  case (Some u)
  with assms have "token u" by (simp add: unspaced_token)
  then have "token (''('' @ u @ '')'')" by (rule token_paren)
  from words_token [OF this assms(2)] words_blanks [of "'' ''" "(''('' @ u @ '')'') @ x"] Some
  show ?thesis by (simp add: in_parens_def paren_word_def)
qed (simp add: in_parens_def paren_word_def)

lemma starts_blank_Cons [simp]: "starts_blank (CHR '' '' # x)"
  by (simp add: starts_blank_def)

lemma words_blank_Cons: "words (CHR '' '' # x) = words x"
  by simp

lemma words_state_header:
  assumes "tokens_ok i p l lo r ro st" and "token ar"
  shows "words (state_header i p l lo ar r ro st) = [i, p, l] @ paren_word lo @ [ar, r] @ paren_word ro @ [st]"
proof -
  have t: "token i" "token p" "token l" "token r" "token st" using assms(1) by (simp_all add: tokens_ok_def unspaced_token)
  have o: "case lo of None \<Rightarrow> True | Some x \<Rightarrow> unspaced x" "case ro of None \<Rightarrow> True | Some x \<Rightarrow> unspaced x"
    using assms(1) by (simp_all add: tokens_ok_def)
  have st: "words st = [st]" using words_token [OF t(5), of "[]"] by (simp add: starts_blank_def)
  show ?thesis unfolding state_header_def append.simps
    by (simp add: words_token t assms(2) words_in_parens o starts_blank_in_parens st del: words.simps add: words_blank_Cons)
qed

text \<open>The pattern matches such a line.\<close>

lemma token_reads: "token u \<Longrightarrow> reads (Group k no_space) u [(k, u)] t"
  unfolding no_space_def token_def by (intro reads_GroupI reads_Many1I) simp_all

lemma spaces_reads: "v \<noteq> [] \<Longrightarrow> list_all re_space v \<Longrightarrow> reads spaces v [] t"
  unfolding spaces_def by (rule reads_Many1I)

lemma read_blank:
  assumes "reads r x c t"
  shows "reads (Seq spaces r) (CHR '' '' # x) c t"
  using reads_SeqI [OF spaces_reads [of "'' ''" "x @ t"] assms] by simp

lemma read_word_then:
  assumes "token u" and "reads r x c t"
  shows "reads (Seq (Group k no_space) r) (u @ x) ((k, u) # c) t"
  using reads_SeqI [OF token_reads [OF assms(1), of k "x @ t"] assms(2)] by simp

lemma other_side_reads: "token y \<Longrightarrow> reads (other_side k) ('' ('' @ y @ '')'') [(k, y)] t"
proof -
  assume y: "token y"
  have "reads (Seq (Group k no_space) (word_rx '')'')) (y @ '')'') [(k, y)] t"
    using y by (intro read_word_then reads_wordI) simp_all
  from reads_SeqI [OF reads_wordI [of "''(''" "(y @ '')'') @ t"] this]
  have "reads (Seq (word_rx ''('') (Seq (Group k no_space) (word_rx '')''))) (''('' @ y @ '')'') [(k, y)] t" by simp
  from read_blank [OF this] show ?thesis unfolding other_side_def by simp
qed

lemma read_parens_then:
  assumes "case d of None \<Rightarrow> True | Some x \<Rightarrow> unspaced x" and "reads r x c t"
  shows "\<exists>c'. reads (Seq (Optional (other_side k)) r) (in_parens d @ x) c' t"
proof (cases d)
  case None
  from reads_SeqI [OF reads_Optional_none [of "other_side k" "x @ t"] assms(2)] None show ?thesis by (auto simp: in_parens_def)
next
  case (Some u)
  with assms(1) have "token u" by (simp add: unspaced_token)
  from reads_OptionalI [OF other_side_reads [OF this, of k "x @ t"]]
  have "reads (Optional (other_side k)) ('' ('' @ u @ '')'') [(k, u)] (x @ t)" by simp
  from reads_SeqI [OF this assms(2)] Some show ?thesis by (auto simp: in_parens_def)
qed

lemma status_reads: "token st \<Longrightarrow> reads status_rx (''       '' @ st) [(8, st)] []"
proof -
  assume st: "token st"
  have "reads (Seq spaces (Group 8 no_space)) (''       '' @ st) [(8, st)] []"
    using reads_SeqI [OF spaces_reads [of "''       ''" "st @ []"] token_reads [OF st, of 8 "[]"]] by simp
  then have "reads (Optional (Seq spaces (Group 8 no_space))) (''       '' @ st) [(8, st)] []" by (rule reads_OptionalI) simp
  moreover have "reads (Seq (Many (One re_space)) AtEnd) ([] @ []) ([] @ []) []"
    by (intro reads_SeqI reads_ManyI) (simp_all add: reads_AtEnd)
  ultimately show ?thesis using reads_SeqI [of _ _ _ "[]"] unfolding status_rx_def by fastforce
qed

lemma state_header_reads:
  assumes "tokens_ok i p l lo r ro st" and "ar = ''->'' \<or> ar = ''<-''"
  shows "\<exists>c. reads stateHeaderRe (state_header i p l lo ar r ro st) c []"
proof -
  have t: "token i" "token p" "token l" "token r" "token st" using assms(1) by (simp_all add: tokens_ok_def unspaced_token)
  have o: "case lo of None \<Rightarrow> True | Some x \<Rightarrow> unspaced x" "case ro of None \<Rightarrow> True | Some x \<Rightarrow> unspaced x"
    using assms(1) by (simp_all add: tokens_ok_def)
  let ?R = "r @ in_parens ro @ ''       '' @ st"
  obtain c where "reads (Seq (Optional (other_side 7)) status_rx) (in_parens ro @ ''       '' @ st) c []"
    using read_parens_then [OF o(2) status_reads [OF t(5)]] by blast
  then have R: "reads responder_rx ?R ((6, r) # c) []" unfolding responder_rx_def by (rule read_word_then [OF t(4)])
  have "reads (Or (word_rx ''->'') (word_rx ''<-'')) ar [] (CHR '' '' # ?R)"
    unfolding reads_Or using assms(2) reads_wordI [of ar] by auto
  then have "reads (Group 5 (Or (word_rx ''->'') (word_rx ''<-''))) ar [(5, ar)] ((CHR '' '' # ?R) @ [])"
    using reads_GroupI by fastforce
  from reads_SeqI [OF this read_blank [OF R]]
  have A: "reads arrow_rx (ar @ CHR '' '' # ?R) ([(5, ar)] @ (6, r) # c) []" unfolding arrow_rx_def .
  obtain d where "reads (Seq (Optional (other_side 4)) (Seq spaces arrow_rx)) (in_parens lo @ CHR '' '' # ar @ CHR '' '' # ?R) d []"
    using read_parens_then [OF o(1) read_blank [OF A]] by blast
  then have "reads sides_rx (l @ in_parens lo @ CHR '' '' # ar @ CHR '' '' # ?R) ((3, l) # d) []"
    unfolding sides_rx_def by (rule read_word_then [OF t(3)])
  from read_word_then [OF t(1) read_blank [OF read_word_then [OF t(2) read_blank [OF this]]], of 1 2]
  show ?thesis unfolding stateHeaderRe_parts state_header_def by auto
qed

lemma status_paren_words:
  assumes "paren_word lo @ [ar, r] @ paren_word ro @ status_word st = paren_word lo' @ [ar', r'] @ paren_word ro' @ [st']"
    and "hd st' \<noteq> CHR ''(''" and "ar \<in> {''->'', ''<-''}" and "ar' \<in> {''->'', ''<-''}"
  shows "lo = lo' \<and> ar = ar' \<and> r = r' \<and> ro = ro' \<and> st = Some st'"
  using assms by (auto simp: paren_word_def status_word_def split: option.splits)

definition to_end :: "rx \<Rightarrow> bool" where
  "to_end r \<longleftrightarrow> (\<forall>u cs t. reads r u cs t \<longrightarrow> t = [])"

lemma to_end_Seq: "to_end b \<Longrightarrow> to_end (Seq a b)"
  unfolding to_end_def reads_Seq by blast

lemma to_end_header: "to_end stateHeaderRe"
  unfolding stateHeaderRe_def by (intro to_end_Seq) (simp add: to_end_def reads_AtEnd)

lemma state_header_captures:
  assumes ok: "tokens_ok i p l lo r ro st" and ar: "ar = ''->'' \<or> ar = ''<-''"
  shows "MatchPrefix stateHeaderRe (state_header i p l lo ar r ro st) =
    Some ([(1, i), (2, p), (3, l)] @ capture 4 lo @ [(5, ar), (6, r)] @ capture 7 ro @ [(8, st)])"
proof -
  let ?L = "state_header i p l lo ar r ro st"
  from state_header_reads [OF ok ar] obtain c where "reads stateHeaderRe ?L c []" by blast
  from reads_MatchPrefix [OF this] obtain cs where cs: "MatchPrefix stateHeaderRe ?L = Some cs" by auto
  from MatchPrefix_reads [OF cs] obtain u t where u: "?L = u @ t" "reads stateHeaderRe u cs t" by blast
  from u(2) have "t = []" using to_end_header unfolding to_end_def by blast
  obtain i' p' l' lo' ar' r' ro' st' where h:
    "words ?L = [i', p', l'] @ paren_word lo' @ [ar', r'] @ paren_word ro' @ status_word st'"
    "cs = [(1, i'), (2, p'), (3, l')] @ capture 4 lo' @ [(5, ar'), (6, r')] @ capture 7 ro' @ capture 8 st'"
    "ar' = ''->'' \<or> ar' = ''<-''"
    using u \<open>t = []\<close> by (auto elim: read_header)
  have "token ar" using ar by (auto simp: token_def re_space_def)
  from h(1) words_state_header [OF ok this]
  have "i' = i" "p' = p" "l' = l" and w: "paren_word lo' @ [ar', r'] @ paren_word ro' @ status_word st' = paren_word lo @ [ar, r] @ paren_word ro @ [st]"
    by simp_all
  moreover have "lo' = lo \<and> ar' = ar \<and> r' = r \<and> ro' = ro \<and> st' = Some st"
    using w ok ar h(3) by (intro status_paren_words) (auto simp: tokens_ok_def)
  ultimately show ?thesis using cs h(2) by (simp add: capture_def)
qed

definition conn_ok :: "pf_conn \<Rightarrow> bool" where
  "conn_ok c \<longleftrightarrow> unspaced (pc_iface c) \<and> unspaced (pc_proto c) \<and> unspaced (pc_status c) \<and> hd (pc_status c) \<noteq> CHR ''('' \<and>
     end_ok (pc_opener c) \<and> (case pc_opener_nat c of None \<Rightarrow> True | Some e \<Rightarrow> end_ok e) \<and>
     end_ok (pc_target c) \<and> (case pc_target_nat c of None \<Rightarrow> True | Some e \<Rightarrow> end_ok e)"

definition endpoint_of :: "string \<times> nat \<Rightarrow> endpoint" where
  "endpoint_of e = (fst e, int (snd e))"

text \<open>What a connection's header says of it: who opened it towards whom, and both ends translated.\<close>

definition header_state :: "pf_conn \<Rightarrow> conn_state" where
  "header_state c =
     \<lparr>c_Proto = to_lower (pc_proto c),
      c_Initiator = endpoint_of (pc_opener c),
      c_InitiatorTranslated = endpoint_of (case pc_opener_nat c of None \<Rightarrow> pc_opener c | Some e \<Rightarrow> e),
      c_Responder = endpoint_of (pc_target c),
      c_ResponderTranslated = endpoint_of (case pc_target_nat c of None \<Rightarrow> pc_target c | Some e \<Rightarrow> e),
      c_Sent = 0, c_Received = 0, c_PktsSent = 0, c_PktsReceived = 0, c_Age = 0, c_Expires = 0,
      c_Iface = pc_iface c, c_Direction = (if pc_out c then ''out'' else ''in''), c_Status = pc_status c, c_Rule = []\<rparr>"

lemma end_text_nonempty [simp]: "end_text e \<noteq> []"
  by (simp add: end_text_def pf_form_def colon_form_def)

lemma shown_read:
  "end_ok e \<Longrightarrow> (case n of None \<Rightarrow> True | Some e \<Rightarrow> end_ok e) \<Longrightarrow>
     SplitHostPort (shown e n) = endpoint_of (case n of None \<Rightarrow> e | Some m \<Rightarrow> m)"
  by (cases n) (simp_all add: shown_def endpoint_of_def SplitHostPort_end)

lemma ends_tokens:
  assumes "conn_ok c"
  defines "a \<equiv> shown (pc_opener c) (pc_opener_nat c)" and "b \<equiv> beside (pc_opener c) (pc_opener_nat c)"
    and "x \<equiv> shown (pc_target c) (pc_target_nat c)" and "y \<equiv> beside (pc_target c) (pc_target_nat c)"
  shows "tokens_ok (pc_iface c) (pc_proto c) a b x y (pc_status c)" "tokens_ok (pc_iface c) (pc_proto c) x y a b (pc_status c)"
  using assms(1) by (auto simp: a_def b_def x_def y_def tokens_ok_def conn_ok_def shown_def beside_def unspaced_end_text split: option.splits)

lemma trim_space_state_header:
  "tokens_ok i p l lo r ro st \<Longrightarrow> trim_space (state_header i p l lo ar r ro st) = state_header i p l lo ar r ro st"
  using unspaced_hd_last [of i] unspaced_hd_last [of st]
  by (intro trim_space_ends) (auto simp: state_header_def tokens_ok_def)

definition header_caps :: "string \<Rightarrow> string \<Rightarrow> string \<Rightarrow> string option \<Rightarrow> string \<Rightarrow> string \<Rightarrow> string option \<Rightarrow> string \<Rightarrow> caps" where
  "header_caps i p l lo ar r ro st =
     [(1, i), (2, p), (3, l)] @ capture 4 lo @ [(5, ar), (6, r)] @ capture 7 ro @ [(8, st)]"

lemma header_caps_groups:
  "group_of (header_caps i p l lo ar r ro st) 1 = i" "group_of (header_caps i p l lo ar r ro st) 2 = p"
  "group_of (header_caps i p l lo ar r ro st) 3 = l" "group_of (header_caps i p l lo ar r ro st) 4 = (case lo of None \<Rightarrow> [] | Some x \<Rightarrow> x)"
  "group_of (header_caps i p l lo ar r ro st) 5 = ar" "group_of (header_caps i p l lo ar r ro st) 6 = r"
  "group_of (header_caps i p l lo ar r ro st) 7 = (case ro of None \<Rightarrow> [] | Some x \<Rightarrow> x)" "group_of (header_caps i p l lo ar r ro st) 8 = st"
  by (cases lo; cases ro; simp add: header_caps_def capture_def group_of_def)+

lemma state_header_match:
  assumes ok: "tokens_ok i p l lo r ro st" and ar: "ar = ''->'' \<or> ar = ''<-''"
  shows "MatchPrefix stateHeaderRe (trim_space (state_header i p l lo ar r ro st)) = Some (header_caps i p l lo ar r ro st)"
  unfolding trim_space_state_header [OF ok] state_header_captures [OF ok ar] header_caps_def ..

text \<open>The end whose other form may follow in parentheses.\<close>

lemma beside_read:
  assumes "end_ok e"
  shows "(let d = (case beside e n of None \<Rightarrow> [] | Some x \<Rightarrow> x)
          in if d \<noteq> [] then SplitHostPort d else SplitHostPort (shown e n)) = endpoint_of e"
  using assms by (cases n) (simp_all add: beside_def shown_def SplitHostPort_end endpoint_of_def)

text \<open>
  A header as pf prints it gives the connection back, whichever way it was opened and whichever of
  its ends are translated.
\<close>

lemma parseStateHeader_text:
  assumes "conn_ok c"
  shows "parseStateHeader (header_text c) = Some (header_state c)"
proof -
  define a b x y where d: "a = shown (pc_opener c) (pc_opener_nat c)" "b = beside (pc_opener c) (pc_opener_nat c)"
    "x = shown (pc_target c) (pc_target_nat c)" "y = beside (pc_target c) (pc_target_nat c)"
  note t = ends_tokens [OF assms, folded d]
  have r: "SplitHostPort a = endpoint_of (case pc_opener_nat c of None \<Rightarrow> pc_opener c | Some e \<Rightarrow> e)"
    "SplitHostPort x = endpoint_of (case pc_target_nat c of None \<Rightarrow> pc_target c | Some e \<Rightarrow> e)"
    using assms unfolding d conn_ok_def by (simp_all add: shown_read)
  have o: "(if (case b of None \<Rightarrow> [] | Some x \<Rightarrow> x) \<noteq> [] then SplitHostPort (case b of None \<Rightarrow> [] | Some x \<Rightarrow> x) else SplitHostPort a)
      = endpoint_of (pc_opener c)"
    "(if (case y of None \<Rightarrow> [] | Some x \<Rightarrow> x) \<noteq> [] then SplitHostPort (case y of None \<Rightarrow> [] | Some x \<Rightarrow> x) else SplitHostPort x)
      = endpoint_of (pc_target c)"
    using assms beside_read unfolding d conn_ok_def Let_def by blast+
  show ?thesis
  proof (cases "pc_out c")
    case True
    then have h: "header_text c = state_header (pc_iface c) (pc_proto c) a b ''->'' x y (pc_status c)" by (simp add: header_text_def d)
    show ?thesis unfolding parseStateHeader_def h state_header_match [OF t(1) disjI1 [OF refl]] option.case
      unfolding header_caps_groups Let_def unfolding o unfolding r header_state_def using True by simp
  next
    case False
    then have h: "header_text c = state_header (pc_iface c) (pc_proto c) x y ''<-'' a b (pc_status c)" by (simp add: header_text_def d)
    show ?thesis unfolding parseStateHeader_def h state_header_match [OF t(2) disjI2 [OF refl]] option.case
      unfolding header_caps_groups Let_def unfolding o unfolding r header_state_def using False by simp
  qed
qed

section \<open>Detail lines and the whole table\<close>

definition two :: "nat \<Rightarrow> string" where
  "two n = (if n < 10 then CHR ''0'' # dec n else dec n)"

definition hms :: "nat \<Rightarrow> string" where
  "hms n = two (n div 3600) @ CHR '':'' # two (n div 60 mod 60) @ CHR '':'' # two (n mod 60)"

definition count_text :: "nat \<times> nat \<Rightarrow> string" where
  "count_text p = dec (fst p) @ CHR '':'' # dec (snd p)"

definition detail_text :: "pf_conn \<Rightarrow> string" where
  "detail_text c =
     (''   age '' @ hms (pc_age c)) @ CHR '','' # ('' expires in '' @ hms (pc_expires c)) @ CHR '','' #
     (CHR '' '' # count_text (pc_packets c) @ '' pkts'') @ CHR '','' # (CHR '' '' # count_text (pc_bytes c) @ '' bytes'') @
     (if pc_rule c = [] then [] else CHR '','' # CHR '' '' # pc_rule c)"

definition counts_ok :: "nat \<times> nat \<Rightarrow> bool" where
  "counts_ok p \<longleftrightarrow> int (fst p) < 2 ^ 63 \<and> int (snd p) < 2 ^ 63"

text \<open>pf keeps ages and time-outs in 32 bits.\<close>

definition details_ok :: "pf_conn \<Rightarrow> bool" where
  "details_ok c \<longleftrightarrow> pc_age c < 2 ^ 32 \<and> pc_expires c < 2 ^ 32 \<and> counts_ok (pc_packets c) \<and> counts_ok (pc_bytes c) \<and>
     (pc_rule c = [] \<or> (\<exists>n. pc_rule c = ''rule '' @ dec n \<or> pc_rule c = ''anchor '' @ dec n))"

definition full_state :: "pf_conn \<Rightarrow> conn_state" where
  "full_state c = (header_state c)\<lparr>c_Sent := int (fst (pc_bytes c)), c_Received := int (snd (pc_bytes c)),
     c_PktsSent := int (fst (pc_packets c)), c_PktsReceived := int (snd (pc_packets c)),
     c_Age := int (pc_age c) * second, c_Expires := int (pc_expires c) * second, c_Rule := pc_rule c\<rparr>"

lemma two_digits: "list_all is_digit (two n)" "two n \<noteq> []"
  using dec_digits by (auto simp: two_def list_all_iff is_digit_def)

lemma undec_two_digits [simp]: "undec (two n) = n"
proof -
  have "undec (CHR ''0'' # s) = undec s" for s by (simp add: undec_def digit_val_def)
  then show ?thesis by (simp add: two_def)
qed

lemma atoi_two: "int n < 2 ^ 63 \<Longrightarrow> atoi (two n) = int n"
  using atoi_digits [OF two_digits(2,1)] by simp

lemma two_chars: "c \<in> set (two n) \<Longrightarrow> is_digit c"
  using two_digits(1) [of n] by (auto simp: list_all_iff)

lemma two_no_colon: "CHR '':'' \<notin> set (two n)"
  using two_chars not_digit_brackets(3) by blast

lemma contains_char: "contains s [c] \<longleftrightarrow> c \<in> set s"
  by (induction s) (auto simp: has_prefix_def)

lemma hms_ends: "hms n \<noteq> []" "is_digit (hd (hms n))" "is_digit (last (hms n))"
  using two_chars [OF hd_in_set [OF two_digits(2)]] two_chars [OF last_in_set [OF two_digits(2)]] two_digits(2)
  by (simp_all add: hms_def)

lemma trim_space_hms: "trim_space (hms n) = hms n"
  using hms_ends by (intro trim_space_ends) simp_all

lemma hms_value: "n div 3600 * 60 + n div 60 mod 60 = n div 60" for n :: nat
  by (simp add: div_mult2_eq [of n 60 60, simplified])

lemma hms_fold:
  assumes "n < 2 ^ 32"
  shows "i64 (i64 (i64 (0 * 60 + int (n div 3600)) * 60 + int (n div 60 mod 60)) * 60 + int (n mod 60)) = int n"
proof -
  have b: "n div 3600 < 2 ^ 32" "n div 60 < 2 ^ 32" using assms by (auto intro: le_less_trans [OF div_le_dividend])
  have i: "i64 (0 * 60 + int (n div 3600)) = int (n div 3600)" using b(1) by (simp add: i64_id)
  have e: "int (n div 3600) * 60 + int (n div 60 mod 60) = int (n div 60)"
    using hms_value [of n] by (metis of_nat_add of_nat_mult of_nat_numeral)
  have f: "int (n div 60) * 60 + int (n mod 60) = int n"
    by (metis div_mult_mod_eq of_nat_add of_nat_mult of_nat_numeral)
  have "i64 (int (n div 60)) = int (n div 60)" using b(2) by (intro i64_int) simp
  moreover have "i64 (int n) = int n" using assms by (intro i64_int) simp
  ultimately show ?thesis unfolding i e by (simp only: f)
qed

lemma pfDuration_hms:
  assumes "n < 2 ^ 32"
  shows "pfDuration (hms n) = int n * second"
proof -
  have s: "split_on (CHR '':'') (hms n) = [two (n div 3600), two (n div 60 mod 60), two (n mod 60)]"
    unfolding hms_def by (simp only: split_on_append [OF two_no_colon] split_on_no_sep [OF two_no_colon])
  have c: "contains (hms n) '':''" unfolding contains_char by (simp add: hms_def)
  have n: "m \<le> n \<Longrightarrow> int m < 2 ^ 63" for m using assms by simp
  have a: "atoi (two (n div 3600)) = int (n div 3600)" "atoi (two (n div 60 mod 60)) = int (n div 60 mod 60)"
    "atoi (two (n mod 60)) = int (n mod 60)"
    by (intro atoi_two n, simp, intro atoi_two n order_trans [OF mod_less_eq_dividend], simp, intro atoi_two n, simp)
  have l: "i64 (int n * second) = int n * second" using assms by (intro i64_id) (simp_all add: second_def)
  show ?thesis unfolding pfDuration_def trim_space_hms Let_def if_P [OF c] s by (simp only: foldl.simps a hms_fold [OF assms] l)
qed

lemma parse_int_dec:
  assumes "int n < 2 ^ 63"
  shows "parse_int (dec n) = Some (int n)"
proof -
  obtain c r where d: "dec n = c # r" using dec_nonempty [of n] by (cases "dec n") auto
  have c: "is_digit c" using dec_digits [of c n] d by simp
  then have "c \<noteq> CHR ''-''" "c \<noteq> CHR ''+''" by (auto simp: is_digit_def)
  then have "parse_int (dec n) =
      (case parse_digits (dec n) of None \<Rightarrow> None | Some m \<Rightarrow> if int m < 2 ^ 63 then Some (int m) else None)"
    by (simp add: parse_int_def d split: option.split)
  moreover have "parse_digits (dec n) = Some n" using dec_digits by (auto simp: parse_digits_def list_all_iff)
  ultimately show ?thesis using assms by simp
qed

lemma trim_space_dec: "trim_space (dec n) = dec n"
  using dec_ends is_digit_not_space by (intro trim_space_ends) auto

lemma count_text_ends: "count_text p \<noteq> []" "is_digit (hd (count_text p))" "is_digit (last (count_text p))"
  using dec_ends by (simp_all add: count_text_def)

lemma trim_space_count: "trim_space (count_text p) = count_text p"
  using count_text_ends is_digit_not_space by (intro trim_space_ends) auto

lemma pair_count_text: "counts_ok p \<Longrightarrow> pair (count_text p) = Some (int (fst p), int (snd p))"
proof -
  assume ok: "counts_ok p"
  have i: "str_index (count_text p) '':'' = Some (length (dec (fst p)))"
    unfolding count_text_def by (rule str_index_char) (rule dec_no_brackets)
  have t: "take (length (dec (fst p))) (count_text p) = dec (fst p)" "drop (length (dec (fst p)) + 1) (count_text p) = dec (snd p)"
    by (simp_all add: count_text_def)
  show ?thesis using ok unfolding pair_def trim_space_count Let_def i option.case t trim_space_dec
    by (simp add: parse_int_dec counts_ok_def)
qed

text \<open>The parts of a detail line; blanks around a part are trimmed.\<close>

lemma trim_space_blank: "trim_space (CHR '' '' # s) = trim_space s"
  by (simp add: trim_space_def is_space_def)

lemma detail_age: "n < 2 ^ 32 \<Longrightarrow> detail_part (''   age '' @ hms n) st = st\<lparr>c_Age := int n * second\<rparr>"
proof -
  assume n: "n < 2 ^ 32"
  have "trim_space (''age '' @ hms n) = ''age '' @ hms n"
    using hms_ends [of n] by (intro trim_space_ends) simp_all
  then have t: "trim_space (''   age '' @ hms n) = ''age '' @ hms n" by (simp add: trim_space_blank)
  show ?thesis unfolding detail_part_def t using pfDuration_hms [OF n] by (simp add: has_prefix_def trim_prefix_def)
qed

lemma detail_expires: "n < 2 ^ 32 \<Longrightarrow> detail_part ('' expires in '' @ hms n) st = st\<lparr>c_Expires := int n * second\<rparr>"
proof -
  assume n: "n < 2 ^ 32"
  have "trim_space (''expires in '' @ hms n) = ''expires in '' @ hms n"
    using hms_ends [of n] by (intro trim_space_ends) simp_all
  then have t: "trim_space ('' expires in '' @ hms n) = ''expires in '' @ hms n" by (simp add: trim_space_blank)
  show ?thesis unfolding detail_part_def t using pfDuration_hms [OF n] by (simp add: has_prefix_def trim_prefix_def)
qed

lemma has_suffix_append [simp]: "has_suffix (s @ t) t"
  by (simp add: has_suffix_def has_prefix_def)

lemma trim_suffix_append [simp]: "trim_suffix (s @ t) t = s"
  by (simp add: trim_suffix_def)

lemma digit_no_prefix: "s \<noteq> [] \<Longrightarrow> is_digit (hd s) \<Longrightarrow> \<not> is_digit c \<Longrightarrow> \<not> has_prefix (s @ t) (c # p)"
  by (cases s) (auto simp: has_prefix_def)

lemma count_no_prefix: "\<not> is_digit c \<Longrightarrow> \<not> has_prefix (count_text p @ t) (c # q)"
  using count_text_ends [of p] by (intro digit_no_prefix)

lemma detail_packets:
  "counts_ok p \<Longrightarrow> detail_part (CHR '' '' # count_text p @ '' pkts'') st = st\<lparr>c_PktsSent := int (fst p), c_PktsReceived := int (snd p)\<rparr>"
proof -
  assume p: "counts_ok p"
  have "trim_space (count_text p @ '' pkts'') = count_text p @ '' pkts''"
    using count_text_ends [of p] by (intro trim_space_ends) simp_all
  then have t: "trim_space (CHR '' '' # count_text p @ '' pkts'') = count_text p @ '' pkts''" by (simp add: trim_space_blank)
  have n: "\<not> is_digit (CHR ''a'')" "\<not> is_digit (CHR ''e'')" by (simp_all add: is_digit_def)
  show ?thesis unfolding detail_part_def t Let_def if_not_P [OF count_no_prefix [OF n(1)]] if_not_P [OF count_no_prefix [OF n(2)]]
    using pair_count_text [OF p] by simp
qed

lemma detail_bytes:
  "counts_ok p \<Longrightarrow> detail_part (CHR '' '' # count_text p @ '' bytes'') st = st\<lparr>c_Sent := int (fst p), c_Received := int (snd p)\<rparr>"
proof -
  assume p: "counts_ok p"
  have "trim_space (count_text p @ '' bytes'') = count_text p @ '' bytes''"
    using count_text_ends [of p] by (intro trim_space_ends) simp_all
  then have t: "trim_space (CHR '' '' # count_text p @ '' bytes'') = count_text p @ '' bytes''" by (simp add: trim_space_blank)
  have n: "\<not> is_digit (CHR ''a'')" "\<not> is_digit (CHR ''e'')" by (simp_all add: is_digit_def)
  have s: "\<not> has_suffix (count_text p @ '' bytes'') '' pkts''" by (simp add: has_suffix_def has_prefix_def)
  show ?thesis unfolding detail_part_def t Let_def if_not_P [OF count_no_prefix [OF n(1)]] if_not_P [OF count_no_prefix [OF n(2)]] if_not_P [OF s]
    using pair_count_text [OF p] by simp
qed

lemma detail_rule:
  assumes "r = ''rule '' @ dec n \<or> r = ''anchor '' @ dec n"
  shows "detail_part (CHR '' '' # r) st = st\<lparr>c_Rule := r\<rparr>"
proof -
  have l: "r \<noteq> []" "last r = last (dec n)" using assms by auto
  have t: "trim_space r = r"
    using assms is_digit_not_space [OF dec_ends(2) [of n]] l by (intro trim_space_ends) auto
  have h: "\<not> has_prefix r ''age ''" "\<not> has_prefix r ''expires in ''" "has_prefix r ''anchor '' \<or> has_prefix r ''rule ''"
    using assms by (auto simp: has_prefix_def)
  have "\<not> has_suffix r (q @ [c])" if "\<not> is_digit c" for q c
    using l dec_ends(2) [of n] that by (cases r rule: rev_cases) (auto simp: has_suffix_def has_prefix_def)
  from this [of "CHR ''s''" "'' pkt''"] this [of "CHR ''s''" "'' byte''"]
  have s: "\<not> has_suffix r '' pkts''" "\<not> has_suffix r '' bytes''" by (simp_all add: is_digit_def)
  show ?thesis unfolding detail_part_def trim_space_blank t using h s by (simp add: Let_def)
qed

lemma hms_chars: "c \<in> set (hms n) \<Longrightarrow> is_digit c \<or> c = CHR '':''"
  using two_chars by (auto simp: hms_def)

lemma count_text_chars: "c \<in> set (count_text p) \<Longrightarrow> is_digit c \<or> c = CHR '':''"
  using dec_digits by (auto simp: count_text_def)

lemma not_digit_more [simp]: "\<not> is_digit (CHR '','')" "\<not> is_digit (CHR ''\<newline>'')"
  by (simp_all add: is_digit_def)

lemma no_comma: "CHR '','' \<notin> set (hms n)" "CHR '','' \<notin> set (count_text p)" "CHR '','' \<notin> set (dec n)"
  using hms_chars [of "CHR '',''" n] count_text_chars [of "CHR '',''" p] dec_digits [of "CHR '',''" n] by auto

lemma no_newline: "CHR ''\<newline>'' \<notin> set (hms n)" "CHR ''\<newline>'' \<notin> set (count_text p)" "CHR ''\<newline>'' \<notin> set (dec n)"
  using hms_chars [of "CHR ''\<newline>''" n] count_text_chars [of "CHR ''\<newline>''" p] dec_digits [of "CHR ''\<newline>''" n] by auto

lemma detail_parts:
  assumes "details_ok c"
  shows "split_on (CHR '','') (detail_text c) =
    [''   age '' @ hms (pc_age c), '' expires in '' @ hms (pc_expires c), CHR '' '' # count_text (pc_packets c) @ '' pkts'',
     CHR '' '' # count_text (pc_bytes c) @ '' bytes''] @ (if pc_rule c = [] then [] else [CHR '' '' # pc_rule c])"
proof -
  have r: "CHR '','' \<notin> set (pc_rule c)" using assms by (auto simp: details_ok_def no_comma)
  have n: "CHR '','' \<notin> set (''   age '' @ hms (pc_age c))" "CHR '','' \<notin> set ('' expires in '' @ hms (pc_expires c))"
    "CHR '','' \<notin> set (CHR '' '' # count_text (pc_packets c) @ '' pkts'')" "CHR '','' \<notin> set (CHR '' '' # count_text (pc_bytes c) @ '' bytes'')"
    "CHR '','' \<notin> set (CHR '' '' # pc_rule c)"
    using r by (simp_all add: no_comma)
  show ?thesis unfolding detail_text_def split_on_append [OF n(1)] split_on_append [OF n(2)] split_on_append [OF n(3)]
    using split_on_append [OF n(4)] split_on_no_sep [OF n(4)] split_on_no_sep [OF n(5)] by simp
qed

lemma parseStateDetail_text:
  assumes "details_ok c"
  shows "parseStateDetail (detail_text c) (header_state c) = full_state c"
proof (cases "pc_rule c = []")
  case True
  with assms show ?thesis unfolding parseStateDetail_def detail_parts [OF assms]
    by (simp add: details_ok_def detail_age detail_expires detail_packets detail_bytes full_state_def header_state_def
        del: append.simps) 
next
  case False
  with assms obtain n where r: "pc_rule c = ''rule '' @ dec n \<or> pc_rule c = ''anchor '' @ dec n" by (auto simp: details_ok_def)
  from assms False show ?thesis unfolding parseStateDetail_def detail_parts [OF assms]
    by (simp add: details_ok_def detail_age detail_expires detail_packets detail_bytes detail_rule [OF r] full_state_def header_state_def
        del: append.simps)
qed

text \<open>
  What pf prints for a connection: its header, the lines of sequence numbers that only TCP has, and
  its details.
\<close>

definition state_lines :: "pf_conn \<times> string list \<Rightarrow> string list" where
  "state_lines cx = header_text (fst cx) # snd cx @ [detail_text (fst cx)]"

definition other_line :: "string \<Rightarrow> bool" where
  "other_line l \<longleftrightarrow> l \<noteq> [] \<and> hd l = CHR '' '' \<and> \<not> contains l ''bytes'' \<and> CHR ''\<newline>'' \<notin> set l"

definition printed_ok :: "pf_conn \<times> string list \<Rightarrow> bool" where
  "printed_ok cx \<longleftrightarrow> conn_ok (fst cx) \<and> details_ok (fst cx) \<and> list_all other_line (snd cx)"

definition state_table :: "(pf_conn \<times> string list) list \<Rightarrow> string" where
  "state_table cs = ended (CHR ''\<newline>'') (concat (map state_lines cs))"

lemma contains_append: "contains (u @ p @ v) p"
  by (induction u) (cases p; cases v; auto simp: has_prefix_def)+

lemma trim_space_nonempty:
  assumes "c \<in> set s" and "\<not> is_space c"
  shows "trim_space s \<noteq> []"
proof -
  let ?t = "dropWhile is_space s"
  have t: "?t \<noteq> []" using assms by auto
  then have "\<not> is_space (hd ?t)" by (rule hd_dropWhile)
  then have "\<exists>x \<in> set ?t. \<not> is_space x" using hd_in_set [OF t] by blast
  then show ?thesis unfolding trim_space_def by simp
qed

lemma header_shape:
  assumes "conn_ok c"
  obtains l lo ar r ro where "tokens_ok (pc_iface c) (pc_proto c) l lo r ro (pc_status c)" "CHR ''\<newline>'' \<notin> set ar"
    "header_text c = state_header (pc_iface c) (pc_proto c) l lo ar r ro (pc_status c)"
proof (cases "pc_out c")
  case True
  then show thesis using ends_tokens(1) [OF assms] by (intro that [of _ _ _ _ "''->''"]) (simp_all add: header_text_def)
next
  case False
  then show thesis using ends_tokens(2) [OF assms] by (intro that [of _ _ _ _ "''<-''"]) (simp_all add: header_text_def)
qed

lemma header_line_step:
  assumes "conn_ok c"
  shows "state_line (header_text c) acc = (flush acc, Some (header_state c))"
proof -
  obtain l lo ar r ro where h: "tokens_ok (pc_iface c) (pc_proto c) l lo r ro (pc_status c)"
    "header_text c = state_header (pc_iface c) (pc_proto c) l lo ar r ro (pc_status c)"
    using assms by (rule header_shape)
  have i: "\<not> is_space (hd (pc_iface c))" "pc_iface c \<noteq> []"
    using unspaced_hd_last h(1) by (auto simp: tokens_ok_def)
  then have "hd (header_text c) = hd (pc_iface c)" "header_text c \<noteq> []" by (simp_all add: h(2) state_header_def)
  moreover have "trim_space (header_text c) = header_text c" using trim_space_state_header [OF h(1)] h(2) by simp
  ultimately show ?thesis using i parseStateHeader_text [OF assms] by (auto simp: state_line_def is_space_def)
qed

lemma other_line_step: "other_line l \<Longrightarrow> state_line l (xs, Some s) = (xs, Some s)"
  by (simp add: state_line_def other_line_def)

lemma other_lines_step: "list_all other_line ls \<Longrightarrow> fold state_line ls (xs, Some s) = (xs, Some s)"
  by (induction ls) (simp_all add: other_line_step)

lemma detail_line_step:
  assumes "details_ok c"
  shows "state_line (detail_text c) (xs, Some (header_state c)) = (xs, Some (full_state c))"
proof -
  have "detail_text c = ((''   age '' @ hms (pc_age c)) @ CHR '','' # ('' expires in '' @ hms (pc_expires c)) @ CHR '','' #
     (CHR '' '' # count_text (pc_packets c) @ '' pkts'') @ CHR '','' # CHR '' '' # count_text (pc_bytes c) @ '' '') @ ''bytes'' @
     (if pc_rule c = [] then [] else CHR '','' # CHR '' '' # pc_rule c)" by (simp add: detail_text_def)
  then have b: "contains (detail_text c) ''bytes''" using contains_append by metis
  have h: "hd (detail_text c) = CHR '' ''" "CHR ''a'' \<in> set (detail_text c)" by (simp_all add: detail_text_def)
  then have "trim_space (detail_text c) \<noteq> []" by (intro trim_space_nonempty [of "CHR ''a''"]) simp_all
  then show ?thesis using b h(1) parseStateDetail_text [OF assms] by (simp add: state_line_def)
qed

lemma state_lines_step:
  assumes "printed_ok cx"
  shows "fold state_line (state_lines cx) acc = (flush acc, Some (full_state (fst cx)))"
  using assms by (simp add: printed_ok_def state_lines_def header_line_step other_lines_step detail_line_step)

lemma states_read:
  "list_all printed_ok cs \<Longrightarrow> flush (fold state_line (concat (map state_lines cs)) acc) = flush acc @ map (full_state \<circ> fst) cs"
  by (induction cs arbitrary: acc) (simp_all add: state_lines_step, simp add: flush_def)

lemma state_header_no_newline:
  assumes "tokens_ok i p l lo r ro st" and "CHR ''\<newline>'' \<notin> set ar"
  shows "CHR ''\<newline>'' \<notin> set (state_header i p l lo ar r ro st)"
proof -
  have n: "unspaced u \<Longrightarrow> CHR ''\<newline>'' \<notin> set u" for u by (auto simp: unspaced_def list_all_iff is_space_def)
  with assms show ?thesis by (auto simp: state_header_def tokens_ok_def in_parens_def split: option.splits)
qed

lemma state_lines_no_newline:
  assumes "printed_ok cx" and "l \<in> set (state_lines cx)"
  shows "CHR ''\<newline>'' \<notin> set l"
proof -
  have "conn_ok (fst cx)" using assms(1) by (simp add: printed_ok_def)
  then have "CHR ''\<newline>'' \<notin> set (header_text (fst cx))"
    by (rule header_shape) (simp add: state_header_no_newline)
  moreover have "CHR ''\<newline>'' \<notin> set (detail_text (fst cx))"
    using assms(1) by (auto simp: printed_ok_def details_ok_def detail_text_def no_newline)
  ultimately show ?thesis using assms by (auto simp: state_lines_def printed_ok_def list_all_iff other_line_def)
qed

text \<open>
  C11: A state table as pf prints it is read back as its connections, in order: who opened each one
  and towards whom, both ends before and after translation, the bytes and packets of each direction,
  age, time to live and rule, whatever lines of sequence numbers stand between.
\<close>

theorem state_table_read_back:
  assumes "list_all printed_ok cs"
  shows "ParseStates (state_table cs) = map (full_state \<circ> fst) cs"
proof -
  let ?ls = "concat (map state_lines cs)"
  have "CHR ''\<newline>'' \<notin> set l" if "l \<in> set ?ls" for l
    using that assms state_lines_no_newline by (auto simp: list_all_iff)
  then have "split_on (CHR ''\<newline>'') (state_table cs @ []) = ?ls @ [[]]"
    unfolding state_table_def by (intro split_ended) simp_all
  then have "split_on (CHR ''\<newline>'') (state_table cs) = ?ls @ [[]]" by simp
  moreover have "state_line [] acc = acc" for acc by (simp add: state_line_def trim_space_def)
  ultimately show ?thesis using states_read [OF assms, of "([], None)"] by (simp add: ParseStates_def) (simp add: flush_def)
qed

text \<open>A redirected connection with sequence numbers, and one that leaves translated.\<close>

definition redirected :: "pf_conn \<times> string list" where
  "redirected = (\<lparr>pc_iface = ''all'', pc_proto = ''tcp'', pc_out = False, pc_opener = (''10.99.0.162'', 59216), pc_opener_nat = None,
     pc_target = (''140.82.114.3'', 443), pc_target_nat = Some (''127.0.0.1'', 3129), pc_status = ''FIN_WAIT_2:FIN_WAIT_2'',
     pc_age = 69, pc_expires = 24, pc_packets = (249, 432), pc_bytes = (14863, 616615), pc_rule = ''anchor '' @ dec 4\<rparr>,
     [''   [2837096760 + 392192] wscale 7  [2817892562 + 65792] wscale 10''])"

definition translated :: "pf_conn \<times> string list" where
  "translated = (\<lparr>pc_iface = ''vtnet0'', pc_proto = ''udp'', pc_out = True, pc_opener = (''192.168.1.178'', 56094),
     pc_opener_nat = Some (''2600:1700::9'', 17449), pc_target = (''79.127.160.158'', 51820), pc_target_nat = None,
     pc_status = ''MULTIPLE:MULTIPLE'', pc_age = 30020, pc_expires = 60, pc_packets = (317323773, 165327693),
     pc_bytes = (263517066416, 102413038016), pc_rule = []\<rparr>, [])"

lemma redirected_ok: "printed_ok redirected"
proof -
  have "details_ok (fst redirected)" by (auto simp: redirected_def details_ok_def counts_ok_def)
  moreover have "conn_ok (fst redirected)" by (simp add: redirected_def conn_ok_def unspaced_def end_ok_def is_space_def)
  moreover have "list_all other_line (snd redirected)" by (simp add: redirected_def other_line_def has_prefix_def)
  ultimately show ?thesis by (simp add: printed_ok_def)
qed

lemma translated_ok: "printed_ok translated"
proof -
  have "details_ok (fst translated)" by (simp add: translated_def details_ok_def counts_ok_def)
  moreover have "conn_ok (fst translated)" by (simp add: translated_def conn_ok_def unspaced_def end_ok_def is_space_def)
  moreover have "list_all other_line (snd translated)" by (simp add: translated_def other_line_def has_prefix_def)
  ultimately show ?thesis by (simp add: printed_ok_def)
qed

theorem state_table_read_back_witness:
  "ParseStates (state_table [redirected, translated]) = [full_state (fst redirected), full_state (fst translated)]"
  using state_table_read_back [of "[redirected, translated]"] redirected_ok translated_ok by simp

end
