(* ===== verification/FilterLog.thy ===== *)
theory FilterLog
  imports PfPolicy GoSubmatch GoTime
begin

text \<open>
  \<^verbatim>\<open>internal/modules/firewall/pflog.go\<close>: the packets the policy rules matched, read from the
  text log of the firewall. A record is parsed, its rule number turned back into the label that names the
  policy, and a row stored; the place in the file is kept in memory and in the store. The results print a
  record and read it back, and follow the rows through reads and restarts.
\<close>

section \<open>Records\<close>

record hit =
  h_TS :: int
  h_Policy :: string
  h_Label :: string
  h_Action :: string
  h_Dir :: string
  h_Iface :: string
  h_Proto :: string
  h_SrcIP :: string
  h_SrcPort :: int
  h_DstIP :: string
  h_DstPort :: int

record log_line =
  l_TS :: int
  l_RuleNr :: int
  l_SubRuleNr :: int
  l_Anchor :: string
  l_Iface :: string
  l_Reason :: string
  l_Action :: string
  l_Dir :: string
  l_IPv :: int
  l_Proto :: string
  l_Src :: string
  l_Dst :: string
  l_SrcPort :: int
  l_DstPort :: int

text \<open>
  The time of a line, in seconds: from its second field, or from the first three with the year of the
  clock, by a layout without a zone, which is a parameter.
\<close>

definition line_time :: "(string \<Rightarrow> int option) \<Rightarrow> string list \<Rightarrow> int \<Rightarrow> int \<Rightarrow> int" where
  "line_time stamp words now year =
     (if length words > 1 then
        (case parse_rfc3339 (words ! 1) of
           Some t \<Rightarrow> t div second
         | None \<Rightarrow>
             if length words > 2 then
               (case stamp (words ! 0 @ '' '' @ words ! 1 @ '' '' @ words ! 2 @ '' '' @ dec_int year) of
                  Some t \<Rightarrow> t | None \<Rightarrow> now)
             else now)
      else now)"

text \<open>Protocol, addresses and what follows them, by the version of IP.\<close>

definition addresses :: "string list \<Rightarrow> (string \<times> string \<times> string \<times> string list) option" where
  "addresses f =
     (if atoi (f ! 8) = 4 then if length f < 20 then None else Some (f ! 16, f ! 18, f ! 19, drop 20 f)
      else if atoi (f ! 8) = 6 then if length f < 17 then None else Some (f ! 12, f ! 15, f ! 16, drop 17 f)
      else None)"

definition parseFilterlog :: "(string \<Rightarrow> int option) \<Rightarrow> string \<Rightarrow> int \<Rightarrow> int \<Rightarrow> log_line option" where
  "parseFilterlog stamp line now year =
     (let words = str_fields line in
      case find (\<lambda>x. count_list x (CHR '','') \<ge> 8) (rev words) of
        None \<Rightarrow> None
      | Some csv \<Rightarrow>
          let f = split_on (CHR '','') csv in
          if length f < 9 then None
          else case addresses f of
            None \<Rightarrow> None
          | Some (proto, src, dst, rest) \<Rightarrow>
              let ports = ((proto = ''tcp'' \<or> proto = ''udp'') \<and> length rest \<ge> 2) in
              Some \<lparr>l_TS = line_time stamp words now year, l_RuleNr = atoi (f ! 0),
                l_SubRuleNr = (if f ! 1 \<noteq> [] then atoi (f ! 1) else - 1), l_Anchor = f ! 2, l_Iface = f ! 4,
                l_Reason = f ! 5, l_Action = f ! 6, l_Dir = f ! 7, l_IPv = atoi (f ! 8), l_Proto = proto, l_Src = src, l_Dst = dst,
                l_SrcPort = (if ports then atoi (rest ! 0) else 0), l_DstPort = (if ports then atoi (rest ! 1) else 0)\<rparr>)"

definition isPolicyAnchor :: "string \<Rightarrow> bool" where
  "isPolicyAnchor a \<longleftrightarrow> a = ''policy'' \<or> a = ''flowsight/policy'' \<or> has_suffix a ''/policy''"

section \<open>Rule numbers\<close>

definition ruleNrRe :: rx where
  "ruleNrRe = Seq (word_rx ''@'') (Seq (Group 1 digits) (One re_space))"

text \<open>One line of the numbered listing of the anchor.\<close>

definition add_label :: "string \<Rightarrow> (int, string) gomap \<Rightarrow> (int, string) gomap" where
  "add_label l out =
     (let t = trim_space l in
      case MatchPrefix ruleNrRe t of
        None \<Rightarrow> out
      | Some m \<Rightarrow> (case find_label t of Some x \<Rightarrow> mput (atoi (group_of m 1)) x out | None \<Rightarrow> out))"

text \<open>The labels kept and the time they were read, and what pfctl lists now unless it fails.\<close>

definition ruleLabels ::
    "((int, string) gomap \<times> int) option \<Rightarrow> string option \<Rightarrow> int \<Rightarrow> (int, string) gomap \<times> ((int, string) gomap \<times> int) option" where
  "ruleLabels cache listing now =
     (case cache of
        Some (labels, at) \<Rightarrow>
          if at + 30 * second > now then (labels, cache)
          else let out = (case listing of None \<Rightarrow> [] | Some text \<Rightarrow> fold add_label (split_on nl text) []) in (out, Some (out, now))
      | None \<Rightarrow> let out = (case listing of None \<Rightarrow> [] | Some text \<Rightarrow> fold add_label (split_on nl text) []) in (out, Some (out, now)))"

section \<open>Reading the log\<close>

text \<open>The reader in memory, and its rows and position in the store.\<close>

record reader =
  lg_started :: bool
  lg_off :: nat
  lg_size :: nat
  lg_err :: string
  lg_at :: int
  lg_lines :: nat
  lg_hits :: nat
  lg_unknown :: nat

record log_store =
  db_hits :: "hit list"
  db_pos :: "(nat \<times> nat) option"

definition new_reader :: reader where
  "new_reader = \<lparr>lg_started = False, lg_off = 0, lg_size = 0, lg_err = [], lg_at = 0, lg_lines = 0, lg_hits = 0, lg_unknown = 0\<rparr>"

text \<open>The position is stored as two numbers in decimal, and read the same way.\<close>

definition loadLogPos :: "log_store \<Rightarrow> nat \<times> nat" where
  "loadLogPos db = (case db_pos db of None \<Rightarrow> (0, 0) | Some p \<Rightarrow> p)"

text \<open>The first row of each packet; rows are in the order of their numbers.\<close>

definition same_packet :: "hit \<Rightarrow> hit \<Rightarrow> bool" where
  "same_packet a b \<longleftrightarrow> h_TS a = h_TS b \<and> h_Label a = h_Label b \<and> h_SrcIP a = h_SrcIP b \<and> h_SrcPort a = h_SrcPort b \<and>
     h_DstIP a = h_DstIP b \<and> h_DstPort a = h_DstPort b \<and> h_Proto a = h_Proto b"

definition dedupeHits :: "hit list \<Rightarrow> hit list" where
  "dedupeHits hs = fold (\<lambda>h out. if \<exists>x \<in> set out. same_packet x h then out else out @ [h]) hs []"

definition pruneHits :: "int \<Rightarrow> hit list \<Rightarrow> hit list" where
  "pruneHits now hs = filter (\<lambda>h. \<not> h_TS h < now - 7 * 24 * 3600) hs"

text \<open>What a line adds: its hit, and whether its rule has no label.\<close>

definition line_hit :: "(string \<Rightarrow> log_line option) \<Rightarrow> (int, string) gomap \<Rightarrow> string \<Rightarrow> (hit \<times> bool) option" where
  "line_hit parse labels line =
     (if \<not> contains line '',policy,'' then None
      else case parse line of
        None \<Rightarrow> None
      | Some l \<Rightarrow>
          if \<not> isPolicyAnchor (l_Anchor l) then None
          else
            let n = (if l_SubRuleNr l < 0 then l_RuleNr l else l_SubRuleNr l);
                found = (case mget labels n of Some x \<Rightarrow> Some x | None \<Rightarrow> mget labels (l_RuleNr l));
                label = (case found of Some x \<Rightarrow> x | None \<Rightarrow> [])
            in Some (\<lparr>h_TS = l_TS l, h_Policy = policyOfLabel label, h_Label = label, h_Action = l_Action l, h_Dir = l_Dir l,
                 h_Iface = l_Iface l, h_Proto = l_Proto l, h_SrcIP = l_Src l, h_SrcPort = l_SrcPort l, h_DstIP = l_Dst l,
                 h_DstPort = l_DstPort l\<rparr>, found = None))"

text \<open>The loop: bytes passed, lines, hits; the first argument holds the current line reversed.\<close>

fun log_loop :: "(string \<Rightarrow> (hit \<times> bool) option) \<Rightarrow> string \<Rightarrow> string \<Rightarrow> nat \<times> nat \<times> (hit \<times> bool) list" where
  "log_loop hit_of cur [] = (0, 0, [])"
| "log_loop hit_of cur (c # s) =
     (if c = nl then
        let line = rev (c # cur); (n, k, hs) = log_loop hit_of [] s
        in (length line + n, Suc k, (case hit_of line of Some h \<Rightarrow> h # hs | None \<Rightarrow> hs))
      else log_loop hit_of (c # cur) s)"

text \<open>
  One read. A file is its size when it was looked at and its bytes when they were read. The flags say
  whether the store accepts the rows, and the position. Returned is whether the job succeeds.
\<close>

definition readLog ::
    "(string \<Rightarrow> log_line option) \<Rightarrow> string \<Rightarrow> string + nat \<times> string \<Rightarrow> (int, string) gomap \<Rightarrow> int \<Rightarrow> bool \<Rightarrow> bool \<Rightarrow>
      reader \<times> log_store \<Rightarrow> bool \<times> reader \<times> log_store" where
  "readLog parse path file labels now stored saved s =
     (if path = [] then (True, s)
      else case file of
        Inl err \<Rightarrow> (True, (fst s)\<lparr>lg_err := err\<rparr>, snd s)
      | Inr (sz, content) \<Rightarrow>
          let (m0, db) = s;
              m1 = (if lg_started m0 then m0
                    else m0\<lparr>lg_off := fst (loadLogPos db), lg_size := snd (loadLogPos db), lg_started := True\<rparr>);
              off = (if lg_size m1 > sz \<or> lg_off m1 > sz then 0 else lg_off m1);
              m2 = m1\<lparr>lg_err := []\<rparr>;
              (n, lines, hs) = log_loop (line_hit parse labels) [] (drop off content)
          in if hs \<noteq> [] \<and> \<not> stored then (False, m2, db)
             else
               let rows = db_hits db @ map fst hs;
                   db1 = (if hs = [] then db else db\<lparr>db_hits := (if off = 0 then dedupeHits rows else rows)\<rparr>);
                   m3 = m2\<lparr>lg_off := off + n, lg_size := sz, lg_at := now, lg_lines := lg_lines m2 + lines,
                     lg_hits := lg_hits m2 + length hs, lg_unknown := lg_unknown m2 + length (filter snd hs)\<rparr>
               in (True, m3, if lines > 0 \<and> saved then db1\<lparr>db_pos := Some (off + n, sz)\<rparr> else db1))"

section \<open>Whole lines\<close>

text \<open>The complete lines of a text, each with its line end.\<close>

definition log_lines :: "string \<Rightarrow> string list" where
  "log_lines s = map (\<lambda>l. l @ [nl]) (butlast (split_on nl s))"

definition passed :: "string \<Rightarrow> nat" where
  "passed s = length (concat (log_lines s))"

lemma log_lines_no_nl: "nl \<notin> set s \<Longrightarrow> log_lines s = []"
  by (simp add: log_lines_def split_on_no_sep)

lemma log_lines_line: "nl \<notin> set l \<Longrightarrow> log_lines (l @ nl # s) = (l @ [nl]) # log_lines s"
  by (simp add: log_lines_def split_on_append)

lemma log_loop_lines:
  "nl \<notin> set cur \<Longrightarrow> log_loop f cur s =
     (passed (rev cur @ s), length (log_lines (rev cur @ s)), List.map_filter f (log_lines (rev cur @ s)))"
proof (induction s arbitrary: cur)
  case Nil
  then show ?case by (simp add: log_lines_no_nl passed_def List.map_filter_def)
next
  case (Cons c s)
  show ?case
  proof (cases "c = nl")
    case True
    have "log_lines (rev cur @ nl # s) = (rev cur @ [nl]) # log_lines s" using Cons.prems by (simp add: log_lines_line)
    with True Cons.IH [of "[]"] show ?thesis by (simp add: passed_def List.map_filter_simps split: option.split)
  next
    case False
    with Cons.prems have "nl \<notin> set (c # cur)" by simp
    from Cons.IH [OF this] False show ?thesis by simp
  qed
qed

lemma split_ended_append: "\<forall>l \<in> set ls. c \<notin> set l \<Longrightarrow> split_on c (ended c ls @ x) = ls @ split_on c x"
  by (induction ls) (simp_all add: split_on_append)

text \<open>The lines of a text that has grown are those it had and those of the rest.\<close>

lemma log_lines_grow:
  assumes "prefix s t"
  shows "log_lines t = log_lines s @ log_lines (drop (passed s) t)"
proof -
  obtain ls r where s: "split_on nl s = ls @ [r]" "s = ended nl ls @ r" using join_split by blast
  have c: "\<forall>l \<in> set ls. nl \<notin> set l" using split_on_parts [of _ nl s] s(1) by auto
  have l: "log_lines s = map (\<lambda>l. l @ [nl]) ls" using s(1) by (simp add: log_lines_def)
  obtain u where "t = s @ u" using assms by (auto simp: prefix_def)
  then have t: "t = ended nl ls @ r @ u" using s(2) by simp
  then have d: "drop (passed s) t = r @ u" by (simp add: passed_def l)
  have "log_lines (ended nl ls @ r @ u) = map (\<lambda>l. l @ [nl]) ls @ log_lines (r @ u)"
    unfolding log_lines_def split_ended_append [OF c] by (simp add: butlast_append)
  then show ?thesis unfolding d unfolding t l .
qed

lemma passed_grow: "prefix s t \<Longrightarrow> passed t = passed s + passed (drop (passed s) t)"
  unfolding passed_def by (subst log_lines_grow) (simp_all add: passed_def)

lemma passed_le: "passed s \<le> length s"
proof -
  obtain ls r where s: "split_on nl s = ls @ [r]" "s = ended nl ls @ r" using join_split by blast
  have "length s = length (ended nl ls) + length r" by (subst s(2)) simp
  then show ?thesis by (simp add: passed_def log_lines_def s(1))
qed

section \<open>Reads and restarts\<close>

text \<open>A read, with the flag whether the store takes the rows it has, and a restart.\<close>

datatype event = Read nat string bool | Restart

definition event_step :: "(string \<Rightarrow> log_line option) \<Rightarrow> string \<Rightarrow> (int, string) gomap \<Rightarrow> int \<Rightarrow> event \<Rightarrow> reader \<times> log_store \<Rightarrow> reader \<times> log_store" where
  "event_step parse path labels now e s =
     (case e of
        Read sz content stored \<Rightarrow> snd (readLog parse path (Inr (sz, content)) labels now stored True s)
      | Restart \<Rightarrow> (new_reader, snd s))"

text \<open>A file that grows from read to read, also while it is read, and what it holds in the end.\<close>

fun grows :: "string \<Rightarrow> event list \<Rightarrow> bool" where
  "grows c [] \<longleftrightarrow> True"
| "grows c (Restart # es) \<longleftrightarrow> grows c es"
| "grows c (Read sz d st # es) \<longleftrightarrow> prefix c d \<and> length c \<le> sz \<and> sz \<le> length d \<and> grows d es"

fun latest :: "string \<Rightarrow> event list \<Rightarrow> string" where
  "latest c [] = c"
| "latest c (Restart # es) = latest c es"
| "latest c (Read sz d st # es) = latest d es"

lemma grows_append: "grows c (es @ fs) \<longleftrightarrow> grows c es \<and> grows (latest c es) fs"
  by (induction c es rule: grows.induct) simp_all

lemma grows_latest: "grows c es \<Longrightarrow> prefix c (latest c es)"
  by (induction c es rule: grows.induct) (auto intro: prefix_order.trans)

text \<open>The reader is at the end of the last complete line of the file, in memory and in the store.\<close>

definition at_end :: "string \<Rightarrow> reader \<times> log_store \<Rightarrow> bool" where
  "at_end c s \<longleftrightarrow> 0 < passed c \<and> (\<exists>z \<le> length c. db_pos (snd s) = Some (passed c, z)) \<and>
     (lg_started (fst s) \<longrightarrow> lg_off (fst s) = passed c \<and> lg_size (fst s) \<le> length c)"

definition line_hits :: "(string \<Rightarrow> log_line option) \<Rightarrow> (int, string) gomap \<Rightarrow> string list \<Rightarrow> hit list" where
  "line_hits parse labels ls = map fst (List.map_filter (line_hit parse labels) ls)"

lemma read_step:
  fixes parse labels now
  assumes "path \<noteq> []" and s: "at_end c s" and "prefix c d" and sz: "length c \<le> sz" "sz \<le> length d"
  defines "s' \<equiv> event_step parse path labels now (Read sz d True) s"
  shows "at_end d s'" "db_hits (snd s') = db_hits (snd s) @ line_hits parse labels (log_lines (drop (passed c) d))"
proof -
  obtain m0 db where s0: "s = (m0, db)" by force
  obtain z where z: "z \<le> length c" "db_pos db = Some (passed c, z)" using s s0 by (auto simp: at_end_def)
  define m1 where "m1 = (if lg_started m0 then m0
      else m0\<lparr>lg_off := fst (loadLogPos db), lg_size := snd (loadLogPos db), lg_started := True\<rparr>)"
  have m1: "lg_off m1 = passed c" "lg_size m1 \<le> length c" "lg_started m1"
    using s s0 z by (auto simp: m1_def at_end_def loadLogPos_def)
  have pos: "0 < passed c" "passed c \<le> sz" using s passed_le [of c] sz(1) by (auto simp: at_end_def)
  have off: "(if lg_size m1 > sz \<or> lg_off m1 > sz then 0 else lg_off m1) = passed c"
    using m1 pos sz(1) by auto
  let ?r = "drop (passed c) d"
  have loop: "log_loop (line_hit parse labels) [] ?r = (passed ?r, length (log_lines ?r), List.map_filter (line_hit parse labels) (log_lines ?r))"
    using log_loop_lines [of "[]"] by simp
  let ?hs = "List.map_filter (line_hit parse labels) (log_lines ?r)"
  let ?db1 = "if ?hs = [] then db else db\<lparr>db_hits := db_hits db @ map fst ?hs\<rparr>"
  let ?m3 = "(m1\<lparr>lg_err := []\<rparr>)\<lparr>lg_off := passed c + passed ?r, lg_size := sz, lg_at := now, lg_lines := lg_lines m1 + length (log_lines ?r),
    lg_hits := lg_hits m1 + length ?hs, lg_unknown := lg_unknown m1 + length (filter snd ?hs)\<rparr>"
  have r: "s' = (?m3, if log_lines ?r \<noteq> [] then ?db1\<lparr>db_pos := Some (passed c + passed ?r, sz)\<rparr> else ?db1)"
    unfolding s'_def event_step_def event.case readLog_def if_not_P [OF assms(1)] sum.case prod.case Let_def s0
      m1_def [symmetric] off loop using pos(1) by simp
  have g: "passed d = passed c + passed ?r" using assms(3) by (rule passed_grow)
  have n: "passed ?r = 0" if "log_lines ?r = []" using that by (simp add: passed_def)
  have hits: "db_hits ?db1 = db_hits db @ map fst ?hs" by simp
  show "db_hits (snd s') = db_hits (snd s) @ line_hits parse labels (log_lines ?r)"
    unfolding r s0 line_hits_def using hits by simp
  have dz: "z \<le> length d" "length c \<le> length d" using z sz by simp_all
  show "at_end d s'" unfolding at_end_def r using g n pos(1) m1(3) z(2) dz(1) sz by auto
qed

text \<open>A read whose rows the store refuses leaves the reader where it was.\<close>

lemma failed_read:
  fixes parse path labels now d
  assumes s: "at_end c s" and sz: "length c \<le> sz"
  defines "s' \<equiv> event_step parse path labels now (Read sz d False) s"
  shows "s' = event_step parse path labels now (Read sz d True) s \<or> at_end c s' \<and> db_hits (snd s') = db_hits (snd s)"
proof (cases "path = []")
  case False
  obtain m0 db where s0: "s = (m0, db)" by force
  define m1 where "m1 = (if lg_started m0 then m0
      else m0\<lparr>lg_off := fst (loadLogPos db), lg_size := snd (loadLogPos db), lg_started := True\<rparr>)"
  define off where "off = (if lg_size m1 > sz \<or> lg_off m1 > sz then 0 else lg_off m1)"
  obtain n k hs where loop: "log_loop (line_hit parse labels) [] (drop off d) = (n, k, hs)" by (metis prod_cases3)
  have m1: "at_end c (m1\<lparr>lg_err := []\<rparr>, db)" using s s0 by (auto simp: m1_def at_end_def loadLogPos_def)
  show ?thesis
  proof (cases "hs = []")
    case True
    have "s' = event_step parse path labels now (Read sz d True) s"
      unfolding s'_def event_step_def event.case readLog_def if_not_P [OF False] sum.case prod.case Let_def s0
        m1_def [symmetric] off_def [symmetric] loop using True by simp
    then show ?thesis ..
  next
    case ne: False
    have "s' = (m1\<lparr>lg_err := []\<rparr>, db)"
      unfolding s'_def event_step_def event.case readLog_def if_not_P [OF \<open>path \<noteq> []\<close>] sum.case prod.case Let_def s0
        m1_def [symmetric] off_def [symmetric] loop using ne by simp
    then show ?thesis using m1 s0 by simp
  qed
qed (simp add: s'_def event_step_def readLog_def)

lemma restart_step: "at_end c s \<Longrightarrow> at_end c (event_step parse path labels now Restart s)"
  by (auto simp: at_end_def event_step_def new_reader_def)

definition run_events where
  "run_events parse path labels now es s = fold (event_step parse path labels now) es s"

lemma hits_append: "line_hits parse labels (xs @ ys) = line_hits parse labels xs @ line_hits parse labels ys"
  by (simp add: line_hits_def List.map_filter_def)

lemma log_lines_between:
  assumes "prefix a b" and "prefix b d"
  shows "log_lines (drop (passed a) d) = log_lines (drop (passed a) b) @ log_lines (drop (passed b) d)"
proof -
  have "prefix a d" using assms by (rule prefix_order.trans)
  then have "log_lines a @ log_lines (drop (passed a) d) =
      log_lines a @ log_lines (drop (passed a) b) @ log_lines (drop (passed b) d)"
    using log_lines_grow [of a d] log_lines_grow [OF assms(1)] log_lines_grow [OF assms(2)] by simp
  then show ?thesis by simp
qed

lemma log_lines_none: "log_lines (drop (passed c) c) = []"
  using log_lines_grow [of c c] by simp

text \<open>At every time the store has the rows of the lines up to where the reader is.\<close>

lemma run_hits:
  assumes "path \<noteq> []"
  shows "at_end a s \<Longrightarrow> prefix a c \<Longrightarrow> grows c es \<Longrightarrow>
    \<exists>b. prefix a b \<and> prefix b (latest c es) \<and> at_end b (run_events parse path labels now es s) \<and>
     db_hits (snd (run_events parse path labels now es s)) =
       db_hits (snd s) @ line_hits parse labels (log_lines (drop (passed a) b))"
proof (induction es arbitrary: a c s)
  case Nil
  then show ?case by (intro exI [of _ a]) (simp add: run_events_def log_lines_none line_hits_def List.map_filter_def)
next
  case (Cons e es)
  show ?case
  proof (cases e)
    case Restart
    with Cons.IH [OF restart_step [OF Cons.prems(1)] Cons.prems(2)] Cons.prems(3) show ?thesis
      by (simp add: run_events_def event_step_def)
  next
    case (Read sz d st)
    let ?s = "event_step parse path labels now (Read sz d st) s"
    let ?t = "event_step parse path labels now (Read sz d True) s"
    have g: "prefix c d" "length c \<le> sz" "sz \<le> length d" "grows d es" using Cons.prems(3) Read by simp_all
    have ad: "prefix a d" "length a \<le> sz" using Cons.prems(2) g prefix_length_le [OF Cons.prems(2)]
      by (auto intro: prefix_order.trans)
    note r = read_step [OF assms Cons.prems(1) ad(1,2) g(3), of parse labels now]
    have "?s = ?t \<or> at_end a ?s \<and> db_hits (snd ?s) = db_hits (snd s)"
      using failed_read [OF Cons.prems(1) ad(2)] by (cases st) simp_all
    then show ?thesis
    proof
      assume t: "?s = ?t"
      from Cons.IH [OF r(1) prefix_order.refl g(4)] obtain b where b: "prefix d b" "prefix b (latest d es)"
        "at_end b (run_events parse path labels now es ?t)"
        "db_hits (snd (run_events parse path labels now es ?t)) = db_hits (snd ?t) @ line_hits parse labels (log_lines (drop (passed d) b))"
        by blast
      have "prefix a b" using ad(1) b(1) by (rule prefix_order.trans)
      with b r(2) t show ?thesis
        by (intro exI [of _ b]) (simp add: Read run_events_def log_lines_between [OF ad(1) b(1)] hits_append)
    next
      assume t: "at_end a ?s \<and> db_hits (snd ?s) = db_hits (snd s)"
      with Cons.IH [OF _ ad(1) g(4), of ?s] show ?thesis by (simp add: Read run_events_def)
    qed
  qed
qed

section \<open>A record is read back\<close>

text \<open>A logged packet, with the columns the reader skips.\<close>

record packet =
  pk_rule :: nat
  pk_sub :: "nat option"
  pk_anchor :: string
  pk_iface :: string
  pk_reason :: string
  pk_action :: string
  pk_dir :: string
  pk_v6 :: bool
  pk_before :: "string list"
  pk_proto :: string
  pk_between :: "string list"
  pk_src :: string
  pk_dst :: string
  pk_sport :: nat
  pk_dport :: nat
  pk_rest :: "string list"

definition columns :: "packet \<Rightarrow> string list" where
  "columns p =
     [dec (pk_rule p), (case pk_sub p of None \<Rightarrow> [] | Some n \<Rightarrow> dec n), pk_anchor p, ''0'', pk_iface p, pk_reason p, pk_action p,
      pk_dir p, (if pk_v6 p then ''6'' else ''4'')] @ pk_before p @ [pk_proto p] @ pk_between p @ [pk_src p, pk_dst p] @
     (if pk_proto p = ''tcp'' \<or> pk_proto p = ''udp'' then [dec (pk_sport p), dec (pk_dport p)] else []) @ pk_rest p"

definition column_ok :: "string \<Rightarrow> bool" where
  "column_ok x \<longleftrightarrow> list_all (\<lambda>c. \<not> is_space c \<and> c \<noteq> CHR '','') x"

definition packet_ok :: "packet \<Rightarrow> bool" where
  "packet_ok p \<longleftrightarrow> length (pk_before p) = (if pk_v6 p then 3 else 7) \<and> length (pk_between p) = (if pk_v6 p then 2 else 1) \<and>
     list_all column_ok ([pk_anchor p, pk_iface p, pk_reason p, pk_action p, pk_dir p, pk_proto p, pk_src p, pk_dst p] @
       pk_before p @ pk_between p @ pk_rest p) \<and>
     int (pk_rule p) < 2 ^ 63 \<and> (case pk_sub p of None \<Rightarrow> True | Some n \<Rightarrow> int n < 2 ^ 63) \<and>
     int (pk_sport p) < 2 ^ 63 \<and> int (pk_dport p) < 2 ^ 63"

text \<open>The words of the prefix that syslog puts before the record.\<close>

definition prefix_word :: "string \<Rightarrow> bool" where
  "prefix_word w \<longleftrightarrow> w \<noteq> [] \<and> list_all (\<lambda>c. \<not> is_space c) w"

definition packet_line :: "string list \<Rightarrow> packet \<Rightarrow> string" where
  "packet_line ws p = concat (map (\<lambda>w. w @ '' '') ws) @ join_with '','' (columns p) @ [nl]"

lemma column_dec: "column_ok (dec n)"
proof -
  have "is_digit c \<Longrightarrow> \<not> is_space c \<and> c \<noteq> CHR '',''" for c by (auto simp: is_digit_def is_space_def Let_def)
  then show ?thesis using dec_digits by (auto simp: column_ok_def list_all_iff)
qed

lemma columns_ok: "packet_ok p \<Longrightarrow> x \<in> set (columns p) \<Longrightarrow> column_ok x"
proof -
  assume p: "packet_ok p" and x: "x \<in> set (columns p)"
  have "column_ok []" "column_ok ''0''" "column_ok ''6''" "column_ok ''4''" by (simp_all add: column_ok_def is_space_def)
  with p x show ?thesis unfolding columns_def packet_ok_def by (auto simp: column_dec list_all_iff split: option.splits if_splits)
qed

lemma count_join:
  "\<forall>x \<in> set xs. c \<notin> set x \<Longrightarrow> xs \<noteq> [] \<Longrightarrow> count_list (join_with [c] xs) c = length xs - 1"
  by (induction "[c]" xs rule: join_with.induct) simp_all

lemma join_unspaced: "\<forall>x \<in> set xs. column_ok x \<Longrightarrow> d \<in> set (join_with '','' xs) \<Longrightarrow> \<not> is_space d"
proof (induction "'',''" xs rule: join_with.induct)
  case (2 x)
  then show ?case by (auto simp: column_ok_def list_all_iff)
next
  case (3 x y ys)
  from 3(3) consider "d \<in> set x" | "d = CHR '',''" | "d \<in> set (join_with '','' (y # ys))" by auto
  then show ?case using 3 by cases (auto simp: column_ok_def list_all_iff is_space_def)
qed simp

lemma fields_of_line:
  assumes "list_all prefix_word ws" and "\<forall>d \<in> set csv. \<not> is_space d" and "csv \<noteq> []"
  shows "str_fields (concat (map (\<lambda>w. w @ '' '') ws) @ csv @ [nl]) = ws @ [csv]"
  using assms(1)
proof (induction ws)
  case Nil
  have "str_fields (csv @ nl # []) = csv # str_fields []"
    unfolding str_fields_def using fields_loop_word(1) [OF assms(2), of nl "[]" "[]"] assms(3) by (simp add: is_space_def)
  then show ?case by (simp add: str_fields_def)
next
  case (Cons w ws)
  then have "\<forall>c \<in> set w. \<not> is_space c" "w \<noteq> []" by (simp_all add: prefix_word_def list_all_iff)
  from str_fields_word(1) [OF this] Cons show ?case by simp
qed

definition packet_log :: "int \<Rightarrow> packet \<Rightarrow> log_line" where
  "packet_log ts p = (let ports = (pk_proto p = ''tcp'' \<or> pk_proto p = ''udp'') in
     \<lparr>l_TS = ts, l_RuleNr = int (pk_rule p), l_SubRuleNr = (case pk_sub p of None \<Rightarrow> - 1 | Some n \<Rightarrow> int n), l_Anchor = pk_anchor p,
      l_Iface = pk_iface p, l_Reason = pk_reason p, l_Action = pk_action p, l_Dir = pk_dir p, l_IPv = (if pk_v6 p then 6 else 4),
      l_Proto = pk_proto p, l_Src = pk_src p, l_Dst = pk_dst p,
      l_SrcPort = (if ports then int (pk_sport p) else 0), l_DstPort = (if ports then int (pk_dport p) else 0)\<rparr>)"

lemma columns_shape:
  assumes "packet_ok p"
  shows "length (columns p) \<ge> 9" "columns p ! 0 = dec (pk_rule p)"
    "columns p ! 1 = (case pk_sub p of None \<Rightarrow> [] | Some n \<Rightarrow> dec n)" "columns p ! 2 = pk_anchor p" "columns p ! 4 = pk_iface p"
    "columns p ! 5 = pk_reason p" "columns p ! 6 = pk_action p" "columns p ! 7 = pk_dir p"
    "columns p ! 8 = (if pk_v6 p then ''6'' else ''4'')"
  by (simp_all add: columns_def)

lemma columns_addresses:
  assumes "packet_ok p"
  shows "addresses (columns p) = Some (pk_proto p, pk_src p, pk_dst p,
    (if pk_proto p = ''tcp'' \<or> pk_proto p = ''udp'' then [dec (pk_sport p), dec (pk_dport p)] else []) @ pk_rest p)"
proof (cases "pk_v6 p")
  case True
  then have "length (pk_before p) = Suc (Suc (Suc 0))" "length (pk_between p) = Suc (Suc 0)"
    using assms by (simp_all add: packet_ok_def)
  then obtain a b c x y where "pk_before p = [a, b, c]" "pk_between p = [x, y]" by (auto simp: length_Suc_conv)
  moreover have "atoi ''6'' = 6" by code_simp
  ultimately show ?thesis using True by (simp add: addresses_def columns_def)
next
  case False
  then have "length (pk_before p) = Suc (Suc (Suc (Suc (Suc (Suc (Suc 0))))))" "length (pk_between p) = Suc 0"
    using assms by (simp_all add: packet_ok_def)
  then obtain a b c d e f g x where "pk_before p = [a, b, c, d, e, f, g]" "pk_between p = [x]" by (auto simp: length_Suc_conv)
  moreover have "atoi ''4'' = 4" by code_simp
  ultimately show ?thesis using False by (simp add: addresses_def columns_def)
qed

text \<open>The record of a packet behind any words without blanks, the second an RFC 3339 time.\<close>

lemma packet_read_back:
  assumes "packet_ok p" and "list_all prefix_word (w # t # us)" and "parse_rfc3339 t = Some x"
  shows "parseFilterlog stamp (packet_line (w # t # us) p) now year = Some (packet_log (x div second) p)"
proof -
  define ws where "ws = w # t # us"
  let ?csv = "join_with '','' (columns p)"
  have ne: "columns p \<noteq> []" by (simp add: columns_def)
  have ok: "\<forall>x \<in> set (columns p). column_ok x" using columns_ok [OF assms(1)] by blast
  then have cm: "\<forall>x \<in> set (columns p). CHR '','' \<notin> set x" by (auto simp: column_ok_def list_all_iff)
  have c9: "count_list ?csv (CHR '','') \<ge> 8" using count_join [OF cm ne] columns_shape(1) [OF assms(1)] by simp
  then have "?csv \<noteq> []" by auto
  then have f: "str_fields (packet_line ws p) = ws @ [?csv]"
    unfolding packet_line_def ws_def using assms(2) join_unspaced [OF ok] by (intro fields_of_line) auto
  have sp: "split_on (CHR '','') ?csv = columns p" using cm ne by (rule split_join)
  have fi: "find (\<lambda>x. count_list x (CHR '','') \<ge> 8) (rev (ws @ [?csv])) = Some ?csv" using c9 by simp
  have n9: "\<not> length (columns p) < 9" using columns_shape(1) [OF assms(1)] by simp
  have d: "atoi (dec (pk_rule p)) = int (pk_rule p)" "atoi (dec (pk_sport p)) = int (pk_sport p)" "atoi (dec (pk_dport p)) = int (pk_dport p)"
    using assms(1) by (simp_all add: packet_ok_def atoi_dec)
  have su: "(if (case pk_sub p of None \<Rightarrow> [] | Some n \<Rightarrow> dec n) \<noteq> [] then atoi (case pk_sub p of None \<Rightarrow> [] | Some n \<Rightarrow> dec n) else - 1) =
      (case pk_sub p of None \<Rightarrow> - 1 | Some n \<Rightarrow> int n)"
    using assms(1) by (auto simp: packet_ok_def atoi_dec split: option.splits)
  have "atoi ''6'' = 6" "atoi ''4'' = 4" by code_simp+
  then have v: "atoi (if pk_v6 p then ''6'' else ''4'') = (if pk_v6 p then 6 else 4)" by simp
  have ts: "line_time stamp (ws @ [?csv]) now year = x div second" using assms(3) by (simp add: line_time_def ws_def)
  show ?thesis
    unfolding ws_def [symmetric] parseFilterlog_def Let_def f fi option.case sp if_not_P [OF n9] columns_addresses [OF assms(1)] prod.case
      columns_shape(2-) [OF assms(1)] su v packet_log_def d ts
    by (simp add: d)
qed

text \<open>
  C24: a record as filterlog writes it, with the columns of its protocol after the addresses and, for TCP
  and UDP, the ports, behind a prefix whose second word is an RFC 3339 time, is read back: time, rule
  numbers, anchor, interface, action, direction, addresses and ports, for both versions of IP.
\<close>

theorem filterlog_read_back:
  assumes "packet_ok p" and "list_all prefix_word (w # t # us)" and "parse_rfc3339 t = Some x"
  shows "parseFilterlog stamp (packet_line (w # t # us) p) now year = Some (packet_log (x div second) p)"
  by (rule packet_read_back [OF assms])

definition sample_packet :: packet where
  "sample_packet = \<lparr>pk_rule = 5, pk_sub = Some 12, pk_anchor = ''policy'', pk_iface = ''igb1'', pk_reason = ''match'', pk_action = ''block'',
     pk_dir = ''in'', pk_v6 = False, pk_before = [''0x0'', [], ''64'', ''0'', ''0'', ''DF'', ''6''], pk_proto = ''tcp'', pk_between = [''60''],
     pk_src = ''10.0.0.5'', pk_dst = ''1.2.3.4'', pk_sport = 5000, pk_dport = 443,
     pk_rest = [''0'', ''S'', ''1'', [], ''65535'', [], ''mss;nop;wscale'']\<rparr>"

definition sample_prefix :: "string list" where
  "sample_prefix = [''<134>1'', ''2024-01-02T03:04:05Z'', ''fw'', ''filterlog'']"

theorem filterlog_read_back_witness:
  "\<exists>ts. parseFilterlog (\<lambda>_. None) (packet_line sample_prefix sample_packet) 0 2024 = Some (packet_log ts sample_packet)"
proof -
  have t: "parse_rfc3339 ''2024-01-02T03:04:05Z'' = Some (the (parse_rfc3339 ''2024-01-02T03:04:05Z''))" by code_simp
  have "packet_ok sample_packet" by (simp add: packet_ok_def sample_packet_def column_ok_def is_space_def)
  moreover have "list_all prefix_word sample_prefix" by (simp add: sample_prefix_def prefix_word_def is_space_def)
  ultimately show ?thesis
    using filterlog_read_back [of sample_packet "''<134>1''" "''2024-01-02T03:04:05Z''" "[''fw'', ''filterlog'']", OF _ _ t]
    unfolding sample_prefix_def by blast
qed

section \<open>What the store holds\<close>

text \<open>
  A log: the records of packets, whose anchor is a leaf name as filterlog writes it, and other lines,
  which do not name the policy anchor. A packet of that anchor is to have one row, with the label of its
  rule: the rule inside the anchor or, when that has none, the outer one.
\<close>

datatype entry = Packet "string list" packet | Other string

fun entry_line :: "entry \<Rightarrow> string" where
  "entry_line (Packet ws p) = packet_line ws p"
| "entry_line (Other l) = l @ [nl]"

definition log_text :: "entry list \<Rightarrow> string" where
  "log_text es = concat (map entry_line es)"

fun entry_ok :: "entry \<Rightarrow> bool" where
  "entry_ok (Packet ws p) \<longleftrightarrow> packet_ok p \<and> CHR ''/'' \<notin> set (pk_anchor p) \<and> list_all prefix_word ws \<and>
     2 \<le> length ws \<and> parse_rfc3339 (ws ! 1) \<noteq> None"
| "entry_ok (Other l) \<longleftrightarrow> nl \<notin> set l \<and> \<not> contains (l @ [nl]) '',policy,''"

definition rule_label_of :: "(int, string) gomap \<Rightarrow> packet \<Rightarrow> string" where
  "rule_label_of labels p =
     (let outer = (case mget labels (int (pk_rule p)) of Some x \<Rightarrow> x | None \<Rightarrow> []) in
      case pk_sub p of
        None \<Rightarrow> outer
      | Some n \<Rightarrow> (case mget labels (int n) of Some x \<Rightarrow> x | None \<Rightarrow> outer))"

fun rows_of :: "(int, string) gomap \<Rightarrow> entry \<Rightarrow> hit list" where
  "rows_of labels (Packet ws p) =
     (if pk_anchor p = ''policy'' then
        let ports = (pk_proto p = ''tcp'' \<or> pk_proto p = ''udp'') in
        [\<lparr>h_TS = the (parse_rfc3339 (ws ! 1)) div second, h_Policy = policyOfLabel (rule_label_of labels p),
           h_Label = rule_label_of labels p, h_Action = pk_action p, h_Dir = pk_dir p, h_Iface = pk_iface p, h_Proto = pk_proto p,
           h_SrcIP = pk_src p, h_SrcPort = (if ports then int (pk_sport p) else 0), h_DstIP = pk_dst p,
           h_DstPort = (if ports then int (pk_dport p) else 0)\<rparr>]
      else [])"
| "rows_of labels (Other l) = []"

lemma contains_middle: "contains (a @ m @ b) m"
proof (induction a)
  case Nil
  have "has_prefix (m @ b) m" by (simp add: has_prefix_def)
  then show ?case by (cases "m @ b") (auto simp: has_prefix_def)
qed simp

lemma leaf_anchor:
  assumes "CHR ''/'' \<notin> set a"
  shows "isPolicyAnchor a \<longleftrightarrow> a = ''policy''"
proof -
  have "\<not> has_suffix a ''/policy''"
  proof
    assume "has_suffix a ''/policy''"
    then have "rev ''/policy'' = take (length (rev ''/policy'')) (rev a)" unfolding has_suffix_def has_prefix_def by (rule sym)
    then have "set (rev ''/policy'') \<subseteq> set (rev a)" using set_take_subset by metis
    with assms show False by simp
  qed
  with assms show ?thesis by (auto simp: isPolicyAnchor_def)
qed

lemma policy_line_named: "pk_anchor p = ''policy'' \<Longrightarrow> contains (packet_line ws p) '',policy,''"
proof -
  assume a: "pk_anchor p = ''policy''"
  obtain x where x: "join_with '','' (columns p) =
      (dec (pk_rule p) @ '','' @ (case pk_sub p of None \<Rightarrow> [] | Some n \<Rightarrow> dec n)) @ '',policy,'' @ x"
    by (simp add: columns_def a)
  have "packet_line ws p = (concat (map (\<lambda>w. w @ '' '') ws) @ dec (pk_rule p) @ '','' @
      (case pk_sub p of None \<Rightarrow> [] | Some n \<Rightarrow> dec n)) @ '',policy,'' @ (x @ [nl])"
    by (simp add: packet_line_def x)
  then show ?thesis using contains_middle by metis
qed

lemma entry_row:
  assumes "entry_ok e"
  shows "map fst (case line_hit (\<lambda>l. parseFilterlog stamp l now year) labels (entry_line e) of Some h \<Rightarrow> [h] | None \<Rightarrow> []) = rows_of labels e"
proof (cases e)
  case (Other l)
  with assms show ?thesis by (simp add: line_hit_def)
next
  case (Packet ws p)
  with assms obtain w t us x where ws: "ws = w # t # us" "list_all prefix_word (w # t # us)" "parse_rfc3339 t = Some x" "packet_ok p"
    "CHR ''/'' \<notin> set (pk_anchor p)" by (cases ws; cases "tl ws") auto
  note parse = packet_read_back [OF ws(4,2,3), of stamp now year]
  show ?thesis
  proof (cases "pk_anchor p = ''policy''")
    case True
    have "isPolicyAnchor ''policy''" by (simp add: isPolicyAnchor_def)
    with True policy_line_named [OF True, of "w # t # us"] parse show ?thesis
      by (simp add: Packet ws(1,3) line_hit_def packet_log_def rule_label_of_def Let_def split: option.splits)
  next
    case False
    with leaf_anchor [OF ws(5)] parse show ?thesis
      by (simp add: Packet ws(1) line_hit_def packet_log_def Let_def)
  qed
qed

lemma line_hits_entries:
  "list_all entry_ok es \<Longrightarrow> line_hits (\<lambda>l. parseFilterlog stamp l now year) labels (map entry_line es) = concat (map (rows_of labels) es)"
proof (induction es)
  case (Cons e es)
  with entry_row [of e stamp now year labels] show ?case
    by (cases "line_hit (\<lambda>l. parseFilterlog stamp l now year) labels (entry_line e)")
      (auto simp: line_hits_def List.map_filter_simps)
qed (simp add: line_hits_def List.map_filter_simps)

lemma packet_line_end:
  assumes "packet_ok p" and "list_all prefix_word ws"
  obtains l where "packet_line ws p = l @ [nl]" "nl \<notin> set l"
proof -
  have "\<forall>x \<in> set (columns p). column_ok x" using columns_ok [OF assms(1)] by blast
  note j = join_unspaced [OF this]
  have sp: "is_space nl" by (simp add: is_space_def)
  have "nl \<notin> set (join_with '','' (columns p))" using j sp by blast
  moreover have "nl \<notin> set w" if "w \<in> set ws" for w
    using assms(2) that sp unfolding prefix_word_def list_all_iff by blast
  then have "nl \<notin> set (concat (map (\<lambda>w. w @ '' '') ws))" by auto
  ultimately show thesis by (intro that [of "concat (map (\<lambda>w. w @ '' '') ws) @ join_with '','' (columns p)"]) (simp_all add: packet_line_def)
qed

lemma log_lines_text:
  "list_all entry_ok es \<Longrightarrow> nl \<notin> set t \<Longrightarrow> log_lines (log_text es @ t) = map entry_line es"
proof (induction es)
  case (Cons e es)
  have e: "entry_ok e" "list_all entry_ok es" using Cons.prems(1) by simp_all
  obtain l where l: "entry_line e = l @ [nl]" "nl \<notin> set l"
  proof (cases e)
    case (Packet ws p)
    have "packet_ok p" "list_all prefix_word ws" using e(1) unfolding Packet entry_ok.simps by blast+
    then obtain l where "packet_line ws p = l @ [nl]" "nl \<notin> set l" by (rule packet_line_end)
    then show thesis using that [of l] by (simp add: Packet)
  next
    case (Other l)
    show thesis using e(1) by (intro that [of l]) (simp_all add: Other)
  qed
  have "log_text (e # es) @ t = l @ nl # (log_text es @ t)" by (simp add: log_text_def l(1))
  then have "log_lines (log_text (e # es) @ t) = (l @ [nl]) # log_lines (log_text es @ t)" by (simp only: log_lines_line [OF l(2)])
  also have "log_lines (log_text es @ t) = map entry_line es" by (rule Cons.IH [OF e(2) Cons.prems(2)])
  finally show ?case by (simp only: l(1) list.map)
qed (simp add: log_text_def log_lines_no_nl)

text \<open>
  C13: however reads and restarts follow one another while the log grows, and however often the store
  refuses the rows, after the next read whose rows it takes it holds, beyond those it had, one row for
  each packet of the policy anchor logged since, in order, with the label of its rule, and nothing else.
  Positions are taken by the store throughout, and anchors are logged by their leaf names.
\<close>

theorem restarts_keep_hits:
  assumes "path \<noteq> []" and "list_all entry_ok (e0 @ e1)" and "nl \<notin> set t0" and "nl \<notin> set t1"
    and "at_end (log_text e0 @ t0) s"
    and "grows (log_text e0 @ t0) (es @ [Read sz (log_text (e0 @ e1) @ t1) True])"
  shows "db_hits (snd (run_events (\<lambda>l. parseFilterlog stamp l now year) path labels t (es @ [Read sz (log_text (e0 @ e1) @ t1) True]) s)) =
    db_hits (snd s) @ concat (map (rows_of labels) e1)"
proof -
  let ?c = "log_text e0 @ t0" and ?d = "log_text (e0 @ e1) @ t1" and ?P = "\<lambda>l. parseFilterlog stamp l now year"
  let ?s = "run_events ?P path labels t es s"
  have g: "grows ?c es" "prefix (latest ?c es) ?d" "length (latest ?c es) \<le> sz" "sz \<le> length ?d"
    using assms(6) by (simp_all add: grows_append)
  from run_hits [OF assms(1,5) prefix_order.refl g(1), of ?P labels t] obtain b where
    b: "prefix ?c b" "prefix b (latest ?c es)" "at_end b ?s"
      "db_hits (snd ?s) = db_hits (snd s) @ line_hits ?P labels (log_lines (drop (passed ?c) b))" by blast
  have bd: "prefix b ?d" "length b \<le> sz" using b(2) g prefix_length_le [OF b(2)] by (auto intro: prefix_order.trans)
  note r = read_step(2) [OF assms(1) b(3) bd g(4), of ?P labels t]
  have all: "list_all entry_ok e0" "list_all entry_ok e1" using assms(2) by simp_all
  have "log_lines ?c @ log_lines (drop (passed ?c) ?d) = log_lines ?d"
    using log_lines_grow [of ?c ?d] b(1) bd(1) by (metis prefix_order.trans)
  then have "log_lines (drop (passed ?c) ?d) = map entry_line e1"
    unfolding log_lines_text [OF assms(2,4)] log_lines_text [OF all(1) assms(3)] by simp
  then have "line_hits ?P labels (log_lines (drop (passed ?c) b)) @ line_hits ?P labels (log_lines (drop (passed b) ?d)) =
      concat (map (rows_of labels) e1)"
    using log_lines_between [OF b(1) bd(1)] line_hits_entries [OF all(2), of stamp now year labels] by (metis hits_append)
  with r b(4) show ?thesis by (simp add: run_events_def)
qed

text \<open>The reader after the first read of a log with one line, and a log with the sample packet behind it.\<close>

definition first_line :: "entry list" where
  "first_line = [Other ''boot'']"

definition sample_log :: string where
  "sample_log = log_text (first_line @ [Packet sample_prefix sample_packet])"

definition after_boot :: "reader \<times> log_store" where
  "after_boot = event_step (\<lambda>l. parseFilterlog (\<lambda>_. None) l 0 2024) ''latest.log'' [] 0 (Read 5 (log_text first_line) True)
     (new_reader, \<lparr>db_hits = [], db_pos = None\<rparr>)"

theorem restarts_keep_hits_witness:
  "\<exists>ts. db_hits (snd (run_events (\<lambda>l. parseFilterlog (\<lambda>_. None) l 0 2024) ''latest.log'' [(12, ''flowsight:kids:deny'')] 0
     [Read (length sample_log) sample_log False, Restart, Read (length sample_log) sample_log True] after_boot)) =
   [\<lparr>h_TS = ts, h_Policy = ''kids'', h_Label = ''flowsight:kids:deny'', h_Action = ''block'', h_Dir = ''in'', h_Iface = ''igb1'',
      h_Proto = ''tcp'', h_SrcIP = ''10.0.0.5'', h_SrcPort = 5000, h_DstIP = ''1.2.3.4'', h_DstPort = 443\<rparr>]"
proof -
  let ?p = "Packet sample_prefix sample_packet"
  have t: "parse_rfc3339 ''2024-01-02T03:04:05Z'' \<noteq> None" by code_simp
  have ok: "list_all entry_ok (first_line @ [?p])"
    using t by (simp add: first_line_def packet_ok_def sample_packet_def column_ok_def is_space_def sample_prefix_def prefix_word_def has_prefix_def)
  have ab: "at_end (log_text first_line @ []) after_boot" "db_hits (snd after_boot) = []" by code_simp+
  have "prefix (log_text first_line) sample_log" by (simp add: sample_log_def log_text_def)
  then have g: "grows (log_text first_line @ []) ([Read (length sample_log) sample_log False, Restart] @ [Read (length sample_log) sample_log True])"
    using prefix_length_le by simp
  have p: "policyOfLabel ''flowsight:kids:deny'' = ''kids''" by code_simp
  have "db_hits (snd (run_events (\<lambda>l. parseFilterlog (\<lambda>_. None) l 0 2024) ''latest.log'' [(12, ''flowsight:kids:deny'')] 0
     ([Read (length sample_log) sample_log False, Restart] @ [Read (length sample_log) sample_log True]) after_boot)) =
     concat (map (rows_of [(12, ''flowsight:kids:deny'')]) [?p])"
    using restarts_keep_hits [of "''latest.log''" first_line "[?p]" "[]" "[]" after_boot
      "[Read (length sample_log) sample_log False, Restart]" "length sample_log" "\<lambda>_. None" 0 2024 "[(12, ''flowsight:kids:deny'')]" 0]
      ok ab g by (simp add: sample_log_def)
  then show ?thesis by (simp add: sample_packet_def rule_label_of_def p mget_Cons)
qed

text \<open>A reader of lines that all belong to the policy anchor, for the statements below.\<close>

definition any_line :: "string \<Rightarrow> log_line option" where
  "any_line l = Some \<lparr>l_TS = 0, l_RuleNr = 0, l_SubRuleNr = - 1, l_Anchor = ''policy'', l_Iface = [], l_Reason = [], l_Action = [],
     l_Dir = [], l_IPv = 4, l_Proto = [], l_Src = l, l_Dst = [], l_SrcPort = 0, l_DstPort = 0\<rparr>"

definition at_twelve :: "reader \<times> log_store" where
  "at_twelve = (new_reader, \<lparr>db_hits = line_hits any_line [] (log_lines ''a,policy,a\<newline>''), db_pos = Some (11, 11)\<rparr>)"

section \<open>What is lost or counted twice\<close>

text \<open>A line that names the anchor by its full path is not recorded, though the anchor is accepted.\<close>

lemma full_path_dropped:
  "isPolicyAnchor ''flowsight/policy'' \<and>
   line_hit (\<lambda>l. map_option (\<lambda>x. x\<lparr>l_Anchor := ''flowsight/policy''\<rparr>) (any_line l)) [] ''5,12,flowsight/policy,0,igb1'' = None"
  by code_simp

text \<open>A crash between the rows and the position stores the rows again.\<close>

lemma crash_stores_twice:
  "let s = snd (readLog any_line ''latest.log'' (Inr (22, ''a,policy,a\<newline>b,policy,b\<newline>'')) [] 0 True False at_twelve)
   in map h_SrcIP (db_hits (snd (event_step any_line ''latest.log'' [] 0 (Read 22 ''a,policy,a\<newline>b,policy,b\<newline>'' True) (new_reader, snd s)))) =
     [''a,policy,a\<newline>'', ''b,policy,b\<newline>'', ''b,policy,b\<newline>'']"
  by code_simp

text \<open>A file replaced by one that is already as large is read on from the old place.\<close>

lemma rotated_and_grown:
  "map h_SrcIP (db_hits (snd (event_step any_line ''latest.log'' [] 0 (Read 22 ''x,policy,x\<newline>y,policy,y\<newline>'' True) at_twelve))) =
     [''a,policy,a\<newline>'', ''y,policy,y\<newline>'']"
  by code_simp

text \<open>Packets of one flow in one second are one row after a read from the start.\<close>

lemma dedupe_merges: "same_packet a b \<Longrightarrow> dedupeHits [a, b] = [a]"
  by (simp add: dedupeHits_def)

text \<open>A listing that fails leaves no labels for thirty seconds.\<close>

lemma failed_listing_cached:
  "now' < now + 30 * second \<Longrightarrow> fst (ruleLabels (snd (ruleLabels None None now)) listing now') = []"
  by (simp add: ruleLabels_def)

end
