(* ===== verification/RuleHygiene.thy ===== *)
theory RuleHygiene
  imports PfStates
begin

text \<open>
  \<^verbatim>\<open>internal/modules/rulehygiene/rulehygiene.go\<close>: what is wrong with the rules of the firewall,
  judged by their text and counters, and the watch over the configuration file. Settings, the age of the
  counters as text, the default route, the parsed configuration and hashes are arguments. The results say
  what the loop finds and how it scores, what it makes of the listing the firewall module returns, and
  which changes of the file are recorded.
\<close>

section \<open>Rules and findings\<close>

record hy_rule =
  hr_Index :: nat
  hr_Text :: string
  hr_Evaluations :: int
  hr_Packets :: int
  hr_Bytes :: int
  hr_States :: int
  hr_Label :: string
  hr_Description :: string

record finding =
  f_Kind :: string
  f_Severity :: string
  f_Subject :: string
  f_Title :: string
  f_Detail :: string

section \<open>Words of a rule\<close>

text \<open>\<^verbatim>\<open>\w\<close> of Go, and \<^verbatim>\<open>\b\<close> after a word character.\<close>

definition word_char :: "char \<Rightarrow> bool" where
  "word_char c \<longleftrightarrow> is_digit c \<or> c = CHR ''_'' \<or> (let n = (of_char c :: nat) in 65 \<le> n \<and> n \<le> 90 \<or> 97 \<le> n \<and> n \<le> 122)"

definition word_ends :: "string \<Rightarrow> bool" where
  "word_ends s \<longleftrightarrow> s = [] \<or> \<not> word_char (hd s)"

text \<open>Whether a pattern that begins with \<^verbatim>\<open>\b\<close> and a word character matches somewhere.\<close>

fun find_word :: "(string \<Rightarrow> bool) \<Rightarrow> char option \<Rightarrow> string \<Rightarrow> bool" where
  "find_word p prev [] = False"
| "find_word p prev (c # s) =
     ((case prev of None \<Rightarrow> True | Some d \<Rightarrow> \<not> word_char d) \<and> p (c # s) \<or> find_word p (Some c) s)"

definition keyword_any :: "string \<Rightarrow> string \<Rightarrow> bool" where
  "keyword_any kw s \<longleftrightarrow> has_prefix s kw \<and>
     (let r = drop (length kw) s; t = dropWhile re_space r
      in r \<noteq> [] \<and> re_space (hd r) \<and> has_prefix t ''any'' \<and> word_ends (drop 3 t))"

definition matchesAnySource :: "string \<Rightarrow> bool" where
  "matchesAnySource text = find_word (keyword_any ''from'') None text"

definition matchesAnyDest :: "string \<Rightarrow> bool" where
  "matchesAnyDest text = find_word (keyword_any ''to'') None text"

definition restrictsPort :: "string \<Rightarrow> bool" where
  "restrictsPort text = find_word (\<lambda>s. has_prefix s ''port'' \<and> word_ends (drop 4 s)) None text"

text \<open>The first word, blanks, perhaps another word and blanks, then the direction.\<close>

definition direction_at :: "string \<Rightarrow> string option" where
  "direction_at s =
     (if has_prefix s ''in'' \<and> word_ends (drop 2 s) then Some ''in''
      else if has_prefix s ''out'' \<and> word_ends (drop 3 s) then Some ''out'' else None)"

definition skip_blanks :: "string \<Rightarrow> string option" where
  "skip_blanks s = (if s \<noteq> [] \<and> re_space (hd s) then Some (dropWhile re_space s) else None)"

definition extractDirection :: "string \<Rightarrow> string" where
  "extractDirection text =
     (if takeWhile word_char text = [] then []
      else case skip_blanks (dropWhile word_char text) of
        None \<Rightarrow> []
      | Some s \<Rightarrow>
          (case (if has_prefix s ''drop'' then skip_blanks (drop 4 s) else None) of
             Some t \<Rightarrow> (case direction_at t of Some d \<Rightarrow> d | None \<Rightarrow> [])
           | None \<Rightarrow> (case direction_at s of Some d \<Rightarrow> d | None \<Rightarrow> [])))"

definition onRe :: rx where
  "onRe = Seq (One re_space) (Seq (word_rx ''on'') (Seq spaces (Group 1 no_space)))"

definition extractInterface :: "string \<Rightarrow> string" where
  "extractInterface text = (case FindStringSubmatch onRe text of Some m \<Rightarrow> group_of m 1 | None \<Rightarrow> [])"

definition isWANInterface :: "string \<Rightarrow> string list \<Rightarrow> bool" where
  "isWANInterface iface wans \<longleftrightarrow> (\<exists>w \<in> set wans. iface = w \<or> has_prefix iface w) \<or> iface = ''vtnet1'' \<or> has_prefix iface ''wan''"

definition hasMgmtPorts :: "string \<Rightarrow> string list \<Rightarrow> bool" where
  "hasMgmtPorts text ports \<longleftrightarrow> (\<exists>p \<in> set ports. contains text p)"

definition routeRe :: rx where
  "routeRe = Seq (word_rx ''interface:'') (Seq (Many (One re_space)) (Group 1 no_space))"

text \<open>The interface of the default route, from what the command prints unless it fails.\<close>

definition detectWANInterfaces :: "string \<Rightarrow> string option \<Rightarrow> string list" where
  "detectWANInterfaces platform out =
     (if platform = ''freebsd'' \<or> platform = ''opnsense'' then
        (case out of
           None \<Rightarrow> []
         | Some s \<Rightarrow> (case FindStringSubmatch routeRe s of Some m \<Rightarrow> [group_of m 1] | None \<Rightarrow> []))
      else [])"

definition isInfrastructure :: "string \<Rightarrow> bool" where
  "isInfrastructure text \<longleftrightarrow>
     (\<exists>p \<in> {''scrub'', ''anchor'', ''set '', ''table'', ''pass keep state'', ''nat''}. has_prefix text p)"

section \<open>Permissive rules\<close>

definition arrow :: string where "arrow = [CHR 0xE2, CHR 0x86, CHR 0x92]"

definition checkPermissive :: "hy_rule \<Rightarrow> string list \<Rightarrow> string list \<Rightarrow> finding option" where
  "checkPermissive r wans ports =
     (let t = hr_Text r in
      if \<not> matchesAnySource t \<or> \<not> matchesAnyDest t then None
      else if restrictsPort t then None
      else
        let dir = extractDirection t; iface = extractInterface t; wan = isWANInterface iface wans;
            mgmt = hasMgmtPorts t ports; subject = ''rule: '' @ take 50 t
        in if dir = ''in'' \<and> wan \<and> mgmt then
             Some \<lparr>f_Kind = ''permissive'', f_Severity = ''critical'', f_Subject = subject,
               f_Title = ''WAN exposure of management ports (22/80/443)'',
               f_Detail = ''Permits any source to connect to management ports on WAN interface '' @ iface @ ''. Restrict source or port.''\<rparr>
           else if dir = ''in'' \<and> wan then
             Some \<lparr>f_Kind = ''permissive'', f_Severity = ''high'', f_Subject = subject,
               f_Title = ''WAN any'' @ arrow @ ''any inbound pass rule'',
               f_Detail = ''Permits all inbound traffic on WAN interface '' @ iface @ '' with no constraint. Verify intent.''\<rparr>
           else if dir = ''out'' then
             Some \<lparr>f_Kind = ''permissive'', f_Severity = ''low'', f_Subject = subject, f_Title = ''Unrestricted outbound rule'',
               f_Detail = ''Permits all egress. This is the normal posture for most gateways.''\<rparr>
           else
             Some \<lparr>f_Kind = ''permissive'', f_Severity = ''medium'', f_Subject = subject, f_Title = ''Permissive rule on internal interface'',
               f_Detail = ''Permits all traffic on an internal interface. Narrow source or destination if intent was specific.''\<rparr>)"

section \<open>The analysis\<close>

text \<open>Settings, the clock, the WAN interface the default route names, and the age of the counters as text.\<close>

record hy_env =
  he_minEvals :: int
  he_minLoadHours :: int
  he_wan :: "string list"
  he_mgmt :: "string list"
  he_detected :: "string list"
  he_now :: int
  he_days :: "int \<Rightarrow> string"

record analysis =
  an_Findings :: "(string, finding list) gomap"
  an_Risk :: int
  an_Analysed :: nat

definition wan_ifaces :: "hy_env \<Rightarrow> string list" where
  "wan_ifaces e = (if he_wan e = [] then he_detected e else he_wan e)"

definition elapsed_of :: "hy_env \<Rightarrow> int \<Rightarrow> int" where
  "elapsed_of e loaded = (if loaded > 0 then i64 (he_now e - loaded) else 0)"

definition old_enough :: "hy_env \<Rightarrow> int \<Rightarrow> bool" where
  "old_enough e loaded \<longleftrightarrow> elapsed_of e loaded \<ge> i64 (he_minLoadHours e * 3600)"

definition add_finding :: "string \<Rightarrow> finding \<Rightarrow> analysis \<Rightarrow> analysis" where
  "add_finding text f a =
     a\<lparr>an_Findings := mput text ((case mget (an_Findings a) text of None \<Rightarrow> [] | Some fs \<Rightarrow> fs) @ [f]) (an_Findings a)\<rparr>"

definition add_risk :: "int \<Rightarrow> analysis \<Rightarrow> analysis" where
  "add_risk k a = a\<lparr>an_Risk := an_Risk a + k\<rparr>"

definition permissive_risk :: "string \<Rightarrow> int" where
  "permissive_risk s = (if s = ''critical'' then 25 else if s = ''high'' then 10 else if s = ''medium'' then 4 else 0)"

text \<open>What is wrong with the rule at a place, and what it adds to the score.\<close>

definition issue :: "hy_env \<Rightarrow> int \<Rightarrow> nat \<times> hy_rule \<Rightarrow> (finding \<times> int) option" where
  "issue e loaded ir =
     (let (i, r) = ir; days = he_days e (elapsed_of e loaded) in
      if isInfrastructure (hr_Text r) then None
      else if hr_Evaluations r = 0 \<and> old_enough e loaded then
        Some (\<lparr>f_Kind = ''never-evaluated'', f_Severity = ''info'', f_Subject = ''rule '' @ dec i,
          f_Title = ''Rule never evaluated since the ruleset was loaded'',
          f_Detail = ''pf has not considered this rule in '' @ days @
            '' days: no traffic matched its interface and direction, or an earlier quick rule always wins.''\<rparr>, 0)
      else if hr_Packets r = 0 \<and> hr_Evaluations r \<ge> he_minEvals e \<and> old_enough e loaded then
        Some (\<lparr>f_Kind = ''unused'', f_Severity = ''low'', f_Subject = ''rule '' @ dec i,
          f_Title = ''Evaluated '' @ dec_int (hr_Evaluations r) @ '' times, never matched'',
          f_Detail = ''Considered often but matched no traffic in '' @ days @
            '' days. Could be dead weight or an intentional catch-all.''\<rparr>, 1)
      else if has_prefix (hr_Text r) ''pass'' then
        map_option (\<lambda>f. (f, permissive_risk (f_Severity f))) (checkPermissive r (wan_ifaces e) (he_mgmt e))
      else None)"

definition policy_rule :: "nat \<times> hy_rule \<Rightarrow> bool" where
  "policy_rule ir \<longleftrightarrow> \<not> isInfrastructure (hr_Text (snd ir))"

text \<open>One turn of the loop: the rule counts unless it is infrastructure, and its finding is kept under its text.\<close>

definition check_rule :: "hy_env \<Rightarrow> int \<Rightarrow> nat \<times> hy_rule \<Rightarrow> analysis \<Rightarrow> analysis" where
  "check_rule e loaded ir a =
     (let a1 = (if policy_rule ir then a\<lparr>an_Analysed := Suc (an_Analysed a)\<rparr> else a) in
      case issue e loaded ir of None \<Rightarrow> a1 | Some (f, k) \<Rightarrow> add_risk k (add_finding (hr_Text (snd ir)) f a1))"

definition findIssues :: "hy_env \<Rightarrow> int \<Rightarrow> hy_rule list \<Rightarrow> analysis" where
  "findIssues e loaded rules =
     (let a = fold (check_rule e loaded) (enumerate 0 rules) \<lparr>an_Findings = [], an_Risk = 0, an_Analysed = 0\<rparr>
      in if an_Risk a > 100 then a\<lparr>an_Risk := 100\<rparr> else a)"

text \<open>The module; no time is a module that has not run.\<close>

record hygiene =
  hm_lastErr :: string
  hm_lastRules :: "hy_rule list"
  hm_lastFindings :: "(string, string list) gomap"
  hm_lastRun :: "int option"
  hm_configHash :: string
  hm_configModTime :: int

definition hygiene_rules :: "active_rule list \<Rightarrow> (string, string) gomap \<Rightarrow> hy_rule list" where
  "hygiene_rules live labels = map (\<lambda>(i, r).
     \<lparr>hr_Index = i, hr_Text = ar_Text r, hr_Evaluations = ar_Evaluations r, hr_Packets = ar_Packets r, hr_Bytes = ar_Bytes r,
      hr_States = ar_States r, hr_Label = ar_Label r,
      hr_Description = (case mget labels (ar_Label r) of Some d \<Rightarrow> d | None \<Rightarrow> [])\<rparr>) (enumerate 0 live)"

text \<open>The second argument is the hash of a text, of which the first sixteen bytes are written in hexadecimal.\<close>

definition fingerprintKey :: "(string \<Rightarrow> string) \<Rightarrow> string \<Rightarrow> string \<Rightarrow> string" where
  "fingerprintKey sha text kind = ''rulehygiene:'' @ kind @ '':'' @ sha (text @ '':'' @ kind)"

definition byRule :: "analysis \<Rightarrow> (string, string list) gomap" where
  "byRule a = map (\<lambda>(t, fs). (t, map f_Title fs)) (an_Findings a)"

text \<open>What a run records: findings with their fingerprints, and the three metrics.\<close>

definition recorded :: "(string \<Rightarrow> string) \<Rightarrow> analysis \<Rightarrow> (finding \<times> string) list" where
  "recorded sha a = concat (map (\<lambda>(t, fs). map (\<lambda>f. (f, fingerprintKey sha t (f_Kind f))) fs) (an_Findings a))"

definition analyse ::
    "bool \<Rightarrow> string \<Rightarrow> string + active_rule list \<Rightarrow> int option \<Rightarrow> (string, string) gomap \<Rightarrow> hy_env \<Rightarrow> (string \<Rightarrow> string) \<Rightarrow> hygiene \<Rightarrow>
      hygiene \<times> ((finding \<times> string) list \<times> int \<times> nat \<times> nat) option" where
  "analyse can name live since labels e sha m =
     (let m1 = m\<lparr>hm_lastErr := []\<rparr> in
      if \<not> can then (m1, None)
      else case live of
        Inl err \<Rightarrow> (m1\<lparr>hm_lastErr := ''reading the '' @ name @ '' ruleset failed: '' @ err\<rparr>, None)
      | Inr rs \<Rightarrow>
          let rules = hygiene_rules rs labels; a = findIssues e (case since of None \<Rightarrow> 0 | Some t \<Rightarrow> t) rules
          in (m1\<lparr>hm_lastRules := rules, hm_lastFindings := byRule a, hm_lastRun := Some (he_now e)\<rparr>,
              Some (recorded sha a, an_Risk a, an_Analysed a, length (an_Findings a))))"

section \<open>The watch over the configuration file\<close>

record change =
  ch_Actor :: string
  ch_Before :: string
  ch_After :: string
  ch_Diff :: string
  ch_Summary :: string

text \<open>The number of rules of the file, or what kept it from being read.\<close>

definition computeConfigDiff :: "string + nat \<Rightarrow> string \<times> string" where
  "computeConfigDiff rules =
     (case rules of Inl err \<Rightarrow> ([], err) | Inr n \<Rightarrow> (''Filter has '' @ dec n @ '' rules'', dec n @ '' rules in filter''))"

text \<open>
  One look at the file: when it was written, unless there is none, its hash or an error, and who wrote
  it and its rules when the file is parsed. Returned are the error, the change recorded and the module.
\<close>

definition watchConfig ::
    "string \<Rightarrow> int option \<Rightarrow> string + string \<Rightarrow> string \<Rightarrow> string + nat \<Rightarrow> hygiene \<Rightarrow> string option \<times> change option \<times> hygiene" where
  "watchConfig path mtime hash actor rules m =
     (if path = [] then (None, None, m)
      else case mtime of
        None \<Rightarrow> (None, None, m)
      | Some t \<Rightarrow>
          if t = hm_configModTime m then (None, None, m)
          else case hash of
            Inl err \<Rightarrow> (Some err, None, m)
          | Inr h \<Rightarrow>
              if h = hm_configHash m then (None, None, m\<lparr>hm_configModTime := t\<rparr>)
              else if hm_configHash m = [] then (None, None, m\<lparr>hm_configHash := h, hm_configModTime := t\<rparr>)
              else (None, Some \<lparr>ch_Actor = actor, ch_Before = hm_configHash m, ch_After = h,
                     ch_Diff = fst (computeConfigDiff rules), ch_Summary = snd (computeConfigDiff rules)\<rparr>,
                   m\<lparr>hm_configHash := h, hm_configModTime := t\<rparr>))"

section \<open>What the loop finds\<close>

text \<open>The findings of a text, in the order of its rules.\<close>

definition issues_of :: "hy_env \<Rightarrow> int \<Rightarrow> (nat \<times> hy_rule) list \<Rightarrow> string \<Rightarrow> finding list" where
  "issues_of e loaded rs t = map fst (List.map_filter (issue e loaded) (filter (\<lambda>ir. hr_Text (snd ir) = t) rs))"

definition stored_of :: "analysis \<Rightarrow> string \<Rightarrow> finding list" where
  "stored_of a t = (case mget (an_Findings a) t of None \<Rightarrow> [] | Some fs \<Rightarrow> fs)"

lemma stored_add_finding: "stored_of (add_risk k (add_finding u f a)) t = (if t = u then stored_of a t @ [f] else stored_of a t)"
  by (simp add: stored_of_def add_finding_def add_risk_def)

lemma check_all:
  "stored_of (fold (check_rule e loaded) rs a) t = stored_of a t @ issues_of e loaded rs t \<and>
   an_Risk (fold (check_rule e loaded) rs a) = an_Risk a + sum_list (map snd (List.map_filter (issue e loaded) rs)) \<and>
   an_Analysed (fold (check_rule e loaded) rs a) = an_Analysed a + length (filter policy_rule rs)"
proof (induction rs arbitrary: a)
  case Nil
  then show ?case by (simp add: issues_of_def List.map_filter_def)
next
  case (Cons ir rs)
  define a1 where "a1 = (if policy_rule ir then a\<lparr>an_Analysed := Suc (an_Analysed a)\<rparr> else a)"
  have a1s: "stored_of a1 u = stored_of a u" for u by (simp add: a1_def stored_of_def)
  have a1: "an_Risk a1 = an_Risk a" "an_Analysed a1 = an_Analysed a + (if policy_rule ir then 1 else 0)"
    by (simp_all add: a1_def)
  show ?case
  proof (cases "issue e loaded ir")
    case None
    then have c: "check_rule e loaded ir a = a1" by (simp add: check_rule_def a1_def Let_def)
    from Cons.IH [of a1] None show ?thesis
      by (simp add: c a1 a1s issues_of_def List.map_filter_simps)
  next
    case (Some fk)
    obtain f k where fk: "fk = (f, k)" by force
    with Some have c: "check_rule e loaded ir a = add_risk k (add_finding (hr_Text (snd ir)) f a1)"
      by (simp add: check_rule_def a1_def Let_def)
    have r: "an_Risk (add_risk k (add_finding (hr_Text (snd ir)) f a1)) = an_Risk a1 + k"
      "an_Analysed (add_risk k (add_finding (hr_Text (snd ir)) f a1)) = an_Analysed a1"
      by (simp_all add: add_risk_def add_finding_def)
    from Cons.IH [of "add_risk k (add_finding (hr_Text (snd ir)) f a1)"] Some show ?thesis
      by (simp add: c r a1 a1s fk stored_add_finding issues_of_def List.map_filter_simps)
  qed
qed

lemma nonempty_stored:
  assumes "\<And>t. mget (an_Findings a) t \<noteq> Some []"
  shows "mget (an_Findings (check_rule e loaded ir a)) t \<noteq> Some []"
  using assms by (auto simp: check_rule_def Let_def add_risk_def add_finding_def split: option.splits prod.splits)

lemma nonempty_all: "(\<And>t. mget (an_Findings a) t \<noteq> Some []) \<Longrightarrow> mget (an_Findings (fold (check_rule e loaded) rs a)) t \<noteq> Some []"
  by (induction rs arbitrary: a) (simp_all add: nonempty_stored)

lemma loop_finds:
  "mget (an_Findings (findIssues e loaded rules)) t =
     (let fs = issues_of e loaded (enumerate 0 rules) t in if fs = [] then None else Some fs) \<and>
   an_Risk (findIssues e loaded rules) = min 100 (sum_list (map snd (List.map_filter (issue e loaded) (enumerate 0 rules)))) \<and>
   an_Analysed (findIssues e loaded rules) = length (filter policy_rule (enumerate 0 rules))"
proof -
  let ?s = "\<lparr>an_Findings = [], an_Risk = 0, an_Analysed = 0\<rparr>"
  let ?a = "fold (check_rule e loaded) (enumerate 0 rules) ?s"
  note c = check_all [of e loaded "enumerate 0 rules" ?s t]
  have n: "mget (an_Findings ?a) t \<noteq> Some []" by (rule nonempty_all) simp
  have f: "mget (an_Findings ?a) t = (let fs = issues_of e loaded (enumerate 0 rules) t in if fs = [] then None else Some fs)"
    using c n by (auto simp: stored_of_def Let_def split: option.splits)
  have "an_Findings (findIssues e loaded rules) = an_Findings ?a" "an_Risk (findIssues e loaded rules) = min 100 (an_Risk ?a)"
    "an_Analysed (findIssues e loaded rules) = an_Analysed ?a" by (simp_all add: findIssues_def Let_def)
  with c f show ?thesis by simp
qed

lemma enumerate_snd: "ir \<in> set (enumerate 0 xs) \<Longrightarrow> snd ir \<in> set xs"
proof -
  assume "ir \<in> set (enumerate 0 xs)"
  then have "fst ir < length xs" "xs ! fst ir = snd ir" by (auto simp: in_set_enumerate_eq)
  then show ?thesis using nth_mem [of "fst ir" xs] by simp
qed

text \<open>The findings kept under a text.\<close>

definition found :: "hy_env \<Rightarrow> int \<Rightarrow> hy_rule list \<Rightarrow> string \<Rightarrow> finding set" where
  "found e loaded rules t = (case mget (an_Findings (findIssues e loaded rules)) t of None \<Rightarrow> {} | Some fs \<Rightarrow> set fs)"

lemma found_issues: "found e loaded rules t = {f. \<exists>ir \<in> set (enumerate 0 rules). hr_Text (snd ir) = t \<and> (\<exists>k. issue e loaded ir = Some (f, k))}"
proof -
  have "found e loaded rules t = set (issues_of e loaded (enumerate 0 rules) t)"
    using loop_finds [of e loaded rules t] by (simp add: found_def Let_def split: option.splits if_splits)
  also have "\<dots> = {f. \<exists>ir \<in> set (enumerate 0 rules). hr_Text (snd ir) = t \<and> (\<exists>k. issue e loaded ir = Some (f, k))}"
    by (force simp: issues_of_def List.map_filter_def)
  finally show ?thesis .
qed

lemma permissive_kind: "checkPermissive r wans ports = Some f \<Longrightarrow> f_Kind f \<noteq> ''never-evaluated'' \<and> f_Kind f \<noteq> ''unused''"
  by (auto simp: checkPermissive_def Let_def split: if_splits)

lemma issue_kinds:
  "issue e loaded (i, r) = Some (f, k) \<Longrightarrow>
    (f_Kind f = ''never-evaluated'' \<longleftrightarrow> hr_Evaluations r = 0 \<and> old_enough e loaded) \<and>
    (f_Kind f = ''unused'' \<longleftrightarrow> hr_Packets r = 0 \<and> hr_Evaluations r \<noteq> 0 \<and> hr_Evaluations r \<ge> he_minEvals e \<and> old_enough e loaded) \<and>
    \<not> isInfrastructure (hr_Text r)"
  using permissive_kind [of r "wan_ifaces e" "he_mgmt e" f] by (auto simp: issue_def Let_def split: if_splits)

lemma issue_some:
  assumes "\<not> isInfrastructure (hr_Text r)" and "old_enough e loaded"
    and "hr_Evaluations r = 0 \<or> hr_Packets r = 0 \<and> hr_Evaluations r \<ge> he_minEvals e"
  shows "\<exists>f k. issue e loaded (i, r) = Some (f, k)"
  using assms by (auto simp: issue_def Let_def)

lemma found_iff:
  assumes "\<And>i r f k. issue e loaded (i, r) = Some (f, k) \<Longrightarrow> P f \<longleftrightarrow> Q r"
    and "\<And>i r. Q r \<Longrightarrow> \<exists>f k. issue e loaded (i, r) = Some (f, k)"
  shows "(\<exists>f \<in> found e loaded rules t. P f) \<longleftrightarrow> (\<exists>r \<in> set rules. hr_Text r = t \<and> Q r)"
proof
  assume "\<exists>f \<in> found e loaded rules t. P f"
  then obtain ir f k where f: "ir \<in> set (enumerate 0 rules)" "hr_Text (snd ir) = t" "issue e loaded ir = Some (f, k)" "P f"
    unfolding found_issues by blast
  have "Q (snd ir)" using assms(1) [of "fst ir" "snd ir" f k] f(3,4) by simp
  with f(2) enumerate_snd [OF f(1)] show "\<exists>r \<in> set rules. hr_Text r = t \<and> Q r" by blast
next
  assume "\<exists>r \<in> set rules. hr_Text r = t \<and> Q r"
  then obtain r where r: "r \<in> set rules" "hr_Text r = t" "Q r" by blast
  then obtain i where "i < length rules" "rules ! i = r" by (auto simp: in_set_conv_nth)
  then have i: "(i, r) \<in> set (enumerate 0 rules)" by (simp add: in_set_enumerate_eq)
  from assms(2) [OF r(3)] obtain f k where f: "issue e loaded (i, r) = Some (f, k)" by blast
  then have "P f" using assms(1) r(3) by blast
  moreover have "f \<in> found e loaded rules t" unfolding found_issues using i f r(2) by force
  ultimately show "\<exists>f \<in> found e loaded rules t. P f" by blast
qed

text \<open>
  C14: once the ruleset has been loaded for long enough, a rule is reported as never evaluated exactly when
  its evaluation counter is zero, and as unused exactly when it was evaluated often enough and passed no
  packet, with infrastructure rules left out; before that, neither is reported.
\<close>

theorem counter_findings:
  assumes "0 < loaded" and "loaded \<le> he_now e" and "he_now e < 2 ^ 63" and "0 \<le> he_minLoadHours e" and "he_minLoadHours e * 3600 < 2 ^ 63"
  shows "((\<exists>f \<in> found e loaded rules t. f_Kind f = ''never-evaluated'') \<longleftrightarrow>
      (\<exists>r \<in> set rules. hr_Text r = t \<and> \<not> isInfrastructure t \<and> he_minLoadHours e * 3600 \<le> he_now e - loaded \<and>
         hr_Evaluations r = 0)) \<and>
    ((\<exists>f \<in> found e loaded rules t. f_Kind f = ''unused'') \<longleftrightarrow>
      (\<exists>r \<in> set rules. hr_Text r = t \<and> \<not> isInfrastructure t \<and> he_minLoadHours e * 3600 \<le> he_now e - loaded \<and>
         hr_Packets r = 0 \<and> hr_Evaluations r \<noteq> 0 \<and> he_minEvals e \<le> hr_Evaluations r))"
proof -
  have o: "old_enough e loaded \<longleftrightarrow> he_minLoadHours e * 3600 \<le> he_now e - loaded"
    using assms by (simp add: old_enough_def elapsed_of_def i64_id)
  let ?never = "\<lambda>r. \<not> isInfrastructure (hr_Text r) \<and> old_enough e loaded \<and> hr_Evaluations r = 0"
  let ?unused = "\<lambda>r. \<not> isInfrastructure (hr_Text r) \<and> old_enough e loaded \<and> hr_Packets r = 0 \<and> hr_Evaluations r \<noteq> 0 \<and>
    he_minEvals e \<le> hr_Evaluations r"
  have "(\<exists>f \<in> found e loaded rules t. f_Kind f = ''never-evaluated'') \<longleftrightarrow> (\<exists>r \<in> set rules. hr_Text r = t \<and> ?never r)"
    by (rule found_iff) (use issue_kinds issue_some in blast)+
  moreover have "(\<exists>f \<in> found e loaded rules t. f_Kind f = ''unused'') \<longleftrightarrow> (\<exists>r \<in> set rules. hr_Text r = t \<and> ?unused r)"
    by (rule found_iff) (use issue_kinds issue_some in blast)+
  ultimately show ?thesis unfolding o by auto
qed

definition hy_sample :: hy_env where
  "hy_sample = \<lparr>he_minEvals = 1000, he_minLoadHours = 24, he_wan = [], he_mgmt = [''22'', ''80'', ''443''], he_detected = [],
     he_now = 2000000, he_days = (\<lambda>_. ''20.0'')\<rparr>"

definition idle_rule :: hy_rule where
  "idle_rule = \<lparr>hr_Index = 0, hr_Text = ''block drop in on vtnet1 inet from 10.0.0.9 to any'', hr_Evaluations = 0, hr_Packets = 0,
     hr_Bytes = 0, hr_States = 0, hr_Label = [], hr_Description = []\<rparr>"

theorem counter_findings_witness:
  "(\<exists>f \<in> found hy_sample 1000000 [idle_rule] (hr_Text idle_rule). f_Kind f = ''never-evaluated'') \<and>
   \<not> (\<exists>f \<in> found hy_sample 1990000 [idle_rule] (hr_Text idle_rule). f_Kind f = ''never-evaluated'')"
proof -
  have "\<not> isInfrastructure (hr_Text idle_rule)" by code_simp
  then show ?thesis
    using counter_findings [of 1000000 hy_sample "[idle_rule]" "hr_Text idle_rule"]
      counter_findings [of 1990000 hy_sample "[idle_rule]" "hr_Text idle_rule"]
    by (simp add: hy_sample_def idle_rule_def)
qed

section \<open>What it makes of a numbered listing\<close>

text \<open>A listing with the number of each rule in front of it, as pfctl prints it with two flags for more words.\<close>

definition numbered_line :: "string \<Rightarrow> bool" where
  "numbered_line l \<longleftrightarrow> trim_space l = [] \<or> has_prefix l '' '' \<or> has_prefix (trim_space l) ''['' \<or> has_prefix (trim_space l) ''@''"

lemma rule_line_numbered:
  assumes "numbered_line l" and "\<forall>r \<in> set rs. has_prefix (ar_Text r) ''@''"
  shows "\<forall>r \<in> set (rule_line l rs). has_prefix (ar_Text r) ''@''"
proof -
  have "rs \<noteq> [] \<Longrightarrow> has_prefix (ar_Text (last rs)) ''@''" using assms(2) by simp
  with assms show ?thesis
    by (auto simp: rule_line_def numbered_line_def Let_def dest: in_set_butlastD split: option.splits)
qed

lemma ParseRules_numbered:
  assumes "list_all numbered_line (split_on (CHR ''\<newline>'') text)" and "r \<in> set (ParseRules text)"
  shows "has_prefix (ar_Text r) ''@''"
proof -
  have "\<forall>r \<in> set (fold rule_line ls rs). has_prefix (ar_Text r) ''@''"
    if "list_all numbered_line ls" "\<forall>r \<in> set rs. has_prefix (ar_Text r) ''@''" for ls rs
    using that
  proof (induction ls arbitrary: rs)
    case (Cons l ls)
    then have "\<forall>r \<in> set (rule_line l rs). has_prefix (ar_Text r) ''@''" by (intro rule_line_numbered) simp_all
    with Cons show ?case by simp
  qed simp
  from this [OF assms(1), of "[]"] assms(2) show ?thesis by (simp add: ParseRules_def)
qed

lemma at_prefix_cases:
  assumes "has_prefix t ''@''"
  shows "\<not> isInfrastructure t" "\<not> has_prefix t ''pass''"
  using assms by (cases t; auto simp: isInfrastructure_def has_prefix_def)+

lemma hygiene_rules_text: "r \<in> set (hygiene_rules live labels) \<Longrightarrow> \<exists>x \<in> set live. hr_Text r = ar_Text x"
  by (auto simp: hygiene_rules_def in_set_enumerate_eq)

text \<open>
  On what the firewall module returns, rules with their numbers in front, the analysis never looks
  at what a rule permits: every finding is about counters, however open the rules are, the score counts
  unused rules only, and infrastructure is counted as policy.
\<close>

lemma numbered_listing_unchecked:
  assumes "list_all numbered_line (split_on (CHR ''\<newline>'') listing)"
    and "mget (an_Findings (findIssues e loaded (hygiene_rules (ParseRules listing) labels))) t = Some fs" and "f \<in> set fs"
  shows "f_Kind f \<in> {''never-evaluated'', ''unused''}"
proof -
  let ?rs = "hygiene_rules (ParseRules listing) labels"
  have i: "f_Kind (fst x) \<in> {''never-evaluated'', ''unused''}" if "ir \<in> set (enumerate 0 ?rs)" "issue e loaded ir = Some x" for ir x
  proof -
    have "snd ir \<in> set ?rs" using that(1) by (rule enumerate_snd)
    then obtain y where "y \<in> set (ParseRules listing)" "hr_Text (snd ir) = ar_Text y" using hygiene_rules_text by blast
    then have "has_prefix (hr_Text (snd ir)) ''@''" using ParseRules_numbered [OF assms(1)] by simp
    from at_prefix_cases [OF this] that(2) show ?thesis
      by (auto simp: issue_def Let_def split: prod.splits if_splits)
  qed
  have "mget (an_Findings (findIssues e loaded ?rs)) t =
      (let fs = issues_of e loaded (enumerate 0 ?rs) t in if fs = [] then None else Some fs)" using loop_finds by blast
  with assms(2,3) have "f \<in> set (issues_of e loaded (enumerate 0 ?rs) t)" by (auto simp: Let_def split: if_splits)
  then obtain ir x where "ir \<in> set (enumerate 0 ?rs)" "issue e loaded ir = Some x" "f = fst x"
    by (force simp: issues_of_def List.map_filter_def)
  then show ?thesis using i by simp
qed

definition wide_open :: string where
  "wide_open = ''@2 pass in on vtnet1 inet from any to any\<newline>  [ Evaluations: 500  Packets: 7  Bytes: 0  States: 0 ]''"

text \<open>The same rule with its number is passed over, and without it is a serious finding.\<close>

lemma number_hides_rule:
  "an_Findings (findIssues hy_sample 1000000 (hygiene_rules (ParseRules wide_open) [])) = [] \<and>
   an_Risk (findIssues hy_sample 1000000 (hygiene_rules (ParseRules (drop 3 wide_open)) [])) = 10"
  by code_simp

section \<open>Ports\<close>

text \<open>
  A rule that names a port is never reported, so exposed management ports are not; what is reported as
  such is a rule for every port whose text happens to contain the digits.
\<close>

lemma port_rules_unreported: "restrictsPort (hr_Text r) \<Longrightarrow> checkPermissive r wans ports = None"
  by (simp add: checkPermissive_def Let_def)

definition rule_text :: "string \<Rightarrow> hy_rule" where
  "rule_text t = \<lparr>hr_Index = 0, hr_Text = t, hr_Evaluations = 1, hr_Packets = 1, hr_Bytes = 0, hr_States = 0, hr_Label = [], hr_Description = []\<rparr>"

lemma management_ports_missed:
  "checkPermissive (rule_text ''pass in on vtnet1 inet proto tcp from any to any port = 22'') [] [''22''] = None \<and>
   map_option f_Severity (checkPermissive (rule_text ''pass in on vtnet1 inet from any to any label a22'') [] [''22'']) = Some ''critical''"
  by code_simp

text \<open>Any interface whose name begins with that of a WAN interface is taken for one, and \<^verbatim>\<open>vtnet1\<close> always.\<close>

lemma wan_by_prefix: "isWANInterface ''igb10'' [''igb1''] \<and> isWANInterface ''vtnet1'' [''igb0'']"
  by code_simp

text \<open>An unknown age is old enough when the setting is zero.\<close>

lemma unknown_age: "he_minLoadHours e = 0 \<Longrightarrow> old_enough e 0"
  by (simp add: old_enough_def elapsed_of_def i64_def)

text \<open>A rule inserted above gives every rule below another text, and so its findings another fingerprint.\<close>

lemma renumbered_fingerprint:
  assumes "inj sha" and "k \<noteq> j"
  shows "fingerprintKey sha (CHR ''@'' # dec k @ CHR '' '' # t) kind \<noteq> fingerprintKey sha (CHR ''@'' # dec j @ CHR '' '' # t) kind"
  using assms(2) by (auto simp: fingerprintKey_def dest!: injD [OF assms(1)])

section \<open>What the watch records\<close>

text \<open>A look at the file: when it was written and its hash.\<close>

fun watch_all :: "string \<Rightarrow> string \<Rightarrow> string + nat \<Rightarrow> (int \<times> string) list \<Rightarrow> hygiene \<Rightarrow> (string \<times> string) list" where
  "watch_all path actor rules [] m = []"
| "watch_all path actor rules ((t, h) # ps) m =
     (let (_, c, m') = watchConfig path (Some t) (Inr h) actor rules m
      in (case c of None \<Rightarrow> [] | Some x \<Rightarrow> [(ch_Before x, ch_After x)]) @ watch_all path actor rules ps m')"

text \<open>Whoever changes the content changes the second it was written.\<close>

fun honest_times :: "(int \<times> string) list \<Rightarrow> bool" where
  "honest_times ((t, h) # (u, k) # ps) \<longleftrightarrow> (h \<noteq> k \<longrightarrow> t \<noteq> u) \<and> honest_times ((u, k) # ps)"
| "honest_times _ \<longleftrightarrow> True"

fun steps_of :: "'a list \<Rightarrow> ('a \<times> 'a) list" where
  "steps_of (x # y # xs) = (if x = y then steps_of (y # xs) else (x, y) # steps_of (y # xs))"
| "steps_of _ = []"

lemma watch_chain:
  assumes "path \<noteq> []"
  shows "hm_configHash m = h \<Longrightarrow> hm_configModTime m = t \<Longrightarrow> h \<noteq> [] \<Longrightarrow> honest_times ((t, h) # ps) \<Longrightarrow> \<forall>p \<in> set ps. snd p \<noteq> [] \<Longrightarrow>
    watch_all path actor rules ps m = steps_of (h # map snd ps)"
proof (induction ps arbitrary: m h t)
  case (Cons p ps)
  obtain u k where p: "p = (u, k)" by force
  have o: "h \<noteq> k \<longrightarrow> t \<noteq> u" "honest_times ((u, k) # ps)" using Cons.prems(4) p by simp_all
  define m' where "m' = snd (snd (watchConfig path (Some u) (Inr k) actor rules m))"
  have m': "hm_configHash m' = k" "hm_configModTime m' = u"
    using Cons.prems(1-3) o(1) assms by (auto simp: m'_def watchConfig_def)
  have k: "k \<noteq> []" using Cons.prems(5) p by simp
  have r: "watch_all path actor rules ps m' = steps_of (k # map snd ps)"
    by (rule Cons.IH [OF m' k o(2)]) (use Cons.prems(5) in simp)
  have c: "(case fst (snd (watchConfig path (Some u) (Inr k) actor rules m)) of None \<Rightarrow> [] | Some x \<Rightarrow> [(ch_Before x, ch_After x)]) =
      (if h = k then [] else [(h, k)])"
    using Cons.prems(1-3) o(1) assms by (auto simp: watchConfig_def)
  show ?case using r c by (simp add: p m'_def case_prod_beta)
qed simp

text \<open>
  C26: Each change of the configuration between two looks is recorded once, with the hash before and
  after, if it changes the second the file was written; the first look records nothing.
\<close>

theorem changes_recorded:
  assumes "path \<noteq> []" and "hm_configHash m = []" and "hm_configModTime m = 0" and "\<forall>p \<in> set ps. snd p \<noteq> []"
    and "honest_times ps" and "ps = [] \<or> fst (hd ps) \<noteq> 0"
  shows "watch_all path actor rules ps m = steps_of (map snd ps)"
proof (cases ps)
  case (Cons p qs)
  obtain u k where p: "p = (u, k)" by force
  define m' where "m' = m\<lparr>hm_configHash := k, hm_configModTime := u\<rparr>"
  have w: "watchConfig path (Some u) (Inr k) actor rules m = (None, None, m')"
    using assms Cons p by (simp add: watchConfig_def m'_def)
  have "watch_all path actor rules qs m' = steps_of (k # map snd qs)"
    using assms(1,4,5) Cons p by (intro watch_chain [of path m' k u qs]) (simp_all add: m'_def)
  then show ?thesis by (simp add: Cons p w)
qed simp

definition new_hygiene :: hygiene where
  "new_hygiene = \<lparr>hm_lastErr = [], hm_lastRules = [], hm_lastFindings = [], hm_lastRun = None, hm_configHash = [], hm_configModTime = 0\<rparr>"

theorem changes_recorded_witness:
  "watch_all ''config.xml'' ''root'' (Inr 3) [(5, ''aa''), (6, ''bb''), (7, ''bb''), (9, ''cc'')] new_hygiene = [(''aa'', ''bb''), (''bb'', ''cc'')]"
  using changes_recorded [of "''config.xml''" new_hygiene "[(5, ''aa''), (6, ''bb''), (7, ''bb''), (9, ''cc'')]" "''root''" "Inr 3"]
  by (simp add: new_hygiene_def)

text \<open>Two writes in one second are one, and a change while the program is stopped is none.\<close>

lemma same_second_missed:
  "watch_all ''config.xml'' ''root'' (Inr 3) [(5, ''aa''), (5, ''bb''), (5, ''bb'')] new_hygiene = []"
  by code_simp

lemma restart_forgets:
  "path \<noteq> [] \<Longrightarrow> fst (snd (watchConfig path (Some t) (Inr h) actor rules new_hygiene)) = None"
  by (simp add: watchConfig_def new_hygiene_def)

end
