(* ===== verification/DnsPolicy.thy ===== *)
theory DnsPolicy
  imports PolicyApply
begin

text \<open>
  \<^verbatim>\<open>internal/modules/dns/provider.go\<close>: compiling the policy document into response policy zones
  and views for the resolver, and \<^verbatim>\<open>dns.go\<close>: which policy a blocked query is put down to. A
  \<^verbatim>\<open>map[string]bool\<close> is the sorted list of its keys. The result says that the compiled text does not
  depend on the order in which categories list their domains.
\<close>

section \<open>Names\<close>

definition dns_slug_char :: "char \<Rightarrow> bool" where
  "dns_slug_char c \<longleftrightarrow> in_class [(CHR ''a'', CHR ''z''), (CHR ''0'', CHR ''9''), (CHR ''-'', CHR ''-'')] c"

fun dash_runs :: "bool \<Rightarrow> string \<Rightarrow> string" where
  "dash_runs inrun [] = []"
| "dash_runs inrun (c # s) =
     (if dns_slug_char c then c # dash_runs False s
      else if inrun then dash_runs True s
      else CHR ''-'' # dash_runs True s)"

definition slug :: "string \<Rightarrow> string" where
  "slug name = dash_runs False (to_lower name)"

definition safeSearch :: "(string \<times> string) list" where
  "safeSearch =
     [(''duckduckgo.com'', ''safe.duckduckgo.com''), (''www.bing.com'', ''strict.bing.com''),
      (''www.duckduckgo.com'', ''safe.duckduckgo.com''), (''www.google.com'', ''forcesafesearch.google.com'')]"

definition youtubeHosts :: "string list" where
  "youtubeHosts = [''www.youtube.com'', ''m.youtube.com'', ''youtubei.googleapis.com'',
     ''youtube.googleapis.com'', ''www.youtube-nocookie.com'']"

section \<open>One policy\<close>

datatype dns_error =
    NoAddresses string
  | NoCategories string string
  | CategoryError string string
  | TooManyDomains string nat int

text \<open>
  The categories module, unless it is not loaded, answers with a list of domains or an error. Directories
  are without a trailing slash.
\<close>

record dns_env =
  de_resolver :: resolver
  de_categories :: "(string \<Rightarrow> string + string list) option"
  de_max :: int
  de_now :: clock
  de_dir :: string
  de_zoneDir :: string
  de_moduleConfig :: string

definition wants_dns :: "policy_doc \<Rightarrow> dns_env \<Rightarrow> policy \<Rightarrow> bool" where
  "wants_dns d e p \<longleftrightarrow> p_enabled p \<and> p_action p = ''block'' \<and> Active d (p_schedule p) (de_now e) \<and> CapDNSBlock \<in> set (Requirements p)"

definition dns_members :: "policy_doc \<Rightarrow> dns_env \<Rightarrow> policy \<Rightarrow> string list" where
  "dns_members d e p =
     filter (\<lambda>m. m \<notin> set (ExcludedCIDRs d (de_resolver e)) \<or> m_even_excluded (p_match p)) (Members d p (de_resolver e))"

fun category_domains :: "dns_env \<Rightarrow> string \<Rightarrow> string list \<Rightarrow> dns_error + string list" where
  "category_domains e name [] = Inr []"
| "category_domains e name (c # cs) =
     (case de_categories e of
        None \<Rightarrow> Inl (NoCategories name c)
      | Some f \<Rightarrow>
          (case f c of
             Inl err \<Rightarrow> Inl (CategoryError name err)
           | Inr ds \<Rightarrow> (case category_domains e name cs of Inl err \<Rightarrow> Inl err | Inr r \<Rightarrow> Inr (ds @ r))))"

text \<open>The denied domains: the keys that are left, sorted.\<close>

definition denied :: "policy_doc \<Rightarrow> dns_env \<Rightarrow> policy \<Rightarrow> dns_error + string list" where
  "denied d e p =
     (case category_domains e (p_name p) (d_categories (p_deny p)) of
        Inl err \<Rightarrow> Inl err
      | Inr cs \<Rightarrow>
          let ds = sort (remdups (filter (\<lambda>x. x \<notin> set (x_domains (pd_exclusions d)) \<and> x \<notin> set (a_domains (p_allow p)))
                (d_domains (p_deny p) @ cs)))
          in if int (length ds) > de_max e then Inl (TooManyDomains (p_name p) (length ds) (de_max e)) else Inr ds)"

text \<open>The rules of a zone: a name and whether it is let through, with the same for what is below it.\<close>

definition zone_rules :: "policy \<Rightarrow> string list \<Rightarrow> (string \<times> bool) list" where
  "zone_rules p ds =
     concat (map (\<lambda>a. [(a, True), (''*.'' @ a, True)]) (a_domains (p_allow p))) @
     concat (map (\<lambda>a. [(a, False), (''*.'' @ a, False)]) ds) @
     concat (map (\<lambda>a. [(a, False), (''*.'' @ a, False)]) (d_tlds (p_deny p)))"

definition zone_line :: "string \<times> bool \<Rightarrow> string" where
  "zone_line r = fst r @ (if snd r then '' CNAME rpz-passthru.\<newline>'' else '' CNAME .\<newline>'')"

definition zone_body :: "policy \<Rightarrow> string list \<Rightarrow> string" where
  "zone_body p ds = concat (map zone_line (zone_rules p ds))"

text \<open>\<^verbatim>\<open>hash/fnv\<close>, the 32-bit variant that combines before it multiplies.\<close>

definition fnv32a :: "string \<Rightarrow> u32" where
  "fnv32a s = foldl (\<lambda>h c. (h XOR word_of_nat (of_char c)) * 16777619) 2166136261 s"

definition serial :: "string \<Rightarrow> nat" where
  "serial body = unat (fnv32a body AND 0x7fffffff)"

definition zone_text :: "string \<Rightarrow> string" where
  "zone_text body =
     ''$TTL 300\<newline>@ SOA localhost. flowsight.localhost. '' @ dec (serial body) @ '' 3600 900 604800 300\<newline>@ NS localhost.\<newline>'' @ body"

definition rpz_action :: "string \<Rightarrow> string" where
  "rpz_action mode0 =
     (let mode = (if mode0 = [] then ''nxdomain'' else mode0) in
      if mode = ''refused'' \<or> mode = ''nxdomain'' then ''nxdomain'' else if mode = ''null'' then ''nodata'' else [])"

definition zone_path :: "dns_env \<Rightarrow> string \<Rightarrow> string" where
  "zone_path e zid = de_zoneDir e @ ''/flowsight-'' @ zid @ ''.rpz''"

definition rpz_clause :: "string \<Rightarrow> string \<Rightarrow> string \<Rightarrow> string \<Rightarrow> string" where
  "rpz_clause zid path action name =
     ''rpz:\<newline>    name: \"flowsight-'' @ zid @ ''.rpz\"\<newline>    zonefile: \"'' @ path @ ''\"\<newline>    rpz-action-override: '' @ action @
     ''\<newline>    rpz-log: yes\<newline>    rpz-log-name: \"'' @ name @ ''\"\<newline>    tags: \"fs-'' @ zid @ ''\"\<newline>''"

definition redirect :: "string \<Rightarrow> string \<Rightarrow> string" where
  "redirect host target =
     ''    local-zone: \"'' @ host @ ''.\" redirect\<newline>    local-data: \"'' @ host @ ''. CNAME '' @ target @ ''.\"\<newline>''"

definition view_clause :: "policy \<Rightarrow> string \<Rightarrow> string" where
  "view_clause p view =
     ''view:\<newline>    name: \"'' @ view @ ''\"\<newline>    view-first: yes\<newline>'' @
     (if p_safe_search p then concat (map (\<lambda>(h, t). redirect h t) safeSearch) else []) @
     (if p_youtube p \<noteq> [] then
        concat (map (\<lambda>h. redirect h (if p_youtube p = ''moderate'' then ''restrictmoderate.youtube.com'' else ''restrict.youtube.com'')) youtubeHosts)
      else [])"

record compiled_policy =
  cp_name :: string
  cp_members :: "ipnet list"
  cp_domains :: "string list"

text \<open>What the loop has gathered.\<close>

record dns_parts =
  dp_files :: "(string, string) gomap"
  dp_tags :: "string list"
  dp_acls :: "string list"
  dp_rpzs :: "string list"
  dp_views :: "string list"
  dp_compiled :: "compiled_policy list"

definition has_zone :: "policy \<Rightarrow> string list \<Rightarrow> bool" where
  "has_zone p ds \<longleftrightarrow> ds \<noteq> [] \<or> d_tlds (p_deny p) \<noteq> []"

definition has_view :: "policy \<Rightarrow> bool" where
  "has_view p \<longleftrightarrow> p_safe_search p \<or> p_youtube p \<noteq> []"

definition add_policy :: "policy_doc \<Rightarrow> dns_env \<Rightarrow> policy \<Rightarrow> string list \<Rightarrow> string list \<Rightarrow> dns_parts \<Rightarrow> dns_parts" where
  "add_policy d e p ms ds c =
     (let zid = slug (p_name p); zone = has_zone p ds; view = has_view p in
      c\<lparr>dp_files := (if zone then mput (zone_path e zid) (zone_text (zone_body p ds)) (dp_files c) else dp_files c),
        dp_rpzs := dp_rpzs c @ (if zone then [rpz_clause zid (zone_path e zid) (rpz_action (o_dns_block_mode (pd_options d))) (p_name p)] else []),
        dp_tags := dp_tags c @ (if zone then [''fs-'' @ zid] else []),
        dp_views := dp_views c @ (if view then [view_clause p (''flowsight-'' @ zid)] else []),
        dp_acls := dp_acls c @ (if zone then map (\<lambda>m. ''    access-control-tag: '' @ m @ '' \"fs-'' @ zid @ ''\"'') ms else []) @
          (if view then map (\<lambda>m. ''    access-control-view: '' @ m @ '' flowsight-'' @ zid) ms else []),
        dp_compiled := dp_compiled c @ [\<lparr>cp_name = p_name p,
          cp_members = map snd (List.map_filter parse_cidr ms), cp_domains = ds\<rparr>]\<rparr>)"

fun dns_loop :: "policy_doc \<Rightarrow> dns_env \<Rightarrow> policy list \<Rightarrow> dns_parts \<Rightarrow> dns_error + dns_parts" where
  "dns_loop d e [] c = Inr c"
| "dns_loop d e (p # ps) c =
     (if \<not> wants_dns d e p then dns_loop d e ps c
      else let ms = dns_members d e p in
        if ms = [] then Inl (NoAddresses (p_name p))
        else case denied d e p of
          Inl err \<Rightarrow> Inl err
        | Inr ds \<Rightarrow> dns_loop d e ps (add_policy d e p ms ds c))"

section \<open>The whole document\<close>

definition dns_header :: string where
  "dns_header = ''# Generated by flowsight-policy. Do not edit: the policy document is the source of truth.\<newline>''"

definition dns_conf :: "dns_env \<Rightarrow> dns_parts \<Rightarrow> string" where
  "dns_conf e c =
     dns_header @
     (if dp_tags c \<noteq> [] \<or> dp_acls c \<noteq> [] then
        ''server:\<newline>'' @
        (if dp_rpzs c \<noteq> [] then ''    module-config: \"'' @ de_moduleConfig e @ ''\"\<newline>'' else []) @
        (if dp_tags c \<noteq> [] then ''    define-tag: \"'' @ join_with '' '' (sort (dp_tags c)) @ ''\"\<newline>'' else []) @
        concat (map (\<lambda>a. a @ ''\<newline>'') (sort (dp_acls c))) @ ''\<newline>''
      else []) @
     concat (map (\<lambda>r. r @ ''\<newline>'') (dp_rpzs c)) @ concat (map (\<lambda>v. v @ ''\<newline>'') (dp_views c))"

record dns_artifact =
  da_files :: "(string, string) gomap"
  da_zones :: nat
  da_views :: nat

definition no_parts :: dns_parts where
  "no_parts = \<lparr>dp_files = [], dp_tags = [], dp_acls = [], dp_rpzs = [], dp_views = [], dp_compiled = []\<rparr>"

text \<open>The artifact, with the numbers its note gives, and what the module keeps for attribution.\<close>

definition CompileDNS :: "policy_doc \<Rightarrow> dns_env \<Rightarrow> dns_error + dns_artifact \<times> compiled_policy list" where
  "CompileDNS d e =
     (case dns_loop d e (pd_policies d) no_parts of
        Inl err \<Rightarrow> Inl err
      | Inr c \<Rightarrow>
          let text = (if dp_rpzs c \<noteq> [] \<or> dp_views c \<noteq> [] then dns_conf e c else [])
          in Inr (\<lparr>da_files = mput (de_dir e @ ''/flowsight-policy.conf'') text (dp_files c),
                   da_zones = length (dp_rpzs c), da_views = length (dp_views c)\<rparr>, dp_compiled c))"

text \<open>The module list of the resolver's own configuration, unless it cannot be read, with one more.\<close>

definition str_trim :: "char \<Rightarrow> string \<Rightarrow> string" where
  "str_trim c s = trim_right c (dropWhile (\<lambda>x. x = c) s)"

fun blank_fields :: "string \<Rightarrow> string \<Rightarrow> string list" where
  "blank_fields cur [] = (if cur = [] then [] else [rev cur])"
| "blank_fields cur (c # s) =
     (if is_space c then (if cur = [] then blank_fields [] s else rev cur # blank_fields [] s)
      else blank_fields (c # cur) s)"

definition module_base :: "string option \<Rightarrow> string" where
  "module_base conf =
     (case conf of
        None \<Rightarrow> ''validator iterator''
      | Some text \<Rightarrow> fold (\<lambda>line base. let t = trim_space line in
            if has_prefix t ''module-config:'' then str_trim (CHR ''\"'') (trim_space (trim_prefix t ''module-config:'')) else base)
          (split_on (CHR ''\<newline>'') text) ''validator iterator'')"

definition moduleConfig :: "string option \<Rightarrow> string" where
  "moduleConfig conf =
     (let mods = blank_fields [] (module_base conf) in
      if ''respip'' \<in> set mods then join_with '' '' mods
      else join_with '' '' (concat (map (\<lambda>m. if m = ''iterator'' then [''respip'', m] else [m]) mods)))"

section \<open>Attribution\<close>

text \<open>A name and what is above it.\<close>

function ancestors :: "string \<Rightarrow> string list" where
  "ancestors d =
     (if d = [] then []
      else d # (case str_index d ''.'' of None \<Rightarrow> [] | Some i \<Rightarrow> ancestors (drop (Suc i) d)))"
  by pat_completeness auto
termination
  by (relation "measure length") auto

definition policyFor :: "compiled_policy list \<Rightarrow> string \<Rightarrow> string \<Rightarrow> string" where
  "policyFor pol client domain =
     (case parse_ip client of
        None \<Rightarrow> []
      | Some ip \<Rightarrow>
          (case find (\<lambda>p. list_ex (\<lambda>n. net_contains n ip) (cp_members p) \<and> list_ex (\<lambda>a. a \<in> set (cp_domains p)) (ancestors domain)) pol of
             Some p \<Rightarrow> cp_name p
           | None \<Rightarrow> []))"

section \<open>What the order of a category's domains does not change\<close>

definition same_names :: "dns_env \<Rightarrow> dns_env \<Rightarrow> bool" where
  "same_names e f \<longleftrightarrow> f = e\<lparr>de_categories := de_categories f\<rparr> \<and>
     (case (de_categories e, de_categories f) of
        (None, None) \<Rightarrow> True
      | (Some a, Some b) \<Rightarrow> \<forall>c. (case (a c, b c) of (Inl x, Inl y) \<Rightarrow> x = y | (Inr xs, Inr ys) \<Rightarrow> set xs = set ys | _ \<Rightarrow> False)
      | _ \<Rightarrow> False)"

lemma same_names_env:
  assumes "same_names e f"
  shows "de_resolver f = de_resolver e" "de_max f = de_max e" "de_now f = de_now e" "de_dir f = de_dir e"
    "de_zoneDir f = de_zoneDir e" "de_moduleConfig f = de_moduleConfig e"
proof -
  have "f = e\<lparr>de_categories := de_categories f\<rparr>" using assms by (simp add: same_names_def)
  then obtain g where "f = e\<lparr>de_categories := g\<rparr>" by blast
  then show "de_resolver f = de_resolver e" "de_max f = de_max e" "de_now f = de_now e" "de_dir f = de_dir e"
    "de_zoneDir f = de_zoneDir e" "de_moduleConfig f = de_moduleConfig e" by simp_all
qed

definition same_result :: "'e + 'a list \<Rightarrow> 'e + 'a list \<Rightarrow> bool" where
  "same_result a b \<longleftrightarrow> (case (a, b) of (Inl x, Inl y) \<Rightarrow> x = y | (Inr xs, Inr ys) \<Rightarrow> set xs = set ys | _ \<Rightarrow> False)"

lemma same_categories:
  assumes "same_names e f"
  shows "same_result (category_domains e n cs) (category_domains f n cs)"
proof (induction cs)
  case (Cons c cs)
  show ?case
  proof (cases "de_categories e")
    case None
    with assms have "de_categories f = None" by (auto simp: same_names_def split: option.splits)
    with None show ?thesis by (simp add: same_result_def)
  next
    case (Some a)
    with assms obtain b where b: "de_categories f = Some b" by (auto simp: same_names_def split: option.splits)
    with Some assms have "case (a c, b c) of (Inl x, Inl y) \<Rightarrow> x = y | (Inr xs, Inr ys) \<Rightarrow> set xs = set ys | _ \<Rightarrow> False"
      by (simp add: same_names_def)
    with Cons Some b show ?thesis by (auto simp: same_result_def split: sum.splits)
  qed
qed (simp add: same_result_def)

lemma sort_remdups_cong: "set xs = set ys \<Longrightarrow> sort (remdups xs) = sort (remdups ys)"
  by (intro sorted_distinct_set_unique) simp_all

lemma same_denied:
  assumes "same_names e f"
  shows "denied d e p = denied d f p"
proof -
  let ?F = "\<lambda>cs. sort (remdups (filter (\<lambda>x. x \<notin> set (x_domains (pd_exclusions d)) \<and> x \<notin> set (a_domains (p_allow p)))
                (d_domains (p_deny p) @ cs)))"
  have F: "set xs = set ys \<Longrightarrow> ?F xs = ?F ys" for xs ys by (intro sort_remdups_cong) simp
  note c = same_categories [OF assms, of "p_name p" "d_categories (p_deny p)"] and m = same_names_env(2) [OF assms]
  show ?thesis
  proof (cases "category_domains e (p_name p) (d_categories (p_deny p))")
    case (Inl x)
    with c show ?thesis by (auto simp: denied_def same_result_def split: sum.splits)
  next
    case (Inr xs)
    with c obtain ys where "category_domains f (p_name p) (d_categories (p_deny p)) = Inr ys" "set xs = set ys"
      by (auto simp: same_result_def split: sum.splits)
    with Inr show ?thesis using F [of xs ys] m by (simp add: denied_def Let_def)
  qed
qed

lemma same_loop:
  assumes "same_names e f"
  shows "dns_loop d e ps c = dns_loop d f ps c"
proof (induction ps arbitrary: c)
  case (Cons p ps)
  note s = same_names_env [OF assms]
  have "wants_dns d e p = wants_dns d f p" "dns_members d e p = dns_members d f p" by (simp_all add: wants_dns_def dns_members_def s)
  moreover have z: "zone_path f zid = zone_path e zid" for zid by (simp add: zone_path_def s)
  have "add_policy d e p ms ds c = add_policy d f p ms ds c" for ms ds by (simp only: add_policy_def z)
  ultimately show ?case using Cons same_denied [OF assms] by (simp add: Let_def split: sum.split)
qed simp

text \<open>
  C25: The compiled zones, their serial numbers and the include are the same whatever order, and how
  often, the categories list their domains: what has not changed is not loaded again.
\<close>

theorem compile_order_free:
  assumes "same_names e f"
  shows "CompileDNS d e = CompileDNS d f"
  unfolding CompileDNS_def dns_conf_def same_loop [OF assms] same_names_env [OF assms] ..

definition ads_first :: dns_env where
  "ads_first = \<lparr>de_resolver = None, de_categories = Some (\<lambda>_. Inr [''ads.example.com'', ''evil.org'']), de_max = 1500000,
     de_now = \<lparr>ck_weekday = 1, ck_hour = 9, ck_minute = 0\<rparr>, de_dir = ''/etc/unbound'', de_zoneDir = ''/var/zones'',
     de_moduleConfig = ''respip iterator''\<rparr>"

definition evil_first :: dns_env where
  "evil_first = ads_first\<lparr>de_categories := Some (\<lambda>_. Inr [''evil.org'', ''ads.example.com'', ''evil.org''])\<rparr>"

theorem compile_order_free_witness:
  "CompileDNS sample_doc ads_first = CompileDNS sample_doc evil_first"
  by (rule compile_order_free) (auto simp: same_names_def ads_first_def evil_first_def)

section \<open>What a zone holds\<close>

definition kids_policy :: policy where
  "kids_policy = \<lparr>p_name = ''kids'', p_description = [], p_enabled = True, p_action = ''block'',
     p_match = \<lparr>m_all = True, m_groups = [], m_members = [], m_even_excluded = False\<rparr>, p_schedule = [],
     p_deny = \<lparr>d_apps = [], d_app_categories = [], d_categories = [], d_domains = [''ads.example.com'', ''evil.org''], d_tlds = [''zip''],
       d_countries = [], d_countries_except = [], d_ports = [], d_internet = False\<rparr>,
     p_allow = \<lparr>a_apps = [], a_domains = [''example.com'']\<rparr>, p_tls = \<lparr>t_inspect = False, t_bypass = []\<rparr>, p_safe_search = False, p_youtube = []\<rparr>"

definition kids_domains :: "string list" where
  "kids_domains = [''ads.example.com'', ''evil.org'']"

text \<open>
  An allowed domain has a rule that lets it through, in a zone whose clause overrides the action of every
  rule; and what is denied below an allowed domain keeps its refusal.
\<close>

lemma allowed_under_override:
  "(''example.com'', True) \<in> set (zone_rules kids_policy kids_domains) \<and> rpz_action [] = ''nxdomain''"
  by code_simp

lemma allowed_parent_keeps_child:
  "(''*.example.com'', True) \<in> set (zone_rules kids_policy kids_domains) \<and>
   (''ads.example.com'', False) \<in> set (zone_rules kids_policy kids_domains)"
  by code_simp

text \<open>What is refused by its top-level domain is put down to no policy.\<close>

lemma attribution_gaps:
  "policyFor [\<lparr>cp_name = ''kids'', cp_members = [snd (the (parse_cidr ''0.0.0.0/0''))], cp_domains = kids_domains\<rparr>] ''10.0.0.5'' ''a.zip'' = [] \<and>
   (''*.zip'', False) \<in> set (zone_rules kids_policy kids_domains)"
  by code_simp

lemma slug_joins: "slug ''kids tv'' = slug ''kids.tv''"
  by code_simp

end
