(* ===== verification/DnsApply.thy ===== *)
theory DnsApply
  imports DnsPolicy
begin

text \<open>
  \<^verbatim>\<open>internal/modules/dns/provider.go\<close>: putting the compiled files in place. A path is its
  directory and name, a file system a map from paths to texts; each write replaces a whole file, as the
  renaming does, or fails. The checker, the state of the resolver and its control are arguments. The
  result says what a failed attempt leaves behind.
\<close>

section \<open>The files\<close>

type_synonym path = "string \<times> string"
type_synonym fs = "(path, string) gomap"

record place =
  pl_dir :: string
  pl_persist :: string
  pl_zone :: string

fun uniq_go :: "string list \<Rightarrow> string list \<Rightarrow> string list" where
  "uniq_go seen [] = []"
| "uniq_go seen (d # ds) = (if d \<noteq> [] \<and> d \<notin> set seen then d # uniq_go (d # seen) ds else uniq_go seen ds)"

definition uniq :: "string list \<Rightarrow> string list" where
  "uniq ds = uniq_go [] ds"

definition conf_name :: string where
  "conf_name = ''flowsight-policy.conf''"

definition own_name :: "string \<Rightarrow> bool" where
  "own_name n \<longleftrightarrow> has_prefix n ''flowsight-'' \<and> (has_suffix n ''.rpz'' \<or> n = conf_name)"

text \<open>The files in place now: those of the two directories that are ours, and an include that is empty when there is none.\<close>

definition CurrentDNS :: "place \<Rightarrow> fs \<Rightarrow> fs" where
  "CurrentDNS pl f =
     (let files = filter (\<lambda>((dr, n), _). dr \<in> set (uniq [pl_dir pl, pl_zone pl]) \<and> own_name n) f
      in if mget files (pl_dir pl, conf_name) = None then mput (pl_dir pl, conf_name) [] files else files)"

section \<open>Writing\<close>

definition inc_dirs :: "place \<Rightarrow> string list" where
  "inc_dirs pl = pl_dir pl # (if pl_persist pl \<noteq> [] then [pl_persist pl] else [])"

definition copies :: "place \<Rightarrow> path \<Rightarrow> path list" where
  "copies pl p = (if fst p \<noteq> pl_dir pl then [p] else map (\<lambda>dr. (dr, snd p)) (inc_dirs pl))"

definition empty_text :: "string \<Rightarrow> bool" where
  "empty_text t \<longleftrightarrow> trim_space t = [] \<or> trim_space t = trim_space dns_header"

text \<open>The first argument holds the paths that cannot be written. A file without text is removed.\<close>

fun write_copies :: "(path \<Rightarrow> bool) \<Rightarrow> string \<Rightarrow> path list \<Rightarrow> fs \<Rightarrow> bool \<times> fs" where
  "write_copies bad t [] f = (True, f)"
| "write_copies bad t (p # ps) f =
     (if empty_text t then write_copies bad t ps (mdel p f)
      else if bad p then (False, f)
      else write_copies bad t ps (mput p t f))"

fun write_files :: "place \<Rightarrow> (path \<Rightarrow> bool) \<Rightarrow> fs \<Rightarrow> fs \<Rightarrow> bool \<times> fs" where
  "write_files pl bad [] f = (True, f)"
| "write_files pl bad ((p, t) # fs) f =
     (case write_copies bad t (copies pl p) f of
        (False, g) \<Rightarrow> (False, g)
      | (True, g) \<Rightarrow> write_files pl bad fs g)"

text \<open>The file a name of a directory is kept for.\<close>

definition kept_for :: "place \<Rightarrow> path \<Rightarrow> path" where
  "kept_for pl p = (if fst p \<noteq> pl_zone pl \<or> has_suffix (snd p) ''.conf'' then (pl_dir pl, snd p) else p)"

definition stale :: "place \<Rightarrow> fs \<Rightarrow> path \<Rightarrow> bool" where
  "stale pl files p \<longleftrightarrow>
     fst p \<in> set (uniq (inc_dirs pl @ [pl_zone pl])) \<and> has_prefix (snd p) ''flowsight-'' \<and>
     snd p \<noteq> ''flowsight-logging.conf'' \<and> snd p \<noteq> ''flowsight-names.conf'' \<and>
     (case mget files (kept_for pl p) of None \<Rightarrow> True | Some t \<Rightarrow> trim_space t = [])"

definition write_all :: "place \<Rightarrow> (path \<Rightarrow> bool) \<Rightarrow> fs \<Rightarrow> fs \<Rightarrow> bool \<times> fs" where
  "write_all pl bad files f =
     (case write_files pl bad files f of
        (False, g) \<Rightarrow> (False, g)
      | (True, g) \<Rightarrow> (True, filter (\<lambda>(p, _). \<not> stale pl files p) g))"

section \<open>Applying\<close>

datatype outcome =
    WriteFailed
  | Rejected string
  | NotRunning
  | ServiceFailed string string
  | Done string

text \<open>
  The checker on the files in place and the service control answer with an error or not. The paths that
  cannot be written are given for the attempt and for putting the old files back. Returned are the
  outcome, the files and the actions asked of the service.
\<close>

definition ApplyDNS ::
    "place \<Rightarrow> (path \<Rightarrow> bool) \<Rightarrow> (path \<Rightarrow> bool) \<Rightarrow> (fs \<Rightarrow> string option) \<Rightarrow> bool \<Rightarrow> bool \<Rightarrow> (string \<Rightarrow> string option) \<Rightarrow> fs \<Rightarrow> fs \<Rightarrow> outcome \<times> fs \<times> string list" where
  "ApplyDNS pl bad bad2 check running enabled service files f =
     (let backup = CurrentDNS pl f in
      case write_all pl bad files f of
        (False, g) \<Rightarrow> (WriteFailed, snd (write_all pl bad2 backup g), [])
      | (True, g) \<Rightarrow>
          (case check g of
             Some err \<Rightarrow> (Rejected err, snd (write_all pl bad2 backup g), [])
           | None \<Rightarrow>
               if \<not> running \<and> \<not> enabled then (NotRunning, g, [])
               else
                 let action = (if running then ''reload'' else ''start'') in
                 case service action of
                   Some err \<Rightarrow> (ServiceFailed action err, snd (write_all pl bad2 backup g), [action, action])
                 | None \<Rightarrow> (Done action, g, [action])))"

section \<open>What writing leaves\<close>

lemma mget_filter: "mget (filter (\<lambda>(k, _). P k) m) k = (if P k then mget m k else None)"
  by (induction m) (auto simp: mget_Cons)

lemma write_copies_ok:
  assumes "write_copies bad t ps f = (True, g)"
  shows "mget g k = (if k \<in> set ps then if empty_text t then None else Some t else mget f k)"
  using assms by (induction ps arbitrary: f) (auto split: if_splits)

lemma write_copies_good: "\<forall>p. \<not> bad p \<Longrightarrow> fst (write_copies bad t ps f)"
  by (induction ps arbitrary: f) auto

lemma write_files_good:
  assumes "\<forall>p. \<not> bad p"
  shows "fst (write_files pl bad files f)"
proof (induction files arbitrary: f)
  case (Cons pt files)
  obtain p t where pt: "pt = (p, t)" by (cases pt)
  define g where "g = snd (write_copies bad t (copies pl p) f)"
  have "write_copies bad t (copies pl p) f = (True, g)"
    using write_copies_good [OF assms] by (simp add: g_def prod_eq_iff)
  then show ?case by (simp add: pt Cons.IH)
qed simp

text \<open>The directories the files are kept in: those of the include, with its lasting copy, and of the zones.\<close>

definition place_ok :: "place \<Rightarrow> bool" where
  "place_ok pl \<longleftrightarrow> pl_dir pl \<noteq> [] \<and> pl_zone pl \<noteq> [] \<and> pl_persist pl \<noteq> pl_dir pl \<and> pl_persist pl \<noteq> pl_zone pl"

definition live :: "place \<Rightarrow> path \<Rightarrow> bool" where
  "live pl p \<longleftrightarrow> fst p = pl_dir pl \<or> fst p = pl_zone pl"

definition live_keys :: "place \<Rightarrow> fs \<Rightarrow> bool" where
  "live_keys pl files \<longleftrightarrow> (\<forall>p \<in> mkeys files. live pl p)"

text \<open>The file a path is written for: itself, or the one it is the lasting copy of.\<close>

definition stands_for :: "place \<Rightarrow> path \<Rightarrow> path" where
  "stands_for pl k = (if live pl k then k else (pl_dir pl, snd k))"

definition kept :: "place \<Rightarrow> path \<Rightarrow> bool" where
  "kept pl k \<longleftrightarrow> live pl k \<or> pl_persist pl \<noteq> [] \<and> fst k = pl_persist pl"

lemma copies_of:
  assumes "place_ok pl" and "live pl p" and "kept pl k"
  shows "k \<in> set (copies pl p) \<longleftrightarrow> stands_for pl k = p"
  using assms
  by (cases p; cases k) (auto simp: copies_def inc_dirs_def live_def kept_def place_ok_def stands_for_def)

lemma mkeys_Cons: "mkeys ((k, v) # m) = insert k (mkeys m)"
  by (simp add: mkeys_def)

lemma write_files_ok:
  assumes "place_ok pl" and "kept pl k"
  shows "live_keys pl files \<Longrightarrow> mkeys_ok files \<Longrightarrow> write_files pl bad files f = (True, g) \<Longrightarrow>
     mget g k =
       (case mget files (stands_for pl k) of Some t \<Rightarrow> if empty_text t then None else Some t | None \<Rightarrow> mget f k)"
proof (induction files arbitrary: f)
  case (Cons pt files)
  obtain p t where pt: "pt = (p, t)" by (cases pt)
  have keys: "live pl p" "live_keys pl files" "mkeys_ok files" "p \<notin> mkeys files"
    using Cons.prems by (auto simp: pt live_keys_def mkeys_Cons mkeys_ok_def mkeys_def)
  from Cons.prems(3) obtain h where h: "write_copies bad t (copies pl p) f = (True, h)" "write_files pl bad files h = (True, g)"
    by (auto simp: pt split: prod.splits bool.splits)
  have "mget files p = None" using keys(4) by (simp add: mget_None_iff)
  with Cons.IH [OF keys(2,3) h(2)] write_copies_ok [OF h(1), of k] copies_of [OF assms(1) keys(1) assms(2)]
  show ?case by (auto simp: pt mget_Cons split: option.splits)
qed simp

text \<open>A file that is ours: a zone, the include, or the lasting copy of one in the include directory.\<close>

definition ours :: "place \<Rightarrow> path \<Rightarrow> bool" where
  "ours pl k \<longleftrightarrow> kept pl k \<and> has_prefix (snd k) ''flowsight-'' \<and>
     (has_suffix (snd k) ''.rpz'' \<or> snd k = conf_name \<and> (fst k = pl_zone pl \<longrightarrow> fst k = pl_dir pl))"

definition wanted :: "fs \<Rightarrow> path \<Rightarrow> string option" where
  "wanted files k = (case mget files k of Some t \<Rightarrow> if empty_text t then None else Some t | None \<Rightarrow> None)"

lemma in_uniq: "d \<in> set (uniq ds) \<longleftrightarrow> d \<noteq> [] \<and> d \<in> set ds"
proof -
  have "d \<in> set (uniq_go seen ds) \<longleftrightarrow> d \<noteq> [] \<and> d \<in> set ds \<and> d \<notin> set seen" for seen
    by (induction ds arbitrary: seen) auto
  then show ?thesis by (simp add: uniq_def)
qed

lemma suffix_end:
  assumes "has_suffix n s" and "s \<noteq> []"
  shows "n \<noteq> [] \<and> last n = last s"
proof -
  have "rev n = rev s @ drop (length s) (rev n)"
    using assms(1) unfolding has_suffix_def has_prefix_def by (metis append_take_drop_id length_rev)
  then have "n = rev (drop (length s) (rev n)) @ s" by (metis rev_append rev_rev_ident)
  then obtain u where "n = u @ s" by blast
  with assms(2) show ?thesis by simp
qed

lemma rpz_not_conf:
  assumes "has_suffix n ''.rpz''"
  shows "\<not> has_suffix n ''.conf''"
proof
  assume "has_suffix n ''.conf''"
  from suffix_end [OF this] have "last n = CHR ''f''" by simp
  moreover from suffix_end [OF assms] have "last n = CHR ''z''" by simp
  ultimately show False by simp
qed

lemma ours_kept:
  assumes "place_ok pl" and "ours pl k"
  shows "kept_for pl k = stands_for pl k" "fst k \<in> set (uniq (inc_dirs pl @ [pl_zone pl]))"
    "snd k \<noteq> ''flowsight-logging.conf''" "snd k \<noteq> ''flowsight-names.conf''"
proof -
  have d: "fst k = pl_dir pl \<or> fst k = pl_zone pl \<or> pl_persist pl \<noteq> [] \<and> fst k = pl_persist pl"
    using assms(2) unfolding ours_def kept_def live_def by blast
  have n: "has_suffix (snd k) ''.rpz'' \<or> snd k = conf_name \<and> (fst k = pl_zone pl \<longrightarrow> fst k = pl_dir pl)"
    using assms(2) unfolding ours_def by blast
  show "kept_for pl k = stands_for pl k"
  proof (cases "fst k = pl_dir pl")
    case True
    then show ?thesis by (cases k) (simp add: kept_for_def stands_for_def live_def)
  next
    case False
    show ?thesis
    proof (cases "fst k = pl_zone pl")
      case True
      with n False have "\<not> has_suffix (snd k) ''.conf''" using rpz_not_conf by metis
      with True show ?thesis by (simp add: kept_for_def stands_for_def live_def)
    qed (use False in \<open>simp add: kept_for_def stands_for_def live_def\<close>)
  qed
  show "fst k \<in> set (uniq (inc_dirs pl @ [pl_zone pl]))" using d assms(1) by (auto simp: in_uniq inc_dirs_def place_ok_def)
  have c: "has_suffix ''flowsight-logging.conf'' ''.conf''" "has_suffix ''flowsight-names.conf'' ''.conf''"
    "conf_name \<noteq> ''flowsight-logging.conf''" "conf_name \<noteq> ''flowsight-names.conf''" by code_simp+
  show "snd k \<noteq> ''flowsight-logging.conf''" using n c(1,3) rpz_not_conf by metis
  show "snd k \<noteq> ''flowsight-names.conf''" using n c(2,4) rpz_not_conf by metis
qed

lemma write_all_good: "\<forall>p. \<not> bad p \<Longrightarrow> fst (write_all pl bad files f)"
  using write_files_good [of bad pl files f] by (cases "write_files pl bad files f") (simp add: write_all_def)

lemma write_all_exact:
  assumes "place_ok pl" and "ours pl k" and "live_keys pl files" and "mkeys_ok files"
    and "write_all pl bad files f = (True, h)"
  shows "mget h k = wanted files (stands_for pl k)"
proof -
  have lv: "kept pl k" "has_prefix (snd k) ''flowsight-''" using assms(2) unfolding ours_def by blast+
  from assms(5) obtain g where g: "write_files pl bad files f = (True, g)" "h = filter (\<lambda>(p, _). \<not> stale pl files p) g"
    by (auto simp: write_all_def split: prod.splits bool.splits)
  note w = write_files_ok [OF assms(1) lv(1) assms(3,4) g(1)]
  have st: "stale pl files k \<longleftrightarrow> (case mget files (stands_for pl k) of None \<Rightarrow> True | Some t \<Rightarrow> trim_space t = [])"
    unfolding stale_def using ours_kept [OF assms(1,2)] lv(2) by simp
  have "mget h k = (if stale pl files k then None else mget g k)"
    using mget_filter [of "\<lambda>p. \<not> stale pl files p" g k] by (simp add: g(2))
  moreover have "(if stale pl files k then None else mget g k) = wanted files (stands_for pl k)"
    using w st unfolding wanted_def empty_text_def by (cases "mget files (stands_for pl k)") simp_all
  ultimately show ?thesis by simp
qed

lemma ours_live:
  assumes "place_ok pl" and "ours pl k"
  shows "live pl (stands_for pl k)" "ours pl (stands_for pl k)"
  using assms by (auto simp: ours_def kept_def stands_for_def live_def place_ok_def)

lemma CurrentDNS_ok:
  assumes "place_ok pl" and "mkeys_ok f"
  shows "live_keys pl (CurrentDNS pl f)" "mkeys_ok (CurrentDNS pl f)" "ours pl k \<Longrightarrow> live pl k \<Longrightarrow> wanted (CurrentDNS pl f) k = wanted f k"
proof -
  let ?P = "\<lambda>(dr, n). dr \<in> set (uniq [pl_dir pl, pl_zone pl]) \<and> own_name n"
  define files where "files = filter (\<lambda>(p, _). ?P p) f"
  have c: "CurrentDNS pl f = (if mget files (pl_dir pl, conf_name) = None then mput (pl_dir pl, conf_name) [] files else files)"
    by (simp add: CurrentDNS_def files_def case_prod_beta' Let_def)
  have k: "mget files q = (if ?P q then mget f q else None)" for q unfolding files_def by (rule mget_filter)
  have l: "?P q \<Longrightarrow> live pl q" for q by (auto simp: in_uniq live_def)
  have "live_keys pl files" unfolding live_keys_def using k l by (metis mkeys_iff option.distinct(1))
  then show "live_keys pl (CurrentDNS pl f)" by (auto simp: c live_keys_def live_def)
  have "mkeys_ok files" using assms(2) unfolding files_def mkeys_ok_def by (simp add: distinct_map_filter)
  then show "mkeys_ok (CurrentDNS pl f)" by (simp add: c)
  assume o: "ours pl k" "live pl k"
  then have "?P k" using assms(1) by (auto simp: ours_def live_def in_uniq place_ok_def own_name_def)
  then have f: "mget files k = mget f k" using k by simp
  have "wanted (mput (pl_dir pl, conf_name) [] files) k = wanted files k" if "mget files (pl_dir pl, conf_name) = None"
    using that by (auto simp: wanted_def empty_text_def trim_space_def)
  moreover have "wanted files k = wanted f k" using f by (simp add: wanted_def)
  ultimately show "wanted (CurrentDNS pl f) k = wanted f k" by (auto simp: c)
qed

text \<open>
  C9: applying is all or nothing on our files: the zones and the include in their two directories, with
  the lasting copies of the include directory. An attempt that is accepted leaves exactly the compiled
  files there, and one that fails, at any write, in the checker or in the service, leaves exactly the
  files of the two directories as they were, with the lasting copies following them, as long as
  putting them back succeeds.
\<close>

theorem apply_all_or_nothing:
  assumes "\<forall>p. \<not> bad2 p" and "place_ok pl" and "mkeys_ok f" and "mkeys_ok files" and "live_keys pl files" and "ours pl k"
    and "ApplyDNS pl bad bad2 check running enabled service files f = (r, f', acts)"
  shows "mget f' k = (case r of
      Done _ \<Rightarrow> wanted files (stands_for pl k)
    | NotRunning \<Rightarrow> wanted files (stands_for pl k)
    | _ \<Rightarrow> wanted f (stands_for pl k))"
proof -
  note c = CurrentDNS_ok [OF assms(2,3)] and l = ours_live [OF assms(2,6)]
  have restored: "mget (snd (write_all pl bad2 (CurrentDNS pl f) g)) k = wanted f (stands_for pl k)" for g
  proof -
    obtain h where "write_all pl bad2 (CurrentDNS pl f) g = (True, h)"
      using write_all_good [OF assms(1), of pl "CurrentDNS pl f" g] by (metis prod.collapse)
    from write_all_exact [OF assms(2,6) c(1,2) this] c(3) [OF l(2,1)] this show ?thesis by simp
  qed
  show ?thesis
  proof (cases "write_all pl bad files f")
    case (Pair ok g)
    show ?thesis
    proof (cases ok)
      case True
      with Pair have w: "write_all pl bad files f = (True, g)" by simp
      have "mget g k = wanted files (stands_for pl k)" by (rule write_all_exact [OF assms(2,6,5,4) w])
      with w restored [of g] assms(7) show ?thesis
        by (auto simp: ApplyDNS_def Let_def split: option.splits if_splits)
    qed (use Pair restored [of g] assms(7) in \<open>auto simp: ApplyDNS_def Let_def\<close>)
  qed
qed

definition home_place :: place where
  "home_place = \<lparr>pl_dir = ''/var/unbound/etc'', pl_persist = ''/usr/local/etc/unbound'', pl_zone = ''/var/zones''\<rparr>"

definition old_files :: fs where
  "old_files = [((''/var/unbound/etc'', conf_name), ''rpz: old''), ((''/var/zones'', ''flowsight-kids.rpz''), ''evil.org CNAME .'')]"

definition new_files :: fs where
  "new_files = [((''/var/zones'', ''flowsight-guests.rpz''), ''ads.org CNAME .''), ((''/var/unbound/etc'', conf_name), ''rpz: new'')]"

text \<open>The include cannot be written, after the new zone has been.\<close>

theorem apply_all_or_nothing_witness:
  "mget (fst (snd (ApplyDNS home_place (\<lambda>p. snd p = conf_name) (\<lambda>_. False) (\<lambda>_. None) True True (\<lambda>_. None) new_files old_files)))
     (''/var/zones'', ''flowsight-kids.rpz'') = Some ''evil.org CNAME .'' \<and>
   mget (fst (snd (ApplyDNS home_place (\<lambda>p. snd p = conf_name) (\<lambda>_. False) (\<lambda>_. None) True True (\<lambda>_. None) new_files old_files)))
     (''/var/zones'', ''flowsight-guests.rpz'') = None"
proof -
  let ?A = "ApplyDNS home_place (\<lambda>p. snd p = conf_name) (\<lambda>_. False) (\<lambda>_. None) True True (\<lambda>_. None) new_files old_files"
  define f' where "f' = fst (snd ?A)"
  have r: "fst ?A = WriteFailed" by code_simp
  then have a: "?A = (WriteFailed, f', snd (snd ?A))" by (simp add: prod_eq_iff f'_def)
  have w: "wanted old_files (''/var/zones'', ''flowsight-kids.rpz'') = Some ''evil.org CNAME .''"
    "wanted old_files (''/var/zones'', ''flowsight-guests.rpz'') = None" by code_simp+
  have o: "place_ok home_place" "mkeys_ok old_files" "mkeys_ok new_files" "ours home_place (''/var/zones'', ''flowsight-kids.rpz'')"
    "ours home_place (''/var/zones'', ''flowsight-guests.rpz'')"
    by (simp_all add: place_ok_def home_place_def mkeys_ok_def old_files_def new_files_def ours_def kept_def live_def
      has_prefix_def has_suffix_def)
  have l: "live_keys home_place new_files" by (simp add: live_keys_def mkeys_def new_files_def live_def home_place_def)
  have s: "stands_for home_place (''/var/zones'', n) = (''/var/zones'', n)" for n
    by (simp add: stands_for_def live_def home_place_def)
  from apply_all_or_nothing [OF _ o(1-3) l o(4) a] apply_all_or_nothing [OF _ o(1-3) l o(5) a] w s
  show ?thesis unfolding f'_def by simp
qed

text \<open>
  The copies that survive a restart are not part of what is put back: when the include has gone from the
  live directory, a rejected attempt removes the copy it was to be restored from.
\<close>

lemma revert_drops_copy:
  "mget (fst (snd (ApplyDNS home_place (\<lambda>_. False) (\<lambda>_. False) (\<lambda>_. Some ''syntax error'') True True (\<lambda>_. None) new_files
     [((''/usr/local/etc/unbound'', conf_name), ''rpz: old'')]))) (''/usr/local/etc/unbound'', conf_name) = None"
  by code_simp

end
