(* ===== verification/Spec2Isabelle.thy ===== *)
theory Spec2Isabelle
  imports Collector Scheduler AccessLimits Alerting RWLock PfPolicy PolicyDiff EnrollZones EnrollLog Tailer PfStateTable FilterLog RuleHygiene DnsApply
begin

text \<open>
  FlowSight is a daemon that watches a network: a core (\<^verbatim>\<open>internal/core\<close>) with a configuration, a
  scheduler, a store and an API, and modules (\<^verbatim>\<open>internal/modules\<close>) that register jobs and routes with it.
  This library models the parts that carry logic of their own, from bytes and text up:

  \<^item> the NetFlow module, which turns datagrams of four protocols into flows;
  \<^item> the license document, the module that keeps it, and the gate other parts ask;
  \<^item> the configuration file, its settings and its survival of crashes;
  \<^item> the scheduler and its workers;
  \<^item> the API: who may call it and what runs for whom;
  \<^item> alerting: delivery, digests, escalation, quiet hours, maintenance.

  They meet in few places. Flows are resolved by the core before they are stored (\<^verbatim>\<open>Flow\<close>). The API's
  request path ends in the license gate and calls handlers of modules; the scheduler asks the same gate
  before a job. The license module and the collector read settings the configuration merged. The digest,
  escalation and saving jobs of alerting are jobs of the scheduler, which contains their panics.

  \<^bold>\<open>Theories.\<close>

  \<^item> \<^verbatim>\<open>Prelude\<close>: bounds-checked reading of byte slices, big-endian words and their encoding, 64-bit integers,
    Go maps as association lists with unique keys; the collections \<^verbatim>\<open>no_panic\<close>, \<^verbatim>\<open>gomap\<close>, \<^verbatim>\<open>i64_simps\<close>.
    \<^verbatim>\<open>GoText\<close>, \<^verbatim>\<open>GoTime\<close>, \<^verbatim>\<open>Base64\<close>, \<^verbatim>\<open>Net\<close>: what the source uses of Go's \<^verbatim>\<open>strings\<close>, \<^verbatim>\<open>strconv\<close>, \<^verbatim>\<open>fmt\<close>,
    \<^verbatim>\<open>time\<close>, \<^verbatim>\<open>encoding/base64\<close> and \<^verbatim>\<open>net\<close>, on ASCII text.
  \<^item> \<^verbatim>\<open>Flow\<close> (\<^verbatim>\<open>store.go\<close>): flows and \<^verbatim>\<open>FillCountries\<close> with its memo, equal to the pointwise lookup.
  \<^item> \<^verbatim>\<open>TemplateCache\<close> (\<^verbatim>\<open>template_cache.go\<close>): map, linked list and element map as the code keeps them, refining an
    abstract least-recently-used list. \<^verbatim>\<open>Exporters\<close> (\<^verbatim>\<open>netflow.go\<close>): senders, their limit and reaping.
  \<^item> \<^verbatim>\<open>NetFlow5\<close>, \<^verbatim>\<open>NetFlow9\<close>, \<^verbatim>\<open>Ipfix\<close>, \<^verbatim>\<open>SFlow5\<close>: one theory per protocol. Each handler is a function from the bytes,
    the exporters and the environment to their next state, \<^const>\<open>None\<close> where the code would panic; the lemmas show
    that it never is, what is stored on each branch, and that what is written in a format is read back.
    \<^verbatim>\<open>Collector\<close>: the sender filter, dispatch, reconfiguration, and the listener goroutine as a step relation.
  \<^item> \<^verbatim>\<open>Licensing\<close> (\<^verbatim>\<open>tiers.go\<close>, \<^verbatim>\<open>doc.go\<close>, \<^verbatim>\<open>core/license.go\<close>): tiers, features, limits, signed documents, keys, refusals.
    \<^verbatim>\<open>LicenseModule\<close> (\<^verbatim>\<open>license.go\<close>): the stored license through set-up, activation, refresh and removal, and the locale
    \<^verbatim>\<open>licensing_service\<close> of the interface \<^verbatim>\<open>core.Licensing\<close>, interpreted on both its providers.
  \<^item> \<^verbatim>\<open>Settings\<close>, \<^verbatim>\<open>Disk\<close>, \<^verbatim>\<open>Config\<close> (\<^verbatim>\<open>config.go\<close>): typed settings and comments; a disk with durable and volatile
    content, on which the locale \<^verbatim>\<open>atomic_replace\<close> is interpreted by \<^verbatim>\<open>writeDurably\<close>; the configuration over it, whose
    crash lemmas rest on that interface.
  \<^item> \<^verbatim>\<open>Scheduler\<close> (\<^verbatim>\<open>module.go\<close>): jobs, claiming, the gate, the end of a run, and the pool as a step relation whose
    invariant ties running jobs to the workers that hold them.
  \<^item> \<^verbatim>\<open>ApiAccess\<close> (\<^verbatim>\<open>api.go\<close>, \<^verbatim>\<open>netsec.go\<close>, \<^verbatim>\<open>feed.go\<close>, \<^verbatim>\<open>core.go\<close>): addresses, tokens, scopes, sessions, routes, the request
    path and the audit record. \<^verbatim>\<open>AccessLimits\<close>: lock-out, scopes of named tokens, feeds, the license gate in front of handlers.
  \<^item> \<^verbatim>\<open>Delivery\<close>, \<^verbatim>\<open>AlertEngine\<close>, \<^verbatim>\<open>Alerting\<close> (\<^verbatim>\<open>modules/alerting\<close>): one delivery and its log; digests, escalation and quiet
    hours; routing through rules, the jobs and the routes. The locale \<^verbatim>\<open>bounded_log\<close> is the contract of a log that keeps
    the last entries of each key, interpreted on the delivery log and on the digest queues.
  \<^item> \<^verbatim>\<open>RWLock\<close>: Go's readers-writer lock as a step relation, and which lock orders of the alert engine and
    the license module can block.

  \<^bold>\<open>Conventions.\<close> Go structs are records, maps are \<^typ>\<open>('k, 'v) gomap\<close> and iterated in list order, so a statement for
  every list is one for every order of iteration. Errors and panics are values. An operation under a mutex is one step.
  Clocks, random bytes, JSON, signatures, the license server, notification channels and the handlers of routes are
  parameters; the few assumptions on them stand in the statements that need them and are met by the witnesses.

  \<^bold>\<open>Bounds and fuel.\<close> Loops over bytes recurse on the position, with the bytes left as measure. The loop that makes room
  for a session has the size of the table as fuel, enough because each turn removes an entry. No other function
  has fuel, and none is partial.

  \<^bold>\<open>Not modelled.\<close> The SQLite store beyond \<^verbatim>\<open>FillCountries\<close>, since its logic is in SQL; the notification channels, device pollers,
  directory and cloud clients, whose work is network I/O; the OpenAPI document, TLS certificates and static files; and the
  remaining modules (policies, firewall, enrolment, identity, reports, paths and others), not reached yet. The manifest
  lists each with its reason.
\<close>

end
